(* ===== verification/Osw_Prelude.thy ===== *)
theory Osw_Prelude
  imports Main "HOL-Library.Word"
begin

unbundle bit_operations_syntax

text \<open>
  Shared material of the development: the machine integer types of the source, the
  collections of rewrite rules the component theories extend, and the generic facts on
  arithmetic, lists and maps that several components use.
\<close>

subsection \<open>Machine integers and addresses\<close>

type_synonym u8 = "8 word"
type_synonym u16 = "16 word"
type_synonym u32 = "32 word"
type_synonym u64 = "64 word"

text \<open>A byte buffer (\<^verbatim>\<open>char *\<close> with a length) is a list of bytes; an address is a number.\<close>

type_synonym bytes = "u8 list"
type_synonym addr = nat

text \<open>Unsigned 32-bit wrap-around for counters kept as natural numbers.\<close>

definition wrap32 :: "nat \<Rightarrow> nat" where
  "wrap32 n = n mod 4294967296"

named_theorems osw_wrap \<open>wrap-around is the identity below the width\<close>

lemma wrap32_id [osw_wrap]: "n < 4294967296 \<Longrightarrow> wrap32 n = n"
  by (simp add: wrap32_def)

text \<open>\<^verbatim>\<open>OSW_MEM_ALIGNED_SIZE_EX(size, alignment)\<close> for an alignment that is a power of two,
  and \<^verbatim>\<open>OSW_MEM_ALIGNED_SIZE\<close>, whose alignment is \<^verbatim>\<open>sizeof(unsigned long)\<close>.\<close>

definition mem_aligned_size_ex :: "nat \<Rightarrow> nat \<Rightarrow> nat" where
  "mem_aligned_size_ex n alignment = (n + (alignment - 1)) div alignment * alignment"

definition mem_aligned_size :: "nat \<Rightarrow> nat" where
  "mem_aligned_size n = mem_aligned_size_ex n 8"

lemma mem_aligned_size_ge: "n \<le> mem_aligned_size n"
  unfolding mem_aligned_size_def mem_aligned_size_ex_def by presburger

lemma mem_aligned_size_dvd: "8 dvd mem_aligned_size n"
  by (simp add: mem_aligned_size_def mem_aligned_size_ex_def)

lemma mem_aligned_size_less: "mem_aligned_size n < n + 8"
  unfolding mem_aligned_size_def mem_aligned_size_ex_def by presburger

subsection \<open>Reallocation of arrays\<close>

text \<open>
  \<^verbatim>\<open>realloc\<close> keeps the cells both arrays have; the cells it adds are not initialised,
  and hold whatever the allocator left there (the function \<open>g\<close>).
\<close>

definition realloc_array :: "(nat \<Rightarrow> 'a) \<Rightarrow> 'a list \<Rightarrow> nat \<Rightarrow> 'a list" where
  "realloc_array g xs n = take n xs @ map g [length xs..<n]"

lemma length_realloc_array [simp]: "length (realloc_array g xs n) = n"
  by (simp add: realloc_array_def)

lemma nth_realloc_array [simp]:
  "i < length xs \<Longrightarrow> i < n \<Longrightarrow> realloc_array g xs n ! i = xs ! i"
  by (simp add: realloc_array_def nth_append)

subsection \<open>Generic facts\<close>

lemma div2_less: "1 < (i::nat) \<Longrightarrow> i div 2 < i"
  by simp

lemma div2_ge1: "1 < (i::nat) \<Longrightarrow> 1 \<le> i div 2"
  by simp

lemma image_remove_inj:
  assumes "inj_on f A" and "i \<in> A"
  shows "f ` (A - {i}) = f ` A - {f i}"
  using inj_on_image_set_diff [OF assms(1), of A "{i}"] assms(2) by auto

lemma fun_upd_None_idle: "m a = None \<Longrightarrow> m(a := None) = m"
  by (simp add: fun_upd_idem)

end
