(* ===== verification/Osw_Heap.thy ===== *)
theory Osw_Heap
  imports Osw_Prelude
begin

text \<open>
  The binary heap of \<^verbatim>\<open>src/core/heap.cc\<close>. The array \<^verbatim>\<open>nodes\<close> holds pointers to
  heap-allocated \<^verbatim>\<open>HeapNode\<close> objects, each of which points back to its slot through
  \<^verbatim>\<open>position\<close>; both directions are modelled, with the objects in an explicit store from
  addresses to nodes, because \<^verbatim>\<open>remove\<close> and \<^verbatim>\<open>change_priority\<close> are correct only while
  the back pointers are. Slot 0 is unused. The address \<^verbatim>\<open>new HeapNode\<close> returns and the
  outcome of \<^verbatim>\<open>realloc\<close> are arguments of \<open>heap_push\<close>.
\<close>

subsection \<open>Data\<close>

datatype heap_type = MIN_HEAP | MAX_HEAP

record 'd heap_node =
  priority :: u64
  position :: nat
  node_data :: 'd

record 'd heap =
  h_num :: nat
  h_size :: nat
  h_type :: heap_type
  h_nodes :: "addr list"
  h_store :: "addr \<rightharpoonup> 'd heap_node"

definition hnode :: "'d heap \<Rightarrow> addr \<Rightarrow> 'd heap_node" where
  "hnode h a = the (h_store h a)"

definition prio_at :: "'d heap \<Rightarrow> nat \<Rightarrow> u64" where
  "prio_at h i = priority (hnode h (h_nodes h ! i))"

subsection \<open>Operations\<close>

text \<open>The constructor: \<open>mem\<close> is the outcome of \<^verbatim>\<open>osw_malloc\<close> (no block, or the contents
  of a fresh one).\<close>

definition heap_new :: "(nat \<Rightarrow> addr) option \<Rightarrow> nat \<Rightarrow> heap_type \<Rightarrow> 'd heap option" where
  "heap_new mem n ty = (case mem of
      None \<Rightarrow> None
    | Some g \<Rightarrow> Some \<lparr>h_num = 1, h_size = wrap32 (n + 1), h_type = ty,
                     h_nodes = map g [0..<n + 1], h_store = Map.empty\<rparr>)"

definition heap_count :: "'d heap \<Rightarrow> nat" where
  "heap_count h = h_num h - 1"

definition heap_compare :: "heap_type \<Rightarrow> u64 \<Rightarrow> u64 \<Rightarrow> bool" where
  "heap_compare ty a b = (case ty of MIN_HEAP \<Rightarrow> a > b | MAX_HEAP \<Rightarrow> a < b)"

definition maxchild :: "'d heap \<Rightarrow> nat \<Rightarrow> nat" where
  "maxchild h i =
     (let child_i = 2 * i in
      if child_i \<ge> h_num h then 0
      else if child_i + 1 < h_num h
           \<and> heap_compare (h_type h) (prio_at h child_i) (prio_at h (child_i + 1))
      then child_i + 1 else child_i)"

text \<open>\<^verbatim>\<open>nodes[i] = p; p->position = i\<close>, the pair of assignments all loops make.\<close>

definition put_node :: "'d heap \<Rightarrow> nat \<Rightarrow> addr \<Rightarrow> 'd heap" where
  "put_node h i a =
     h\<lparr>h_nodes := (h_nodes h)[i := a],
       h_store := (h_store h)(a \<mapsto> (hnode h a)\<lparr>position := i\<rparr>)\<rparr>"

function bubble_up_loop :: "addr \<Rightarrow> nat \<Rightarrow> 'd heap \<Rightarrow> nat \<times> 'd heap" where
  "bubble_up_loop m i h =
     (let parent_i = i div 2 in
      if i > 1 \<and> heap_compare (h_type h) (prio_at h parent_i) (priority (hnode h m))
      then bubble_up_loop m parent_i (put_node h i (h_nodes h ! parent_i))
      else (i, h))"
  by pat_completeness auto
termination
  by (relation "measure (\<lambda>(m, i, h). i)") auto

definition bubble_up :: "nat \<Rightarrow> 'd heap \<Rightarrow> 'd heap" where
  "bubble_up i h =
     (let moving_node = h_nodes h ! i; (i', h') = bubble_up_loop moving_node i h
      in put_node h' i' moving_node)"

lemma maxchild_gt: "maxchild h i \<noteq> 0 \<Longrightarrow> i < maxchild h i \<and> maxchild h i < h_num h"
  by (auto simp: maxchild_def Let_def split: if_splits)

lemma put_node_simps [simp]:
  "h_num (put_node h i a) = h_num h"
  "h_size (put_node h i a) = h_size h"
  "h_type (put_node h i a) = h_type h"
  "h_nodes (put_node h i a) = (h_nodes h)[i := a]"
  by (simp_all add: put_node_def)

function percolate_down_loop :: "addr \<Rightarrow> nat \<Rightarrow> 'd heap \<Rightarrow> nat \<times> 'd heap" where
  "percolate_down_loop m i h =
     (let child_i = maxchild h i in
      if child_i \<noteq> 0 \<and> heap_compare (h_type h) (priority (hnode h m)) (prio_at h child_i)
      then percolate_down_loop m child_i (put_node h i (h_nodes h ! child_i))
      else (i, h))"
  by pat_completeness auto
termination
  by (relation "measure (\<lambda>(m, i, h). h_num h - i)") (use maxchild_gt in fastforce)+

definition percolate_down :: "nat \<Rightarrow> 'd heap \<Rightarrow> 'd heap" where
  "percolate_down i h =
     (let moving_node = h_nodes h ! i; (i', h') = percolate_down_loop moving_node i h
      in put_node h' i' moving_node)"

text \<open>\<^verbatim>\<open>push\<close>: grow the array when it is full, then insert at the end and move up. \<open>a\<close> is
  the address \<^verbatim>\<open>new HeapNode\<close> returns; \<^verbatim>\<open>position\<close> is not initialised by \<^verbatim>\<open>new\<close> and
  \<open>pos0\<close> is what it happens to hold.\<close>

definition heap_push ::
  "(nat \<Rightarrow> addr) option \<Rightarrow> addr \<Rightarrow> nat \<Rightarrow> u64 \<Rightarrow> 'd \<Rightarrow> 'd heap \<Rightarrow> addr option \<times> 'd heap" where
  "heap_push mem a pos0 p d h =
     (let grown =
        (if h_num h \<ge> h_size h then
           (let newsize = wrap32 (h_size h * 2) in
            case mem of
              None \<Rightarrow> None
            | Some g \<Rightarrow> Some (h\<lparr>h_nodes := realloc_array g (h_nodes h) newsize, h_size := newsize\<rparr>))
         else Some h) in
      case grown of
        None \<Rightarrow> (None, h)
      | Some h1 \<Rightarrow>
          (let i = h_num h1;
               h2 = h1\<lparr>h_store := (h_store h1)(a \<mapsto> \<lparr>priority = p, position = pos0, node_data = d\<rparr>),
                       h_num := wrap32 (i + 1),
                       h_nodes := (h_nodes h1)[i := a]\<rparr>
           in (Some a, bubble_up i h2)))"

definition heap_change_priority :: "u64 \<Rightarrow> addr \<Rightarrow> 'd heap \<Rightarrow> 'd heap" where
  "heap_change_priority new_priority node h =
     (let pos = position (hnode h node);
          old_pri = priority (hnode h node);
          h1 = h\<lparr>h_store := (h_store h)(node \<mapsto> (hnode h node)\<lparr>priority := new_priority\<rparr>)\<rparr>
      in if heap_compare (h_type h) old_pri new_priority then bubble_up pos h1
         else percolate_down pos h1)"

text \<open>\<^verbatim>\<open>delete node\<close> ends the life of the object: it leaves the store.\<close>

definition heap_remove :: "addr \<Rightarrow> 'd heap \<Rightarrow> 'd heap" where
  "heap_remove node h =
     (let pos = position (hnode h node);
          n = h_num h - 1;
          h1 = h\<lparr>h_num := n, h_nodes := (h_nodes h)[pos := h_nodes h ! n]\<rparr>;
          h2 = (if heap_compare (h_type h1) (priority (hnode h1 node)) (prio_at h1 pos)
                then bubble_up pos h1 else percolate_down pos h1)
      in h2\<lparr>h_store := (h_store h2)(node := None)\<rparr>)"

definition heap_pop :: "'d heap \<Rightarrow> 'd option \<times> 'd heap" where
  "heap_pop h =
     (if heap_count h = 0 then (None, h)
      else (let head = h_nodes h ! 1;
                n = h_num h - 1;
                h1 = h\<lparr>h_num := n, h_nodes := (h_nodes h)[1 := h_nodes h ! n]\<rparr>;
                h2 = percolate_down 1 h1
            in (Some (node_data (hnode h2 head)), h2\<lparr>h_store := (h_store h2)(head := None)\<rparr>)))"

definition heap_top :: "'d heap \<Rightarrow> addr option" where
  "heap_top h = (if h_num h = 1 then None else Some (h_nodes h ! 1))"

definition heap_peek :: "'d heap \<Rightarrow> 'd option" where
  "heap_peek h = (if h_num h = 1 then None else Some (node_data (hnode h (h_nodes h ! 1))))"

subsection \<open>Heap order along a path\<close>

text \<open>
  What the two loops need of the comparison is that it is a strict weak order. The lemmas
  below are about keys of slots only: \<open>up_ok\<close> and \<open>down_ok\<close> say that the order can be
  broken only between slot \<open>i\<close> and its parent, or between slot \<open>i\<close> and its children.
\<close>

locale strict_weak =
  fixes c :: "'k \<Rightarrow> 'k \<Rightarrow> bool"
  assumes asym: "c x y \<Longrightarrow> \<not> c y x"
    and ntrans: "\<not> c x y \<Longrightarrow> \<not> c y z \<Longrightarrow> \<not> c x z"
begin

definition ord_ok :: "(nat \<Rightarrow> 'k) \<Rightarrow> nat \<Rightarrow> bool" where
  "ord_ok k n \<longleftrightarrow> (\<forall>j. 1 < j \<and> j < n \<longrightarrow> \<not> c (k (j div 2)) (k j))"

definition bridge_ok :: "(nat \<Rightarrow> 'k) \<Rightarrow> nat \<Rightarrow> nat \<Rightarrow> bool" where
  "bridge_ok k n i \<longleftrightarrow>
     (1 < i \<longrightarrow> (\<forall>j. 1 < j \<and> j < n \<and> j div 2 = i \<longrightarrow> \<not> c (k (i div 2)) (k j)))"

definition up_ok :: "(nat \<Rightarrow> 'k) \<Rightarrow> nat \<Rightarrow> nat \<Rightarrow> bool" where
  "up_ok k n i \<longleftrightarrow>
     (\<forall>j. 1 < j \<and> j < n \<and> j \<noteq> i \<longrightarrow> \<not> c (k (j div 2)) (k j)) \<and> bridge_ok k n i"

definition down_ok :: "(nat \<Rightarrow> 'k) \<Rightarrow> nat \<Rightarrow> nat \<Rightarrow> bool" where
  "down_ok k n i \<longleftrightarrow>
     (\<forall>j. 1 < j \<and> j < n \<and> j div 2 \<noteq> i \<longrightarrow> \<not> c (k (j div 2)) (k j)) \<and> bridge_ok k n i"

lemma irrefl: "\<not> c x x"
  using asym by blast

lemma up_done: "up_ok k n i \<Longrightarrow> \<not> (1 < i \<and> c (k (i div 2)) (k i)) \<Longrightarrow> ord_ok k n"
  unfolding up_ok_def ord_ok_def by metis

lemma down_done:
  assumes "down_ok k n i" and "\<And>j. 1 < j \<Longrightarrow> j < n \<Longrightarrow> j div 2 = i \<Longrightarrow> \<not> c (k i) (k j)"
  shows "ord_ok k n"
  using assms unfolding down_ok_def ord_ok_def by metis

lemma up_step:
  assumes ok: "up_ok k n i" and i: "1 < i" "i < n" and viol: "c (k (i div 2)) (k i)"
  shows "up_ok (k(i := k (i div 2), i div 2 := k i)) n (i div 2)"
proof -
  let ?p = "i div 2" and ?k = "k(i := k (i div 2), i div 2 := k i)"
  have p: "?p < i" "1 \<le> ?p" using i by auto
  have ord: "\<not> c (k (j div 2)) (k j)" if "1 < j" "j < n" "j \<noteq> i" for j
    using ok that by (simp add: up_ok_def)
  have bridge: "\<not> c (k ?p) (k j)" if "1 < j" "j < n" "j div 2 = i" for j
    using ok that i by (simp add: up_ok_def bridge_ok_def)
  have "\<not> c (?k (j div 2)) (?k j)" if j: "1 < j" "j < n" "j \<noteq> ?p" for j
  proof -
    consider (self) "j = i" | (child) "j \<noteq> i" "j div 2 = i" | (sibling) "j \<noteq> i" "j div 2 = ?p"
      | (other) "j \<noteq> i" "j div 2 \<noteq> i" "j div 2 \<noteq> ?p" by blast
    then show ?thesis
    proof cases
      case self
      then show ?thesis using asym viol p by simp
    next
      case child
      then show ?thesis using bridge j p by auto
    next
      case sibling
      then have "\<not> c (k i) (k j)" using ntrans [of "k i" "k ?p" "k j"] asym viol ord j by metis
      then show ?thesis using sibling j p by auto
    next
      case other
      then show ?thesis using ord j by simp
    qed
  qed
  moreover have "bridge_ok ?k n ?p"
  proof -
    have "\<not> c (?k (?p div 2)) (?k j)" if j: "1 < ?p" "1 < j" "j < n" "j div 2 = ?p" for j
    proof -
      have pp: "\<not> c (k (?p div 2)) (k ?p)" using ord [of ?p] j p i by auto
      have ne: "?p div 2 < ?p" "?p div 2 \<noteq> i" "?p div 2 \<noteq> ?p" "?p \<noteq> i" using j p by linarith+
      show ?thesis
      proof (cases "j = i")
        case True
        then show ?thesis using pp ne(2,3,4) by simp
      next
        case False
        then have "\<not> c (k (?p div 2)) (k j)" using ntrans [OF pp] ord [of j] j by simp
        then show ?thesis using False ne p j by auto
      qed
    qed
    then show ?thesis by (simp add: bridge_ok_def)
  qed
  ultimately show ?thesis by (simp add: up_ok_def)
qed

lemma down_step:
  assumes ok: "down_ok k n i" and i: "1 \<le> i" and q: "q div 2 = i" "1 < q" "q < n"
    and best: "\<And>j. 1 < j \<Longrightarrow> j < n \<Longrightarrow> j div 2 = i \<Longrightarrow> \<not> c (k q) (k j)"
    and viol: "c (k i) (k q)"
  shows "down_ok (k(i := k q, q := k i)) n q"
proof -
  let ?k = "k(i := k q, q := k i)"
  have iq: "i < q" using q i by auto
  have ord: "\<not> c (k (j div 2)) (k j)" if "1 < j" "j < n" "j div 2 \<noteq> i" for j
    using ok that by (simp add: down_ok_def)
  have "\<not> c (?k (j div 2)) (?k j)" if j: "1 < j" "j < n" "j div 2 \<noteq> q" for j
  proof -
    consider (self) "j = q" | (sibling) "j \<noteq> q" "j div 2 = i" | (top) "j = i"
      | (other) "j \<noteq> q" "j \<noteq> i" "j div 2 \<noteq> i" by blast
    then show ?thesis
    proof cases
      case self
      then show ?thesis using asym viol q iq by simp
    next
      case sibling
      then show ?thesis using best j iq by auto
    next
      case top
      then have "\<not> c (k (i div 2)) (k q)" using ok q j by (simp add: down_ok_def bridge_ok_def)
      then show ?thesis using top j iq by auto
    next
      case other
      then show ?thesis using ord j by simp
    qed
  qed
  moreover have "bridge_ok ?k n q"
  proof -
    have "\<not> c (?k (q div 2)) (?k j)" if j: "1 < j" "j < n" "j div 2 = q" for j
    proof -
      have "j div 2 \<noteq> i" "j \<noteq> i" "j \<noteq> q" using iq j by auto
      then show ?thesis using ord [of j] j q iq by simp
    qed
    then show ?thesis by (simp add: bridge_ok_def)
  qed
  ultimately show ?thesis by (simp add: down_ok_def)
qed

lemma key_cong:
  assumes "\<And>j. 1 \<le> j \<Longrightarrow> j < n \<Longrightarrow> k j = k' j" and "i < n"
  shows "up_ok k n i = up_ok k' n i" and "down_ok k n i = down_ok k' n i"
  using assms unfolding up_ok_def down_ok_def bridge_ok_def by (auto 4 3)

lemma replace_key:
  assumes ord: "ord_ok k n" and i: "1 \<le> i" "i < n"
  shows "c (k i) x \<Longrightarrow> up_ok (k(i := x)) n i" and "\<not> c (k i) x \<Longrightarrow> down_ok (k(i := x)) n i"
proof -
  have o: "\<not> c (k (j div 2)) (k j)" if "1 < j" "j < n" for j
    using ord that by (simp add: ord_ok_def)
  have ne: "j div 2 \<noteq> j" if "1 < j" for j :: nat
    using that by simp
  have bridge: "bridge_ok (k(i := x)) n i"
  proof -
    have "\<not> c (k (i div 2)) (k j)" if "1 < i" "1 < j" "j < n" "j div 2 = i" for j
      using o [of i] o [of j] that i ntrans by blast
    then show ?thesis using ne unfolding bridge_ok_def by auto
  qed
  show "up_ok (k(i := x)) n i" if "c (k i) x"
  proof -
    have "\<not> c (x) (k j)" if "1 < j" "j < n" "j div 2 = i" for j
      using o [OF that(1,2)] asym [OF \<open>c (k i) x\<close>] ntrans that(3) by blast
    then show ?thesis using o bridge unfolding up_ok_def by auto
  qed
  show "down_ok (k(i := x)) n i" if "\<not> c (k i) x"
  proof -
    have "\<not> c (k (i div 2)) x" if "1 < i"
      using o [OF that i(2)] \<open>\<not> c (k i) x\<close> ntrans by blast
    then show ?thesis using o bridge unfolding down_ok_def by auto
  qed
qed

lemma root_best:
  assumes "ord_ok k n" and "1 \<le> i" and "i < n"
  shows "\<not> c (k 1) (k i)"
  using assms(2,3)
proof (induction i rule: less_induct)
  case (less i)
  show ?case
  proof (cases "i = 1")
    case True
    then show ?thesis using asym by auto
  next
    case False
    then have "\<not> c (k 1) (k (i div 2))" using less by auto
    then show ?thesis using ntrans assms(1) False less.prems unfolding ord_ok_def by (metis One_nat_def Suc_leI le_neq_implies_less)
  qed
qed

end

lemma heap_compare_strict_weak: "strict_weak (heap_compare ty)"
  by unfold_locales (cases ty; auto simp: heap_compare_def)+

interpretation hc: strict_weak "heap_compare ty" for ty
  by (rule heap_compare_strict_weak)

subsection \<open>Invariant and abstract contents\<close>

text \<open>
  \<open>heap_abs\<close> is what the heap holds, whatever its array looks like: for every live node,
  its priority and its data. \<open>heap_inv\<close> is the invariant of the class: the used slots
  are within the array, each holds a live node whose back pointer names the slot, no other
  node is live (nothing leaks), and no node comes before its parent.
\<close>

definition heap_abs :: "'d heap \<Rightarrow> addr \<rightharpoonup> (u64 \<times> 'd)" where
  "heap_abs h a = map_option (\<lambda>nd. (priority nd, node_data nd)) (h_store h a)"

definition slots :: "'d heap \<Rightarrow> nat set" where
  "slots h = {1..<h_num h}"

definition linked :: "'d heap \<Rightarrow> nat set \<Rightarrow> bool" where
  "linked h I \<longleftrightarrow> (\<forall>i\<in>I. \<exists>nd. h_store h (h_nodes h ! i) = Some nd \<and> position nd = i)"

definition heap_inv :: "'d heap \<Rightarrow> bool" where
  "heap_inv h \<longleftrightarrow>
     1 \<le> h_num h \<and> h_num h \<le> h_size h \<and> length (h_nodes h) = h_size h \<and>
     linked h (slots h) \<and> dom (h_store h) = (\<lambda>i. h_nodes h ! i) ` slots h \<and>
     hc.ord_ok (h_type h) (prio_at h) (h_num h)"

text \<open>While a node \<open>m\<close> moves, slot \<open>i\<close> is a hole: its cell is stale and \<open>m\<close> belongs there.\<close>

definition hole_inv :: "'d heap \<Rightarrow> addr \<Rightarrow> nat \<Rightarrow> bool" where
  "hole_inv h m i \<longleftrightarrow>
     i \<in> slots h \<and> h_num h \<le> length (h_nodes h) \<and> h_store h m \<noteq> None \<and>
     linked h (slots h - {i}) \<and> m \<notin> (\<lambda>j. h_nodes h ! j) ` (slots h - {i})"

definition live_hole :: "'d heap \<Rightarrow> addr \<Rightarrow> nat \<Rightarrow> addr set" where
  "live_hole h m i = insert m ((\<lambda>j. h_nodes h ! j) ` (slots h - {i}))"

definition hole_key :: "'d heap \<Rightarrow> addr \<Rightarrow> nat \<Rightarrow> nat \<Rightarrow> u64" where
  "hole_key h m i j = priority (hnode h (if j = i then m else h_nodes h ! j))"

lemma heap_abs_prio: "heap_abs h = heap_abs h' \<Longrightarrow> h_store h a \<noteq> None \<Longrightarrow>
    priority (hnode h' a) = priority (hnode h a) \<and> h_store h' a \<noteq> None"
  by (drule fun_cong [of _ _ a], cases "h_store h' a") (auto simp: heap_abs_def hnode_def)

lemma slots_put_node [simp]: "slots (put_node h i a) = slots h"
  by (simp add: slots_def)

lemma heap_abs_put_node: "h_store h a \<noteq> None \<Longrightarrow> heap_abs (put_node h i a) = heap_abs h"
  by (auto simp: heap_abs_def put_node_def hnode_def fun_eq_iff)

lemma store_put_node:
  "h_store (put_node h i a) b = (if b = a then Some ((hnode h a)\<lparr>position := i\<rparr>) else h_store h b)"
  by (simp add: put_node_def)

lemma linkedD: "linked h I \<Longrightarrow> i \<in> I \<Longrightarrow> h_store h (h_nodes h ! i) \<noteq> None"
  by (auto simp: linked_def)

lemma linked_inj:
  assumes "linked h I" and "i \<in> I" and "j \<in> I" and "h_nodes h ! i = h_nodes h ! j"
  shows "i = j"
proof -
  obtain x y where "h_store h (h_nodes h ! i) = Some x" "position x = i"
    "h_store h (h_nodes h ! j) = Some y" "position y = j"
    using assms(1-3) unfolding linked_def by blast
  then show ?thesis using assms(4) by auto
qed

lemma linked_inj_on: "linked h I \<Longrightarrow> inj_on (\<lambda>i. h_nodes h ! i) I"
  using linked_inj by (blast intro: inj_onI)

text \<open>One step of either loop: the node in slot \<open>p\<close> moves into the hole \<open>i\<close>, and \<open>p\<close>
  becomes the hole.\<close>

lemma hole_move:
  assumes inv: "hole_inv h m i" and p: "p \<in> slots h" "p \<noteq> i"
  defines "h' \<equiv> put_node h i (h_nodes h ! p)"
  shows "hole_inv h' m p" and "heap_abs h' = heap_abs h" and "live_hole h' m p = live_hole h m i"
    and "hole_key h' m p = (hole_key h m i)(i := hole_key h m i p, p := hole_key h m i i)"
proof -
  let ?a = "h_nodes h ! p"
  have i: "i \<in> slots h" and len: "h_num h \<le> length (h_nodes h)" and m: "h_store h m \<noteq> None"
    and lk: "linked h (slots h - {i})" and fresh: "\<And>j. j \<in> slots h \<Longrightarrow> j \<noteq> i \<Longrightarrow> h_nodes h ! j \<noteq> m"
    using inv by (auto simp: hole_inv_def)
  have il: "i < length (h_nodes h)" using i len by (auto simp: slots_def)
  have pa: "h_store h ?a \<noteq> None" using linkedD [OF lk] p by auto
  have am: "?a \<noteq> m" using fresh p by auto
  show abs: "heap_abs h' = heap_abs h" unfolding h'_def by (rule heap_abs_put_node [OF pa])
  have nodes': "h_nodes h' ! j = (if j = i then ?a else h_nodes h ! j)" for j
    using il by (auto simp: h'_def nth_list_update)
  have slots': "slots h' = slots h" by (simp add: h'_def)
  have "linked h' (slots h - {p})"
  proof -
    have "\<exists>nd. h_store h' (h_nodes h' ! j) = Some nd \<and> position nd = j" if j: "j \<in> slots h" "j \<noteq> p" for j
    proof (cases "j = i")
      case True
      then show ?thesis using nodes' by (simp add: h'_def store_put_node)
    next
      case False
      then have "h_nodes h ! j \<noteq> ?a" using linked_inj [OF lk] j p by blast
      then show ?thesis using False lk j nodes' by (auto simp: h'_def store_put_node linked_def)
    qed
    then show ?thesis by (auto simp: linked_def)
  qed
  moreover have "h_store h' m \<noteq> None" using heap_abs_prio [OF abs [symmetric] m] by simp
  ultimately show "hole_inv h' m p"
    using slots' p len fresh am nodes' by (auto simp: hole_inv_def h'_def)
  show "live_hole h' m p = live_hole h m i"
    unfolding live_hole_def slots' using nodes' p i by (auto simp: image_iff split: if_splits)
  have "priority (hnode h' b) = priority (hnode h b)" if "h_store h b \<noteq> None" for b
    using heap_abs_prio [OF abs [symmetric] that] by simp
  moreover have "priority (hnode h' b) = priority (hnode h b)" if "b \<noteq> ?a" for b
    using that by (simp add: hnode_def h'_def store_put_node)
  ultimately have "priority (hnode h' b) = priority (hnode h b)" for b using pa by metis
  then show "hole_key h' m p = (hole_key h m i)(i := hole_key h m i p, p := hole_key h m i i)"
    using nodes' p by (auto simp: hole_key_def fun_eq_iff)
qed

text \<open>Closing the hole.\<close>

lemma hole_close:
  assumes inv: "hole_inv h m i"
  defines "h' \<equiv> put_node h i m"
  shows "linked h' (slots h)" and "heap_abs h' = heap_abs h"
    and "(\<lambda>j. h_nodes h' ! j) ` slots h = live_hole h m i" and "prio_at h' = hole_key h m i"
proof -
  have i: "i \<in> slots h" and m: "h_store h m \<noteq> None" and lk: "linked h (slots h - {i})"
    and fresh: "\<And>j. j \<in> slots h \<Longrightarrow> j \<noteq> i \<Longrightarrow> h_nodes h ! j \<noteq> m"
    and il: "i < length (h_nodes h)"
    using inv by (auto simp: hole_inv_def slots_def)
  have nodes': "h_nodes h' ! j = (if j = i then m else h_nodes h ! j)" for j
    using il by (auto simp: h'_def nth_list_update)
  show abs: "heap_abs h' = heap_abs h" unfolding h'_def by (rule heap_abs_put_node [OF m])
  show "linked h' (slots h)"
    using lk fresh nodes' by (auto simp: linked_def h'_def store_put_node)
  show "(\<lambda>j. h_nodes h' ! j) ` slots h = live_hole h m i"
    using nodes' i by (auto simp: live_hole_def image_iff)
  have "priority (hnode h' b) = priority (hnode h b)" for b
    by (simp add: hnode_def h'_def store_put_node)
  then show "prio_at h' = hole_key h m i"
    using nodes' by (auto simp: hole_key_def prio_at_def fun_eq_iff)
qed

subsection \<open>The loops restore the order\<close>

declare bubble_up_loop.simps [simp del] percolate_down_loop.simps [simp del]

definition moved :: "'d heap \<Rightarrow> addr \<Rightarrow> nat \<Rightarrow> 'd heap \<Rightarrow> nat \<Rightarrow> bool" where
  "moved h m i h' i' \<longleftrightarrow>
     hole_inv h' m i' \<and> heap_abs h' = heap_abs h \<and> live_hole h' m i' = live_hole h m i \<and>
     h_num h' = h_num h \<and> h_size h' = h_size h \<and> h_type h' = h_type h \<and>
     length (h_nodes h') = length (h_nodes h) \<and>
     hc.ord_ok (h_type h) (hole_key h' m i') (h_num h)"

lemma moved_step:
  assumes "moved (put_node h i (h_nodes h ! p)) m p h' i'" and "hole_inv h m i"
    and "p \<in> slots h" and "p \<noteq> i"
  shows "moved h m i h' i'"
  using assms hole_move(2,3) [of h m i p] by (auto simp: moved_def)

lemma prio_at_hole: "p \<noteq> i \<Longrightarrow> prio_at h p = hole_key h m i p"
  by (simp add: prio_at_def hole_key_def)

lemma prio_moving_hole: "priority (hnode h m) = hole_key h m i i"
  by (simp add: hole_key_def)

lemma bubble_up_loop_moved:
  assumes "hole_inv h m i" and "hc.up_ok (h_type h) (hole_key h m i) (h_num h) i"
    and "bubble_up_loop m i h = (i', h')"
  shows "moved h m i h' i'"
  using assms
proof (induction m i h rule: bubble_up_loop.induct)
  case (1 m i h)
  let ?p = "i div 2" and ?c = "heap_compare (h_type h)"
  have i: "1 \<le> i" "i < h_num h" using "1.prems"(1) by (auto simp: hole_inv_def slots_def)
  show ?case
  proof (cases "1 < i \<and> ?c (prio_at h ?p) (priority (hnode h m))")
    case True
    then have p: "?p \<in> slots h" "?p \<noteq> i" using i by (auto simp: slots_def)
    have viol: "?c (hole_key h m i ?p) (hole_key h m i i)"
      using True prio_at_hole [OF p(2), of h m] by (simp add: prio_moving_hole [of h m i])
    have "moved (put_node h i (h_nodes h ! ?p)) m ?p h' i'"
    proof (rule "1.IH")
      show "1 < i \<and> ?c (prio_at h ?p) (priority (hnode h m))" by (rule True)
      show "hole_inv (put_node h i (h_nodes h ! ?p)) m ?p"
        by (rule hole_move(1) [OF "1.prems"(1) p])
      show "hc.up_ok (h_type (put_node h i (h_nodes h ! ?p)))
          (hole_key (put_node h i (h_nodes h ! ?p)) m ?p) (h_num (put_node h i (h_nodes h ! ?p))) ?p"
        using hc.up_step [OF "1.prems"(2)] True i viol hole_move(4) [OF "1.prems"(1) p] by simp
      show "bubble_up_loop m ?p (put_node h i (h_nodes h ! ?p)) = (i', h')"
        using "1.prems"(3) True by (simp add: bubble_up_loop.simps [of m i] Let_def)
    qed simp
    then show ?thesis by (rule moved_step [OF _ "1.prems"(1) p])
  next
    case False
    then have eq: "i' = i" "h' = h" using "1.prems"(3)
      by (auto simp: bubble_up_loop.simps [of m i] Let_def)
    have "\<not> (1 < i \<and> ?c (hole_key h m i ?p) (hole_key h m i i))"
      using False prio_at_hole [of ?p i h m] by (auto simp: prio_moving_hole [of h m i])
    then have "hc.ord_ok (h_type h) (hole_key h m i) (h_num h)"
      by (rule hc.up_done [OF "1.prems"(2)])
    then show ?thesis using "1.prems"(1) by (simp add: moved_def eq)
  qed
qed

text \<open>\<^verbatim>\<open>maxchild\<close> finds a child no other child of the slot comes before.\<close>

lemma maxchild_cases:
  assumes "1 \<le> i"
  obtains (none) "maxchild h i = 0" "h_num h \<le> 2 * i"
  | (left) "maxchild h i = 2 * i" "2 * i < h_num h"
      "2 * i + 1 < h_num h \<Longrightarrow> \<not> heap_compare (h_type h) (prio_at h (2 * i)) (prio_at h (2 * i + 1))"
  | (right) "maxchild h i = 2 * i + 1" "2 * i + 1 < h_num h"
      "heap_compare (h_type h) (prio_at h (2 * i)) (prio_at h (2 * i + 1))"
  unfolding maxchild_def Let_def by (metis linorder_not_le)

lemma maxchild_best:
  assumes "1 \<le> i" and "maxchild h i \<noteq> 0"
  shows "maxchild h i div 2 = i" and "1 < maxchild h i"
    and "1 < j \<Longrightarrow> j < h_num h \<Longrightarrow> j div 2 = i \<Longrightarrow>
      \<not> heap_compare (h_type h) (prio_at h (maxchild h i)) (prio_at h j)"
proof -
  show "maxchild h i div 2 = i" "1 < maxchild h i"
    using assms by (cases rule: maxchild_cases [OF assms(1), of h]; simp)+
  assume j: "1 < j" "j < h_num h" "j div 2 = i"
  then have "j = 2 * i \<or> j = 2 * i + 1" by arith
  with assms j(2) show "\<not> heap_compare (h_type h) (prio_at h (maxchild h i)) (prio_at h j)"
    by (cases rule: maxchild_cases [OF assms(1), of h]) (auto simp: hc.irrefl hc.asym)
qed

lemma maxchild_none:
  assumes "maxchild h i = 0" and "1 \<le> i" and "j < h_num h"
  shows "j div 2 \<noteq> i"
  using assms by (cases rule: maxchild_cases [OF assms(2), of h]) auto

lemma percolate_down_loop_moved:
  assumes "hole_inv h m i" and "hc.down_ok (h_type h) (hole_key h m i) (h_num h) i"
    and "percolate_down_loop m i h = (i', h')"
  shows "moved h m i h' i'"
  using assms
proof (induction m i h rule: percolate_down_loop.induct)
  case (1 m i h)
  let ?q = "maxchild h i" and ?c = "heap_compare (h_type h)"
  have i: "1 \<le> i" "i < h_num h" using "1.prems"(1) by (auto simp: hole_inv_def slots_def)
  have best: "\<not> ?c (hole_key h m i ?q) (hole_key h m i j)"
    if "?q \<noteq> 0" "1 < j" "j < h_num h" "j div 2 = i" for j
    using maxchild_best(3) [OF i(1) that] maxchild_gt [OF that(1)] that i
      prio_at_hole [of ?q i h m] prio_at_hole [of j i h m] by auto
  show ?case
  proof (cases "?q \<noteq> 0 \<and> ?c (priority (hnode h m)) (prio_at h ?q)")
    case True
    then have q: "?q \<in> slots h" "?q \<noteq> i" using maxchild_gt [of h i] i by (auto simp: slots_def)
    have viol: "?c (hole_key h m i i) (hole_key h m i ?q)"
      using True prio_at_hole [OF q(2), of h m] by (simp add: prio_moving_hole [of h m i])
    have "moved (put_node h i (h_nodes h ! ?q)) m ?q h' i'"
    proof (rule "1.IH")
      show "?q \<noteq> 0 \<and> ?c (priority (hnode h m)) (prio_at h ?q)" by (rule True)
      show "hole_inv (put_node h i (h_nodes h ! ?q)) m ?q"
        by (rule hole_move(1) [OF "1.prems"(1) q])
      have "hc.down_ok (h_type h) ((hole_key h m i)(i := hole_key h m i ?q, ?q := hole_key h m i i))
          (h_num h) ?q"
        using True maxchild_best(1,2) [OF i(1)] maxchild_gt best viol
        by (intro hc.down_step [OF "1.prems"(2) i(1)]) auto
      then show "hc.down_ok (h_type (put_node h i (h_nodes h ! ?q)))
          (hole_key (put_node h i (h_nodes h ! ?q)) m ?q) (h_num (put_node h i (h_nodes h ! ?q))) ?q"
        using hole_move(4) [OF "1.prems"(1) q] by simp
      show "percolate_down_loop m ?q (put_node h i (h_nodes h ! ?q)) = (i', h')"
        using "1.prems"(3) True by (simp add: percolate_down_loop.simps [of m i] Let_def)
    qed simp
    then show ?thesis by (rule moved_step [OF _ "1.prems"(1) q])
  next
    case False
    then have eq: "i' = i" "h' = h" using "1.prems"(3)
      by (auto simp: percolate_down_loop.simps [of m i] Let_def)
    have "\<not> ?c (hole_key h m i i) (hole_key h m i j)" if j: "1 < j" "j < h_num h" "j div 2 = i" for j
    proof -
      have q0: "?q \<noteq> 0" using maxchild_none [OF _ i(1) j(2)] j(3) by blast
      then have "\<not> ?c (hole_key h m i i) (hole_key h m i ?q)"
        using False prio_at_hole [of ?q i h m] maxchild_gt [OF q0]
        by (auto simp: prio_moving_hole [of h m i])
      then show ?thesis using hc.ntrans best [OF q0 j] by blast
    qed
    then have "hc.ord_ok (h_type h) (hole_key h m i) (h_num h)"
      by (rule hc.down_done [OF "1.prems"(2)])
    then show ?thesis using "1.prems"(1) by (simp add: moved_def eq)
  qed
qed

subsection \<open>Moving a node up or down\<close>

text \<open>\<open>settled h m i h'\<close>: the heap \<open>h\<close> in which \<open>m\<close> belongs to the hole \<open>i\<close> became \<open>h'\<close>,
  in which every used slot is linked and ordered and the contents are the same.\<close>

definition settled :: "'d heap \<Rightarrow> addr \<Rightarrow> nat \<Rightarrow> 'd heap \<Rightarrow> bool" where
  "settled h m i h' \<longleftrightarrow>
     linked h' (slots h) \<and> heap_abs h' = heap_abs h \<and>
     (\<lambda>j. h_nodes h' ! j) ` slots h = live_hole h m i \<and>
     h_num h' = h_num h \<and> h_size h' = h_size h \<and> h_type h' = h_type h \<and>
     length (h_nodes h') = length (h_nodes h) \<and> hc.ord_ok (h_type h) (prio_at h') (h_num h)"

lemma moved_settled: "moved h m i h' i' \<Longrightarrow> settled h m i (put_node h' i' m)"
  using hole_close [of h' m i'] by (auto simp: moved_def settled_def slots_def)

lemma bubble_up_settled:
  assumes "hole_inv h (h_nodes h ! i) i"
    and "hc.up_ok (h_type h) (hole_key h (h_nodes h ! i) i) (h_num h) i"
  shows "settled h (h_nodes h ! i) i (bubble_up i h)"
  using bubble_up_loop_moved [OF assms] moved_settled
  by (auto simp: bubble_up_def Let_def split: prod.splits)

lemma percolate_down_settled:
  assumes "hole_inv h (h_nodes h ! i) i"
    and "hc.down_ok (h_type h) (hole_key h (h_nodes h ! i) i) (h_num h) i"
  shows "settled h (h_nodes h ! i) i (percolate_down i h)"
  using percolate_down_loop_moved [OF assms] moved_settled
  by (auto simp: percolate_down_def Let_def split: prod.splits)

text \<open>The root moves only when the node that moves up comes before it.\<close>

lemma bubble_up_loop_root:
  assumes "1 < i" and "h_num h \<le> length (h_nodes h)" and "bubble_up_loop m i h = (i', h')"
    and "\<And>j. priority (hnode h (h_nodes h ! j)) = pr (h_nodes h ! j)" and "priority (hnode h m) = pr m"
    and "\<not> heap_compare (h_type h) (pr (h_nodes h ! 1)) (pr m)"
  shows "1 < i' \<and> h_nodes h' ! 1 = h_nodes h ! 1"
  using assms
proof (induction m i h rule: bubble_up_loop.induct)
  case (1 m i h)
  let ?p = "i div 2"
  show ?case
  proof (cases "1 < i \<and> heap_compare (h_type h) (prio_at h ?p) (priority (hnode h m))")
    case True
    have p: "1 < ?p"
      using True "1.prems"(1,4,5,6) by (cases "?p = 1") (auto simp: prio_at_def)
    have "h_nodes (put_node h i (h_nodes h ! ?p)) ! j =
        (if j = i \<and> i < length (h_nodes h) then h_nodes h ! ?p else h_nodes h ! j)" for j
      by (cases "i < length (h_nodes h)") (auto simp: nth_list_update list_update_beyond not_less)
    moreover have "priority (hnode (put_node h i (h_nodes h ! ?p)) b) = priority (hnode h b)" for b
      by (simp add: hnode_def store_put_node)
    ultimately show ?thesis
      using "1.IH" [OF refl True p] "1.prems" True
      by (simp add: bubble_up_loop.simps [of m i] Let_def)
  next
    case False
    then show ?thesis using "1.prems"(1,3) by (auto simp: bubble_up_loop.simps [of m i] Let_def)
  qed
qed

lemma bubble_up_root:
  assumes "1 < i" and "h_num h \<le> length (h_nodes h)"
    and "\<not> heap_compare (h_type h) (prio_at h 1) (prio_at h i)"
  shows "h_nodes (bubble_up i h) ! 1 = h_nodes h ! 1"
proof -
  obtain i' h' where r: "bubble_up_loop (h_nodes h ! i) i h = (i', h')" by fastforce
  have "1 < i' \<and> h_nodes h' ! 1 = h_nodes h ! 1"
    using bubble_up_loop_root [OF assms(1,2) r, where pr = "\<lambda>a. priority (hnode h a)"] assms(3)
    by (simp add: prio_at_def)
  then show ?thesis by (simp add: bubble_up_def r)
qed

lemma percolate_down_loop_root:
  "1 < i \<Longrightarrow> percolate_down_loop m i h = (i', h') \<Longrightarrow> 1 < i' \<and> h_nodes h' ! 1 = h_nodes h ! 1"
proof (induction m i h rule: percolate_down_loop.induct)
  case (1 m i h)
  let ?q = "maxchild h i"
  show ?case
  proof (cases "?q \<noteq> 0 \<and> heap_compare (h_type h) (priority (hnode h m)) (prio_at h ?q)")
    case True
    then have "1 < ?q" using maxchild_gt [of h i] "1.prems"(1) by auto
    then show ?thesis
      using "1.IH" [OF refl True] "1.prems" True
      by (simp add: percolate_down_loop.simps [of m i] Let_def)
  next
    case False
    then show ?thesis using "1.prems" by (auto simp: percolate_down_loop.simps [of m i] Let_def)
  qed
qed

lemma percolate_down_root:
  assumes "1 < i"
  shows "h_nodes (percolate_down i h) ! 1 = h_nodes h ! 1"
proof -
  obtain i' h' where r: "percolate_down_loop (h_nodes h ! i) i h = (i', h')" by fastforce
  show ?thesis using percolate_down_loop_root [OF assms r] by (simp add: percolate_down_def r)
qed

subsection \<open>Correctness of the operations\<close>

lemma heap_inv_new:
  "n + 1 < 4294967296 \<Longrightarrow> heap_new (Some g) n ty = Some h \<Longrightarrow> heap_inv h \<and> heap_abs h = Map.empty"
  by (auto simp: heap_new_def heap_inv_def slots_def linked_def hc.ord_ok_def heap_abs_def osw_wrap)

text \<open>From a settled heap to the invariant, when the moved node was the only one not counted.\<close>

lemma settled_inv:
  assumes "settled h m i h'" and "1 \<le> h_num h" and "h_num h \<le> h_size h"
    and "length (h_nodes h) = h_size h" and "dom (h_store h) = live_hole h m i"
  shows "heap_inv h'"
proof -
  have "dom (h_store h') = dom (heap_abs h')" for h' :: "'a heap"
    by (auto simp: heap_abs_def dom_def)
  then have "dom (h_store h') = dom (h_store h)"
    using assms(1) by (metis settled_def)
  then show ?thesis using assms by (auto simp: heap_inv_def settled_def slots_def)
qed

lemma heap_inv_store: "heap_inv h \<Longrightarrow> i \<in> slots h \<Longrightarrow> h_nodes h ! i \<in> dom (h_store h)"
  by (auto simp: heap_inv_def)

lemma heap_inv_position:
  assumes "heap_inv h" and "a \<in> dom (h_store h)"
  shows "position (hnode h a) \<in> slots h" and "h_nodes h ! position (hnode h a) = a"
proof -
  obtain i where "i \<in> slots h" "a = h_nodes h ! i"
    using assms by (auto simp: heap_inv_def)
  moreover from this have "position (hnode h a) = i"
    using assms(1) by (auto simp: heap_inv_def linked_def hnode_def)
  ultimately show "position (hnode h a) \<in> slots h" "h_nodes h ! position (hnode h a) = a"
    by auto
qed

lemma heap_push_grow:
  fixes h :: "'d heap" and g :: "nat \<Rightarrow> addr"
  assumes inv: "heap_inv h" and full: "h_num h \<ge> h_size h" and n: "h_num h < 2147483648"
  defines "h1 \<equiv> h\<lparr>h_nodes := realloc_array g (h_nodes h) (wrap32 (h_size h * 2)),
                   h_size := wrap32 (h_size h * 2)\<rparr>"
  shows "heap_inv h1" and "h_num h1 < h_size h1"
proof -
  have s: "h_size h = h_num h" "1 \<le> h_num h" "length (h_nodes h) = h_num h"
    using inv full by (auto simp: heap_inv_def)
  then have w: "wrap32 (h_size h * 2) = h_num h * 2" using n by (simp add: osw_wrap)
  have nth: "h_nodes h1 ! i = h_nodes h ! i" if "i < h_num h" for i
    using that s w by (simp add: h1_def)
  have "prio_at h1 i = prio_at h i" if "i < h_num h" for i
    using nth [OF that] by (simp add: prio_at_def hnode_def h1_def)
  then have "hc.ord_ok (h_type h1) (prio_at h1) (h_num h1)"
    using inv by (auto simp: heap_inv_def hc.ord_ok_def h1_def)
  moreover have "(\<lambda>i. h_nodes h1 ! i) ` slots h = (\<lambda>i. h_nodes h ! i) ` slots h"
    using nth by (intro image_cong) (auto simp: slots_def)
  moreover have "linked h1 (slots h)"
    using inv nth by (auto simp: heap_inv_def linked_def slots_def h1_def)
  moreover have "slots h1 = slots h" by (simp add: slots_def h1_def)
  moreover have "1 \<le> h_num h1" "h_num h1 \<le> h_size h1" "length (h_nodes h1) = h_size h1"
    "h_store h1 = h_store h" using s w by (simp_all add: h1_def)
  ultimately show "heap_inv h1" using inv by (simp add: heap_inv_def)
  show "h_num h1 < h_size h1" using s w by (simp add: h1_def)
qed

lemma heap_push_insert:
  fixes h :: "'d heap" and p :: u64 and pos0 :: nat and d :: 'd
  assumes inv: "heap_inv h" and room: "h_num h < h_size h" and n: "h_num h < 2147483648"
    and a: "a \<notin> dom (h_store h)"
  defines "h2 \<equiv> h\<lparr>h_store := (h_store h)(a \<mapsto> \<lparr>priority = p, position = pos0, node_data = d\<rparr>),
                   h_num := wrap32 (h_num h + 1), h_nodes := (h_nodes h)[h_num h := a]\<rparr>"
  shows "heap_inv (bubble_up (h_num h) h2)"
    and "heap_abs (bubble_up (h_num h) h2) = (heap_abs h)(a \<mapsto> (p, d))"
    and "h_num (bubble_up (h_num h) h2) = h_num h + 1" and "h_type (bubble_up (h_num h) h2) = h_type h"
    and "h_num h \<noteq> 1 \<Longrightarrow> \<not> heap_compare (h_type h) (prio_at h 1) p \<Longrightarrow>
      h_nodes (bubble_up (h_num h) h2) ! 1 = h_nodes h ! 1"
proof -
  let ?i = "h_num h"
  have i: "1 \<le> ?i" "?i < length (h_nodes h)" and lk: "linked h (slots h)"
    and dm: "dom (h_store h) = (\<lambda>i. h_nodes h ! i) ` slots h"
    and ord: "hc.ord_ok (h_type h) (prio_at h) ?i"
    using inv room by (auto simp: heap_inv_def)
  have num2: "h_num h2 = ?i + 1" using n by (simp add: h2_def osw_wrap)
  have nth: "h_nodes h2 ! j = (if j = ?i then a else h_nodes h ! j)" for j
    using i by (auto simp: h2_def nth_list_update)
  have slots2: "slots h2 - {?i} = slots h" "?i \<in> slots h2" using num2 i by (auto simp: slots_def)
  have old: "h_nodes h ! j \<noteq> a" if "j \<in> slots h" for j using that a dm by auto
  have nth_old: "h_nodes h2 ! j = h_nodes h ! j" if "j \<in> slots h" for j
    using that nth by (auto simp: slots_def)
  have "linked h2 (slots h)" unfolding linked_def
  proof
    fix j assume j: "j \<in> slots h"
    then show "\<exists>nd. h_store h2 (h_nodes h2 ! j) = Some nd \<and> position nd = j"
      using lk nth_old [OF j] old [OF j] by (simp add: h2_def linked_def)
  qed
  moreover have "a \<notin> (\<lambda>j. h_nodes h2 ! j) ` slots h" using nth_old old by (metis imageE)
  ultimately have hole: "hole_inv h2 (h_nodes h2 ! ?i) ?i"
    unfolding hole_inv_def slots2 using slots2(2) i num2 nth by (auto simp: h2_def)
  have live: "live_hole h2 (h_nodes h2 ! ?i) ?i = dom (h_store h2)"
    unfolding live_hole_def slots2 using nth dm by (auto simp: h2_def slots_def)
  have key: "hole_key h2 (h_nodes h2 ! ?i) ?i j = prio_at h j" if "j \<in> slots h" for j
    using that nth old by (auto simp: hole_key_def prio_at_def hnode_def h2_def slots_def)
  have up: "hc.up_ok (h_type h2) (hole_key h2 (h_nodes h2 ! ?i) ?i) (h_num h2) ?i"
    unfolding hc.up_ok_def hc.bridge_ok_def
  proof (intro conjI allI impI)
    fix j assume "1 < j \<and> j < h_num h2 \<and> j \<noteq> ?i"
    then have "1 < j" "j \<in> slots h" "j div 2 \<in> slots h" "j < ?i" using num2 by (auto simp: slots_def)
    then show "\<not> heap_compare (h_type h2) (hole_key h2 (h_nodes h2 ! ?i) ?i (j div 2))
        (hole_key h2 (h_nodes h2 ! ?i) ?i j)"
      using ord key by (simp add: hc.ord_ok_def h2_def)
  next
    fix j assume "1 < ?i" "1 < j \<and> j < h_num h2 \<and> j div 2 = ?i"
    then show "\<not> heap_compare (h_type h2) (hole_key h2 (h_nodes h2 ! ?i) ?i (?i div 2))
        (hole_key h2 (h_nodes h2 ! ?i) ?i j)" using num2 by auto
  qed
  have st: "settled h2 (h_nodes h2 ! ?i) ?i (bubble_up ?i h2)" by (rule bubble_up_settled [OF hole up])
  show "heap_inv (bubble_up ?i h2)"
    by (rule settled_inv [OF st]) (use inv num2 room live in \<open>auto simp: heap_inv_def h2_def\<close>)
  have "heap_abs h2 = (heap_abs h)(a \<mapsto> (p, d))" by (auto simp: heap_abs_def h2_def fun_eq_iff)
  then show "heap_abs (bubble_up ?i h2) = (heap_abs h)(a \<mapsto> (p, d))"
    using st by (simp add: settled_def)
  show "h_num (bubble_up ?i h2) = ?i + 1" "h_type (bubble_up ?i h2) = h_type h"
    using st num2 by (simp_all add: settled_def h2_def)
  assume ne: "?i \<noteq> 1" and nc: "\<not> heap_compare (h_type h) (prio_at h 1) p"
  then have "1 \<in> slots h" using i by (auto simp: slots_def)
  then have "prio_at h2 1 = prio_at h 1" "prio_at h2 ?i = p"
    using nth old ne by (auto simp: prio_at_def hnode_def h2_def)
  then have "h_nodes (bubble_up ?i h2) ! 1 = h_nodes h2 ! 1"
    using nc ne i num2 by (intro bubble_up_root) (auto simp: h2_def)
  then show "h_nodes (bubble_up ?i h2) ! 1 = h_nodes h ! 1" using nth ne by simp
qed

text \<open>\<^verbatim>\<open>push\<close>: on success the heap holds one more node, with the pushed priority and data.\<close>

lemma heap_push_spec:
  assumes "heap_inv h" and "h_num h < 2147483648" and "a \<notin> dom (h_store h)"
    and "heap_push mem a pos0 p d h = (Some r, h')"
  shows "r = a" and "heap_inv h'" and "heap_abs h' = (heap_abs h)(a \<mapsto> (p, d))"
    and "h_num h' = h_num h + 1" and "h_type h' = h_type h"
    and "heap_top h = Some b \<Longrightarrow> \<not> heap_compare (h_type h) (prio_at h 1) p \<Longrightarrow> heap_top h' = Some b"
proof -
  define h1 where "h1 = (if h_num h \<ge> h_size h
      then h\<lparr>h_nodes := realloc_array (the mem) (h_nodes h) (wrap32 (h_size h * 2)),
             h_size := wrap32 (h_size h * 2)\<rparr> else h)"
  have h': "r = a" "h' = bubble_up (h_num h1) (h1\<lparr>h_store := (h_store h1)(a \<mapsto> \<lparr>priority = p,
      position = pos0, node_data = d\<rparr>), h_num := wrap32 (h_num h1 + 1), h_nodes := (h_nodes h1)[h_num h1 := a]\<rparr>)"
    using assms(4) by (auto simp: heap_push_def h1_def Let_def split: if_splits option.splits)
  have inv1: "heap_inv h1" "h_num h1 < h_size h1"
    using heap_push_grow [OF assms(1) _ assms(2), of "the mem"] assms(1) by (auto simp: h1_def)
  have same: "h_store h1 = h_store h" "h_num h1 = h_num h" "h_type h1 = h_type h" "heap_abs h1 = heap_abs h"
    by (auto simp: h1_def heap_abs_def fun_eq_iff)
  have nth: "h_nodes h1 ! 1 = h_nodes h ! 1" if "h_num h \<noteq> 1"
    using that assms(1,2) by (auto simp: h1_def heap_inv_def osw_wrap)
  have pre: "h_num h1 < 2147483648" "a \<notin> dom (h_store h1)" using assms(2,3) same by auto
  note ins = heap_push_insert [OF inv1 pre, of p pos0 d]
  show "r = a" by (rule h'(1))
  show "heap_inv h'" "heap_abs h' = (heap_abs h)(a \<mapsto> (p, d))" "h_num h' = h_num h + 1" "h_type h' = h_type h"
    using ins(1-4) same unfolding h'(2) by auto
  assume top: "heap_top h = Some b" and nc: "\<not> heap_compare (h_type h) (prio_at h 1) p"
  then have ne: "h_num h \<noteq> 1" and b: "b = h_nodes h ! 1" by (auto simp: heap_top_def split: if_splits)
  have "prio_at h1 1 = prio_at h 1" using nth [OF ne] same by (simp add: prio_at_def hnode_def)
  then have "h_nodes h' ! 1 = h_nodes h ! 1" using ins(5) nc ne same nth unfolding h'(2) by simp
  then show "heap_top h' = Some b"
    using b ne ins(3) same assms(1) unfolding h'(2) by (auto simp: heap_top_def heap_inv_def)
qed

lemma heap_push_fails:
  "heap_push mem a pos0 p d h = (None, h') \<longleftrightarrow> h_num h \<ge> h_size h \<and> mem = None \<and> h' = h"
  by (auto simp: heap_push_def Let_def split: if_splits option.splits)

text \<open>\<^verbatim>\<open>change_priority\<close>: only the priority of the given node changes.\<close>

lemma heap_change_priority_spec:
  assumes inv: "heap_inv h" and a: "heap_abs h a = Some (p, d)"
  shows "heap_inv (heap_change_priority q a h)"
    and "heap_abs (heap_change_priority q a h) = (heap_abs h)(a \<mapsto> (q, d))"
    and "h_num (heap_change_priority q a h) = h_num h"
    and "h_type (heap_change_priority q a h) = h_type h"
proof -
  define h1 where "h1 = h\<lparr>h_store := (h_store h)(a \<mapsto> (hnode h a)\<lparr>priority := q\<rparr>)\<rparr>"
  define i where "i = position (hnode h a)"
  let ?h' = "heap_change_priority q a h"
  have ad: "a \<in> dom (h_store h)" using a by (auto simp: heap_abs_def)
  have i: "i \<in> slots h" "h_nodes h ! i = a" using heap_inv_position [OF inv ad] by (simp_all add: i_def)
  have lk: "linked h (slots h)" and len: "h_num h \<le> length (h_nodes h)"
    and dm: "dom (h_store h) = (\<lambda>i. h_nodes h ! i) ` slots h"
    and ord: "hc.ord_ok (h_type h) (prio_at h) (h_num h)"
    using inv by (auto simp: heap_inv_def)
  have p: "priority (hnode h a) = p" "node_data (hnode h a) = d"
    using a by (auto simp: heap_abs_def hnode_def)
  have ne: "h_nodes h ! j \<noteq> a" if "j \<in> slots h" "j \<noteq> i" for j
    using that i linked_inj [OF lk] by blast
  have same: "slots h1 = slots h" "h_nodes h1 = h_nodes h" "h_num h1 = h_num h" "h_type h1 = h_type h"
    "h_size h1 = h_size h" by (simp_all add: h1_def slots_def)
  have "linked h1 (slots h - {i})" using lk ne by (simp add: linked_def h1_def)
  moreover have "a \<notin> (\<lambda>j. h_nodes h ! j) ` (slots h - {i})" using ne by blast
  ultimately have hole: "hole_inv h1 (h_nodes h1 ! i) i"
    using i len unfolding hole_inv_def same by (simp add: h1_def)
  have key: "hole_key h1 a i j = ((prio_at h)(i := q)) j" if "j \<in> slots h" for j
    using that i ne same by (auto simp: hole_key_def prio_at_def hnode_def h1_def)
  have i1: "1 \<le> i" "i < h_num h" using i by (auto simp: slots_def)
  have "settled h1 a i ?h'"
  proof (cases "heap_compare (h_type h) p q")
    case True
    then have "hc.up_ok (h_type h1) (hole_key h1 a i) (h_num h1) i"
      using hc.replace_key(1) [OF ord i1, of q] i p key i1
      by (subst hc.key_cong(1) [where k' = "(prio_at h)(i := q)"]) (auto simp: same slots_def prio_at_def)
    then show ?thesis
      using bubble_up_settled [of h1 i] hole i same True p
      by (simp add: heap_change_priority_def Let_def i_def h1_def)
  next
    case False
    then have "hc.down_ok (h_type h1) (hole_key h1 a i) (h_num h1) i"
      using hc.replace_key(2) [OF ord i1, of q] i p key i1
      by (subst hc.key_cong(2) [where k' = "(prio_at h)(i := q)"]) (auto simp: same slots_def prio_at_def)
    then show ?thesis
      using percolate_down_settled [of h1 i] hole i same False p
      by (simp add: heap_change_priority_def Let_def i_def h1_def)
  qed
  moreover have "dom (h_store h1) = live_hole h1 a i"
  proof -
    have "dom (h_store h1) = dom (h_store h)" using ad by (auto simp: h1_def)
    also have "\<dots> = (\<lambda>j. h_nodes h ! j) ` insert i (slots h - {i})"
      using dm i by (simp only: insert_Diff)
    finally show ?thesis by (simp only: image_insert live_hole_def same i(2))
  qed
  moreover have "heap_abs h1 = (heap_abs h)(a \<mapsto> (q, d))"
    using p by (auto simp: heap_abs_def h1_def fun_eq_iff)
  ultimately show "heap_inv ?h'" "heap_abs ?h' = (heap_abs h)(a \<mapsto> (q, d))" "h_num ?h' = h_num h"
    "h_type ?h' = h_type h"
    using settled_inv [of h1 a i ?h'] inv same by (auto simp: settled_def heap_inv_def)
qed

text \<open>\<^verbatim>\<open>remove\<close>: the last node takes the place of the removed one and moves to where it
  belongs; when the removed node is the last one, nothing moves. Then the node is deleted.\<close>

lemma heap_inv_delete:
  assumes num: "1 \<le> h_num h" "h_num h \<le> h_size h" "length (h_nodes h) = h_size h"
    and lk: "linked h (slots h)" and live: "(\<lambda>j. h_nodes h ! j) ` slots h = dom (h_store h) - {a}"
    and ord: "hc.ord_ok (h_type h) (prio_at h) (h_num h)"
  shows "heap_inv (h\<lparr>h_store := (h_store h)(a := None)\<rparr>)"
proof -
  let ?h = "h\<lparr>h_store := (h_store h)(a := None)\<rparr>"
  have ne: "h_nodes h ! j \<noteq> a" if "j \<in> slots h" for j using that live by blast
  have "prio_at ?h j = prio_at h j" if "1 \<le> j" "j < h_num h" for j
    using ne [of j] that by (simp add: prio_at_def hnode_def slots_def)
  then have "hc.ord_ok (h_type h) (prio_at ?h) (h_num h)" using ord by (auto simp: hc.ord_ok_def)
  moreover have "linked ?h (slots h)" using lk ne by (simp add: linked_def)
  moreover have "slots ?h = slots h" by (simp add: slots_def)
  moreover have "dom (h_store ?h) = (\<lambda>j. h_nodes ?h ! j) ` slots h" using live by simp
  ultimately show ?thesis using num by (simp add: heap_inv_def)
qed

lemma dom_heap_abs: "dom (heap_abs h) = dom (h_store h)"
  by (auto simp: heap_abs_def dom_def)

lemma heap_remove_last:
  assumes inv: "heap_inv h" and a: "a \<in> dom (h_store h)" and last: "position (hnode h a) = h_num h - 1"
  shows "heap_remove a h = h\<lparr>h_num := h_num h - 1, h_store := (h_store h)(a := None)\<rparr>"
    and "heap_inv (heap_remove a h)"
proof -
  define n where "n = h_num h - 1"
  define h1 where "h1 = h\<lparr>h_num := n\<rparr>"
  have pos: "n \<in> slots h" "h_nodes h ! n = a" using heap_inv_position [OF inv a] last by (auto simp: n_def)
  then have n: "1 \<le> n" "n < length (h_nodes h)" using inv by (auto simp: heap_inv_def slots_def n_def)
  have "maxchild h1 n = 0" using n by (simp add: maxchild_def h1_def)
  then have "percolate_down n h1 = put_node h1 n a"
    using pos by (simp add: percolate_down_def percolate_down_loop.simps h1_def)
  then have "percolate_down n h1 = h1"
    using pos(2) a last [folded n_def]
    by (auto simp: put_node_def h1_def hnode_def fun_upd_idem list_update_same_conv n(2))
  moreover have "(h_nodes h)[n := a] = h_nodes h" using pos(2) by (metis list_update_id)
  ultimately have r: "heap_remove a h = h1\<lparr>h_store := (h_store h1)(a := None)\<rparr>"
    using last pos n_def [symmetric]
    by (simp add: heap_remove_def Let_def prio_at_def hnode_def hc.irrefl h1_def)
  then show "heap_remove a h = h\<lparr>h_num := h_num h - 1, h_store := (h_store h)(a := None)\<rparr>"
    by (simp add: h1_def n_def)
  have sl: "slots h1 = slots h - {n}" using n by (auto simp: h1_def slots_def n_def)
  have lk: "linked h (slots h)" and dm: "dom (h_store h) = (\<lambda>i. h_nodes h ! i) ` slots h"
    using inv by (auto simp: heap_inv_def)
  have "(\<lambda>i. h_nodes h ! i) ` (slots h - {n}) = (\<lambda>i. h_nodes h ! i) ` slots h - {a}"
    using image_remove_inj [OF linked_inj_on [OF lk] pos(1)] pos(2) by simp
  moreover have "linked h1 (slots h1)" using lk sl by (simp add: linked_def h1_def)
  moreover have "hc.ord_ok (h_type h1) (prio_at h1) (h_num h1)"
    using inv by (auto simp: heap_inv_def hc.ord_ok_def prio_at_def hnode_def h1_def n_def)
  ultimately show "heap_inv (heap_remove a h)"
    unfolding r using n inv dm sl by (intro heap_inv_delete) (auto simp: h1_def heap_inv_def)
qed

text \<open>The node removed from slot \<open>i\<close>, before the last one: the last node fills the hole.\<close>

lemma heap_remove_hole:
  fixes h :: "'d heap"
  assumes inv: "heap_inv h" and i: "i \<in> slots h" and mid: "i \<noteq> h_num h - 1"
  defines "n \<equiv> h_num h - 1"
  defines "h1 \<equiv> h\<lparr>h_num := n, h_nodes := (h_nodes h)[i := h_nodes h ! n]\<rparr>"
  shows "hole_inv h1 (h_nodes h1 ! i) i"
    and "live_hole h1 (h_nodes h1 ! i) i = dom (h_store h) - {h_nodes h ! i}"
    and "hole_key h1 (h_nodes h1 ! i) i = (prio_at h)(i := prio_at h n)"
proof -
  have lk: "linked h (slots h)" and len: "h_num h \<le> length (h_nodes h)"
    and dm: "dom (h_store h) = (\<lambda>i. h_nodes h ! i) ` slots h"
    using inv by (auto simp: heap_inv_def)
  have i1: "1 \<le> i" "i < n" and nn: "n < h_num h" "n \<in> slots h"
    using i mid by (auto simp: slots_def n_def)
  have nth: "h_nodes h1 ! j = (if j = i then h_nodes h ! n else h_nodes h ! j)" for j
    using i1 nn len by (auto simp: h1_def nth_list_update)
  have sl: "slots h1 = slots h - {n}" "i \<in> slots h1" using i1 nn by (auto simp: h1_def slots_def n_def)
  have st1: "h_store h1 = h_store h" "h_num h1 = n" "hnode h1 = hnode h" "length (h_nodes h1) = length (h_nodes h)"
    by (simp_all add: h1_def hnode_def fun_eq_iff)
  have img: "(\<lambda>j. h_nodes h1 ! j) ` (slots h1 - {i}) = (\<lambda>j. h_nodes h ! j) ` (slots h - {n, i})"
    using nth sl by (intro image_cong) auto
  have "linked h1 (slots h1 - {i})" using lk nth sl by (auto simp: linked_def st1)
  moreover have "h_nodes h ! n \<notin> (\<lambda>j. h_nodes h ! j) ` (slots h - {n, i})"
    using linked_inj [OF lk nn(2)] by blast
  moreover have "h_store h (h_nodes h ! n) \<noteq> None" by (rule linkedD [OF lk nn(2)])
  ultimately show "hole_inv h1 (h_nodes h1 ! i) i"
    unfolding hole_inv_def img using sl(2) nn len nth by (simp add: st1)
  have "live_hole h1 (h_nodes h1 ! i) i = (\<lambda>j. h_nodes h ! j) ` insert n (slots h - {n, i})"
    unfolding live_hole_def img using nth by simp
  also have "insert n (slots h - {n, i}) = slots h - {i}" using nn i1 by auto
  also have "(\<lambda>j. h_nodes h ! j) ` (slots h - {i}) = dom (h_store h) - {h_nodes h ! i}"
    unfolding dm by (rule image_remove_inj [OF linked_inj_on [OF lk] i])
  finally show "live_hole h1 (h_nodes h1 ! i) i = dom (h_store h) - {h_nodes h ! i}" .
  show "hole_key h1 (h_nodes h1 ! i) i = (prio_at h)(i := prio_at h n)"
    using nth by (auto simp: hole_key_def prio_at_def st1 fun_eq_iff)
qed

lemma heap_remove_middle:
  assumes inv: "heap_inv h" and i: "i \<in> slots h" and mid: "i \<noteq> h_num h - 1"
  defines "a \<equiv> h_nodes h ! i"
  obtains h2 where "heap_remove a h = h2\<lparr>h_store := (h_store h2)(a := None)\<rparr>"
    and "heap_abs h2 = heap_abs h" and "h_num h2 = h_num h - 1" and "h_type h2 = h_type h"
    and "heap_inv (h2\<lparr>h_store := (h_store h2)(a := None)\<rparr>)" and "i \<noteq> 1 \<Longrightarrow> h_nodes h2 ! 1 = h_nodes h ! 1"
proof -
  define n where "n = h_num h - 1"
  define h1 where "h1 = h\<lparr>h_num := n, h_nodes := (h_nodes h)[i := h_nodes h ! n]\<rparr>"
  define h2 where "h2 = (if heap_compare (h_type h) (prio_at h i) (prio_at h n)
      then bubble_up i h1 else percolate_down i h1)"
  note hole = heap_remove_hole [OF inv i mid, folded n_def, folded h1_def]
  have i1: "1 \<le> i" "i < n" "n < h_num h" using i mid by (auto simp: slots_def n_def)
  have ord: "hc.ord_ok (h_type h) (prio_at h) (h_num h)"
    and len: "h_num h \<le> h_size h" "length (h_nodes h) = h_size h" using inv by (auto simp: heap_inv_def)
  then have ordn: "hc.ord_ok (h_type h) (prio_at h) n" using i1 by (auto simp: hc.ord_ok_def)
  have st1: "h_type h1 = h_type h" "h_num h1 = n" "h_size h1 = h_size h" "hnode h1 = hnode h"
    "heap_abs h1 = heap_abs h" "length (h_nodes h1) = length (h_nodes h)" "h_store h1 = h_store h"
    by (simp_all add: h1_def hnode_def heap_abs_def fun_eq_iff)
  have nth: "h_nodes h1 ! i = h_nodes h ! n" "i \<noteq> 1 \<Longrightarrow> h_nodes h1 ! 1 = h_nodes h ! 1"
    using i1 len by (auto simp: h1_def)
  have st: "settled h1 (h_nodes h1 ! i) i h2"
    using bubble_up_settled [OF hole(1)] percolate_down_settled [OF hole(1)]
      hc.replace_key [OF ordn i1(1,2), of "prio_at h n"] unfolding h2_def hole(3) st1 by auto
  have pi: "prio_at h1 i = prio_at h n" using nth by (simp add: prio_at_def st1)
  have pos: "position (hnode h a) = i" using inv i by (auto simp: heap_inv_def linked_def hnode_def a_def)
  have r: "heap_remove a h = h2\<lparr>h_store := (h_store h2)(a := None)\<rparr>"
    unfolding heap_remove_def Let_def pos n_def [symmetric] h1_def [symmetric] h2_def
    using pi by (simp add: st1 a_def prio_at_def)
  have "(\<lambda>j. h_nodes h2 ! j) ` slots h2 = dom (h_store h2) - {a}"
    using st hole(2) dom_heap_abs [of h2] dom_heap_abs [of h1] st1
    by (simp add: settled_def slots_def a_def)
  then have "heap_inv (h2\<lparr>h_store := (h_store h2)(a := None)\<rparr>)"
    using st st1 i1 len by (intro heap_inv_delete) (auto simp: settled_def slots_def)
  moreover have "h_nodes h2 ! 1 = h_nodes h ! 1" if "i \<noteq> 1"
  proof -
    have "\<not> heap_compare (h_type h1) (prio_at h1 1) (prio_at h1 i)"
      using hc.root_best [OF ord, of n] i1 pi nth that st1 by (simp add: prio_at_def)
    then have "h_nodes h2 ! 1 = h_nodes h1 ! 1"
      using bubble_up_root [of i h1] percolate_down_root [of i h1] i1 that len st1 by (simp add: h2_def)
    then show ?thesis using nth that by simp
  qed
  ultimately show ?thesis using that [OF r] st st1 by (simp add: settled_def n_def)
qed

lemma heap_remove_spec:
  assumes inv: "heap_inv h" and a: "heap_abs h a \<noteq> None"
  shows "heap_inv (heap_remove a h)" and "heap_abs (heap_remove a h) = (heap_abs h)(a := None)"
    and "h_num (heap_remove a h) = h_num h - 1" and "h_type (heap_remove a h) = h_type h"
    and "heap_top h = Some b \<Longrightarrow> a \<noteq> b \<Longrightarrow> heap_top (heap_remove a h) = Some b"
proof -
  have ad: "a \<in> dom (h_store h)" using a dom_heap_abs by blast
  define i where "i = position (hnode h a)"
  have i: "i \<in> slots h" "h_nodes h ! i = a" using heap_inv_position [OF inv ad] by (simp_all add: i_def)
  have "heap_inv (heap_remove a h) \<and> heap_abs (heap_remove a h) = (heap_abs h)(a := None)
      \<and> h_num (heap_remove a h) = h_num h - 1 \<and> h_type (heap_remove a h) = h_type h
      \<and> (i \<noteq> 1 \<longrightarrow> h_nodes (heap_remove a h) ! 1 = h_nodes h ! 1)"
  proof (cases "i = h_num h - 1")
    case True
    then show ?thesis using heap_remove_last [OF inv ad] i_def
      by (auto simp: heap_abs_def fun_eq_iff)
  next
    case False
    obtain h2 where h2: "heap_remove a h = h2\<lparr>h_store := (h_store h2)(a := None)\<rparr>"
      "heap_abs h2 = heap_abs h" "h_num h2 = h_num h - 1" "h_type h2 = h_type h"
      "heap_inv (h2\<lparr>h_store := (h_store h2)(a := None)\<rparr>)" "i \<noteq> 1 \<Longrightarrow> h_nodes h2 ! 1 = h_nodes h ! 1"
      using heap_remove_middle [OF inv i(1) False] i(2) by metis
    have "heap_abs (heap_remove a h) = (heap_abs h2)(a := None)"
      unfolding h2(1) by (auto simp: heap_abs_def fun_eq_iff)
    then show ?thesis using h2 by simp
  qed
  note all = this
  show "heap_inv (heap_remove a h)" "heap_abs (heap_remove a h) = (heap_abs h)(a := None)"
    "h_num (heap_remove a h) = h_num h - 1" "h_type (heap_remove a h) = h_type h"
    using all by blast+
  assume top: "heap_top h = Some b" "a \<noteq> b"
  then have "i \<noteq> 1" "b = h_nodes h ! 1" using i by (auto simp: heap_top_def split: if_splits)
  moreover have "h_num h - 1 \<noteq> 1" using i \<open>i \<noteq> 1\<close> by (auto simp: slots_def)
  ultimately show "heap_top (heap_remove a h) = Some b" using all by (simp add: heap_top_def)
qed

text \<open>\<^verbatim>\<open>top\<close> finds a node no other node comes before; \<^verbatim>\<open>pop\<close> removes exactly that node.\<close>

lemma heap_top_spec:
  assumes inv: "heap_inv h"
  shows "heap_top h = None \<longleftrightarrow> heap_abs h = Map.empty"
    and "heap_top h = Some a \<Longrightarrow> heap_abs h a = Some (prio_at h 1, node_data (hnode h a))"
    and "heap_top h = Some a \<Longrightarrow> heap_abs h b = Some (q, e) \<Longrightarrow>
      \<not> heap_compare (h_type h) (prio_at h 1) q"
proof -
  have n: "1 \<le> h_num h" and dm: "dom (h_store h) = (\<lambda>i. h_nodes h ! i) ` slots h"
    and ord: "hc.ord_ok (h_type h) (prio_at h) (h_num h)" using inv by (auto simp: heap_inv_def)
  have "heap_abs h = Map.empty \<longleftrightarrow> slots h = {}"
    using dom_heap_abs [of h] dm by (metis dom_eq_empty_conv image_is_empty)
  then show "heap_top h = None \<longleftrightarrow> heap_abs h = Map.empty"
    using n by (auto simp: heap_top_def slots_def)
  {
    assume "heap_top h = Some a"
    then have "1 \<in> slots h" "a = h_nodes h ! 1" using n by (auto simp: heap_top_def slots_def split: if_splits)
    then show "heap_abs h a = Some (prio_at h 1, node_data (hnode h a))"
      using heap_inv_store [OF inv] by (force simp: heap_abs_def prio_at_def hnode_def)
  }
  assume b: "heap_abs h b = Some (q, e)"
  then obtain j where j: "j \<in> slots h" "b = h_nodes h ! j" using dm dom_heap_abs [of h] by force
  then have "q = prio_at h j" using b by (auto simp: heap_abs_def prio_at_def hnode_def)
  then show "\<not> heap_compare (h_type h) (prio_at h 1) q"
    using hc.root_best [OF ord, of j] j by (auto simp: slots_def)
qed

lemma percolate_down_data: "node_data (hnode (percolate_down i h) b) = node_data (hnode h b)"
proof -
  have put: "node_data (hnode (put_node h i a) b) = node_data (hnode h b)" for h :: "'a heap" and i a
    by (simp add: hnode_def store_put_node)
  have "node_data (hnode (snd (percolate_down_loop m i h)) b) = node_data (hnode h b)"
    for m i and h :: "'a heap"
  proof (induction m i h rule: percolate_down_loop.induct)
    case (1 m i h)
    then show ?case by (subst percolate_down_loop.simps) (simp add: Let_def put)
  qed
  from this [of "h_nodes h ! i" i h] show ?thesis
    by (cases "percolate_down_loop (h_nodes h ! i) i h") (simp add: percolate_down_def Let_def put)
qed

lemma heap_pop_remove:
  assumes inv: "heap_inv h" and top: "heap_top h = Some a"
  shows "heap_pop h = (Some (node_data (hnode h a)), heap_remove a h)"
proof -
  define n where "n = h_num h - 1"
  define h1 where "h1 = h\<lparr>h_num := n, h_nodes := (h_nodes h)[1 := h_nodes h ! n]\<rparr>"
  have ne: "h_num h \<noteq> 1" "1 \<le> h_num h" and a: "a = h_nodes h ! 1"
    using top inv by (auto simp: heap_top_def heap_inv_def split: if_splits)
  then have s1: "1 \<in> slots h" by (auto simp: slots_def)
  have pos: "position (hnode h a) = 1" using inv s1 a by (auto simp: heap_inv_def linked_def hnode_def)
  have "n \<in> slots h" using ne by (auto simp: slots_def n_def)
  then have "\<not> heap_compare (h_type h) (prio_at h 1) (prio_at h n)"
    using hc.root_best inv by (auto simp: heap_inv_def slots_def)
  moreover have "prio_at h1 1 = prio_at h n"
    using ne inv by (auto simp: prio_at_def h1_def hnode_def heap_inv_def)
  moreover have "priority (hnode h1 a) = prio_at h 1" "h_type h1 = h_type h"
    using a by (simp_all add: h1_def hnode_def prio_at_def)
  ultimately have r: "heap_remove a h = (percolate_down 1 h1)\<lparr>h_store := (h_store (percolate_down 1 h1))(a := None)\<rparr>"
    unfolding heap_remove_def Let_def pos n_def [symmetric] h1_def [symmetric] by simp
  have "node_data (hnode (percolate_down 1 h1) a) = node_data (hnode h a)"
    by (simp add: percolate_down_data) (simp add: h1_def hnode_def)
  then show ?thesis
    unfolding heap_pop_def Let_def heap_count_def a [symmetric] n_def [symmetric] h1_def [symmetric] r
    using ne by (simp add: n_def)
qed

subsection \<open>The interface the heap offers\<close>

text \<open>
  What a client of the heap relies on: the contents are a map from node handles to
  (priority, data), every operation changes that map in the obvious way and keeps the
  invariant, and the top is a best node which stays on top while worse nodes come and
  other nodes go.
\<close>

locale indexed_heap =
  fixes inv :: "'h \<Rightarrow> bool" and abs :: "'h \<Rightarrow> addr \<rightharpoonup> (u64 \<times> 'd)" and better :: "'h \<Rightarrow> u64 \<Rightarrow> u64 \<Rightarrow> bool"
    and top :: "'h \<Rightarrow> addr option" and pop :: "'h \<Rightarrow> 'd option \<times> 'h"
    and remove :: "addr \<Rightarrow> 'h \<Rightarrow> 'h" and change :: "u64 \<Rightarrow> addr \<Rightarrow> 'h \<Rightarrow> 'h"
    and room :: "'h \<Rightarrow> bool" and push :: "'e \<Rightarrow> addr \<Rightarrow> u64 \<Rightarrow> 'd \<Rightarrow> 'h \<Rightarrow> addr option \<times> 'h"
  assumes top_None: "inv h \<Longrightarrow> top h = None \<longleftrightarrow> abs h = Map.empty"
    and top_Some: "inv h \<Longrightarrow> top h = Some a \<Longrightarrow> \<exists>p d. abs h a = Some (p, d)"
    and top_best: "inv h \<Longrightarrow> top h = Some a \<Longrightarrow> abs h a = Some (p, d) \<Longrightarrow> abs h b = Some (q, e) \<Longrightarrow>
      \<not> better h q p"
    and pop_Some: "inv h \<Longrightarrow> top h = Some a \<Longrightarrow> abs h a = Some (p, d) \<Longrightarrow> pop h = (Some d, remove a h)"
    and pop_None: "inv h \<Longrightarrow> top h = None \<Longrightarrow> pop h = (None, h)"
    and remove_inv: "inv h \<Longrightarrow> abs h a \<noteq> None \<Longrightarrow> inv (remove a h)"
    and remove_abs: "inv h \<Longrightarrow> abs h a \<noteq> None \<Longrightarrow> abs (remove a h) = (abs h)(a := None)"
    and remove_top: "inv h \<Longrightarrow> abs h a \<noteq> None \<Longrightarrow> top h = Some b \<Longrightarrow> a \<noteq> b \<Longrightarrow> top (remove a h) = Some b"
    and remove_better: "inv h \<Longrightarrow> abs h a \<noteq> None \<Longrightarrow> better (remove a h) = better h"
    and change_inv: "inv h \<Longrightarrow> abs h a = Some (p, d) \<Longrightarrow> inv (change q a h)"
    and change_abs: "inv h \<Longrightarrow> abs h a = Some (p, d) \<Longrightarrow> abs (change q a h) = (abs h)(a \<mapsto> (q, d))"
    and push_inv: "inv h \<Longrightarrow> room h \<Longrightarrow> abs h a = None \<Longrightarrow> push env a p d h = (Some r, h') \<Longrightarrow> r = a \<and> inv h'"
    and push_abs: "inv h \<Longrightarrow> room h \<Longrightarrow> abs h a = None \<Longrightarrow> push env a p d h = (Some r, h') \<Longrightarrow>
      abs h' = (abs h)(a \<mapsto> (p, d))"
    and push_top: "inv h \<Longrightarrow> room h \<Longrightarrow> abs h a = None \<Longrightarrow> push env a p d h = (Some r, h') \<Longrightarrow>
      top h = Some b \<Longrightarrow> abs h b = Some (q, e) \<Longrightarrow> \<not> better h p q \<Longrightarrow> top h' = Some b"
    and push_None: "push env a p d h = (None, h') \<Longrightarrow> h' = h"
begin

text \<open>Popping until the heap is empty.\<close>

fun drain :: "nat \<Rightarrow> 'h \<Rightarrow> (addr \<times> u64 \<times> 'd) list" where
  "drain 0 h = []"
| "drain (Suc n) h = (case top h of None \<Rightarrow> []
     | Some a \<Rightarrow> (a, the (abs h a)) # drain n (snd (pop h)))"

lemma drain_step:
  assumes "inv h" and "top h = Some a"
  obtains p d where "abs h a = Some (p, d)" and "pop h = (Some d, remove a h)" and "inv (remove a h)"
    and "abs (remove a h) = (abs h)(a := None)" and "better (remove a h) = better h"
  using top_Some [OF assms] pop_Some [OF assms] remove_inv [OF assms(1), of a]
    remove_abs [OF assms(1), of a] remove_better [OF assms(1), of a] by fastforce

lemma drain_set:
  assumes "inv h" and "finite (dom (abs h))" and "card (dom (abs h)) \<le> n"
  shows "set (drain n h) = {(a, x). abs h a = Some x}"
  using assms
proof (induction n arbitrary: h)
  case 0
  then have "dom (abs h) = {}" by simp
  then show ?case by auto
next
  case (Suc n)
  show ?case
  proof (cases "top h")
    case None
    then have "abs h = Map.empty" using top_None [OF Suc.prems(1)] by simp
    then show ?thesis using None by simp
  next
    case (Some a)
    obtain p d where s: "abs h a = Some (p, d)" "pop h = (Some d, remove a h)" "inv (remove a h)"
      "abs (remove a h) = (abs h)(a := None)" by (rule drain_step [OF Suc.prems(1) Some])
    have "a \<in> dom (abs h)" using s(1) by auto
    then have "finite (dom (abs (remove a h)))" "card (dom (abs (remove a h))) \<le> n"
      using Suc.prems s(4) by (simp_all add: dom_fun_upd card_Diff_singleton)
    then have "set (drain n (remove a h)) = {(b, x). abs (remove a h) b = Some x}"
      by (rule Suc.IH [OF s(3)])
    then show ?thesis using Some s by (auto split: if_splits)
  qed
qed

lemma drain_mem:
  "inv h \<Longrightarrow> x \<in> set (drain n h) \<Longrightarrow> abs h (fst x) = Some (snd x)"
proof (induction n arbitrary: h)
  case (Suc n)
  obtain a where Some: "top h = Some a" using Suc.prems(2) by (cases "top h") auto
  obtain p d where s: "abs h a = Some (p, d)" "pop h = (Some d, remove a h)" "inv (remove a h)"
    "abs (remove a h) = (abs h)(a := None)" by (rule drain_step [OF Suc.prems(1) Some])
  then show ?case using Suc.IH [OF s(3)] Suc.prems(2) Some by (auto split: if_splits)
qed simp

lemma drain_sorted:
  "inv h \<Longrightarrow> sorted_wrt (\<lambda>x y. \<not> better h (fst (snd y)) (fst (snd x))) (drain n h)"
proof (induction n arbitrary: h)
  case (Suc n)
  show ?case
  proof (cases "top h")
    case (Some a)
    obtain p d where s: "abs h a = Some (p, d)" "pop h = (Some d, remove a h)" "inv (remove a h)"
      "abs (remove a h) = (abs h)(a := None)" "better (remove a h) = better h"
      by (rule drain_step [OF Suc.prems Some])
    have "\<not> better h (fst (snd y)) p" if "y \<in> set (drain n (remove a h))" for y
    proof -
      have "abs h (fst y) = Some (fst (snd y), snd (snd y))"
        using drain_mem [OF s(3) that] s(4) by (auto split: if_splits)
      then show ?thesis using top_best [OF Suc.prems Some s(1)] by blast
    qed
    then show ?thesis using Some s Suc.IH [OF s(3)] by simp
  qed simp
qed simp

end

definition heap_room :: "'d heap \<Rightarrow> bool" where
  "heap_room h \<longleftrightarrow> h_num h < 2147483648"

interpretation hp: indexed_heap heap_inv heap_abs "\<lambda>h p q. heap_compare (h_type h) q p"
  heap_top heap_pop heap_remove heap_change_priority heap_room
  "\<lambda>(mem, pos0) a p d h. heap_push mem a pos0 p d h"
proof (unfold_locales, goal_cases)
  case (1 h)
  then show ?case by (rule heap_top_spec(1))
next
  case (2 h a)
  then show ?case using heap_top_spec(2) by blast
next
  case (3 h a p d b q e)
  then show ?case using heap_top_spec(2) [of h a] heap_top_spec(3) [of h a b q e] by simp
next
  case (4 h a p d)
  then show ?case using heap_pop_remove [of h a] by (auto simp: heap_abs_def hnode_def)
next
  case (5 h)
  then show ?case by (simp add: heap_pop_def heap_top_def heap_count_def split: if_splits)
next
  case (12 h a env p d r h')
  then show ?case using heap_push_spec(1,2) [of h a "fst env" "snd env" p d r h'] dom_heap_abs [of h]
    by (auto simp: heap_room_def split: prod.splits)
next
  case (13 h a env p d r h')
  then show ?case using heap_push_spec(3) [of h a "fst env" "snd env" p d r h'] dom_heap_abs [of h]
    by (auto simp: heap_room_def split: prod.splits)
next
  case (14 h a env p d r h' b q e)
  then show ?case
    using heap_push_spec(6) [of h a "fst env" "snd env" p d r h' b] dom_heap_abs [of h] heap_top_spec(2) [of h b]
    by (auto simp: heap_room_def split: prod.splits)
next
  case (15 env a p d h h')
  then show ?case by (auto simp: heap_push_fails split: prod.splits)
next
  case (8 h a b)
  then show ?case by (rule heap_remove_spec(5))
qed (simp_all add: heap_remove_spec(1,2,4) heap_change_priority_spec(1,2))


subsection \<open>Properties\<close>

text \<open>A heap with room for four nodes and two entries.\<close>

definition sample_heap :: "nat heap" where
  "sample_heap = \<lparr>h_num = 3, h_size = 5, h_type = MIN_HEAP, h_nodes = [0, 7, 9, 0, 0],
     h_store = [7 \<mapsto> \<lparr>priority = 10, position = 1, node_data = 70\<rparr>, 9 \<mapsto> \<lparr>priority = 20, position = 2, node_data = 90\<rparr>]\<rparr>"

lemma sample_heap_inv: "heap_inv sample_heap"
proof -
  have s: "slots sample_heap = {1, 2}" by (auto simp: slots_def sample_heap_def)
  have "linked sample_heap (slots sample_heap)" unfolding s by (simp add: linked_def sample_heap_def)
  moreover have "dom (h_store sample_heap) = (\<lambda>i. h_nodes sample_heap ! i) ` slots sample_heap"
    unfolding s by (auto simp: sample_heap_def)
  moreover have "hc.ord_ok (h_type sample_heap) (prio_at sample_heap) (h_num sample_heap)"
    unfolding hc.ord_ok_def
  proof (intro allI impI)
    fix i assume "1 < i \<and> i < h_num sample_heap"
    then have "i = 2" by (simp add: sample_heap_def)
    then show "\<not> heap_compare (h_type sample_heap) (prio_at sample_heap (i div 2)) (prio_at sample_heap i)"
      by (simp add: sample_heap_def heap_compare_def prio_at_def hnode_def)
  qed
  ultimately show ?thesis by (simp add: heap_inv_def) (simp add: sample_heap_def)
qed

text \<open>
  C3. \<^verbatim>\<open>Heap::push\<close> refines insertion into a map from handles to entries: it adds exactly the
  new node and keeps the invariant (heap order, back pointers, array bounds), also when the
  array has to grow; it fails only when the array is full and the allocator has no memory,
  and then changes nothing.
\<close>

theorem heap_push_correct:
  assumes "heap_inv h" and "h_num h < 2147483648" and "heap_abs h a = None"
  shows "case heap_push mem a pos0 p d h of
      (None, h') \<Rightarrow> h' = h \<and> mem = None \<and> h_num h = h_size h
    | (Some r, h') \<Rightarrow> r = a \<and> heap_inv h' \<and> heap_abs h' = (heap_abs h)(a \<mapsto> (p, d)) \<and>
        heap_count h' = heap_count h + 1 \<and> h_type h' = h_type h"
proof -
  have nin: "a \<notin> dom (h_store h)" using assms(3) dom_heap_abs [of h] by auto
  obtain q h' where q: "heap_push mem a pos0 p d h = (q, h')" by fastforce
  have n: "1 \<le> h_num h" "h_num h \<le> h_size h" using assms(1) by (auto simp: heap_inv_def)
  show ?thesis
  proof (cases q)
    case None
    then show ?thesis using q heap_push_fails [of mem a pos0 p d h h'] n by auto
  next
    case (Some r)
    then show ?thesis using q heap_push_spec [OF assms(1,2) nin, of mem pos0 p d r h'] n by (simp add: heap_count_def)
  qed
qed

theorem heap_push_correct_witness:
  "\<exists>h'. heap_push None 4 0 5 40 sample_heap = (Some 4, h') \<and> heap_inv h' \<and> heap_abs h' 4 = Some (5, 40)"
proof -
  have "heap_abs sample_heap 4 = None" "h_num sample_heap < 2147483648" "fst (heap_push None 4 0 5 40 sample_heap) = Some 4"
    by (simp_all add: sample_heap_def heap_abs_def heap_push_def Let_def)
  then show ?thesis using heap_push_correct [OF sample_heap_inv, of 4 None 5 40 0]
    by (cases "heap_push None 4 0 5 40 sample_heap") auto
qed



text \<open>
  C9. Handles stay valid: \<^verbatim>\<open>Heap::remove\<close> takes out exactly the node of the given handle, and
  \<^verbatim>\<open>Heap::change_priority\<close> changes exactly its priority, wherever in the array the node has
  moved, and both keep the invariant and all other entries.
\<close>

theorem heap_handle_correct:
  assumes "heap_inv h" and "heap_abs h a = Some (p, d)"
  shows "heap_inv (heap_remove a h) \<and> heap_abs (heap_remove a h) = (heap_abs h)(a := None) \<and>
    heap_count (heap_remove a h) = heap_count h - 1 \<and>
    heap_inv (heap_change_priority q a h) \<and> heap_abs (heap_change_priority q a h) = (heap_abs h)(a \<mapsto> (q, d)) \<and>
    heap_count (heap_change_priority q a h) = heap_count h"
  using heap_remove_spec [OF assms(1), of a] heap_change_priority_spec [OF assms, of q] assms(2)
  by (simp add: heap_count_def)

theorem heap_handle_correct_witness:
  "heap_inv (heap_remove 7 sample_heap) \<and> heap_abs (heap_change_priority 30 7 sample_heap) 7 = Some (30, 70)"
  using heap_handle_correct [OF sample_heap_inv, of 7 10 70 30] by (simp add: heap_abs_def sample_heap_def)

end
