(* ===== verification/Osw_Timer.thy ===== *)
theory Osw_Timer
  imports Osw_Heap
begin

text \<open>
  The timer of \<^verbatim>\<open>src/core/timer.cc\<close> and \<^verbatim>\<open>include/openswoole_timer.h\<close>, on top of the heap.
  A \<^verbatim>\<open>TimerNode\<close> is an object in an explicit store; the heap holds its address as data and
  the id map holds it as value. The clock is an input: each call that reads it takes the
  reading as an argument. A callback is user code; the timer sees it only through the timer
  calls it makes, so the model takes them as a parameter (a function from the callback, the
  fired node and the current state to a list of calls). \<^verbatim>\<open>new\<close> hands out addresses from a
  counter; the code never orders or reuses addresses. The log records which timers fired
  and which were removed or had their destructor run; the program has no such list, and no operation reads it.
\<close>

subsection \<open>Relative time\<close>

text \<open>\<^verbatim>\<open>timeval\<close> as (seconds, microseconds). C division truncates towards zero.\<close>

type_synonym timeval = "int \<times> int"

definition c_quot :: "int \<Rightarrow> int \<Rightarrow> int" where
  "c_quot a b = (if 0 \<le> a then a div b else - ((- a) div b))"

definition get_relative_msec :: "timeval \<Rightarrow> timeval option \<Rightarrow> int" where
  "get_relative_msec base now = (case now of
      None \<Rightarrow> -1
    | Some (sec, usec) \<Rightarrow> (sec - fst base) * 1000 + c_quot (usec - snd base) 1000)"

definition get_absolute_msec :: "timeval option \<Rightarrow> int" where
  "get_absolute_msec now = (case now of
      None \<Rightarrow> -1 | Some (sec, usec) \<Rightarrow> sec * 1000 + c_quot usec 1000)"

subsection \<open>Data\<close>

datatype timer_type = TYPE_KERNEL | TYPE_PHP

record ('c, 'x) timer_node =
  tn_id :: int
  tn_type :: timer_type
  exec_msec :: int
  interval :: int
  tn_round :: u64
  removed :: bool
  heap_node :: "addr option"
  callback :: 'c
  tn_data :: 'x
  destructor :: bool

datatype timer_event = Fired int | Removed int | Destructed int

record ('c, 'x) timer =
  t_heap :: "addr heap"
  t_map :: "int \<rightharpoonup> addr"
  t_nodes :: "addr \<rightharpoonup> ('c, 'x) timer_node"
  t_round :: u64
  t_next_id :: int
  t_current_id :: int
  next_msec :: int
  timeout_msec :: int
  t_brk :: addr
  t_log :: "timer_event list"

definition tnode :: "('c, 'x) timer \<Rightarrow> addr \<Rightarrow> ('c, 'x) timer_node" where
  "tnode t a = the (t_nodes t a)"

subsection \<open>Operations\<close>

text \<open>\<^verbatim>\<open>Timer::Timer\<close>: the heap has 1024 slots.\<close>

definition timer_new :: "(nat \<Rightarrow> addr) option \<Rightarrow> ('c, 'x) timer option" where
  "timer_new mem = map_option (\<lambda>h.
     \<lparr>t_heap = h, t_map = Map.empty, t_nodes = Map.empty, t_round = 0, t_next_id = 1,
      t_current_id = -1, next_msec = -1, timeout_msec = -1, t_brk = 0, t_log = []\<rparr>)
     (heap_new mem 1024 MIN_HEAP)"

text \<open>\<^verbatim>\<open>_next_id++\<close> on a 64-bit \<^verbatim>\<open>long\<close>.\<close>

definition next_long :: "int \<Rightarrow> int" where
  "next_long i = (if i = 9223372036854775807 then -9223372036854775808 else i + 1)"

definition set_timeout :: "int \<Rightarrow> ('c, 'x) timer \<Rightarrow> ('c, 'x) timer" where
  "set_timeout msec t = t\<lparr>timeout_msec := msec\<rparr>"

definition timer_add ::
  "(nat \<Rightarrow> addr) option \<times> nat \<Rightarrow> int \<Rightarrow> int \<Rightarrow> bool \<Rightarrow> 'x \<Rightarrow> 'c \<Rightarrow> ('c, 'x) timer
     \<Rightarrow> addr option \<times> ('c, 'x) timer" where
  "timer_add env now_msec msec persistent data cb t =
     (if msec \<le> 0 then (None, t)
      else if now_msec < 0 then (None, t)
      else
        (let a = t_brk t; ha = t_brk t + 1;
             t1 = (if next_msec t < 0 \<or> next_msec t > msec
                   then (set_timeout msec t)\<lparr>next_msec := msec\<rparr> else t);
             new_id = t_next_id t1;
             (id', next') = (if new_id < 0 then (1, 2) else (new_id, next_long new_id));
             t2 = t1\<lparr>t_next_id := next', t_brk := t_brk t1 + 2\<rparr>;
             node = \<lparr>tn_id = id', tn_type = TYPE_KERNEL, exec_msec = now_msec + msec,
                     interval = (if persistent then msec else 0), tn_round = t_round t2,
                     removed = False, heap_node = Some ha, callback = cb, tn_data = data, destructor = False\<rparr>
         in case heap_push (fst env) ha (snd env) (word_of_int (exec_msec node)) a (t_heap t2) of
              (None, _) \<Rightarrow> (None, t2)
            | (Some _, h) \<Rightarrow>
                (Some a, t2\<lparr>t_heap := h, t_nodes := (t_nodes t2)(a \<mapsto> node),
                            t_map := (case t_map t2 id' of None \<Rightarrow> (t_map t2)(id' \<mapsto> a)
                                      | Some _ \<Rightarrow> t_map t2)\<rparr>)))"

definition timer_get :: "int \<Rightarrow> ('c, 'x) timer \<Rightarrow> addr option" where
  "timer_get i t = t_map t i"

definition timer_count :: "('c, 'x) timer \<Rightarrow> nat" where
  "timer_count t = card (dom (t_map t))"

definition timer_remove :: "addr option \<Rightarrow> ('c, 'x) timer \<Rightarrow> bool \<times> ('c, 'x) timer" where
  "timer_remove p t = (case p of
      None \<Rightarrow> (False, t)
    | Some a \<Rightarrow>
       (let n = tnode t a in
        if removed n then (False, t)
        else if t_current_id t > 0 \<and> tn_id n = t_current_id t then
          (True, t\<lparr>t_nodes := (t_nodes t)(a \<mapsto> n\<lparr>removed := True\<rparr>), t_log := t_log t @ [Removed (tn_id n)]\<rparr>)
        else if t_map t (tn_id n) = None then (False, t)
        else
          (True, t\<lparr>t_map := (t_map t)(tn_id n := None),
                   t_heap := (case heap_node n of None \<Rightarrow> t_heap t | Some ha \<Rightarrow> heap_remove ha (t_heap t)),
                   t_nodes := (t_nodes t)(a := None),
                   t_log := t_log t @ Removed (tn_id n) # (if destructor n then [Destructed (tn_id n)] else [])\<rparr>)))"

definition timer_update :: "addr \<Rightarrow> ('c, 'x) timer \<Rightarrow> ('c, 'x) timer" where
  "timer_update a t =
     t\<lparr>t_heap := heap_change_priority (word_of_int (exec_msec (tnode t a))) (the (heap_node (tnode t a))) (t_heap t)\<rparr>"

definition timer_delay :: "int \<Rightarrow> addr \<Rightarrow> int \<Rightarrow> ('c, 'x) timer \<Rightarrow> ('c, 'x) timer" where
  "timer_delay now_ms a delay_ms t =
     (let n = tnode t a in
      timer_update a (t\<lparr>t_nodes := (t_nodes t)(a \<mapsto>
        n\<lparr>exec_msec := (if now_ms < 0 then exec_msec n else now_ms) + delay_ms\<rparr>)\<rparr>))"

text \<open>What a callback does to the timer, one call at a time.\<close>

datatype ('c, 'x) timer_call =
    CallAdd "(nat \<Rightarrow> addr) option \<times> nat" int int bool 'x 'c
  | CallRemove int

fun do_call :: "('c, 'x) timer_call \<Rightarrow> ('c, 'x) timer \<Rightarrow> ('c, 'x) timer" where
  "do_call (CallAdd env now_msec msec persistent data cb) t =
     snd (timer_add env now_msec msec persistent data cb t)"
| "do_call (CallRemove i) t = snd (timer_remove (timer_get i t) t)"

definition do_calls :: "('c, 'x) timer_call list \<Rightarrow> ('c, 'x) timer \<Rightarrow> ('c, 'x) timer" where
  "do_calls cs t = fold do_call cs t"

text \<open>\<^verbatim>\<open>while (tnode->exec_msec <= now_msec) tnode->exec_msec += tnode->interval\<close>, which the
  code enters only with a positive interval.\<close>

function advance :: "int \<Rightarrow> int \<Rightarrow> int \<Rightarrow> int" where
  "advance now_msec iv e = (if e \<le> now_msec \<and> 0 < iv then advance now_msec iv (e + iv) else e)"
  by pat_completeness auto
termination
  by (relation "measure (\<lambda>(now_msec, iv, e). nat (now_msec + 1 - e))") auto

declare advance.simps [simp del]

text \<open>The body of the loop of \<^verbatim>\<open>select\<close> for the top node, whose heap node is \<open>tmp\<close>.\<close>

definition select_step ::
  "('c \<Rightarrow> addr \<Rightarrow> ('c, 'x) timer \<Rightarrow> ('c, 'x) timer_call list) \<Rightarrow> int \<Rightarrow> addr \<Rightarrow> addr
     \<Rightarrow> ('c, 'x) timer \<Rightarrow> ('c, 'x) timer" where
  "select_step cb now_msec tmp a t =
     (let n = tnode t a;
          t1 = t\<lparr>t_current_id := tn_id n\<rparr>;
          t2 = (if removed n then t1
                else let tf = t1\<lparr>t_log := t_log t1 @ [Fired (tn_id n)]\<rparr> in do_calls (cb (callback n) a tf) tf);
          t3 = t2\<lparr>t_current_id := -1\<rparr>;
          n3 = tnode t3 a
      in if interval n3 > 0 \<and> \<not> removed n3 then
           (let e = advance now_msec (interval n3) (exec_msec n3) in
            t3\<lparr>t_nodes := (t_nodes t3)(a \<mapsto> n3\<lparr>exec_msec := e\<rparr>),
               t_heap := heap_change_priority (word_of_int e) tmp (t_heap t3)\<rparr>)
         else t3\<lparr>t_heap := snd (heap_pop (t_heap t3)), t_map := (t_map t3)(tn_id n3 := None),
                 t_nodes := (t_nodes t3)(a := None)\<rparr>)"

text \<open>The loop; the result carries the node at which it stopped, if any was left.\<close>

partial_function (option) select_loop ::
  "('c \<Rightarrow> addr \<Rightarrow> ('c, 'x) timer \<Rightarrow> ('c, 'x) timer_call list) \<Rightarrow> int \<Rightarrow> ('c, 'x) timer
     \<Rightarrow> (addr option \<times> ('c, 'x) timer) option" where
  "select_loop cb now_msec t = (case heap_top (t_heap t) of
      None \<Rightarrow> Some (None, t)
    | Some tmp \<Rightarrow>
        (let a = node_data (hnode (t_heap t) tmp) in
         if exec_msec (tnode t a) > now_msec \<or> tn_round (tnode t a) = t_round t then Some (Some a, t)
         else select_loop cb now_msec (select_step cb now_msec tmp a t)))"

definition timer_select ::
  "('c \<Rightarrow> addr \<Rightarrow> ('c, 'x) timer \<Rightarrow> ('c, 'x) timer_call list) \<Rightarrow> int \<Rightarrow> ('c, 'x) timer
     \<Rightarrow> (int \<times> ('c, 'x) timer) option" where
  "timer_select cb now_msec t =
     (if now_msec < 0 then Some (-1, t)
      else map_option (\<lambda>(p, t').
        (let m = (case p of None \<Rightarrow> -1
                  | Some a \<Rightarrow> (let d = exec_msec (tnode t' a) - now_msec in if d \<le> 0 then 1 else d))
         in (0, (set_timeout m t')\<lparr>next_msec := m, t_round := t_round t' + 1\<rparr>)))
        (select_loop cb now_msec t))"


subsection \<open>The process-wide timer\<close>

text \<open>
  \<^verbatim>\<open>wrapper/timer.cc\<close>: the thread's timer is made on first use and every call is a no-op
  with a warning while there is none. \<open>clock\<close> says whether \<^verbatim>\<open>now\<close> succeeds in \<^verbatim>\<open>init\<close>.
\<close>

definition openswoole_timer_is_available :: "('c, 'x) timer option \<Rightarrow> bool" where
  "openswoole_timer_is_available g = (g \<noteq> None)"

definition openswoole_timer_add ::
  "(nat \<Rightarrow> addr) \<Rightarrow> bool \<Rightarrow> (nat \<Rightarrow> addr) option \<times> nat \<Rightarrow> int \<Rightarrow> int \<Rightarrow> bool \<Rightarrow> 'c \<Rightarrow> 'x \<Rightarrow> ('c, 'x) timer option
     \<Rightarrow> addr option \<times> ('c, 'x) timer option" where
  "openswoole_timer_add mem clock env now_msec ms persistent cb data g =
     (case (if openswoole_timer_is_available g then g else if clock then timer_new (Some mem) else None) of
        None \<Rightarrow> (None, None)
      | Some t \<Rightarrow> apsnd Some (timer_add env now_msec ms persistent data cb t))"

definition openswoole_timer_after ::
  "(nat \<Rightarrow> addr) \<Rightarrow> bool \<Rightarrow> (nat \<Rightarrow> addr) option \<times> nat \<Rightarrow> int \<Rightarrow> int \<Rightarrow> 'c \<Rightarrow> 'x \<Rightarrow> ('c, 'x) timer option
     \<Rightarrow> int \<times> ('c, 'x) timer option" where
  "openswoole_timer_after mem clock env now_msec ms cb data g =
     (if ms \<le> 0 then (-1, g)
      else case openswoole_timer_add mem clock env now_msec ms False cb data g of
             (Some a, Some t) \<Rightarrow> (tn_id (tnode t a), Some t) | (_, g') \<Rightarrow> (-1, g'))"

definition openswoole_timer_tick ::
  "(nat \<Rightarrow> addr) \<Rightarrow> bool \<Rightarrow> (nat \<Rightarrow> addr) option \<times> nat \<Rightarrow> int \<Rightarrow> int \<Rightarrow> 'c \<Rightarrow> 'x \<Rightarrow> ('c, 'x) timer option
     \<Rightarrow> int \<times> ('c, 'x) timer option" where
  "openswoole_timer_tick mem clock env now_msec ms cb data g =
     (if ms \<le> 0 then (-1, g)
      else case openswoole_timer_add mem clock env now_msec ms True cb data g of
             (Some a, Some t) \<Rightarrow> (tn_id (tnode t a), Some t) | (_, g') \<Rightarrow> (-1, g'))"

definition openswoole_timer_del :: "addr option \<Rightarrow> ('c, 'x) timer option \<Rightarrow> bool \<times> ('c, 'x) timer option" where
  "openswoole_timer_del p g = (case g of None \<Rightarrow> (False, None) | Some t \<Rightarrow> apsnd Some (timer_remove p t))"

definition openswoole_timer_delay :: "int \<Rightarrow> addr \<Rightarrow> int \<Rightarrow> ('c, 'x) timer option \<Rightarrow> ('c, 'x) timer option" where
  "openswoole_timer_delay now_ms a delay_ms g = map_option (timer_delay now_ms a delay_ms) g"

definition openswoole_timer_exists :: "int \<Rightarrow> ('c, 'x) timer option \<Rightarrow> bool" where
  "openswoole_timer_exists i g = (case g of None \<Rightarrow> False
     | Some t \<Rightarrow> (case timer_get i t of None \<Rightarrow> False | Some a \<Rightarrow> \<not> removed (tnode t a)))"

definition openswoole_timer_clear :: "int \<Rightarrow> ('c, 'x) timer option \<Rightarrow> bool \<times> ('c, 'x) timer option" where
  "openswoole_timer_clear i g = (case g of None \<Rightarrow> (False, None) | Some t \<Rightarrow> apsnd Some (timer_remove (timer_get i t) t))"

definition openswoole_timer_get :: "int \<Rightarrow> ('c, 'x) timer option \<Rightarrow> addr option" where
  "openswoole_timer_get i g = Option.bind g (timer_get i)"

definition openswoole_timer_free :: "('c, 'x) timer option \<Rightarrow> ('c, 'x) timer option" where
  "openswoole_timer_free g = None"

definition openswoole_timer_select ::
  "('c \<Rightarrow> addr \<Rightarrow> ('c, 'x) timer \<Rightarrow> ('c, 'x) timer_call list) \<Rightarrow> int \<Rightarrow> ('c, 'x) timer option
     \<Rightarrow> (int \<times> ('c, 'x) timer option) option" where
  "openswoole_timer_select cb now_msec g = (case g of
      None \<Rightarrow> Some (-1, None) | Some t \<Rightarrow> map_option (apsnd Some) (timer_select cb now_msec t))"

text \<open>\<^verbatim>\<open>os/timer.cc\<close>: the interval timer set by \<^verbatim>\<open>SystemTimer_set\<close> when no reactor runs, as (interval,
  value); \<^verbatim>\<open>int sec\<close> truncates to 32 bits.\<close>

definition SystemTimer_set :: "int \<Rightarrow> timeval \<times> timeval" where
  "SystemTimer_set m =
     (if m > 0 then
        (let sec = sint (word_of_int (m div 1000) :: 32 word); usec = m mod 1000 * 1000;
             v = (if usec > 1000000 then (sec + 1, usec - 1000000) else (sec, usec))
         in ((sec, usec), v))
      else ((0, 0), (0, 0)))"

subsection \<open>Invariant\<close>

text \<open>
  Live nodes, heap entries and id map entries correspond one to one: a node is in the
  heap under its handle with its execution time as priority, and in the map under its id.
  Only the timer whose callback runs can be marked removed. Times stay below \<open>2 ^ 62\<close>
  milliseconds, so no addition overflows.
\<close>

definition msec_limit :: int where
  "msec_limit = 4611686018427387904"

definition node_ok :: "('c, 'x) timer \<Rightarrow> addr \<Rightarrow> ('c, 'x) timer_node \<Rightarrow> bool" where
  "node_ok t a n \<longleftrightarrow>
     0 \<le> exec_msec n \<and> exec_msec n < 2 * msec_limit \<and> 0 \<le> interval n \<and> interval n < msec_limit \<and>
     0 < tn_id n \<and> tn_id n < t_next_id t \<and> a < t_brk t \<and> t_map t (tn_id n) = Some a \<and>
     (removed n \<longrightarrow> tn_id n = t_current_id t) \<and>
     (\<exists>ha. heap_node n = Some ha \<and> ha < t_brk t \<and>
           heap_abs (t_heap t) ha = Some (word_of_int (exec_msec n), a))"

definition timer_inv :: "('c, 'x) timer \<Rightarrow> bool" where
  "timer_inv t \<longleftrightarrow>
     heap_inv (t_heap t) \<and> h_type (t_heap t) = MIN_HEAP \<and> 0 < t_next_id t \<and>
     (\<forall>a n. t_nodes t a = Some n \<longrightarrow> node_ok t a n) \<and>
     (\<forall>i a. t_map t i = Some a \<longrightarrow> (\<exists>n. t_nodes t a = Some n \<and> tn_id n = i)) \<and>
     (\<forall>ha p a. heap_abs (t_heap t) ha = Some (p, a) \<longrightarrow> (\<exists>n. t_nodes t a = Some n \<and> heap_node n = Some ha))"

lemma timer_invD:
  assumes "timer_inv t"
  shows "heap_inv (t_heap t)" and "h_type (t_heap t) = MIN_HEAP" and "0 < t_next_id t"
    and "t_nodes t a = Some n \<Longrightarrow> node_ok t a n"
    and "t_map t i = Some a \<Longrightarrow> \<exists>n. t_nodes t a = Some n \<and> tn_id n = i"
    and "heap_abs (t_heap t) ha = Some (p, a) \<Longrightarrow> \<exists>n. t_nodes t a = Some n \<and> heap_node n = Some ha"
  using assms unfolding timer_inv_def by blast+

lemma uint_msec: "0 \<le> e \<Longrightarrow> e < 2 * msec_limit \<Longrightarrow> uint (word_of_int e :: u64) = e"
  by (simp add: msec_limit_def uint_word_of_int)

lemma timer_inv_new:
  assumes "timer_new (Some g) = Some t"
  shows "timer_inv t" and "t_current_id t = -1"
proof -
  obtain h :: "addr heap" where h: "heap_new (Some g) 1024 MIN_HEAP = Some h" "h_type h = MIN_HEAP" by (simp add: heap_new_def)
  have "heap_inv h \<and> heap_abs h = Map.empty" by (rule heap_inv_new [OF _ h(1)]) simp
  then show "timer_inv t" using assms unfolding timer_new_def h(1) by (auto simp: timer_inv_def h(2))
  show "t_current_id t = -1" using h assms by (auto simp: timer_new_def)
qed

text \<open>\<^verbatim>\<open>add\<close> succeeds with a fresh id and a node due \<open>msec\<close> from now, or changes nothing but
  the id counter and the wake-up time.\<close>

definition add_ok :: "int \<Rightarrow> int \<Rightarrow> ('c, 'x) timer \<Rightarrow> bool" where
  "add_ok now_msec msec t \<longleftrightarrow> now_msec < msec_limit \<and> msec < msec_limit \<and> heap_room (t_heap t) \<and>
     t_next_id t < 9223372036854775807"

definition new_tnode :: "int \<Rightarrow> int \<Rightarrow> bool \<Rightarrow> 'x \<Rightarrow> 'c \<Rightarrow> ('c, 'x) timer \<Rightarrow> ('c, 'x) timer_node" where
  "new_tnode now_msec msec persistent data cb t =
     \<lparr>tn_id = t_next_id t, tn_type = TYPE_KERNEL, exec_msec = now_msec + msec,
      interval = (if persistent then msec else 0), tn_round = t_round t,
      removed = False, heap_node = Some (t_brk t + 1), callback = cb, tn_data = data, destructor = False\<rparr>"

lemma fresh_id:
  assumes "timer_inv t"
  shows "t_map t (t_next_id t) = None"
proof (cases "t_map t (t_next_id t)")
  case (Some a)
  then obtain n where "t_nodes t a = Some n" "tn_id n = t_next_id t" using timer_invD(5) [OF assms] by blast
  then show ?thesis using timer_invD(4) [OF assms, of a n] by (simp add: node_ok_def)
qed

lemma timer_add_invalid:
  "msec \<le> 0 \<or> now_msec < 0 \<Longrightarrow> timer_add env now_msec msec persistent data cb t = (None, t)"
  by (cases "msec \<le> 0") (simp_all add: timer_add_def)

lemma timer_add_cases:
  assumes "timer_inv t" and "add_ok now_msec msec t" and "timer_add env now_msec msec persistent data cb t = (r, t')"
  obtains (invalid) "msec \<le> 0 \<or> now_msec < 0" "r = None" "t' = t"
  | (nomem) "r = None" "t_heap t' = t_heap t" "t_map t' = t_map t" "t_nodes t' = t_nodes t"
      "t_round t' = t_round t" "t_next_id t' = t_next_id t + 1" "t_current_id t' = t_current_id t"
      "t_brk t' = t_brk t + 2" "t_log t' = t_log t" "h_num (t_heap t) \<ge> h_size (t_heap t)" "fst env = None"
  | (added) h where "0 < msec" "0 \<le> now_msec" "r = Some (t_brk t)"
      "heap_push (fst env) (t_brk t + 1) (snd env) (word_of_int (now_msec + msec)) (t_brk t) (t_heap t) = (Some (t_brk t + 1), h)"
      "t_heap t' = h" "t_map t' = (t_map t)(t_next_id t \<mapsto> t_brk t)"
      "t_nodes t' = (t_nodes t)(t_brk t \<mapsto> new_tnode now_msec msec persistent data cb t)"
      "t_round t' = t_round t" "t_next_id t' = t_next_id t + 1" "t_current_id t' = t_current_id t"
      "t_brk t' = t_brk t + 2" "t_log t' = t_log t" 
proof -
  have id: "0 < t_next_id t" "t_next_id t \<noteq> 9223372036854775807" "t_map t (t_next_id t) = None"
    using timer_invD(3) [OF assms(1)] fresh_id [OF assms(1)] assms(2) by (auto simp: add_ok_def)
  define t1 where "t1 = (if next_msec t < 0 \<or> next_msec t > msec then (set_timeout msec t)\<lparr>next_msec := msec\<rparr> else t)"
  have t1: "t_heap t1 = t_heap t" "t_map t1 = t_map t" "t_nodes t1 = t_nodes t" "t_round t1 = t_round t"
    "t_next_id t1 = t_next_id t" "t_current_id t1 = t_current_id t" "t_brk t1 = t_brk t" "t_log t1 = t_log t"
    by (simp_all add: t1_def set_timeout_def)
  note eq = assms(3) [unfolded timer_add_def Let_def, folded t1_def]
  obtain q h where p: "heap_push (fst env) (t_brk t + 1) (snd env) (word_of_int (now_msec + msec)) (t_brk t) (t_heap t) = (q, h)"
    by (cases "heap_push (fst env) (t_brk t + 1) (snd env) (word_of_int (now_msec + msec) :: u64) (t_brk t) (t_heap t)") blast
  have noid: "\<not> t_next_id t < 0" using id by simp
  consider "msec \<le> 0 \<or> now_msec < 0" | "0 < msec" "0 \<le> now_msec" "q = None" | b where "0 < msec" "0 \<le> now_msec" "q = Some b"
    by (cases "msec \<le> 0 \<or> now_msec < 0"; cases q) (simp_all add: not_le not_less)
  then show thesis
  proof cases
    case 1
    then show thesis using timer_add_invalid [OF 1, of env persistent data cb t] assms(3) by (intro invalid) simp_all
  next
    case 2
    have "h_num (t_heap t) \<ge> h_size (t_heap t) \<and> fst env = None" 
      using p [unfolded 2(3)] unfolding heap_push_fails by simp
    moreover have "r = None" "t' = t1\<lparr>t_next_id := t_next_id t + 1, t_brk := t_brk t + 2\<rparr>"
      using eq 2 noid p id(2) by (simp_all add: t1 next_long_def)
    ultimately show thesis by (intro nomem) (simp_all add: t1)
  next
    case 3
    have b: "b = t_brk t + 1" using p 3(3) by (auto simp: heap_push_def Let_def split: if_splits option.splits)
    have "(Some (t_brk t), t1\<lparr>t_next_id := t_next_id t + 1, t_brk := t_brk t + 2, t_heap := h,
        t_nodes := (t_nodes t)(t_brk t \<mapsto> new_tnode now_msec msec persistent data cb t),
        t_map := (t_map t)(t_next_id t \<mapsto> t_brk t)\<rparr>) = (r, t')"
      using eq 3(1,2) noid p [unfolded 3(3) b] id unfolding new_tnode_def
      by (simp add: t1 next_long_def split del: if_split del: prod.inject)
    note rt = this [symmetric, unfolded prod.inject]
    have r: "r = Some (t_brk t)" by (rule rt [THEN conjunct1])
    have t': "t' = t1\<lparr>t_next_id := t_next_id t + 1,
        t_brk := t_brk t + 2, t_heap := h,
        t_nodes := (t_nodes t)(t_brk t \<mapsto> new_tnode now_msec msec persistent data cb t),
        t_map := (t_map t)(t_next_id t \<mapsto> t_brk t)\<rparr>" by (rule rt [THEN conjunct2])
    show thesis
      by (rule added [OF 3(1,2) r p [unfolded 3(3) b]]) (simp_all add: t' t1)
  qed
qed


lemma timer_add_inv:
  assumes "timer_inv t" and "add_ok now_msec msec t" and "timer_add env now_msec msec persistent data cb t = (r, t')"
  shows "timer_inv t'"
  using assms
proof (cases rule: timer_add_cases)
  case nomem
  have "node_ok t' a n" if "t_nodes t a = Some n" for a n
    using timer_invD(4) [OF assms(1) that] nomem by (auto simp: node_ok_def)
  then show ?thesis using assms(1) nomem unfolding timer_inv_def by simp
next
  case (added h)
  note inv = timer_invD [OF assms(1)]
  have fresh: "heap_abs (t_heap t) (t_brk t + 1) = None"
  proof (cases "heap_abs (t_heap t) (t_brk t + 1)")
    case (Some x)
    then obtain n where "t_nodes t (snd x) = Some n" "heap_node n = Some (t_brk t + 1)"
      using inv(6) [of "t_brk t + 1" "fst x" "snd x"] by auto
    then show ?thesis using inv(4) [of "snd x" n] by (simp add: node_ok_def)
  qed
  have room: "h_num (t_heap t) < 2147483648" using assms(2) by (simp add: add_ok_def heap_room_def)
  have nin: "t_brk t + 1 \<notin> dom (h_store (t_heap t))" using fresh dom_heap_abs [of "t_heap t"] by auto
  note push = heap_push_spec [OF inv(1) room nin added(4)]
  have old: "a < t_brk t" "heap_node n \<noteq> Some (t_brk t + 1)" "tn_id n \<noteq> t_next_id t" if "t_nodes t a = Some n" for a n
    using inv(4) [OF that] by (auto simp: node_ok_def)
  have "node_ok t' a n" if "t_nodes t' a = Some n" for a n
  proof (cases "a = t_brk t")
    case True
    then have "n = new_tnode now_msec msec persistent data cb t" using that added by simp
    then show ?thesis using True added push(3) assms(2) inv(3)
      by (simp add: node_ok_def new_tnode_def add_ok_def)
  next
    case False
    then have n: "t_nodes t a = Some n" using that added(7) by simp
    then obtain ha where "heap_node n = Some ha" "ha < t_brk t" "heap_abs (t_heap t) ha = Some (word_of_int (exec_msec n), a)"
      using inv(4) [of a n] by (auto simp: node_ok_def)
    then show ?thesis using inv(4) [OF n] old [OF n] unfolding node_ok_def added(5,6,9-11) push(3) by simp
  qed
  moreover have "\<exists>n. t_nodes t' a = Some n \<and> tn_id n = i" if m: "t_map t' i = Some a" for i a
  proof (cases "i = t_next_id t")
    case True
    then show ?thesis using m added by (simp add: new_tnode_def)
  next
    case False
    then have "t_map t i = Some a" using m added by simp
    then obtain n where "t_nodes t a = Some n" "tn_id n = i" using inv(5) by blast
    then show ?thesis using old(1) [of a n] added by auto
  qed
  moreover have "\<exists>n. t_nodes t' a = Some n \<and> heap_node n = Some ha" if m: "heap_abs (t_heap t') ha = Some (p, a)" for ha p a
  proof (cases "ha = t_brk t + 1")
    case True
    then show ?thesis using m added push(3) by (simp add: new_tnode_def)
  next
    case False
    then have "heap_abs (t_heap t) ha = Some (p, a)" using m added push(3) by simp
    then obtain n where "t_nodes t a = Some n" "heap_node n = Some ha" using inv(6) by blast
    then show ?thesis using old(1) [of a n] added by auto
  qed
  ultimately show ?thesis using push(2,5) inv(2,3) added unfolding timer_inv_def by simp
qed (use assms(1) in simp)

text \<open>\<^verbatim>\<open>remove\<close> only marks the timer whose callback is running; any other timer leaves the
  map, the heap and the store at once.\<close>

lemma timer_remove_cases:
  assumes "timer_inv t" and "t_nodes t a = Some n" and "timer_remove (Some a) t = (r, t')"
  obtains (again) "removed n" "\<not> r" "t' = t"
  | (mark) "\<not> removed n" "tn_id n = t_current_id t" "r"
      "t' = t\<lparr>t_nodes := (t_nodes t)(a \<mapsto> n\<lparr>removed := True\<rparr>), t_log := t_log t @ [Removed (tn_id n)]\<rparr>"
  | (gone) ha l where "\<not> removed n" "tn_id n \<noteq> t_current_id t" "r" "heap_node n = Some ha"
      "Removed (tn_id n) \<in> set l" "\<forall>i. Fired i \<notin> set l"
      "t' = t\<lparr>t_map := (t_map t)(tn_id n := None), t_heap := heap_remove ha (t_heap t),
             t_nodes := (t_nodes t)(a := None), t_log := t_log t @ l\<rparr>"
proof -
  obtain ha where n: "0 < tn_id n" "t_map t (tn_id n) = Some a" "heap_node n = Some ha"
    using timer_invD(4) [OF assms(1,2)] by (auto simp: node_ok_def)
  note eq = assms(3) [unfolded timer_remove_def tnode_def Let_def option.case, unfolded assms(2) option.sel n option.case]
  consider "removed n" | "\<not> removed n" "tn_id n = t_current_id t" | "\<not> removed n" "tn_id n \<noteq> t_current_id t" by blast
  then show thesis
  proof cases
    case 1
    then show thesis using eq by (intro again) simp_all
  next
    case 2
    then show thesis using eq n by (intro mark) auto
  next
    case 3
    then show thesis using eq n
      by (intro gone [of ha "Removed (tn_id n) # (if destructor n then [Destructed (tn_id n)] else [])"]) auto
  qed
qed

lemma timer_remove_inv:
  assumes "timer_inv t" and "t_nodes t a = Some n" and "timer_remove (Some a) t = (r, t')"
  shows "timer_inv t'"
  using assms
proof (cases rule: timer_remove_cases)
  case mark
  have "node_ok t' b m" if "t_nodes t' b = Some m" for b m
  proof (cases "b = a")
    case True
    then show ?thesis using that mark timer_invD(4) [OF assms(1,2)] by (auto simp: node_ok_def)
  next
    case False
    then show ?thesis using that mark timer_invD(4) [OF assms(1), of b m] by (auto simp: node_ok_def)
  qed
  moreover have "\<exists>m. t_nodes t' b = Some m \<and> tn_id m = i" if "t_map t i = Some b" for i b
    using timer_invD(5) [OF assms(1) that] mark(4) assms(2) by auto
  moreover have "\<exists>m. t_nodes t' b = Some m \<and> heap_node m = Some hb" if "heap_abs (t_heap t) hb = Some (p, b)" for hb p b
    using timer_invD(6) [OF assms(1) that] mark(4) assms(2) by auto
  ultimately show ?thesis using timer_invD(1-3) [OF assms(1)] mark(4) unfolding timer_inv_def by simp
next
  case (gone ha l)
  note inv = timer_invD [OF assms(1)]
  have n: "t_map t (tn_id n) = Some a" "heap_abs (t_heap t) ha = Some (word_of_int (exec_msec n), a)"
    using inv(4) [OF assms(2)] gone by (auto simp: node_ok_def)
  then have live: "heap_abs (t_heap t) ha \<noteq> None" by simp
  note rem = heap_remove_spec [OF inv(1) live]
  have other: "heap_node m \<noteq> Some ha" "tn_id m \<noteq> tn_id n" if "t_nodes t b = Some m" "b \<noteq> a" for b m
    using inv(4) [OF that(1)] n that(2) by (auto simp: node_ok_def)
  have "node_ok t' b m" if "t_nodes t' b = Some m" for b m
  proof -
    have b: "t_nodes t b = Some m" "b \<noteq> a" using that gone(7) by (auto split: if_splits)
    then show ?thesis using inv(4) [OF b(1)] other [OF b] gone(7) rem(2) by (auto simp: node_ok_def)
  qed
  moreover have "\<exists>m. t_nodes t' b = Some m \<and> tn_id m = i" if "t_map t' i = Some b" for i b
  proof -
    have i: "t_map t i = Some b" "i \<noteq> tn_id n" using that gone(7) by (auto split: if_splits)
    then show ?thesis using inv(5) [OF i(1)] assms(2) gone(7) by auto
  qed
  moreover have "\<exists>m. t_nodes t' b = Some m \<and> heap_node m = Some hb" if "heap_abs (t_heap t') hb = Some (p, b)" for hb p b
  proof -
    have hb: "heap_abs (t_heap t) hb = Some (p, b)" "hb \<noteq> ha" using that gone(7) rem(2) by (auto split: if_splits)
    then show ?thesis using inv(6) [OF hb(1)] assms(2) gone(4,7) by auto
  qed
  ultimately show ?thesis using rem(1,4) inv(2,3) gone(7) unfolding timer_inv_def by simp
qed (use assms(1) in simp)


subsection \<open>What a callback can do\<close>

text \<open>
  \<open>evolves\<close> is what remains true across any sequence of calls: old nodes either stay as they
  are, or are marked, or are gone, and then the log says so; new nodes carry the present
  round. It is reflexive and transitive.
\<close>

definition evolves :: "int \<Rightarrow> ('c, 'x) timer \<Rightarrow> ('c, 'x) timer \<Rightarrow> bool" where
  "evolves now_msec t t' \<longleftrightarrow>
     t_round t' = t_round t \<and> t_current_id t' = t_current_id t \<and> t_brk t \<le> t_brk t' \<and>
     (\<forall>a n'. t_nodes t' a = Some n' \<longrightarrow>
        (\<exists>n. t_nodes t a = Some n \<and> n' = n\<lparr>removed := removed n'\<rparr>) \<or> (t_brk t \<le> a \<and> tn_round n' = t_round t \<and> now_msec < exec_msec n')) \<and>
     (\<exists>l. t_log t' = t_log t @ l \<and> (\<forall>i. Fired i \<notin> set l) \<and>
        (\<forall>a n. t_nodes t a = Some n \<and> a < t_brk t \<and> \<not> removed n \<and>
           (\<forall>n'. t_nodes t' a = Some n' \<longrightarrow> removed n') \<longrightarrow> Removed (tn_id n) \<in> set l))"

lemma evolvesI:
  assumes "t_round t' = t_round t" and "t_current_id t' = t_current_id t" and "t_brk t \<le> t_brk t'"
    and "\<And>a n'. t_nodes t' a = Some n' \<Longrightarrow>
      (\<exists>n. t_nodes t a = Some n \<and> n' = n\<lparr>removed := removed n'\<rparr>) \<or> (t_brk t \<le> a \<and> tn_round n' = t_round t \<and> now_msec < exec_msec n')"
    and "t_log t' = t_log t @ l" and "\<And>i. Fired i \<notin> set l"
    and "\<And>a n. t_nodes t a = Some n \<Longrightarrow> a < t_brk t \<Longrightarrow> \<not> removed n \<Longrightarrow>
      (\<And>n'. t_nodes t' a = Some n' \<Longrightarrow> removed n') \<Longrightarrow> Removed (tn_id n) \<in> set l"
  shows "evolves now_msec t t'"
  unfolding evolves_def using assms by blast

lemma evolvesD:
  assumes "evolves now_msec t t'"
  shows "t_round t' = t_round t" and "t_current_id t' = t_current_id t" and "t_brk t \<le> t_brk t'"
    and "t_nodes t' a = Some n' \<Longrightarrow>
      (\<exists>n. t_nodes t a = Some n \<and> n' = n\<lparr>removed := removed n'\<rparr>) \<or> (t_brk t \<le> a \<and> tn_round n' = t_round t \<and> now_msec < exec_msec n')"
    and "\<exists>l. t_log t' = t_log t @ l \<and> (\<forall>i. Fired i \<notin> set l) \<and>
        (\<forall>a n. t_nodes t a = Some n \<and> a < t_brk t \<and> \<not> removed n \<and>
           (\<forall>n'. t_nodes t' a = Some n' \<longrightarrow> removed n') \<longrightarrow> Removed (tn_id n) \<in> set l)"
  using assms unfolding evolves_def by blast+

lemma evolves_refl: "evolves now_msec t t"
  by (rule evolvesI [where l = "[]"]) simp_all

lemma evolves_trans:
  assumes "evolves now_msec t t'" and "evolves now_msec t' t''"
  shows "evolves now_msec t t''"
proof -
  note e = evolvesD [OF assms(1)] and e' = evolvesD [OF assms(2)]
  obtain l where l: "t_log t' = t_log t @ l" "\<And>i. Fired i \<notin> set l"
    "\<And>a n. t_nodes t a = Some n \<Longrightarrow> a < t_brk t \<Longrightarrow> \<not> removed n \<Longrightarrow>
      (\<forall>n'. t_nodes t' a = Some n' \<longrightarrow> removed n') \<Longrightarrow> Removed (tn_id n) \<in> set l"
    using e(5) by blast
  obtain l' where l': "t_log t'' = t_log t' @ l'" "\<And>i. Fired i \<notin> set l'"
    "\<And>a n. t_nodes t' a = Some n \<Longrightarrow> a < t_brk t' \<Longrightarrow> \<not> removed n \<Longrightarrow>
      (\<forall>n'. t_nodes t'' a = Some n' \<longrightarrow> removed n') \<Longrightarrow> Removed (tn_id n) \<in> set l'"
    using e'(5) by blast
  show ?thesis
  proof (rule evolvesI [where l = "l @ l'"])
    fix a n''
    assume "t_nodes t'' a = Some n''"
    from e'(4) [OF this] show "(\<exists>n. t_nodes t a = Some n \<and> n'' = n\<lparr>removed := removed n''\<rparr>) \<or>
        (t_brk t \<le> a \<and> tn_round n'' = t_round t \<and> now_msec < exec_msec n'')"
    proof (elim disjE exE conjE)
      fix n' assume n': "t_nodes t' a = Some n'" "n'' = n'\<lparr>removed := removed n''\<rparr>"
      from e(4) [OF n'(1)] show ?thesis
      proof (elim disjE exE conjE)
        fix n assume n: "t_nodes t a = Some n" "n' = n\<lparr>removed := removed n'\<rparr>"
        have "n'' = n\<lparr>removed := removed n''\<rparr>" by (subst n'(2), subst n(2)) simp
        then show ?thesis using n(1) by blast
      next
        assume "t_brk t \<le> a" "tn_round n' = t_round t" "now_msec < exec_msec n'"
        moreover have "tn_round n'' = tn_round n'" "exec_msec n'' = exec_msec n'" by (subst n'(2), simp)+
        ultimately show ?thesis by simp
      qed
    next
      assume "t_brk t' \<le> a" "tn_round n'' = t_round t'" "now_msec < exec_msec n''"
      then show ?thesis using e(1,3) by simp
    qed
  next
    fix a n
    assume a: "t_nodes t a = Some n" "a < t_brk t" "\<not> removed n" and gone: "\<And>n'. t_nodes t'' a = Some n' \<Longrightarrow> removed n'"
    show "Removed (tn_id n) \<in> set (l @ l')"
    proof (cases "\<forall>n'. t_nodes t' a = Some n' \<longrightarrow> removed n'")
      case True
      then show ?thesis using l(3) [OF a] by simp
    next
      case False
      then obtain n' where n': "t_nodes t' a = Some n'" "\<not> removed n'" by blast
      then have "n' = n\<lparr>removed := removed n'\<rparr>" using e(4) [OF n'(1)] a(1,2) by auto
      then have "tn_id n' = tn_id n" by (metis timer_node.select_convs(1) timer_node.surjective timer_node.update_convs(6))
      then show ?thesis using l'(3) [OF n'(1) _ n'(2)] gone a(2) e(3) by auto
    qed
  qed (use e(1-3) e'(1-3) l l' in auto)
qed


text \<open>The calls for which nothing overflows: an added timer reads a clock not behind \<open>now_msec\<close>.\<close>

fun good_call :: "int \<Rightarrow> ('c, 'x) timer_call \<Rightarrow> ('c, 'x) timer \<Rightarrow> bool" where
  "good_call now_msec (CallAdd env now' msec persistent data cb) t \<longleftrightarrow>
     add_ok now' msec t \<and> (now' < 0 \<or> now_msec \<le> now')"
| "good_call now_msec (CallRemove i) t \<longleftrightarrow> True"

fun good_calls :: "int \<Rightarrow> ('c, 'x) timer_call list \<Rightarrow> ('c, 'x) timer \<Rightarrow> bool" where
  "good_calls now_msec [] t \<longleftrightarrow> True"
| "good_calls now_msec (c # cs) t \<longleftrightarrow> good_call now_msec c t \<and> good_calls now_msec cs (do_call c t)"

text \<open>The node whose callback runs is live, due, and at the top of the heap.\<close>

definition current_ok :: "int \<Rightarrow> addr \<Rightarrow> addr \<Rightarrow> ('c, 'x) timer \<Rightarrow> bool" where
  "current_ok now_msec tmp a t \<longleftrightarrow> heap_top (t_heap t) = Some tmp \<and>
     (\<exists>n. t_nodes t a = Some n \<and> tn_id n = t_current_id t \<and> heap_node n = Some tmp \<and> exec_msec n \<le> now_msec)"

lemma node_removed_eq:
  assumes "n' = n\<lparr>removed := b\<rparr>"
  shows "tn_id n' = tn_id n" and "exec_msec n' = exec_msec n" and "interval n' = interval n"
    and "tn_round n' = tn_round n" and "heap_node n' = heap_node n" and "callback n' = callback n"
  using assms by simp_all

lemma add_evolves:
  assumes "timer_inv t" and "add_ok now' msec t" and "now' < 0 \<or> now_msec \<le> now'"
    and "timer_add env now' msec persistent data cb t = (r, t')"
  shows "evolves now_msec t t'"
  using assms(1,2,4)
proof (cases rule: timer_add_cases)
  case nomem
  then show ?thesis by (intro evolvesI [where l = "[]"]) auto
next
  case (added h)
  show ?thesis
  proof (rule evolvesI [where l = "[]"])
    fix a n'
    assume "t_nodes t' a = Some n'"
    then show "(\<exists>n. t_nodes t a = Some n \<and> n' = n\<lparr>removed := removed n'\<rparr>) \<or> t_brk t \<le> a \<and> tn_round n' = t_round t \<and> now_msec < exec_msec n'"
      unfolding added(7) using assms(3) added(1,2) by (cases "a = t_brk t") (auto simp: new_tnode_def)
  next
    fix a n
    assume "t_nodes t a = Some n" "a < t_brk t" "\<not> removed n" "\<And>n'. t_nodes t' a = Some n' \<Longrightarrow> removed n'"
    then show "Removed (tn_id n) \<in> set []" unfolding added(7) by simp
  qed (use added in simp_all)
qed (simp add: evolves_refl)

lemma remove_evolves:
  assumes "timer_inv t" and "t_nodes t a = Some n" and "timer_remove (Some a) t = (r, t')"
  shows "evolves now_msec t t'"
  using assms
proof (cases rule: timer_remove_cases)
  case mark
  show ?thesis
  proof (rule evolvesI [where l = "[Removed (tn_id n)]"])
    fix b n' assume "t_nodes t' b = Some n'"
    then show "(\<exists>n. t_nodes t b = Some n \<and> n' = n\<lparr>removed := removed n'\<rparr>) \<or> t_brk t \<le> b \<and> tn_round n' = t_round t \<and> now_msec < exec_msec n'"
      unfolding mark(4) using assms(2) by (cases "b = a") auto
  next
    fix b m
    assume "t_nodes t b = Some m" "b < t_brk t" "\<not> removed m" "\<And>n'. t_nodes t' b = Some n' \<Longrightarrow> removed n'"
    then show "Removed (tn_id m) \<in> set [Removed (tn_id n)]"
      unfolding mark(4) using assms(2) by (cases "b = a") auto
  qed (simp_all add: mark(4))
next
  case (gone ha l)
  show ?thesis
  proof (rule evolvesI [where l = l])
    fix b n' assume "t_nodes t' b = Some n'"
    then show "(\<exists>n. t_nodes t b = Some n \<and> n' = n\<lparr>removed := removed n'\<rparr>) \<or> t_brk t \<le> b \<and> tn_round n' = t_round t \<and> now_msec < exec_msec n'"
      unfolding gone(7) by (cases "b = a") auto
  next
    fix b m
    assume "t_nodes t b = Some m" "b < t_brk t" "\<not> removed m" "\<And>n'. t_nodes t' b = Some n' \<Longrightarrow> removed n'"
    then show "Removed (tn_id m) \<in> set l"
      unfolding gone(7) using assms(2) gone(5) by (cases "b = a") auto
  qed (use gone in simp_all)
qed (simp add: evolves_refl)

lemma do_call_evolves:
  assumes "timer_inv t" and "good_call now_msec c t"
  shows "timer_inv (do_call c t)" and "evolves now_msec t (do_call c t)"
proof (atomize (full), cases c)
  case (CallAdd env now' msec persistent data cb)
  obtain r t' where e: "timer_add env now' msec persistent data cb t = (r, t')" by fastforce
  show "timer_inv (do_call c t) \<and> evolves now_msec t (do_call c t)"
    using timer_add_inv [OF assms(1) _ e] add_evolves [OF assms(1) _ _ e, of now_msec] assms(2) e CallAdd by simp
next
  case (CallRemove i)
  show "timer_inv (do_call c t) \<and> evolves now_msec t (do_call c t)"
  proof (cases "t_map t i")
    case None
    then show ?thesis using assms(1) CallRemove by (simp add: timer_remove_def timer_get_def evolves_refl)
  next
    case (Some a)
    then obtain n where n: "t_nodes t a = Some n" using timer_invD(5) [OF assms(1)] by blast
    obtain r t' where e: "timer_remove (Some a) t = (r, t')" by fastforce
    show ?thesis using timer_remove_inv [OF assms(1) n e] remove_evolves [OF assms(1) n e] e Some CallRemove
      by (simp add: timer_get_def)
  qed
qed


text \<open>No call of a callback displaces the node being fired from the top of the heap.\<close>

lemma add_current:
  assumes inv: "timer_inv t" and ok: "add_ok now' msec t" "now' < 0 \<or> now_msec \<le> now'"
    and e: "timer_add env now' msec persistent data cb t = (r, t')" and cur: "current_ok now_msec tmp a t"
  shows "current_ok now_msec tmp a t'"
  using inv ok(1) e
proof (cases rule: timer_add_cases)
  case (added h)
  obtain n where n: "t_nodes t a = Some n" "tn_id n = t_current_id t" "heap_node n = Some tmp" "exec_msec n \<le> now_msec"
    and top: "heap_top (t_heap t) = Some tmp" using cur by (auto simp: current_ok_def)
  note ni = timer_invD(4) [OF inv n(1), unfolded node_ok_def n(3)]
  have ab: "heap_abs (t_heap t) tmp = Some (word_of_int (exec_msec n), a)" using ni by simp
  then have root: "prio_at (t_heap t) 1 = word_of_int (exec_msec n)"
    using heap_top_spec(2) [OF timer_invD(1) [OF inv] top] by simp
  have "uint (word_of_int (exec_msec n) :: u64) = exec_msec n" using uint_msec ni by blast
  moreover have "uint (word_of_int (now' + msec) :: u64) = now' + msec"
    using added(1,2) ok(1) by (intro uint_msec) (auto simp: add_ok_def)
  ultimately have "\<not> heap_compare MIN_HEAP (prio_at (t_heap t) 1) (word_of_int (now' + msec))"
    using n(4) ok(2) added(1,2) unfolding root by (simp add: heap_compare_def word_less_def)
  moreover have "t_brk t + 1 \<notin> dom (h_store (t_heap t))"
  proof
    assume "t_brk t + 1 \<in> dom (h_store (t_heap t))"
    then obtain x where "heap_abs (t_heap t) (t_brk t + 1) = Some x"
      using dom_heap_abs [of "t_heap t"] by (metis domD)
    then obtain m where "t_nodes t (snd x) = Some m" "heap_node m = Some (t_brk t + 1)"
      using timer_invD(6) [OF inv, of "t_brk t + 1" "fst x" "snd x"] by auto
    then show False using timer_invD(4) [OF inv, of "snd x" m] by (simp add: node_ok_def)
  qed
  moreover have "h_num (t_heap t) < 2147483648" using ok(1) by (simp add: add_ok_def heap_room_def)
  ultimately have "heap_top h = Some tmp"
    using heap_push_spec(6) [OF timer_invD(1) [OF inv] _ _ added(4), of tmp] top timer_invD(2) [OF inv] by simp
  moreover have "a \<noteq> t_brk t" using ni by simp
  ultimately show ?thesis using n by (simp add: current_ok_def added)
qed (use cur in \<open>simp_all add: current_ok_def\<close>)

lemma remove_current:
  assumes inv: "timer_inv t" and b: "t_nodes t b = Some m"
    and e: "timer_remove (Some b) t = (r, t')" and cur: "current_ok now_msec tmp a t"
  shows "current_ok now_msec tmp a t'"
  using inv b e
proof (cases rule: timer_remove_cases)
  case mark
  then show ?thesis using cur b by (auto simp: current_ok_def)
next
  case (gone ha l)
  obtain n where n: "t_nodes t a = Some n" "tn_id n = t_current_id t" "heap_node n = Some tmp" "exec_msec n \<le> now_msec"
    and top: "heap_top (t_heap t) = Some tmp" using cur by (auto simp: current_ok_def)
  have "a \<noteq> b" using n(1,2) b gone(2) by auto
  moreover have abs: "heap_abs (t_heap t) tmp = Some (word_of_int (exec_msec n), a)"
      "heap_abs (t_heap t) ha = Some (word_of_int (exec_msec m), b)"
    using timer_invD(4) [OF inv n(1)] timer_invD(4) [OF inv b] n(3) gone(4) by (auto simp: node_ok_def)
  ultimately have "ha \<noteq> tmp" by auto
  then have "heap_top (heap_remove ha (t_heap t)) = Some tmp"
    using heap_remove_spec(5) [OF timer_invD(1) [OF inv], of ha] abs(2) top by simp
  then show ?thesis using n \<open>a \<noteq> b\<close> by (simp add: current_ok_def gone(7))
qed (use cur in simp)

lemma do_calls_spec:
  assumes "timer_inv t" and "good_calls now_msec cs t" and "current_ok now_msec tmp a t"
  shows "timer_inv (do_calls cs t) \<and> evolves now_msec t (do_calls cs t) \<and> current_ok now_msec tmp a (do_calls cs t)"
  using assms
proof (induction cs arbitrary: t)
  case Nil
  then show ?case by (simp add: do_calls_def evolves_refl)
next
  case (Cons c cs)
  have good: "good_call now_msec c t" "good_calls now_msec cs (do_call c t)" using Cons.prems(2) by auto
  note s = do_call_evolves [OF Cons.prems(1) good(1)]
  have "current_ok now_msec tmp a (do_call c t)"
  proof (cases c)
    case (CallAdd env now' msec persistent data cb)
    obtain r t' where e: "timer_add env now' msec persistent data cb t = (r, t')" by fastforce
    show ?thesis using add_current [OF Cons.prems(1) _ _ e Cons.prems(3)] good(1) e CallAdd by simp
  next
    case (CallRemove i)
    show ?thesis
    proof (cases "t_map t i")
      case None
      then show ?thesis using Cons.prems(3) CallRemove by (simp add: timer_remove_def timer_get_def)
    next
      case (Some b)
      then obtain m where m: "t_nodes t b = Some m" using timer_invD(5) [OF Cons.prems(1)] by blast
      obtain r t' where e: "timer_remove (Some b) t = (r, t')" by fastforce
      show ?thesis using remove_current [OF Cons.prems(1) m e Cons.prems(3)] e Some CallRemove by (simp add: timer_get_def)
    qed
  qed
  from Cons.IH [OF s(1) good(2) this] show ?case
    using evolves_trans [OF s(2)] by (simp add: do_calls_def)
qed


subsection \<open>One round of \<^verbatim>\<open>select\<close>\<close>

lemma advance_spec:
  assumes "0 < iv"
  shows "now_msec < advance now_msec iv e \<and> e \<le> advance now_msec iv e \<and> iv dvd advance now_msec iv e - e \<and>
     (e \<le> now_msec \<longrightarrow> advance now_msec iv e \<le> now_msec + iv)"
  using assms
proof (induction now_msec iv e rule: advance.induct)
  case (1 now_msec iv e)
  show ?case
  proof (cases "e \<le> now_msec")
    case True
    then have "advance now_msec iv e = advance now_msec iv (e + iv)" using 1 by (subst advance.simps) simp
    moreover have "iv dvd advance now_msec iv (e + iv) - e" if "iv dvd advance now_msec iv (e + iv) - (e + iv)"
    proof -
      have "advance now_msec iv (e + iv) - e = advance now_msec iv (e + iv) - (e + iv) + iv" by simp
      then show ?thesis using that by (metis dvd_add dvd_refl)
    qed
    moreover have "advance now_msec iv (e + iv) \<le> now_msec + iv"
      using 1 True by (cases "e + iv \<le> now_msec") (simp_all add: advance.simps [of now_msec iv "e + iv"])
    ultimately show ?thesis using 1 True by auto
  next
    case False
    then show ?thesis by (subst (1 2 3 4) advance.simps) simp
  qed
qed

definition due :: "int \<Rightarrow> ('c, 'x) timer \<Rightarrow> addr set" where
  "due now_msec t = {a. \<exists>n. t_nodes t a = Some n \<and> exec_msec n \<le> now_msec \<and> tn_round n \<noteq> t_round t}"

definition cb_ok :: "int \<Rightarrow> ('c \<Rightarrow> addr \<Rightarrow> ('c, 'x) timer \<Rightarrow> ('c, 'x) timer_call list) \<Rightarrow> bool" where
  "cb_ok now_msec cb \<longleftrightarrow> (\<forall>c a t. timer_inv t \<longrightarrow> good_calls now_msec (cb c a t) t)"

text \<open>Between callbacks no node is marked removed.\<close>

lemma not_removed: "timer_inv t \<Longrightarrow> t_current_id t = -1 \<Longrightarrow> t_nodes t a = Some n \<Longrightarrow> \<not> removed n"
  using timer_invD(4) [of t a n] by (auto simp: node_ok_def)

text \<open>The node found through the heap's top.\<close>

lemma top_node:
  assumes inv: "timer_inv t" and top: "heap_top (t_heap t) = Some tmp"
  obtains n where "t_nodes t (node_data (hnode (t_heap t) tmp)) = Some n" "heap_node n = Some tmp"
    "\<And>b m. t_nodes t b = Some m \<Longrightarrow> exec_msec n \<le> exec_msec m"
proof -
  define a where "a = node_data (hnode (t_heap t) tmp)"
  have root: "heap_abs (t_heap t) tmp = Some (prio_at (t_heap t) 1, a)"
    using heap_top_spec(2) [OF timer_invD(1) [OF inv] top] by (simp add: a_def)
  obtain n where n: "t_nodes t a = Some n" "heap_node n = Some tmp" using timer_invD(6) [OF inv root] by blast
  have p: "prio_at (t_heap t) 1 = word_of_int (exec_msec n)"
    using timer_invD(4) [OF inv n(1)] n(2) root by (auto simp: node_ok_def)
  have "exec_msec n \<le> exec_msec m" if m: "t_nodes t b = Some m" for b m
  proof -
    obtain hb where "heap_abs (t_heap t) hb = Some (word_of_int (exec_msec m), b)"
      using timer_invD(4) [OF inv m] by (auto simp: node_ok_def)
    then have "\<not> (word_of_int (exec_msec m) :: u64) < word_of_int (exec_msec n)"
      using heap_top_spec(3) [OF timer_invD(1) [OF inv] top] timer_invD(2) [OF inv] unfolding p
      by (auto simp: heap_compare_def)
    then show ?thesis using timer_invD(4) [OF inv m] timer_invD(4) [OF inv n(1)]
      by (simp add: word_less_def node_ok_def uint_msec)
  qed
  then show thesis using that n unfolding a_def by blast
qed

text \<open>After the callback: a one-shot or removed node is popped, a periodic one rescheduled.\<close>

lemma pop_current:
  assumes inv: "timer_inv t" and cur: "current_ok now_msec tmp a t" and n: "t_nodes t a = Some n"
  shows "timer_inv (t\<lparr>t_current_id := -1, t_heap := snd (heap_pop (t_heap t)), t_map := (t_map t)(tn_id n := None),
           t_nodes := (t_nodes t)(a := None)\<rparr>)"
proof -
  have c: "tn_id n = t_current_id t" "heap_node n = Some tmp" "heap_top (t_heap t) = Some tmp"
    using cur n by (auto simp: current_ok_def)
  have pop: "snd (heap_pop (t_heap t)) = heap_remove tmp (t_heap t)"
    using heap_pop_remove [OF timer_invD(1) [OF inv] c(3)] by simp
  have id: "t_map t (tn_id n) = Some a" using timer_invD(4) [OF inv n] by (simp add: node_ok_def)
  have idle: "\<not> removed m" if "t_nodes t b = Some m" "b \<noteq> a" for b m
    using timer_invD(4) [OF inv that(1)] that(2) id c(1) by (auto simp: node_ok_def)
  let ?t = "t\<lparr>t_nodes := (t_nodes t)(a \<mapsto> n\<lparr>removed := False\<rparr>), t_current_id := -1\<rparr>"
  have ok: "timer_inv ?t"
  proof -
    have "node_ok ?t b m" if "t_nodes ?t b = Some m" for b m
      using that timer_invD(4) [OF inv n] timer_invD(4) [OF inv, of b m] idle [of b m]
      by (cases "b = a") (auto simp: node_ok_def)
    moreover have "\<exists>m. t_nodes ?t b = Some m \<and> tn_id m = i" if "t_map t i = Some b" for i b
      using timer_invD(5) [OF inv that] n by auto
    moreover have "\<exists>m. t_nodes ?t b = Some m \<and> heap_node m = Some hb" if "heap_abs (t_heap t) hb = Some (p, b)" for hb p b
      using timer_invD(6) [OF inv that] n by auto
    ultimately show ?thesis using timer_invD(1-3) [OF inv] unfolding timer_inv_def by simp
  qed
  obtain r t' where e: "timer_remove (Some a) ?t = (r, t')" by fastforce
  have "timer_inv t'" by (rule timer_remove_inv [OF ok _ e]) simp
  moreover have "t'\<lparr>t_log := t_log t\<rparr> = t\<lparr>t_current_id := -1, t_heap := snd (heap_pop (t_heap t)),
      t_map := (t_map t)(tn_id n := None), t_nodes := (t_nodes t)(a := None)\<rparr>"
    using e id c unfolding pop by (auto simp: timer_remove_def tnode_def)
  moreover have "timer_inv (t'\<lparr>t_log := l\<rparr>) = timer_inv t'" for l
    by (simp add: timer_inv_def node_ok_def)
  ultimately show ?thesis by metis
qed


lemma reschedule_current:
  assumes inv: "timer_inv t" and cur: "current_ok now_msec tmp a t" and n: "t_nodes t a = Some n"
    and r: "\<not> removed n" and e: "0 \<le> e" "e < 2 * msec_limit"
  shows "timer_inv (t\<lparr>t_current_id := -1, t_nodes := (t_nodes t)(a \<mapsto> n\<lparr>exec_msec := e\<rparr>),
           t_heap := heap_change_priority (word_of_int e) tmp (t_heap t)\<rparr>)" (is "timer_inv ?t")
proof -
  have c: "tn_id n = t_current_id t" "heap_node n = Some tmp" using cur n by (auto simp: current_ok_def)
  have id: "t_map t (tn_id n) = Some a" and ab: "heap_abs (t_heap t) tmp = Some (word_of_int (exec_msec n), a)"
    using timer_invD(4) [OF inv n] c(2) by (auto simp: node_ok_def)
  note ch = heap_change_priority_spec [OF timer_invD(1) [OF inv] ab, of "word_of_int e"]
  have "node_ok ?t b m" if "t_nodes ?t b = Some m" for b m
  proof (cases "b = a")
    case True
    then show ?thesis using that timer_invD(4) [OF inv n] ch(2) r e c(2) by (auto simp: node_ok_def)
  next
    case False
    then have m: "t_nodes t b = Some m" using that by simp
    have "heap_node m \<noteq> Some tmp" using timer_invD(4) [OF inv m] ab False by (auto simp: node_ok_def)
    moreover have "\<not> removed m" using timer_invD(4) [OF inv m] False id c(1) by (auto simp: node_ok_def)
    ultimately show ?thesis using timer_invD(4) [OF inv m] ch(2) by (auto simp: node_ok_def)
  qed
  moreover have "\<exists>m. t_nodes ?t b = Some m \<and> tn_id m = i" if "t_map ?t i = Some b" for i b
    using timer_invD(5) [OF inv, of i b] that n by auto
  moreover have "\<exists>m. t_nodes ?t b = Some m \<and> heap_node m = Some hb" if "heap_abs (t_heap ?t) hb = Some (p, b)" for hb p b
    using timer_invD(6) [OF inv, of hb _ b] that n ch(2) c(2) by (auto split: if_splits)
  ultimately show ?thesis using timer_invD(2,3) [OF inv] ch(1,4) unfolding timer_inv_def by simp
qed

text \<open>
  What one turn of the loop does: the top node \<open>a\<close> fires, and is then gone or due later on
  its own grid; every other old node stays as it is or was removed by the callback; any new
  node belongs to the present round.
\<close>

definition resched :: "int \<Rightarrow> ('c, 'x) timer_node \<Rightarrow> ('c, 'x) timer_node \<Rightarrow> bool" where
  "resched now_msec n m \<longleftrightarrow> 0 < interval n \<and> m = n\<lparr>exec_msec := exec_msec m\<rparr> \<and> now_msec < exec_msec m \<and>
     exec_msec m \<le> now_msec + interval n \<and> interval n dvd exec_msec m - exec_msec n"

definition turn :: "int \<Rightarrow> addr \<Rightarrow> ('c, 'x) timer_node \<Rightarrow> ('c, 'x) timer \<Rightarrow> ('c, 'x) timer \<Rightarrow> bool" where
  "turn now_msec a n t t' \<longleftrightarrow>
     timer_inv t' \<and> t_current_id t' = -1 \<and> t_round t' = t_round t \<and> t_brk t \<le> t_brk t' \<and>
     (\<forall>m. t_nodes t' a = Some m \<longrightarrow> resched now_msec n m) \<and>
     (\<forall>b m. b \<noteq> a \<and> t_nodes t' b = Some m \<longrightarrow>
        t_nodes t b = Some m \<or> (t_brk t \<le> b \<and> tn_round m = t_round t \<and> now_msec < exec_msec m)) \<and>
     (\<exists>l. t_log t' = t_log t @ Fired (tn_id n) # l \<and> (\<forall>i. Fired i \<notin> set l) \<and>
        (\<forall>b m. b \<noteq> a \<and> t_nodes t b = Some m \<longrightarrow> t_nodes t' b = Some m \<or> Removed (tn_id m) \<in> set l))"

lemma fire_start:
  assumes inv: "timer_inv t" and idle: "t_current_id t = -1" and n: "t_nodes t a = Some n" "heap_node n = Some tmp"
    and top: "heap_top (t_heap t) = Some tmp" and now: "exec_msec n \<le> now_msec"
  defines "tf \<equiv> t\<lparr>t_current_id := tn_id n, t_log := t_log t @ [Fired (tn_id n)]\<rparr>"
  shows "timer_inv tf" and "current_ok now_msec tmp a tf"
proof -
  have "node_ok tf b m" if "t_nodes t b = Some m" for b m
    using timer_invD(4) [OF inv that] not_removed [OF inv idle that] by (auto simp: node_ok_def tf_def)
  then show "timer_inv tf" using inv unfolding timer_inv_def tf_def by simp
  show "current_ok now_msec tmp a tf" using n top now by (simp add: current_ok_def tf_def)
qed

lemma step_finish:
  assumes inv: "timer_inv t" and idle: "t_current_id t = -1" and n: "t_nodes t a = Some n"
    and tf: "tf = t\<lparr>t_current_id := tn_id n, t_log := t_log t @ [Fired (tn_id n)]\<rparr>"
    and ev: "evolves now_msec tf t2" and inv': "timer_inv t'" and t': "t_current_id t' = -1" "t_round t' = t_round t2"
      "t_brk t' = t_brk t2" "t_log t' = t_log t2" "\<And>b. b \<noteq> a \<Longrightarrow> t_nodes t' b = t_nodes t2 b"
    and a: "\<And>m. t_nodes t' a = Some m \<Longrightarrow> resched now_msec n m"
  shows "turn now_msec a n t t'"
proof -
  note e = evolvesD [OF ev]
  obtain l where l: "t_log t2 = t_log tf @ l" "\<And>i. Fired i \<notin> set l"
    "\<And>a n. t_nodes tf a = Some n \<Longrightarrow> a < t_brk tf \<Longrightarrow> \<not> removed n \<Longrightarrow>
      (\<forall>n'. t_nodes t2 a = Some n' \<longrightarrow> removed n') \<Longrightarrow> Removed (tn_id n) \<in> set l"
    using e(5) by blast
  have same: "t_nodes t b = Some m \<or> (t_brk t \<le> b \<and> tn_round m = t_round t \<and> now_msec < exec_msec m)" if b: "b \<noteq> a" "t_nodes t' b = Some m" for b m
  proof -
    have "t_nodes t2 b = Some m" using b t'(5) by simp
    from e(4) [OF this] show ?thesis
    proof (elim disjE exE conjE)
      fix k assume k: "t_nodes tf b = Some k" "m = k\<lparr>removed := removed m\<rparr>"
      have "\<not> removed m" using not_removed [OF inv' t'(1) b(2)] .
      moreover have "\<not> removed k" using not_removed [OF inv idle, of b k] k(1) tf by simp
      ultimately have "m = k" using k(2) by (cases k, cases m) simp
      then show ?thesis using k(1) tf by simp
    qed (simp add: tf)
  qed
  moreover have "t_nodes t' b = Some m \<or> Removed (tn_id m) \<in> set l" if b: "b \<noteq> a" "t_nodes t b = Some m" for b m
  proof (cases "\<forall>n'. t_nodes t2 b = Some n' \<longrightarrow> removed n'")
    case True
    have "b < t_brk t" using timer_invD(4) [OF inv b(2)] by (simp add: node_ok_def)
    then show ?thesis using l(3) [of b m] True b(2) not_removed [OF inv idle b(2)] tf by simp
  next
    case False
    then obtain k where "t_nodes t' b = Some k" using t'(5) [OF b(1)] by auto
    moreover have "b < t_brk t" using timer_invD(4) [OF inv b(2)] by (simp add: node_ok_def)
    ultimately show ?thesis using same [OF b(1), of k] b(2) by auto
  qed
  ultimately show ?thesis unfolding turn_def using inv' t'(1-4) e(1-3) l(1,2) a tf
    by (intro conjI exI [of _ l]) auto
qed


lemma select_step_turn:
  assumes inv: "timer_inv t" and idle: "t_current_id t = -1" and cb: "cb_ok now_msec cb"
    and top: "heap_top (t_heap t) = Some tmp" and n: "t_nodes t a = Some n" "heap_node n = Some tmp"
    and now: "0 \<le> now_msec" "now_msec < msec_limit" "exec_msec n \<le> now_msec"
  shows "turn now_msec a n t (select_step cb now_msec tmp a t)"
proof -
  define tf where "tf = t\<lparr>t_current_id := tn_id n, t_log := t_log t @ [Fired (tn_id n)]\<rparr>"
  define t2 where "t2 = do_calls (cb (callback n) a tf) tf"
  note start = fire_start [OF inv idle n top now(3), folded tf_def]
  have "good_calls now_msec (cb (callback n) a tf) tf" using cb start(1) by (simp add: cb_ok_def)
  note calls = do_calls_spec [OF start(1) this start(2), folded t2_def]
  obtain m where m: "t_nodes t2 a = Some m" using calls by (auto simp: current_ok_def)
  have ev: "evolves now_msec tf t2" using calls by simp
  have "a < t_brk tf" using timer_invD(4) [OF inv n(1)] by (simp add: node_ok_def tf_def)
  then obtain k where "t_nodes tf a = Some k" "m = k\<lparr>removed := removed m\<rparr>" using evolvesD(4) [OF ev m] by auto
  then have mk: "m = n\<lparr>removed := removed m\<rparr>" using n(1) by (simp add: tf_def)
  note eqs = node_removed_eq [OF mk]
  define e where "e = advance now_msec (interval n) (exec_msec n)"
  have step: "select_step cb now_msec tmp a t =
      (if 0 < interval n \<and> \<not> removed m
       then t2\<lparr>t_current_id := -1, t_nodes := (t_nodes t2)(a \<mapsto> m\<lparr>exec_msec := e\<rparr>),
               t_heap := heap_change_priority (word_of_int e) tmp (t_heap t2)\<rparr>
       else t2\<lparr>t_current_id := -1, t_heap := snd (heap_pop (t_heap t2)), t_map := (t_map t2)(tn_id m := None),
               t_nodes := (t_nodes t2)(a := None)\<rparr>)"
    using n(1) not_removed [OF inv idle n(1)] m eqs(2,3)
    by (simp add: select_step_def Let_def tnode_def tf_def [symmetric] t2_def [symmetric] e_def)
  show ?thesis
  proof (cases "0 < interval n \<and> \<not> removed m")
    case True
    note adv = advance_spec [of "interval n" now_msec "exec_msec n", folded e_def]
    have lim: "interval n < msec_limit" using timer_invD(4) [OF inv n(1)] by (simp add: node_ok_def)
    have e: "0 \<le> e" "e < 2 * msec_limit" using adv True now lim by auto
    have "timer_inv (select_step cb now_msec tmp a t)"
      using reschedule_current [of t2 now_msec tmp a m e] calls m True e unfolding step by simp
    moreover have "m\<lparr>exec_msec := e\<rparr> = n\<lparr>exec_msec := e\<rparr>"
      using mk True not_removed [OF inv idle n(1)] by (cases n, cases m) simp
    ultimately show ?thesis
      using adv True now(3) unfolding step
      by (intro step_finish [OF inv idle n(1) tf_def ev]) (auto simp: resched_def)
  next
    case False
    have "timer_inv (select_step cb now_msec tmp a t)"
      using pop_current [of t2 now_msec tmp a m] calls m unfolding step if_not_P [OF False] by simp
    then show ?thesis unfolding step if_not_P [OF False]
      by (intro step_finish [OF inv idle n(1) tf_def ev]) auto
  qed
qed

fun fired_ids :: "timer_event list \<Rightarrow> int list" where
  "fired_ids [] = []"
| "fired_ids (Fired i # l) = i # fired_ids l"
| "fired_ids (_ # l) = fired_ids l"

lemma fired_ids_append [simp]: "fired_ids (l @ l') = fired_ids l @ fired_ids l'"
  by (induction l rule: fired_ids.induct) simp_all

lemma fired_ids_none: "(\<And>i. Fired i \<notin> set l) \<Longrightarrow> fired_ids l = []"
  by (induction l rule: fired_ids.induct) auto

text \<open>The outcome of the whole loop, relative to the state \<open>t\<close> it starts in.\<close>

definition fired_ok :: "int \<Rightarrow> ('c, 'x) timer \<Rightarrow> int list \<Rightarrow> bool" where
  "fired_ok now_msec t is \<longleftrightarrow> distinct is \<and> set is \<subseteq> (\<lambda>a. tn_id (tnode t a)) ` due now_msec t \<and>
     sorted (map (\<lambda>i. exec_msec (tnode t (the (t_map t i)))) is)"

definition logged :: "int \<Rightarrow> ('c, 'x) timer \<Rightarrow> ('c, 'x) timer \<Rightarrow> timer_event list \<Rightarrow> bool" where
  "logged now_msec t t' l \<longleftrightarrow> (\<forall>a n. t_nodes t a = Some n \<longrightarrow>
     t_nodes t' a = Some n \<or> Removed (tn_id n) \<in> set l \<or> (a \<in> due now_msec t \<and> tn_id n \<in> set (fired_ids l)))"

definition kept :: "int \<Rightarrow> ('c, 'x) timer \<Rightarrow> ('c, 'x) timer \<Rightarrow> bool" where
  "kept now_msec t t' \<longleftrightarrow> (\<forall>a m. t_nodes t' a = Some m \<longrightarrow>
     (t_brk t \<le> a \<and> tn_round m = t_round t \<and> now_msec < exec_msec m) \<or>
     (a \<in> due now_msec t \<and> resched now_msec (tnode t a) m) \<or> t_nodes t a = Some m)"

definition blocked :: "int \<Rightarrow> ('c, 'x) timer \<Rightarrow> bool" where
  "blocked now_msec t \<longleftrightarrow> (\<exists>a n. t_nodes t a = Some n \<and> tn_round n = t_round t \<and> exec_msec n \<le> now_msec)"

definition round_done :: "int \<Rightarrow> ('c, 'x) timer \<Rightarrow> ('c, 'x) timer \<Rightarrow> bool" where
  "round_done now_msec t t' \<longleftrightarrow>
     timer_inv t' \<and> t_current_id t' = -1 \<and> t_round t' = t_round t \<and>
     (due now_msec t' = {} \<or> blocked now_msec t') \<and> kept now_msec t t' \<and>
     (\<exists>l. t_log t' = t_log t @ l \<and> fired_ok now_msec t (fired_ids l) \<and> logged now_msec t t' l)"

lemma turn_due:
  assumes inv: "timer_inv t" and "turn now_msec a n t t'" and "t_nodes t a = Some n" and "b \<in> due now_msec t'"
  shows "b \<noteq> a" and "b \<in> due now_msec t" and "t_nodes t' b = t_nodes t b"
proof -
  obtain m where m: "t_nodes t' b = Some m" "exec_msec m \<le> now_msec" "tn_round m \<noteq> t_round t'"
    using assms(4) by (auto simp: due_def)
  have r: "t_round t' = t_round t" using assms(2) by (simp add: turn_def)
  show ba: "b \<noteq> a" using assms(2) m by (auto simp: turn_def resched_def)
  then have "t_nodes t b = Some m" using assms(2) m r by (auto simp: turn_def)
  then show "b \<in> due now_msec t" "t_nodes t' b = t_nodes t b" using m r by (auto simp: due_def)
qed


lemma finite_due: "timer_inv t \<Longrightarrow> finite (due now_msec t)"
  by (rule finite_subset [of _ "{..<t_brk t}"]) (auto simp: due_def dest!: timer_invD(4) simp: node_ok_def)

lemma id_inj: "timer_inv t \<Longrightarrow> t_nodes t a = Some n \<Longrightarrow> t_nodes t b = Some m \<Longrightarrow> tn_id n = tn_id m \<Longrightarrow> a = b"
  using timer_invD(4) [of t a n] timer_invD(4) [of t b m] by (simp add: node_ok_def)

lemma round_done_refl:
  "timer_inv t \<Longrightarrow> t_current_id t = -1 \<Longrightarrow> due now_msec t = {} \<or> blocked now_msec t \<Longrightarrow> round_done now_msec t t"
  by (auto simp: round_done_def kept_def logged_def fired_ok_def)

lemma due_node:
  assumes "timer_inv t" and "a \<in> due now_msec t"
  shows "t_nodes t a = Some (tnode t a)" and "the (t_map t (tn_id (tnode t a))) = a"
  using assms(2) timer_invD(4) [OF assms(1), of a "tnode t a"] by (auto simp: due_def tnode_def node_ok_def)

text \<open>A turn that takes an earliest node, followed by the rest of the loop, is a round.\<close>

lemma fired_ok_step:
  assumes inv: "timer_inv t" and n: "t_nodes t a = Some n" "a \<in> due now_msec t" and step: "turn now_msec a n t t'"
    and least: "\<And>b m. t_nodes t b = Some m \<Longrightarrow> exec_msec n \<le> exec_msec m" and rest: "fired_ok now_msec t' is"
  shows "fired_ok now_msec t (tn_id n # is)"
proof -
  have inv': "timer_inv t'" using step by (simp add: turn_def)
  have tn: "tnode t' b = tnode t b" "b \<in> due now_msec t - {a}" if "b \<in> due now_msec t'" for b
    using turn_due [OF inv step n(1) that] by (simp_all add: tnode_def)
  have na: "tnode t a = n" using n(1) by (simp add: tnode_def)
  have sub: "\<exists>b. b \<in> due now_msec t - {a} \<and> i = tn_id (tnode t b) \<and> the (t_map t' i) = b \<and> the (t_map t i) = b \<and>
      tnode t' b = tnode t b" if i: "i \<in> set is" for i
  proof -
    obtain b where b: "b \<in> due now_msec t'" "i = tn_id (tnode t' b)" using rest i by (auto simp: fired_ok_def)
    then show ?thesis using tn [OF b(1)] due_node [OF inv' b(1)] due_node [OF inv, of b] by (intro exI [of _ b]) auto
  qed
  have "tn_id n \<notin> set is"
  proof
    assume "tn_id n \<in> set is"
    then obtain b where b: "b \<in> due now_msec t - {a}" "tn_id n = tn_id (tnode t b)" using sub by blast
    then show False using due_node(2) [OF inv, of b] due_node(2) [OF inv n(2)] na by auto
  qed
  moreover have "exec_msec (tnode t' (the (t_map t' i))) = exec_msec (tnode t (the (t_map t i)))" if "i \<in> set is" for i
    using sub [OF that] by auto
  then have "sorted (map (\<lambda>i. exec_msec (tnode t (the (t_map t i)))) is)"
    using rest unfolding fired_ok_def by (simp cong: map_cong)
  moreover have "exec_msec (tnode t (the (t_map t (tn_id n)))) \<le> exec_msec (tnode t (the (t_map t i)))" if i: "i \<in> set is" for i
  proof -
    obtain b where b: "b \<in> due now_msec t" "the (t_map t i) = b" using sub [OF i] by blast
    show ?thesis using due_node [OF inv b(1)] due_node(2) [OF inv n(2)] b(2) least na by simp
  qed
  moreover have "set is \<subseteq> (\<lambda>a. tn_id (tnode t a)) ` due now_msec t" using sub by blast
  moreover have "tn_id n \<in> (\<lambda>a. tn_id (tnode t a)) ` due now_msec t" using n(2) na by blast
  ultimately show ?thesis using rest by (simp add: fired_ok_def)
qed

lemma turn_due_iff:
  assumes "turn now_msec a n t t'" and "t_nodes t' b = Some m" and "t_nodes t b = Some m"
  shows "b \<in> due now_msec t' \<longleftrightarrow> b \<in> due now_msec t"
  using assms by (simp add: turn_def due_def)

lemma kept_step:
  assumes inv: "timer_inv t" and n: "t_nodes t a = Some n" "a \<in> due now_msec t" and step: "turn now_msec a n t t'"
    and rest: "kept now_msec t' t''"
  shows "kept now_msec t t''"
  unfolding kept_def
proof (intro allI impI)
  fix b m
  assume m: "t_nodes t'' b = Some m"
  have br: "t_brk t \<le> t_brk t'" "t_round t' = t_round t" using step by (simp_all add: turn_def)
  consider (new) "t_brk t' \<le> b" "tn_round m = t_round t'" "now_msec < exec_msec m" | (due) "b \<in> due now_msec t'" "resched now_msec (tnode t' b) m"
    | (old) "t_nodes t' b = Some m" using rest m unfolding kept_def by metis
  then show "(t_brk t \<le> b \<and> tn_round m = t_round t \<and> now_msec < exec_msec m) \<or>
      (b \<in> due now_msec t \<and> resched now_msec (tnode t b) m) \<or> t_nodes t b = Some m"
  proof cases
    case new
    then show ?thesis using br by simp
  next
    case due
    then show ?thesis using turn_due [OF inv step n(1) due(1)] by (simp add: tnode_def)
  next
    case old
    show ?thesis
    proof (cases "b = a")
      case True
      then show ?thesis using old step n by (simp add: turn_def tnode_def)
    next
      case False
      then show ?thesis using old step by (auto simp: turn_def)
    qed
  qed
qed

lemma round_done_step:
  assumes inv: "timer_inv t" and n: "t_nodes t a = Some n" "a \<in> due now_msec t" and step: "turn now_msec a n t t'"
    and least: "\<And>b m. t_nodes t b = Some m \<Longrightarrow> exec_msec n \<le> exec_msec m" and rest: "round_done now_msec t' t''"
  shows "round_done now_msec t t''"
proof -
  obtain l where l: "t_log t' = t_log t @ Fired (tn_id n) # l" "\<And>i. Fired i \<notin> set l"
    "\<And>b m. b \<noteq> a \<Longrightarrow> t_nodes t b = Some m \<Longrightarrow> t_nodes t' b = Some m \<or> Removed (tn_id m) \<in> set l"
    using step unfolding turn_def by blast
  obtain k where k: "t_log t'' = t_log t' @ k" "fired_ok now_msec t' (fired_ids k)" "logged now_msec t' t'' k"
    using rest unfolding round_done_def by blast
  have fl: "fired_ids (Fired (tn_id n) # l @ k) = tn_id n # fired_ids k" using fired_ids_none [OF l(2)] by simp
  have "logged now_msec t t'' (Fired (tn_id n) # l @ k)"
    unfolding logged_def fl
  proof (intro allI impI)
    fix b m assume m: "t_nodes t b = Some m"
    show "t_nodes t'' b = Some m \<or> Removed (tn_id m) \<in> set (Fired (tn_id n) # l @ k) \<or>
        (b \<in> due now_msec t \<and> tn_id m \<in> set (tn_id n # fired_ids k))"
    proof (cases "b = a \<or> Removed (tn_id m) \<in> set l")
      case True
      then show ?thesis using n m by auto
    next
      case False
      then have m': "t_nodes t' b = Some m" using l(3) m by blast
      then show ?thesis using k(3) turn_due_iff [OF step m' m] unfolding logged_def by fastforce
    qed
  qed
  moreover have "fired_ok now_msec t (fired_ids (Fired (tn_id n) # l @ k))"
    unfolding fl by (rule fired_ok_step [OF inv n step least k(2)])
  moreover have "t_log t'' = t_log t @ Fired (tn_id n) # l @ k" using k(1) l(1) by simp
  moreover have "kept now_msec t t''" using kept_step [OF inv n step] rest by (simp add: round_done_def)
  moreover have "t_round t' = t_round t" using step by (simp add: turn_def)
  ultimately show ?thesis using rest unfolding round_done_def by auto
qed


text \<open>The loop ends, whatever the callbacks do: each turn takes one node out of the due set and
  no call puts one in.\<close>

lemma select_loop_round:
  assumes "timer_inv t" and "t_current_id t = -1" and "cb_ok now_msec cb" and now: "0 \<le> now_msec" "now_msec < msec_limit"
  shows "\<exists>p t'. select_loop cb now_msec t = Some (p, t') \<and> round_done now_msec t t' \<and>
    (case p of None \<Rightarrow> t_nodes t' = Map.empty
     | Some a \<Rightarrow> \<exists>n. t_nodes t' a = Some n \<and> (\<forall>b m. t_nodes t' b = Some m \<longrightarrow> exec_msec n \<le> exec_msec m))"
  using assms(1,2)
proof (induction "card (due now_msec t)" arbitrary: t rule: less_induct)
  case less
  note loop = select_loop.simps [of cb now_msec t]
  show ?case
  proof (cases "heap_top (t_heap t)")
    case None
    then have "heap_abs (t_heap t) = Map.empty" using heap_top_spec(1) [OF timer_invD(1) [OF less.prems(1)]] by simp
    then have "t_nodes t a = None" for a using timer_invD(4) [OF less.prems(1), of a] by (cases "t_nodes t a") (auto simp: node_ok_def)
    then have "t_nodes t = Map.empty" by auto
    then show ?thesis using None round_done_refl [OF less.prems, of now_msec] by (simp add: loop due_def)
  next
    case (Some tmp)
    define a where "a = node_data (hnode (t_heap t) tmp)"
    obtain n where n: "t_nodes t a = Some n" "heap_node n = Some tmp" "\<And>b m. t_nodes t b = Some m \<Longrightarrow> exec_msec n \<le> exec_msec m"
      using top_node [OF less.prems(1) Some] unfolding a_def by blast
    have tn: "tnode t a = n" using n(1) by (simp add: tnode_def)
    show ?thesis
    proof (cases "exec_msec n > now_msec \<or> tn_round n = t_round t")
      case True
      then have "due now_msec t = {} \<or> blocked now_msec t" using n(1,3) by (fastforce simp: due_def blocked_def)
      then show ?thesis using True Some round_done_refl [OF less.prems] n tn by (auto simp: loop a_def [symmetric])
    next
      case False
      define t' where "t' = select_step cb now_msec tmp a t"
      have step: "turn now_msec a n t t'"
        unfolding t'_def using False by (intro select_step_turn [OF less.prems assms(3) Some n(1,2) now]) simp
      have a: "a \<in> due now_msec t" using n(1) False by (auto simp: due_def)
      have "due now_msec t' \<subseteq> due now_msec t - {a}" using turn_due [OF less.prems(1) step n(1)] by blast
      then have "card (due now_msec t') < card (due now_msec t)"
        using a finite_due [OF less.prems(1)] by (metis card_Diff1_less card_mono finite_Diff le_less_trans)
      moreover have "timer_inv t'" "t_current_id t' = -1" using step by (simp_all add: turn_def)
      ultimately obtain p t'' where r: "select_loop cb now_msec t' = Some (p, t'')" "round_done now_msec t' t''"
        "case p of None \<Rightarrow> t_nodes t'' = Map.empty
         | Some a \<Rightarrow> \<exists>n. t_nodes t'' a = Some n \<and> (\<forall>b m. t_nodes t'' b = Some m \<longrightarrow> exec_msec n \<le> exec_msec m)"
        using less.hyps by blast
      moreover have "select_loop cb now_msec t = select_loop cb now_msec t'"
        using Some False tn by (simp add: loop a_def [symmetric] t'_def [symmetric])
      moreover have "round_done now_msec t t''" by (rule round_done_step [OF less.prems(1) n(1) a step n(3) r(2)])
      ultimately show ?thesis by auto
    qed
  qed
qed


lemma timer_inv_frame [simp]:
  "timer_inv (t\<lparr>t_round := r\<rparr>) = timer_inv t" "timer_inv (t\<lparr>next_msec := m\<rparr>) = timer_inv t"
  "timer_inv (t\<lparr>timeout_msec := m\<rparr>) = timer_inv t"
  by (simp_all add: timer_inv_def node_ok_def)

lemma select_round:
  assumes "timer_inv t" and "t_current_id t = -1" and "cb_ok now_msec cb" and now: "0 \<le> now_msec" "now_msec < msec_limit"
  obtains s m where "timer_select cb now_msec t = Some (0, s\<lparr>timeout_msec := m, next_msec := m, t_round := t_round t + 1\<rparr>)"
    and "round_done now_msec t s"
    and "if t_nodes s = Map.empty then m = -1
         else \<exists>a n. t_nodes s a = Some n \<and> (\<forall>b k. t_nodes s b = Some k \<longrightarrow> exec_msec n \<le> exec_msec k) \<and>
                m = max 1 (exec_msec n - now_msec)"
proof -
  obtain p s where p: "select_loop cb now_msec t = Some (p, s)" "round_done now_msec t s"
    "case p of None \<Rightarrow> t_nodes s = Map.empty
     | Some a \<Rightarrow> \<exists>n. t_nodes s a = Some n \<and> (\<forall>b m. t_nodes s b = Some m \<longrightarrow> exec_msec n \<le> exec_msec m)"
    using select_loop_round [OF assms] by blast
  define m where "m = (case p of None \<Rightarrow> -1
      | Some a \<Rightarrow> (let d = exec_msec (tnode s a) - now_msec in if d \<le> 0 then 1 else d))"
  have "timer_select cb now_msec t = Some (0, s\<lparr>timeout_msec := m, next_msec := m, t_round := t_round t + 1\<rparr>)"
    using p(1,2) now unfolding m_def by (simp add: timer_select_def set_timeout_def round_done_def Let_def cong: option.case_cong)
  moreover have "if t_nodes s = Map.empty then m = -1
         else \<exists>a n. t_nodes s a = Some n \<and> (\<forall>b k. t_nodes s b = Some k \<longrightarrow> exec_msec n \<le> exec_msec k) \<and>
                m = max 1 (exec_msec n - now_msec)"
  proof (cases p)
    case None
    then show ?thesis using p(3) by (simp add: m_def)
  next
    case (Some a)
    then obtain n where n: "t_nodes s a = Some n" "\<forall>b m. t_nodes s b = Some m \<longrightarrow> exec_msec n \<le> exec_msec m" using p(3) by auto
    then have "m = max 1 (exec_msec n - now_msec)" "t_nodes s \<noteq> Map.empty" using Some by (auto simp: m_def tnode_def Let_def max_def)
    then show ?thesis using n by auto
  qed
  ultimately show thesis using that p(2) by blast
qed

lemma round_done_past:
  assumes "round_done now_msec t t'" and "\<not> blocked now_msec t" and "t_nodes t' a = Some n"
  shows "now_msec < exec_msec n"
proof (rule ccontr)
  have prev: "t_nodes t b = Some m" if "t_nodes t' b = Some m" "exec_msec m \<le> now_msec" for b m
    using assms(1) that unfolding round_done_def kept_def resched_def by (metis not_less)
  assume "\<not> now_msec < exec_msec n"
  then have le: "exec_msec n \<le> now_msec" by simp
  have "tn_round n \<noteq> t_round t" using assms(2) prev [OF assms(3) le] le by (auto simp: blocked_def)
  then have "a \<in> due now_msec t'" using assms(1,3) le by (auto simp: due_def round_done_def)
  then obtain b m where b: "t_nodes t' b = Some m" "tn_round m = t_round t" "exec_msec m \<le> now_msec"
    using assms(1) unfolding round_done_def blocked_def by auto
  then show False using assms(2) prev [OF b(1,3)] by (auto simp: blocked_def)
qed


subsection \<open>Properties\<close>

text \<open>A timer with one periodic node, added at 5 ms with a period of 10 ms.\<close>

definition sample_timer :: "(unit, unit) timer" where
  "sample_timer = (snd (timer_add (None, 0) 5 10 True () () (the (timer_new (Some (\<lambda>_. 0))))))\<lparr>t_round := 1\<rparr>"

lemma sample_timer_inv:
  "timer_inv sample_timer" "t_current_id sample_timer = -1" "cb_ok 20 (\<lambda>_ _ _. [])"
proof -
  obtain t :: "(unit, unit) timer" where t: "timer_new (Some (\<lambda>_. 0)) = Some t" "h_num (t_heap t) = 1" "t_next_id t = 1"
    by (simp add: timer_new_def heap_new_def)
  note t0 = timer_inv_new [OF t(1)]
  have ok: "add_ok 5 10 t" using t by (simp add: add_ok_def msec_limit_def heap_room_def)
  obtain r t' where e: "timer_add (None, 0) 5 10 True () () t = (r, t')" by fastforce
  have "timer_inv t'" "t_current_id t' = t_current_id t"
    using timer_add_inv [OF t0(1) ok e] evolvesD(2) [OF add_evolves [OF t0(1) ok _ e, of 0]] by auto
  then show "timer_inv sample_timer" "t_current_id sample_timer = -1"
    using e t(1) t0 by (simp_all add: sample_timer_def)
  show "cb_ok 20 (\<lambda>_ _ _. [])" by (simp add: cb_ok_def)
qed



text \<open>
  C11. The wake-up time \<^verbatim>\<open>select\<close> leaves with the reactor: -1 (sleep without limit) exactly
  when no timer is left, otherwise the time to the earliest deadline, and at least 1 ms.
\<close>

theorem timer_select_wakeup:
  assumes "timer_inv t" and "t_current_id t = -1" and "cb_ok now_msec cb"
    and "0 \<le> now_msec" and "now_msec < msec_limit"
  shows "\<exists>t'. timer_select cb now_msec t = Some (0, t') \<and> next_msec t' = timeout_msec t' \<and>
    (if t_nodes t' = Map.empty then timeout_msec t' = -1
     else \<exists>a n. t_nodes t' a = Some n \<and> (\<forall>b m. t_nodes t' b = Some m \<longrightarrow> exec_msec n \<le> exec_msec m) \<and>
            timeout_msec t' = max 1 (exec_msec n - now_msec))"
proof -
  obtain s m where s: "timer_select cb now_msec t = Some (0, s\<lparr>timeout_msec := m, next_msec := m, t_round := t_round t + 1\<rparr>)"
    "if t_nodes s = Map.empty then m = -1
     else \<exists>a n. t_nodes s a = Some n \<and> (\<forall>b k. t_nodes s b = Some k \<longrightarrow> exec_msec n \<le> exec_msec k) \<and>
            m = max 1 (exec_msec n - now_msec)" using select_round [OF assms] by blast
  show ?thesis
    by (rule exI [of _ "s\<lparr>timeout_msec := m, next_msec := m, t_round := t_round t + 1\<rparr>"]) (use s in simp)
qed

theorem timer_select_wakeup_witness:
  "\<exists>t'. timer_select (\<lambda>_ _ _. []) 20 sample_timer = Some (0, t') \<and> next_msec t' = timeout_msec t'"
  using timer_select_wakeup [OF sample_timer_inv] by (auto simp: msec_limit_def)


lemma finite_map: "timer_inv t \<Longrightarrow> finite (dom (t_map t))"
proof (rule finite_subset [of _ "{0<..<t_next_id t}"])
  assume inv: "timer_inv t"
  show "dom (t_map t) \<subseteq> {0<..<t_next_id t}"
    using timer_invD(5) [OF inv] timer_invD(4) [OF inv] by (fastforce simp: node_ok_def)
qed simp

lemma timer_add_wakeup:
  "timer_add env now_msec msec persistent data cb t = (r, t') \<Longrightarrow> 0 < msec \<Longrightarrow> 0 \<le> now_msec \<Longrightarrow> next_msec t' \<le> msec"
  by (auto simp: timer_add_def Let_def set_timeout_def split: prod.splits option.splits if_splits)

text \<open>
  \<^verbatim>\<open>Timer::add\<close>, when it succeeds, makes exactly one new timer: under an id no other
  timer has, due \<open>msec\<close> from now, periodic if asked, with every other timer untouched, and
  the reactor is told to wake up no later than \<open>msec\<close> from now.
\<close>

theorem timer_add_correct:
  assumes "timer_inv t" and "add_ok now_msec msec t"
    and "timer_add env now_msec msec persistent data cb t = (Some a, t')"
  shows "timer_inv t' \<and> timer_get (t_next_id t) t = None \<and> timer_get (t_next_id t) t' = Some a \<and>
    tn_id (tnode t' a) = t_next_id t \<and> exec_msec (tnode t' a) = now_msec + msec \<and> \<not> removed (tnode t' a) \<and>
    interval (tnode t' a) = (if persistent then msec else 0) \<and> callback (tnode t' a) = cb \<and>
    timer_count t' = timer_count t + 1 \<and> (\<forall>b. b \<noteq> a \<longrightarrow> t_nodes t' b = t_nodes t b) \<and>
    (\<forall>i. i \<noteq> t_next_id t \<longrightarrow> timer_get i t' = timer_get i t) \<and> next_msec t' \<le> msec"
  using assms
proof (cases rule: timer_add_cases)
  case (added h)
  have "timer_count t' = timer_count t + 1"
    using fresh_id [OF assms(1)] finite_map [OF assms(1)] added by (simp add: timer_count_def domIff)
  then show ?thesis
    using timer_add_inv [OF assms] fresh_id [OF assms(1)] timer_add_wakeup [OF assms(3) added(1,2)] added
    by (simp add: timer_get_def tnode_def new_tnode_def)
qed simp_all

theorem timer_add_correct_witness:
  "\<exists>t a t'. timer_inv (t :: (unit, unit) timer) \<and> timer_add (Some (\<lambda>_. 0), 0) 7 3 False () () t = (Some a, t') \<and>
     timer_inv t' \<and> exec_msec (tnode t' a) = 10 \<and> timer_count t' = timer_count t + 1"
proof -
  obtain t :: "(unit, unit) timer" where t: "timer_new (Some (\<lambda>_. 0)) = Some t" "h_num (t_heap t) = 1" "t_next_id t = 1"
    by (simp add: timer_new_def heap_new_def)
  note t0 = timer_inv_new(1) [OF t(1)]
  have ok: "add_ok 7 3 t" using t by (simp add: add_ok_def msec_limit_def heap_room_def)
  obtain r t' where e: "timer_add (Some (\<lambda>_. 0), 0) 7 3 False () () t = (r, t')" by fastforce
  from t0 ok e obtain a where "r = Some a" by (cases rule: timer_add_cases) auto
  then show ?thesis using timer_add_correct [OF t0 ok, of "(Some (\<lambda>_. 0), 0)" False "()" "()" a t'] e t0 by auto
qed

text \<open>
  \<^verbatim>\<open>openswoole_timer_clear\<close>: after it the timer does not exist for its user, also when it
  is cleared from its own callback (then the node is only marked, and \<^verbatim>\<open>select\<close> deletes it);
  the result tells whether the timer existed, and no other timer is affected.
\<close>

theorem timer_clear_correct:
  assumes "timer_inv t" and "openswoole_timer_clear i (Some t) = (r, Some t')"
  shows "timer_inv t' \<and> r = openswoole_timer_exists i (Some t) \<and> \<not> openswoole_timer_exists i (Some t') \<and>
    (i \<noteq> t_current_id t \<longrightarrow> timer_get i t' = None) \<and>
    (\<forall>j. j \<noteq> i \<longrightarrow> timer_get j t' = timer_get j t) \<and>
    (\<forall>a n. t_nodes t a = Some n \<longrightarrow> tn_id n \<noteq> i \<longrightarrow> t_nodes t' a = Some n)"
proof (cases "t_map t i")
  case None
  then show ?thesis using assms
    by (auto simp: openswoole_timer_clear_def openswoole_timer_exists_def timer_get_def timer_remove_def)
next
  case (Some a)
  then obtain n where n: "t_nodes t a = Some n" "tn_id n = i" using timer_invD(5) [OF assms(1)] by blast
  have e: "timer_remove (Some a) t = (r, t')"
    using assms(2) Some by (cases "timer_remove (Some a) t") (auto simp: openswoole_timer_clear_def timer_get_def)
  have mk: "removed n \<Longrightarrow> i = t_current_id t" using timer_invD(4) [OF assms(1) n(1)] n(2) by (simp add: node_ok_def)
  have inv: "timer_inv t'" by (rule timer_remove_inv [OF assms(1) n(1) e])
  note defs = openswoole_timer_exists_def timer_get_def tnode_def
  from assms(1) n(1) e show ?thesis
  proof (cases rule: timer_remove_cases)
    case again
    then show ?thesis using inv Some n mk by (auto simp: defs)
  next
    case mark
    then show ?thesis using inv Some n by (auto simp: defs)
  next
    case (gone ha l)
    then show ?thesis using inv Some n by (auto simp: defs)
  qed
qed

theorem timer_clear_correct_witness:
  "\<exists>r t'. openswoole_timer_clear 1 (Some sample_timer) = (r, Some t') \<and> timer_inv t' \<and> \<not> openswoole_timer_exists 1 (Some t')"
proof -
  obtain r t' where e: "openswoole_timer_clear 1 (Some sample_timer) = (r, Some t')"
    by (cases "timer_remove (timer_get 1 sample_timer) sample_timer") (simp add: openswoole_timer_clear_def)
  show ?thesis using timer_clear_correct [OF sample_timer_inv(1) e] e by blast
qed

lemma c_quot_mono: "a \<le> b \<Longrightarrow> c_quot a 1000 \<le> c_quot b 1000"
proof (cases "0 \<le> a \<or> b < 0")
  case False
  then have "0 \<le> - a div 1000" "0 \<le> b div 1000" by (simp_all add: pos_imp_zdiv_nonneg_iff)
  then show ?thesis using False by (simp add: c_quot_def)
qed (auto simp: c_quot_def zdiv_mono1)

lemma c_quot_second: "c_quot (a + 1000000) 1000 \<le> c_quot a 1000 + 1000"
proof -
  have "(a + 1000000) div 1000 = a div 1000 + 1000" by simp
  moreover have "a div 1000 \<le> - (- a div 1000)" "a < 0 \<Longrightarrow> \<not> 0 \<le> a + 1000000 \<Longrightarrow> - (- (a + 1000000) div 1000) = - (- a div 1000) + 1000"
    by linarith+
  ultimately show ?thesis by (simp add: c_quot_def)
qed

text \<open>
  The relative clock never runs backwards while the system clock does not, and it is
  within one millisecond of the true time elapsed, although both quotients truncate.
\<close>

theorem get_relative_msec_monotone:
  assumes "0 \<le> bu" and "bu < 1000000" and "0 \<le> u" and "u < 1000000" and "0 \<le> v" and "v < 1000000"
    and "s * 1000000 + u \<le> s' * 1000000 + v"
  shows "get_relative_msec (bs, bu) (Some (s, u)) \<le> get_relative_msec (bs, bu) (Some (s', v)) \<and>
    \<bar>1000 * get_relative_msec (bs, bu) (Some (s, u)) - ((s - bs) * 1000000 + (u - bu))\<bar> < 1000"
proof
  consider "s = s'" "u \<le> v" | "s + 1 \<le> s'" using assms by fastforce
  then show "get_relative_msec (bs, bu) (Some (s, u)) \<le> get_relative_msec (bs, bu) (Some (s', v))"
  proof cases
    case 1
    then show ?thesis using c_quot_mono [of "u - bu" "v - bu"] by (simp add: get_relative_msec_def)
  next
    case 2
    have "c_quot (u - bu) 1000 \<le> c_quot (v - bu) 1000 + 1000"
      using c_quot_mono [of "u - bu" "v - bu + 1000000"] c_quot_second [of "v - bu"] assms by linarith
    then show ?thesis using 2 by (simp add: get_relative_msec_def)
  qed
  show "\<bar>1000 * get_relative_msec (bs, bu) (Some (s, u)) - ((s - bs) * 1000000 + (u - bu))\<bar> < 1000"
    unfolding get_relative_msec_def c_quot_def by auto
qed

theorem get_relative_msec_monotone_witness:
  "get_relative_msec (3, 999000) (Some (4, 0)) \<le> get_relative_msec (3, 999000) (Some (4, 1500))"
  using get_relative_msec_monotone [of 999000 0 1500 4 4 3] by simp

end
