(* ===== verification/Osw_Bytes.thy ===== *)
theory Osw_Bytes
  imports Osw_Prelude
begin

text \<open>
  Byte buffers: reading and writing a range of a buffer with the bounds explicit, and
  integers stored in little-endian and in network (big-endian) order. A read or a write
  outside the buffer is \<open>None\<close>, so a component whose operations never yield it has no
  out-of-bounds access.
\<close>

subsection \<open>Ranges of a buffer\<close>

definition mem_read :: "nat \<Rightarrow> nat \<Rightarrow> 'a list \<Rightarrow> 'a list option" where
  "mem_read p n m = (if p + n \<le> length m then Some (take n (drop p m)) else None)"

definition mem_write :: "nat \<Rightarrow> 'a list \<Rightarrow> 'a list \<Rightarrow> 'a list option" where
  "mem_write p bs m = (if p + length bs \<le> length m then Some (take p m @ bs @ drop (p + length bs) m) else None)"

named_theorems mem_simps \<open>reading and writing ranges\<close>

lemma mem_write_length: "mem_write p bs m = Some m' \<Longrightarrow> length m' = length m"
  by (auto simp: mem_write_def split: if_splits)

lemma mem_write_Some: "p + length bs \<le> length m \<Longrightarrow> \<exists>m'. mem_write p bs m = Some m'"
  by (simp add: mem_write_def)

lemma mem_read_same: "mem_write p bs m = Some m' \<Longrightarrow> mem_read p (length bs) m' = Some bs"
  by (auto simp: mem_write_def mem_read_def split: if_splits)

lemma mem_read_nth:
  "mem_read p n m = Some bs \<longleftrightarrow> p + n \<le> length m \<and> length bs = n \<and> (\<forall>i<n. bs ! i = m ! (p + i))"
  by (auto simp: mem_read_def list_eq_iff_nth_eq)

lemma mem_write_nth:
  "mem_write p bs m = Some m' \<Longrightarrow> i < length m \<Longrightarrow>
     m' ! i = (if p \<le> i \<and> i < p + length bs then bs ! (i - p) else m ! i)"
  by (auto simp: mem_write_def nth_append min_def split: if_splits)

text \<open>A write leaves every range it does not meet.\<close>

lemma mem_read_disjoint:
  assumes "mem_write p bs m = Some m'" and "q + n \<le> p \<or> p + length bs \<le> q"
  shows "mem_read q n m' = mem_read q n m"
proof (cases "q + n \<le> length m")
  case True
  have len: "length m' = length m" by (rule mem_write_length [OF assms(1)])
  have "take n (drop q m') = take n (drop q m)"
    by (rule nth_equalityI) (use assms(2) True len mem_write_nth [OF assms(1)] in \<open>auto simp: min_def split: if_splits\<close>)
  then show ?thesis by (simp add: mem_read_def len)
qed (simp add: mem_read_def mem_write_length [OF assms(1)])

subsection \<open>Integers in bytes\<close>

text \<open>\<open>n\<close> modulo \<open>256 ^ k\<close> in \<open>k\<close> bytes, least significant byte first.\<close>

primrec le_bytes :: "nat \<Rightarrow> nat \<Rightarrow> bytes" where
  "le_bytes 0 n = []"
| "le_bytes (Suc k) n = word_of_nat n # le_bytes k (n div 256)"

primrec le_value :: "bytes \<Rightarrow> nat" where
  "le_value [] = 0"
| "le_value (b # bs) = unat b + 256 * le_value bs"

definition be_bytes :: "nat \<Rightarrow> nat \<Rightarrow> bytes" where
  "be_bytes k n = rev (le_bytes k n)"

definition be_value :: "bytes \<Rightarrow> nat" where
  "be_value bs = le_value (rev bs)"

lemma length_le_bytes [simp]: "length (le_bytes k n) = k"
  by (induction k arbitrary: n) simp_all

lemma length_be_bytes [simp]: "length (be_bytes k n) = k"
  by (simp add: be_bytes_def)

lemma unat_u8: "unat (word_of_nat n :: u8) = n mod 256"
  by (simp add: unat_of_nat)

lemma u8_less: "unat (b :: u8) < 256"
  using unsigned_less [of b, where ?'a = nat] by simp

lemma le_value_bytes: "le_value (le_bytes k n) = n mod 256 ^ k"
proof (induction k arbitrary: n)
  case (Suc k)
  have "n mod (256 * 256 ^ k) = 256 * (n div 256 mod 256 ^ k) + n mod 256" by (rule mod_mult2_eq)
  then show ?case by (simp add: Suc unat_u8)
qed simp

lemma le_value_less: "le_value bs < 256 ^ length bs"
proof (induction bs)
  case (Cons b bs)
  have "unat b + 256 * le_value bs < 256 + 256 * (256 ^ length bs - 1)"
    using u8_less [of b] Cons by (intro add_less_le_mono mult_le_mono) auto
  then show ?case by (simp add: algebra_simps)
qed simp

lemma le_bytes_value: "le_bytes (length bs) (le_value bs) = bs"
proof (induction bs)
  case (Cons b bs)
  have "(unat b + 256 * le_value bs) div 256 = le_value bs" using u8_less [of b] by simp
  moreover have zero: "(256 :: u8) = 0" by simp
  have "word_of_nat (unat b + 256 * le_value bs) = b"
    by (simp, subst zero, simp)
  ultimately show ?case using Cons by simp
qed simp

lemma le_value_append: "le_value (xs @ ys) = le_value xs + 256 ^ length xs * le_value ys"
  by (induction xs) (simp_all add: algebra_simps)

lemma be_value_bytes: "be_value (be_bytes k n) = n mod 256 ^ k"
  by (simp add: be_value_def be_bytes_def le_value_bytes)

lemma be_value_less: "be_value bs < 256 ^ length bs"
  using le_value_less [of "rev bs"] by (simp add: be_value_def)

lemma be_bytes_value: "be_bytes (length bs) (be_value bs) = bs"
  using le_bytes_value [of "rev bs"] by (simp add: be_bytes_def be_value_def)

lemma be_value_append: "be_value (xs @ ys) = be_value xs * 256 ^ length ys + be_value ys"
  by (simp add: be_value_def le_value_append)

end
