(* ===== verification/Osw_Channel.thy ===== *)
theory Osw_Channel
  imports Osw_Bytes
begin

text \<open>
  The shared-memory message channel of \<^verbatim>\<open>src/core/channel.cc\<close>: a ring of length-prefixed
  slices in one block of bytes. A slice never wraps; one that starts below \<^verbatim>\<open>size\<close> may run
  past it into the overflow space at the end of the block. The result is \<open>None\<close> when an
  assertion fails or a byte outside the block is touched. The lock and the notify pipe are
  operating system objects; \<^verbatim>\<open>push\<close> and \<^verbatim>\<open>pop\<close> are \<^verbatim>\<open>in\<close> and \<^verbatim>\<open>out\<close> under the lock.
\<close>

subsection \<open>State and operations\<close>

record channel =
  ch_head :: nat
  ch_tail :: nat
  ch_size :: nat
  ch_head_tag :: nat
  ch_tail_tag :: nat
  ch_num :: nat
  ch_bytes :: nat
  ch_flags :: u32
  ch_maxlen :: nat
  ch_mem :: bytes

definition chan_make :: "(nat \<Rightarrow> u8) option \<Rightarrow> nat \<Rightarrow> nat \<Rightarrow> u32 \<Rightarrow> channel option option" where
  "chan_make mem n maxlen flags =
     (if n < maxlen then None
      else Some (case mem of
          None \<Rightarrow> None
        | Some g \<Rightarrow> Some \<lparr>ch_head = 0, ch_tail = 0, ch_size = n, ch_head_tag = 0, ch_tail_tag = 0, ch_num = 0,
            ch_bytes = 0, ch_flags = flags, ch_maxlen = maxlen, ch_mem = map g [0..<n + maxlen + 4]\<rparr>))"

definition chan_empty :: "channel \<Rightarrow> bool" where
  "chan_empty c = (ch_num c = 0)"

definition chan_full :: "channel \<Rightarrow> bool" where
  "chan_full c = ((ch_head c = ch_tail c \<and> ch_tail_tag c \<noteq> ch_head_tag c) \<or> ch_bytes c + 4 * ch_num c = ch_size c)"

text \<open>The tail of \<^verbatim>\<open>in\<close>: count the slice and copy its length and data to offset \<open>p\<close>.\<close>

definition chan_store :: "nat \<Rightarrow> bytes \<Rightarrow> channel \<Rightarrow> (bool \<times> channel) option" where
  "chan_store p d c =
     map_option (\<lambda>m. (True, c\<lparr>ch_num := ch_num c + 1, ch_bytes := ch_bytes c + length d, ch_mem := m\<rparr>))
       (Option.bind (mem_write p (le_bytes 4 (length d)) (ch_mem c)) (mem_write (p + 4) d))"

definition chan_in :: "bytes \<Rightarrow> channel \<Rightarrow> (bool \<times> channel) option" where
  "chan_in d c =
     (if length d > ch_maxlen c then None
      else if chan_full c then Some (False, c)
      else (let msize = 4 + length d; item = ch_tail c in
            if ch_tail c < ch_head c then
              (if ch_head c - ch_tail c < msize then Some (False, c)
               else chan_store item d (c\<lparr>ch_tail := ch_tail c + msize\<rparr>))
            else if ch_tail c + msize \<ge> ch_size c
            then chan_store item d (c\<lparr>ch_tail := 0, ch_tail_tag := 1 - ch_tail_tag c\<rparr>)
            else chan_store item d (c\<lparr>ch_tail := ch_tail c + msize\<rparr>)))"

definition chan_out :: "nat \<Rightarrow> channel \<Rightarrow> (bytes option \<times> channel) option" where
  "chan_out buffer_length c =
     (if chan_empty c then Some (None, c)
      else Option.bind (mem_read (ch_head c) 4 (ch_mem c)) (\<lambda>lb.
        (let n = le_value lb in
         if buffer_length < n then None
         else Option.bind (mem_read (ch_head c + 4) n (ch_mem c)) (\<lambda>d.
           (let h = ch_head c + (n + 4);
                c1 = (if h \<ge> ch_size c then c\<lparr>ch_head := 0, ch_head_tag := 1 - ch_head_tag c\<rparr> else c\<lparr>ch_head := h\<rparr>)
            in Some (Some d, c1\<lparr>ch_num := ch_num c - 1, ch_bytes := ch_bytes c - n\<rparr>))))))"

definition chan_peek :: "nat \<Rightarrow> channel \<Rightarrow> (bytes option) option" where
  "chan_peek buffer_length c =
     (if chan_empty c then Some None
      else Option.bind (mem_read (ch_head c) 4 (ch_mem c)) (\<lambda>lb.
        (let n = le_value lb in
         if buffer_length < n then None else map_option Some (mem_read (ch_head c + 4) n (ch_mem c)))))"

definition OSW_CHAN_LOCK :: u32 where
  "OSW_CHAN_LOCK = 2"

definition chan_push :: "bytes \<Rightarrow> channel \<Rightarrow> (bool \<times> channel) option" where
  "chan_push d c = (if ch_flags c AND OSW_CHAN_LOCK = 0 then None else chan_in d c)"

definition chan_pop :: "nat \<Rightarrow> channel \<Rightarrow> (bytes option \<times> channel) option" where
  "chan_pop buffer_length c = (if ch_flags c AND OSW_CHAN_LOCK = 0 then None else chan_out buffer_length c)"

subsection \<open>The slices in the block\<close>

text \<open>\<open>seg n m p q e\<close>: the slices \<open>q\<close> lie one after the other from offset \<open>p\<close> to \<open>e\<close>, each
  starting below \<open>n\<close>.\<close>

fun seg :: "nat \<Rightarrow> bytes \<Rightarrow> nat \<Rightarrow> bytes list \<Rightarrow> nat \<Rightarrow> bool" where
  "seg n m p [] e \<longleftrightarrow> p = e"
| "seg n m p (d # q) e \<longleftrightarrow> p < n \<and> mem_read p 4 m = Some (le_bytes 4 (length d)) \<and>
     mem_read (p + 4) (length d) m = Some d \<and> seg n m (p + 4 + length d) q e"

text \<open>
  The channel holds the messages \<open>q\<close>, oldest first. With equal tags they lie between head and
  tail. With different tags the tail has wrapped: the oldest ones run from head past the end,
  the others from 0 to tail, which has not passed head.
\<close>

definition chan_base :: "channel \<Rightarrow> bytes list \<Rightarrow> bool" where
  "chan_base c q \<longleftrightarrow>
     ch_head c < ch_size c \<and> ch_tail c < ch_size c \<and> ch_head_tag c \<le> 1 \<and> ch_tail_tag c \<le> 1 \<and>
     ch_size c < 2147483648 \<and> ch_maxlen c \<le> ch_size c \<and>
     length (ch_mem c) = ch_size c + ch_maxlen c + 4 \<and>
     ch_num c = length q \<and> ch_bytes c = sum_list (map length q) \<and> (\<forall>d\<in>set q. length d \<le> ch_maxlen c)"

definition chan_rel :: "channel \<Rightarrow> bytes list \<Rightarrow> bool" where
  "chan_rel c q \<longleftrightarrow> chan_base c q \<and>
     (if ch_head_tag c = ch_tail_tag c then seg (ch_size c) (ch_mem c) (ch_head c) q (ch_tail c)
      else \<exists>xs ys e. q = xs @ ys \<and> seg (ch_size c) (ch_mem c) (ch_head c) xs e \<and> ch_size c \<le> e \<and>
             seg (ch_size c) (ch_mem c) 0 ys (ch_tail c) \<and> ch_tail c \<le> ch_head c)"

lemma chan_rel_wrapped:
  "chan_base c (xs @ ys) \<Longrightarrow> ch_head_tag c \<noteq> ch_tail_tag c \<Longrightarrow> seg (ch_size c) (ch_mem c) (ch_head c) xs e \<Longrightarrow>
   ch_size c \<le> e \<Longrightarrow> seg (ch_size c) (ch_mem c) 0 ys (ch_tail c) \<Longrightarrow> ch_tail c \<le> ch_head c \<Longrightarrow> chan_rel c (xs @ ys)"
  unfolding chan_rel_def by auto

lemma seg_le: "seg n m p q e \<Longrightarrow> p \<le> e"
  by (induction q arbitrary: p) fastforce+

lemma seg_append: "seg n m p (q @ [d]) e \<longleftrightarrow>
    (\<exists>r. seg n m p q r \<and> r < n \<and> mem_read r 4 m = Some (le_bytes 4 (length d)) \<and>
         mem_read (r + 4) (length d) m = Some d \<and> e = r + 4 + length d)"
  by (induction q arbitrary: p) auto

text \<open>A write below or above a segment keeps it.\<close>

lemma seg_write:
  assumes "mem_write a bs m = Some m'" and "seg n m p q e" and "e \<le> a \<or> a + length bs \<le> p"
  shows "seg n m' p q e"
  using assms(2,3)
proof (induction q arbitrary: p)
  case (Cons d q)
  have e: "p + 4 + length d \<le> e" using Cons.prems(1) seg_le by auto
  have "mem_read p 4 m' = mem_read p 4 m" "mem_read (p + 4) (length d) m' = mem_read (p + 4) (length d) m"
    using mem_read_disjoint [OF assms(1)] Cons.prems(2) e by auto
  moreover have "seg n m' (p + 4 + length d) q e" using Cons.IH Cons.prems by auto
  ultimately show ?case using Cons.prems(1) by simp
qed simp

text \<open>Writing a slice: both parts are in the block, and read back.\<close>

lemma slice_write:
  assumes "p + 4 + length d \<le> length m"
  obtains m1 m2 where "mem_write p (le_bytes 4 (length d)) m = Some m1" and "mem_write (p + 4) d m1 = Some m2"
    and "mem_read p 4 m2 = Some (le_bytes 4 (length d))" and "mem_read (p + 4) (length d) m2 = Some d"
    and "length m2 = length m"
    and "\<forall>n a q e. seg n m a q e \<longrightarrow> e \<le> p \<or> p + 4 + length d \<le> a \<longrightarrow> seg n m2 a q e"
proof -
  obtain m1 where m1: "mem_write p (le_bytes 4 (length d)) m = Some m1"
    using mem_write_Some [of p "le_bytes 4 (length d)" m] assms by auto
  obtain m2 where m2: "mem_write (p + 4) d m1 = Some m2"
    using mem_write_Some [of "p + 4" d m1] assms mem_write_length [OF m1] by auto
  show thesis
  proof (rule that [OF m1 m2])
    show "mem_read p 4 m2 = Some (le_bytes 4 (length d))"
      using mem_read_disjoint [OF m2, of p 4] mem_read_same [OF m1] by simp
    show "mem_read (p + 4) (length d) m2 = Some d" by (rule mem_read_same [OF m2])
    show "length m2 = length m" using mem_write_length [OF m1] mem_write_length [OF m2] by simp
    show "\<forall>n a q e. seg n m a q e \<longrightarrow> e \<le> p \<or> p + 4 + length d \<le> a \<longrightarrow> seg n m2 a q e"
      by (intro allI impI seg_write [OF m2] seg_write [OF m1]) auto
  qed
qed


lemma chan_baseD:
  assumes "chan_rel c q"
  shows "ch_head c < ch_size c" "ch_tail c < ch_size c" "ch_head_tag c \<le> 1" "ch_tail_tag c \<le> 1" "ch_size c < 2147483648"
    "ch_maxlen c \<le> ch_size c" "length (ch_mem c) = ch_size c + ch_maxlen c + 4" "ch_num c = length q"
    "ch_bytes c = sum_list (map length q)" "\<forall>d\<in>set q. length d \<le> ch_maxlen c"
  using assms by (simp_all add: chan_rel_def chan_base_def)

text \<open>The slice goes to the old tail, whatever the new tail is, within the block.\<close>

lemma chan_store_spec:
  assumes "chan_rel c q" and "length d \<le> ch_maxlen c"
  obtains m where "\<forall>x. ch_mem x = ch_mem c \<longrightarrow> chan_store (ch_tail c) d x =
      Some (True, x\<lparr>ch_num := ch_num x + 1, ch_bytes := ch_bytes x + length d, ch_mem := m\<rparr>)"
    and "length m = length (ch_mem c)"
    and "\<forall>a xs. seg (ch_size c) (ch_mem c) a xs (ch_tail c) \<longrightarrow> seg (ch_size c) m a (xs @ [d]) (ch_tail c + 4 + length d)"
    and "\<forall>a xs e. seg (ch_size c) (ch_mem c) a xs e \<longrightarrow> ch_tail c + 4 + length d \<le> a \<longrightarrow> seg (ch_size c) m a xs e"
proof -
  note c = chan_baseD [OF assms(1)]
  have "ch_tail c + 4 + length d \<le> length (ch_mem c)" using c assms(2) by simp
  then obtain m1 m2 where m: "mem_write (ch_tail c) (le_bytes 4 (length d)) (ch_mem c) = Some m1" "mem_write (ch_tail c + 4) d m1 = Some m2"
    "mem_read (ch_tail c) 4 m2 = Some (le_bytes 4 (length d))" "mem_read (ch_tail c + 4) (length d) m2 = Some d"
    "length m2 = length (ch_mem c)"
    and keep: "\<forall>n a q e. seg n (ch_mem c) a q e \<longrightarrow> e \<le> ch_tail c \<or> ch_tail c + 4 + length d \<le> a \<longrightarrow> seg n m2 a q e"
    by (rule slice_write) blast
  show thesis
    by (rule that [of m2]) (use m keep c(2) in \<open>auto simp: chan_store_def seg_append\<close>)
qed

lemma chan_in_flat:
  assumes rel: "chan_rel c q" and len: "length d \<le> ch_maxlen c" and free: "\<not> chan_full c"
    and tags: "ch_head_tag c = ch_tail_tag c"
  obtains c' where "chan_in d c = Some (True, c')" "chan_rel c' (q @ [d])" "ch_maxlen c' = ch_maxlen c" "ch_size c' = ch_size c"
proof -
  note c = chan_baseD [OF rel]
  obtain m where st: "\<And>x. ch_mem x = ch_mem c \<Longrightarrow> chan_store (ch_tail c) d x =
      Some (True, x\<lparr>ch_num := ch_num x + 1, ch_bytes := ch_bytes x + length d, ch_mem := m\<rparr>)"
    and m: "length m = length (ch_mem c)"
    and app: "\<And>a xs. seg (ch_size c) (ch_mem c) a xs (ch_tail c) \<Longrightarrow> seg (ch_size c) m a (xs @ [d]) (ch_tail c + 4 + length d)"
    by (rule chan_store_spec [OF rel len]) blast
  have sg: "seg (ch_size c) (ch_mem c) (ch_head c) q (ch_tail c)" using rel tags by (simp add: chan_rel_def)
  have le: "ch_head c \<le> ch_tail c" by (rule seg_le [OF sg])
  define c' where "c' = (if ch_tail c + (4 + length d) \<ge> ch_size c then c\<lparr>ch_tail := 0, ch_tail_tag := 1 - ch_tail_tag c\<rparr>
      else c\<lparr>ch_tail := ch_tail c + (4 + length d)\<rparr>)\<lparr>ch_num := ch_num c + 1, ch_bytes := ch_bytes c + length d, ch_mem := m\<rparr>"
  have "chan_in d c = Some (True, c')" using free le len st unfolding chan_in_def c'_def by (auto simp: Let_def)
  moreover have "chan_rel c' (q @ [d])"
  proof (cases "ch_tail c + (4 + length d) \<ge> ch_size c")
    case True
    have "ch_head_tag c \<noteq> 1 - ch_tail_tag c" using tags c(4) by arith
    then have "chan_rel c' ((q @ [d]) @ [])" using c len m app [OF sg] True
      by (intro chan_rel_wrapped [of _ _ _ "ch_tail c + 4 + length d"]) (auto simp: chan_base_def c'_def)
    then show ?thesis by simp
  next
    case False
    then show ?thesis using c len m app [OF sg] tags unfolding chan_rel_def chan_base_def c'_def by (auto simp: ac_simps)
  qed
  ultimately show thesis by (intro that [of c']) (simp_all add: c'_def)
qed

lemma chan_in_wrapped:
  assumes rel: "chan_rel c q" and len: "length d \<le> ch_maxlen c" and free: "\<not> chan_full c"
    and room: "\<not> (ch_tail c < ch_head c \<and> ch_head c - ch_tail c < 4 + length d)" and tags: "ch_head_tag c \<noteq> ch_tail_tag c"
  obtains c' where "chan_in d c = Some (True, c')" "chan_rel c' (q @ [d])" "ch_maxlen c' = ch_maxlen c" "ch_size c' = ch_size c"
proof -
  note c = chan_baseD [OF rel]
  obtain m where st: "\<And>x. ch_mem x = ch_mem c \<Longrightarrow> chan_store (ch_tail c) d x =
      Some (True, x\<lparr>ch_num := ch_num x + 1, ch_bytes := ch_bytes x + length d, ch_mem := m\<rparr>)"
    and m: "length m = length (ch_mem c)"
    and app: "\<And>a xs. seg (ch_size c) (ch_mem c) a xs (ch_tail c) \<Longrightarrow> seg (ch_size c) m a (xs @ [d]) (ch_tail c + 4 + length d)"
    and keep: "\<And>a xs e. seg (ch_size c) (ch_mem c) a xs e \<Longrightarrow> ch_tail c + 4 + length d \<le> a \<Longrightarrow> seg (ch_size c) m a xs e"
    by (rule chan_store_spec [OF rel len]) blast
  obtain xs ys e where q: "q = xs @ ys" "seg (ch_size c) (ch_mem c) (ch_head c) xs e" "ch_size c \<le> e"
    "seg (ch_size c) (ch_mem c) 0 ys (ch_tail c)" "ch_tail c \<le> ch_head c" using rel tags by (auto simp: chan_rel_def)
  have lt: "ch_tail c < ch_head c" using q(5) free tags by (auto simp: chan_full_def)
  then have fits: "ch_tail c + 4 + length d \<le> ch_head c" using room by auto
  define c' where "c' = c\<lparr>ch_tail := ch_tail c + (4 + length d), ch_num := ch_num c + 1, ch_bytes := ch_bytes c + length d, ch_mem := m\<rparr>"
  have "chan_in d c = Some (True, c')" using free lt len room st unfolding chan_in_def c'_def by (auto simp: Let_def)
  moreover have "chan_rel c' (xs @ (ys @ [d]))"
    using c len m keep [OF q(2) fits] app [OF q(4)] q(1,3) fits tags
    by (intro chan_rel_wrapped [of _ _ _ e]) (auto simp: chan_base_def c'_def ac_simps)
  ultimately show thesis using q(1) by (intro that [of c']) (simp_all add: c'_def)
qed

lemma chan_in_spec:
  assumes rel: "chan_rel c q" and len: "length d \<le> ch_maxlen c"
  obtains (refused) "chan_in d c = Some (False, c)"
      "chan_full c \<or> (ch_tail c < ch_head c \<and> ch_head c - ch_tail c < 4 + length d)"
  | (stored) c' where "chan_in d c = Some (True, c')" "chan_rel c' (q @ [d])" "ch_maxlen c' = ch_maxlen c"
      "ch_size c' = ch_size c"
proof (cases "chan_full c \<or> (ch_tail c < ch_head c \<and> ch_head c - ch_tail c < 4 + length d)")
  case True
  then show thesis using len by (intro refused) (auto simp: chan_in_def Let_def)
next
  case False
  then show thesis
    using stored chan_in_flat [OF rel len] chan_in_wrapped [OF rel len] by (cases "ch_head_tag c = ch_tail_tag c") blast+
qed

lemma chan_out_spec:
  assumes rel: "chan_rel c (d # q)" and len: "ch_maxlen c \<le> k"
  obtains c' where "chan_out k c = Some (Some d, c')" "chan_rel c' q" "ch_maxlen c' = ch_maxlen c" "ch_size c' = ch_size c"
proof -
  let ?n = "ch_size c" and ?m = "ch_mem c"
  note c = chan_baseD [OF rel]
  define h where "h = ch_head c + 4 + length d"
  have val: "le_value (le_bytes 4 (length d)) = length d" using c by (simp add: le_value_bytes)
  define c1 where "c1 = (if h \<ge> ?n then c\<lparr>ch_head := 0, ch_head_tag := 1 - ch_head_tag c\<rparr> else c\<lparr>ch_head := h\<rparr>)"
  define c' where "c' = c1\<lparr>ch_num := ch_num c - 1, ch_bytes := ch_bytes c - length d\<rparr>"
  have keep: "ch_size c' = ?n" "ch_mem c' = ?m" "ch_tail c' = ch_tail c" "ch_tail_tag c' = ch_tail_tag c"
    "ch_maxlen c' = ch_maxlen c" by (simp_all add: c'_def c1_def)
  have out: "chan_out k c = Some (Some d, c')"
    if "mem_read (ch_head c) 4 ?m = Some (le_bytes 4 (length d))" "mem_read (ch_head c + 4) (length d) ?m = Some d"
    using that c(8,10) len val unfolding chan_out_def c'_def c1_def h_def by (auto simp: chan_empty_def Let_def ac_simps)
  have base: "chan_base c' q" using c by (auto simp: chan_base_def c'_def c1_def)
  show thesis
  proof (cases "ch_head_tag c = ch_tail_tag c")
    case True
    then have sg: "seg ?n ?m (ch_head c) (d # q) (ch_tail c)" using rel by (simp add: chan_rel_def)
    then have "h \<le> ch_tail c" "seg ?n ?m h q (ch_tail c)" using seg_le by (auto simp: h_def)
    then have "chan_rel c' q" using True c(2) base unfolding chan_rel_def by (simp add: c'_def c1_def)
    then show thesis using out sg keep by (intro that [of c']) auto
  next
    case False
    then obtain xs ys e where q: "d # q = xs @ ys" "seg ?n ?m (ch_head c) xs e" "?n \<le> e" "seg ?n ?m 0 ys (ch_tail c)"
        "ch_tail c \<le> ch_head c" using rel by (auto simp: chan_rel_def)
    then obtain xs' where xs: "xs = d # xs'" "q = xs' @ ys" using c(1) by (cases xs) auto
    have sg: "seg ?n ?m h xs' e" using q(2) xs(1) by (simp add: h_def)
    have "chan_rel c' q"
    proof (cases "h \<ge> ?n")
      case True
      then have "xs' = []" using sg by (cases xs') auto
      moreover have "1 - ch_head_tag c = ch_tail_tag c" using False c(3,4) by arith
      ultimately show ?thesis using True xs q(4) base unfolding chan_rel_def by (simp add: c'_def c1_def)
    next
      case le: False
      have "ch_head_tag c' \<noteq> ch_tail_tag c'" "ch_head c' = h" using False le by (simp_all add: c'_def c1_def)
      then show ?thesis using chan_rel_wrapped [of c' xs' ys e] base sg q keep xs(2) by (simp add: h_def)
    qed
    then show thesis using out q(2) xs keep by (intro that [of c']) auto
  qed
qed


subsection \<open>First in, first out\<close>

text \<open>
  What a user of a bounded queue relies on, and what follows from it: \<^verbatim>\<open>put\<close> may refuse an
  element and then changes nothing it can see; \<^verbatim>\<open>get\<close> delivers the oldest element.
\<close>

datatype 'a queue_op = Put 'a | Get

locale bounded_fifo =
  fixes rel :: "'c \<Rightarrow> 'a list \<Rightarrow> bool" and put :: "'a \<Rightarrow> 'c \<Rightarrow> (bool \<times> 'c) option"
    and get :: "'c \<Rightarrow> ('a option \<times> 'c) option" and fits :: "'c \<Rightarrow> 'a \<Rightarrow> bool"
  assumes put_law: "rel c q \<Longrightarrow> fits c x \<Longrightarrow>
      \<exists>b c'. put x c = Some (b, c') \<and> rel c' (if b then q @ [x] else q) \<and> fits c' = fits c"
    and get_law: "rel c q \<Longrightarrow>
      \<exists>c'. get c = Some (if q = [] then None else Some (hd q), c') \<and> rel c' (tl q) \<and> fits c' = fits c"
begin

text \<open>Run a sequence of operations; collect the elements accepted and those delivered.\<close>

fun run :: "'a queue_op list \<Rightarrow> 'c \<Rightarrow> ('a list \<times> 'a list \<times> 'c) option" where
  "run [] c = Some ([], [], c)"
| "run (Put x # ops) c = Option.bind (put x c) (\<lambda>(b, c').
     map_option (\<lambda>(acc, del, c''). (if b then x # acc else acc, del, c'')) (run ops c'))"
| "run (Get # ops) c = Option.bind (get c) (\<lambda>(r, c').
     map_option (\<lambda>(acc, del, c''). (acc, case r of None \<Rightarrow> del | Some x \<Rightarrow> x # del, c'')) (run ops c'))"

lemma run_fifo:
  assumes "rel c q" and "\<And>x. Put x \<in> set ops \<Longrightarrow> fits c x"
  shows "\<exists>acc del c' q'. run ops c = Some (acc, del, c') \<and> rel c' q' \<and> q @ acc = del @ q'"
  using assms
proof (induction ops arbitrary: c q)
  case (Cons op ops)
  show ?case
  proof (cases op)
    case (Put x)
    obtain b c' where p: "put x c = Some (b, c')" "rel c' (if b then q @ [x] else q)" "fits c' = fits c"
      using put_law [OF Cons.prems(1), of x] Cons.prems(2) Put by auto
    have "\<And>y. Put y \<in> set ops \<Longrightarrow> fits c' y" using Cons.prems(2) p(3) by simp
    from Cons.IH [OF p(2) this] show ?thesis using p(1) Put by (cases b) auto
  next
    case Get
    obtain c' where g: "get c = Some (if q = [] then None else Some (hd q), c')" "rel c' (tl q)" "fits c' = fits c"
      using get_law [OF Cons.prems(1)] by blast
    have "\<And>y. Put y \<in> set ops \<Longrightarrow> fits c' y" using Cons.prems(2) g(3) by simp
    from Cons.IH [OF g(2) this] show ?thesis using g(1) Get by (cases q) auto
  qed
qed simp

end

definition chan_fits :: "channel \<Rightarrow> bytes \<Rightarrow> bool" where
  "chan_fits c d \<longleftrightarrow> length d \<le> ch_maxlen c"

interpretation cq: bounded_fifo chan_rel chan_in "\<lambda>c. chan_out (ch_maxlen c) c" chan_fits
proof
  show "\<exists>b c'. chan_in x c = Some (b, c') \<and> chan_rel c' (if b then q @ [x] else q) \<and> chan_fits c' = chan_fits c"
    if rel: "chan_rel c q" and len: "chan_fits c x" for c q x
  proof -
    from len have "length x \<le> ch_maxlen c" by (simp add: chan_fits_def)
    from rel this show ?thesis
      by (cases rule: chan_in_spec) (use rel in \<open>auto simp: chan_fits_def fun_eq_iff\<close>)
  qed
  show "\<exists>c'. chan_out (ch_maxlen c) c = Some (if q = [] then None else Some (hd q), c') \<and> chan_rel c' (tl q) \<and>
      chan_fits c' = chan_fits c" if rel: "chan_rel c q" for c q
  proof (cases q)
    case Nil
    then show ?thesis using rel chan_baseD(8) [OF rel] by (simp add: chan_out_def chan_empty_def)
  next
    case (Cons d q')
    obtain c' where "chan_out (ch_maxlen c) c = Some (Some d, c')" "chan_rel c' q'" "ch_maxlen c' = ch_maxlen c"
      using chan_out_spec [of c d q' "ch_maxlen c"] rel Cons by auto
    then show ?thesis using Cons by (auto simp: chan_fits_def fun_eq_iff)
  qed
qed

lemma chan_make_rel:
  assumes "maxlen \<le> n" and "0 < n" and "n < 2147483648"
  shows "\<exists>c. chan_make (Some g) n maxlen flags = Some (Some c) \<and> chan_rel c [] \<and> ch_maxlen c = maxlen \<and> ch_size c = n"
  using assms by (auto simp: chan_make_def chan_rel_def chan_base_def)

subsection \<open>Properties\<close>

text \<open>
  C13. The channel is a first-in first-out queue of messages and memory-safe: for any sequence
  of \<^verbatim>\<open>in\<close> and \<^verbatim>\<open>out\<close> on a new channel, with messages of at most \<^verbatim>\<open>maxlen\<close> bytes, no byte
  outside the block is touched and no assertion fails; the messages delivered are the first
  ones accepted, byte for byte and in order, and the channel holds the rest.
\<close>

theorem channel_fifo:
  assumes "maxlen \<le> n" and "0 < n" and "n < 2147483648" and "\<And>d. Put d \<in> set ops \<Longrightarrow> length d \<le> maxlen"
  shows "\<exists>c acc del c' rest. chan_make (Some g) n maxlen flags = Some (Some c) \<and>
    cq.run ops c = Some (acc, del, c') \<and> acc = del @ rest \<and> chan_rel c' rest"
proof -
  obtain c where c: "chan_make (Some g) n maxlen flags = Some (Some c)" "chan_rel c []" "ch_maxlen c = maxlen"
    using chan_make_rel [OF assms(1-3)] by blast
  have "\<And>d. Put d \<in> set ops \<Longrightarrow> chan_fits c d" using assms(4) c(3) by (simp add: chan_fits_def)
  from cq.run_fifo [where ops = ops, OF c(2) this] show ?thesis using c(1) by auto
qed

theorem channel_fifo_witness:
  "\<exists>c acc del c' rest. chan_make (Some (\<lambda>_. 0)) 16 8 0 = Some (Some c) \<and>
    cq.run [Put [1, 2], Put [3], Get, Put [4, 5, 6], Get] c = Some (acc, del, c') \<and> acc = del @ rest \<and> chan_rel c' rest"
  by (rule channel_fifo) auto

text \<open>
  \<^verbatim>\<open>in\<close> refuses a message only for lack of room: the ring is full, or the gap before the
  oldest message is too small; an empty channel accepts every message of legal size.
\<close>

theorem channel_in_refuses:
  assumes "chan_rel c q" and "length d \<le> ch_maxlen c"
  shows "(chan_in d c = Some (False, c) \<and>
      (chan_full c \<or> (ch_tail c < ch_head c \<and> ch_head c - ch_tail c < 4 + length d)) \<and> q \<noteq> []) \<or>
    (\<exists>c'. chan_in d c = Some (True, c') \<and> chan_rel c' (q @ [d]))"
  using assms
proof (cases rule: chan_in_spec)
  case refused
  have "q \<noteq> []"
  proof
    assume q: "q = []"
    note c = chan_baseD [OF assms(1)]
    have "ch_head_tag c = ch_tail_tag c"
    proof (rule ccontr)
      assume "ch_head_tag c \<noteq> ch_tail_tag c"
      then obtain e where "seg (ch_size c) (ch_mem c) (ch_head c) [] e" "ch_size c \<le> e"
        using assms(1) q by (auto simp: chan_rel_def)
      then show False using c(1) by simp
    qed
    then have "ch_head c = ch_tail c" using assms(1) q by (simp add: chan_rel_def)
    then show False using refused(2) c q \<open>ch_head_tag c = ch_tail_tag c\<close> by (auto simp: chan_full_def)
  qed
  then show ?thesis using refused by simp
qed auto

theorem channel_in_refuses_witness:
  "\<exists>c. chan_rel c [] \<and> (\<exists>c'. chan_in [7] c = Some (True, c') \<and> chan_rel c' ([] @ [[7]]))"
proof -
  obtain c where c: "chan_rel c []" "ch_maxlen c = 8" using chan_make_rel [of 8 16 "\<lambda>_. 0" 0] by auto
  then show ?thesis using channel_in_refuses [of c "[]" "[7]"] by auto
qed

end
