(* ===== verification/Osw_Fixed_Pool.thy ===== *)
theory Osw_Fixed_Pool
  imports Osw_Prelude "HOL-Library.Monad_Syntax"
begin

text \<open>
  The fixed-size slice allocator of \<^verbatim>\<open>src/memory/fixed_pool.cc\<close>: all slices are on one doubly
  linked list, free ones first. \<^verbatim>\<open>alloc\<close> takes the head and moves it to the tail, \<^verbatim>\<open>free\<close>
  moves the slice to the head. Slices live in an explicit store under their byte offset in
  the pool's memory; dereferencing a null pointer is \<open>None\<close>.
\<close>

subsection \<open>State and operations\<close>

record slice =
  locked :: bool
  s_next :: "addr option"
  s_pre :: "addr option"

record pool =
  p_slices :: "addr \<rightharpoonup> slice"
  p_size :: nat
  p_head :: "addr option"
  p_tail :: "addr option"
  slice_num :: nat
  slice_use :: nat
  slice_size :: nat

definition sizeof_struct_slice :: nat where
  "sizeof_struct_slice = 24"

definition sizeof_struct_impl :: nat where
  "sizeof_struct_impl = 48"

text \<open>\<open>p->next = v\<close> and \<open>p->pre = v\<close> through a pointer that may be null.\<close>

definition set_next :: "addr option \<Rightarrow> addr option \<Rightarrow> pool \<Rightarrow> pool option" where
  "set_next p v po = Option.bind p (\<lambda>a. map_option (\<lambda>s. po\<lparr>p_slices := (p_slices po)(a \<mapsto> s\<lparr>s_next := v\<rparr>)\<rparr>) (p_slices po a))"

definition set_pre :: "addr option \<Rightarrow> addr option \<Rightarrow> pool \<Rightarrow> pool option" where
  "set_pre p v po = Option.bind p (\<lambda>a. map_option (\<lambda>s. po\<lparr>p_slices := (p_slices po)(a \<mapsto> s\<lparr>s_pre := v\<rparr>)\<rparr>) (p_slices po a))"

text \<open>The loop of \<^verbatim>\<open>init\<close>, from offset \<open>cur\<close>.\<close>

function pool_init_loop :: "nat \<Rightarrow> pool \<Rightarrow> pool" where
  "pool_init_loop cur po =
     (let po1 = (case p_head po of
            None \<Rightarrow> po\<lparr>p_slices := (p_slices po)(cur \<mapsto> \<lparr>locked = False, s_next = None, s_pre = None\<rparr>), p_tail := Some cur\<rparr>
          | Some h \<Rightarrow> po\<lparr>p_slices := (p_slices po)(h \<mapsto> (the (p_slices po h))\<lparr>s_pre := Some cur\<rparr>,
                                                   cur \<mapsto> \<lparr>locked = False, s_next = Some h, s_pre = None\<rparr>)\<rparr>);
          po2 = po1\<lparr>p_head := Some cur\<rparr>;
          cur' = cur + (sizeof_struct_slice + slice_size po)
      in if cur' < p_size po
         then pool_init_loop cur' (po2\<lparr>p_slices := (p_slices po2)(cur \<mapsto> (the (p_slices po2 cur))\<lparr>s_pre := Some cur'\<rparr>)\<rparr>)
         else po2\<lparr>p_slices := (p_slices po2)(cur \<mapsto> (the (p_slices po2 cur))\<lparr>s_pre := None\<rparr>)\<rparr>)"
  by pat_completeness auto
termination
  by (relation "measure (\<lambda>(cur, po). p_size po - cur)")
    (auto simp: sizeof_struct_slice_def Let_def split: option.splits)

declare pool_init_loop.simps [simp del]

text \<open>The two constructors: with memory of its own, and in memory given by the caller.\<close>

definition pool_new :: "nat \<Rightarrow> nat \<Rightarrow> pool" where
  "pool_new num sz =
     (let sz' = mem_aligned_size sz in
      pool_init_loop 0 \<lparr>p_slices = Map.empty, p_size = num * (sizeof_struct_slice + sz'), p_head = None, p_tail = None,
                        slice_num = num, slice_use = 0, slice_size = sz'\<rparr>)"

definition pool_new_in :: "nat \<Rightarrow> nat \<Rightarrow> pool" where
  "pool_new_in sz memory_size =
     (let psize = memory_size - sizeof_struct_impl in
      pool_init_loop 0 \<lparr>p_slices = Map.empty, p_size = psize, p_head = None, p_tail = None,
                        slice_num = psize div (sz + sizeof_struct_slice), slice_use = 0, slice_size = sz\<rparr>)"

definition pool_alloc :: "pool \<Rightarrow> (addr option \<times> pool) option" where
  "pool_alloc po =
     do {
       a \<leftarrow> p_head po;
       s \<leftarrow> p_slices po a;
       if locked s then Some (None, po)
       else do {
         let po1 = po\<lparr>p_slices := (p_slices po)(a \<mapsto> s\<lparr>locked := True\<rparr>), slice_use := slice_use po + 1, p_head := s_next s\<rparr>;
         po2 \<leftarrow> set_pre (s_next s) None po1;
         po3 \<leftarrow> set_next (p_tail po2) (Some a) po2;
         po4 \<leftarrow> set_next (Some a) None po3;
         po5 \<leftarrow> set_pre (Some a) (p_tail po4) po4;
         Some (Some (a + sizeof_struct_slice), po5\<lparr>p_tail := Some a\<rparr>)
       }
     }"

definition pool_free :: "addr \<Rightarrow> pool \<Rightarrow> pool option" where
  "pool_free ptr po =
     (if \<not> (0 < ptr \<and> ptr < p_size po) then None
      else do {
        let a = ptr - sizeof_struct_slice;
        s \<leftarrow> p_slices po a;
        let po1 = po\<lparr>slice_use := (if locked s then slice_use po - 1 else slice_use po),
                     p_slices := (p_slices po)(a \<mapsto> s\<lparr>locked := False\<rparr>)\<rparr>;
        if s_pre s = None then Some po1
        else do {
          po2 \<leftarrow> (if s_next s = None
                  then map_option (\<lambda>q. q\<lparr>p_tail := s_pre s\<rparr>) (set_next (s_pre s) None po1)
                  else do { q \<leftarrow> set_next (s_pre s) (s_next s) po1; set_pre (s_next s) (s_pre s) q });
          po3 \<leftarrow> set_pre (Some a) None po2;
          po4 \<leftarrow> set_next (Some a) (p_head po3) po3;
          po5 \<leftarrow> set_pre (p_head po4) (Some a) po4;
          Some (po5\<lparr>p_head := Some a\<rparr>)
        }
      })"

subsection \<open>Doubly linked segments\<close>

definition first_of :: "'a list \<Rightarrow> 'a option \<Rightarrow> 'a option" where
  "first_of xs n = (case xs of [] \<Rightarrow> n | x # _ \<Rightarrow> Some x)"

definition last_of :: "'a option \<Rightarrow> 'a list \<Rightarrow> 'a option" where
  "last_of p xs = (if xs = [] then p else Some (last xs))"

lemma first_last_of_simps [simp]:
  "first_of [] n = n" "first_of (x # xs) n = Some x" "last_of p [] = p" "last_of p (x # xs) = last_of (Some x) xs"
  "last_of p (xs @ [y]) = Some y" "first_of (xs @ ys) n = first_of xs (first_of ys n)"
  by (auto simp: first_of_def last_of_def split: list.splits)

fun dseg :: "(addr \<rightharpoonup> slice) \<Rightarrow> addr option \<Rightarrow> addr list \<Rightarrow> addr option \<Rightarrow> bool" where
  "dseg m p [] n \<longleftrightarrow> True"
| "dseg m p (x # xs) n \<longleftrightarrow>
     (\<exists>s. m x = Some s \<and> s_pre s = p \<and> s_next s = first_of xs n) \<and> dseg m (Some x) xs n"

lemma dseg_append: "dseg m p (xs @ ys) n \<longleftrightarrow> dseg m p xs (first_of ys n) \<and> dseg m (last_of p xs) ys n"
  by (induction xs arbitrary: p) auto

lemma dseg_upd [simp]: "a \<notin> set xs \<Longrightarrow> dseg (m(a \<mapsto> s)) p xs n = dseg m p xs n"
  by (induction xs arbitrary: p) auto


lemma dseg_set_pre:
  "dseg m p (b # ys) n \<Longrightarrow> b \<notin> set ys \<Longrightarrow> m b = Some s \<Longrightarrow> dseg (m(b \<mapsto> s\<lparr>s_pre := p'\<rparr>)) p' (b # ys) n"
  by auto

lemma dseg_set_next:
  "dseg m p ys n \<Longrightarrow> ys \<noteq> [] \<Longrightarrow> distinct ys \<Longrightarrow> m (last ys) = Some s \<Longrightarrow>
     dseg (m(last ys \<mapsto> s\<lparr>s_next := n'\<rparr>)) p ys n'"
proof (induction ys arbitrary: p)
  case (Cons y ys)
  then show ?case by (cases ys) auto
qed simp

lemma dseg_mem: "dseg m p xs n \<Longrightarrow> a \<in> set xs \<Longrightarrow> \<exists>s. m a = Some s"
  by (induction xs arbitrary: p) auto

lemma set_link_simps:
  "p_slices po a = Some s \<Longrightarrow> set_next (Some a) v po = Some (po\<lparr>p_slices := (p_slices po)(a \<mapsto> s\<lparr>s_next := v\<rparr>)\<rparr>)"
  "p_slices po a = Some s \<Longrightarrow> set_pre (Some a) v po = Some (po\<lparr>p_slices := (p_slices po)(a \<mapsto> s\<lparr>s_pre := v\<rparr>)\<rparr>)"
  by (simp_all add: set_next_def set_pre_def)

subsection \<open>Invariant\<close>

definition pool_list :: "pool \<Rightarrow> addr list \<Rightarrow> bool" where
  "pool_list po xs \<longleftrightarrow> xs \<noteq> [] \<and> distinct xs \<and> dseg (p_slices po) None xs None \<and>
     p_head po = Some (hd xs) \<and> p_tail po = Some (last xs) \<and> dom (p_slices po) = set xs"

definition is_locked :: "(addr \<rightharpoonup> slice) \<Rightarrow> addr \<Rightarrow> bool" where
  "is_locked m a = (case m a of None \<Rightarrow> False | Some s \<Rightarrow> locked s)"

lemma is_locked_link [simp]:
  "m x = Some s \<Longrightarrow> is_locked (m(x \<mapsto> s\<lparr>s_next := v\<rparr>)) y = is_locked m y"
  "m x = Some s \<Longrightarrow> is_locked (m(x \<mapsto> s\<lparr>s_pre := v\<rparr>)) y = is_locked m y"
  "m x = Some s \<Longrightarrow> is_locked (m(x \<mapsto> s\<lparr>s_pre := v, s_next := w\<rparr>)) y = is_locked m y"
  by (auto simp: is_locked_def)

text \<open>The free slices \<open>fs\<close> come before the busy ones \<open>bs\<close>; every slice lies in the memory.\<close>

definition pool_inv :: "pool \<Rightarrow> addr list \<Rightarrow> addr list \<Rightarrow> bool" where
  "pool_inv po fs bs \<longleftrightarrow> pool_list po (fs @ bs) \<and> (\<forall>a\<in>set fs. \<not> is_locked (p_slices po) a) \<and> (\<forall>a\<in>set bs. is_locked (p_slices po) a) \<and>
     slice_use po = length bs \<and> (\<forall>a\<in>set (fs @ bs). a + sizeof_struct_slice < p_size po)"

text \<open>The list surgery of \<^verbatim>\<open>alloc\<close> on the links alone.\<close>

lemma rotate_links:
  assumes "pool_list po (a # b # ys)" and free: "\<not> is_locked (p_slices po) a"
  obtains po' where "pool_alloc po = Some (Some (a + sizeof_struct_slice), po')"
    and "pool_list po' (b # ys @ [a])" and "\<And>x. is_locked (p_slices po') x = (x = a \<or> is_locked (p_slices po) x)"
    and "slice_use po' = slice_use po + 1" and "p_size po' = p_size po"
proof -
  let ?ys = "b # ys"
  define t where "t = last ?ys"
  have l: "distinct (a # ?ys)" "dseg (p_slices po) None (a # ?ys) None" "p_tail po = Some t" "dom (p_slices po) = set (a # ?ys)"
    using assms(1) by (simp_all add: pool_list_def t_def)
  obtain s where s: "p_slices po a = Some s" "s_next s = Some b" "\<not> locked s" using l(2) free by (auto simp: is_locked_def)
  have tin: "t \<in> set ?ys" unfolding t_def by (rule last_in_set) simp
  define m1 where "m1 = (p_slices po)(a \<mapsto> s\<lparr>locked := True\<rparr>)"
  have m1: "dseg m1 (Some a) ?ys None" using l by (simp add: m1_def)
  obtain sb where sb: "m1 b = Some sb" using dseg_mem [OF m1, of b] by auto
  define m2 where "m2 = m1(b \<mapsto> sb\<lparr>s_pre := None\<rparr>)"
  have m2: "dseg m2 None ?ys None" unfolding m2_def by (rule dseg_set_pre [OF m1 _ sb]) (use l in auto)
  obtain st where st: "m2 t = Some st" using dseg_mem [OF m2 tin] by auto
  define m3 where "m3 = m2(t \<mapsto> st\<lparr>s_next := Some a\<rparr>)"
  have m3: "dseg m3 None ?ys (Some a)" unfolding m3_def t_def
    by (rule dseg_set_next [OF m2]) (use l st t_def in auto)
  have a3: "m3 a = Some (s\<lparr>locked := True\<rparr>)" using l tin by (auto simp: m3_def m2_def m1_def)
  define m5 where "m5 = m3(a \<mapsto> s\<lparr>locked := True, s_next := None, s_pre := Some t\<rparr>)"
  define po' where "po' = po\<lparr>p_slices := m5, slice_use := slice_use po + 1, p_head := Some b, p_tail := Some a\<rparr>"
  have lk: "is_locked (p_slices po') x = (x = a \<or> is_locked (p_slices po) x)" for x
    using sb st by (auto simp: is_locked_def po'_def m5_def m3_def m2_def m1_def split: if_splits option.splits)
  have dm: "dom m5 = set (a # ?ys)" using l(4) sb tin by (auto simp: m5_def m3_def m2_def m1_def)
  have "last_of None ?ys = Some t" by (simp add: t_def last_of_def)
  then have "dseg m5 None (?ys @ [a]) None"
    unfolding dseg_append using m3 l(1) by (simp add: m5_def)
  then have "pool_list po' (b # ys @ [a])" using l(1) dm by (auto simp: pool_list_def po'_def)
  moreover define P where "P m = po\<lparr>p_slices := m, slice_use := slice_use po + 1, p_head := Some b\<rparr>" for m
  have P: "p_slices (P m) = m" "p_tail (P m) = Some t" "(P m)\<lparr>p_slices := m'\<rparr> = P m'" "(P m5)\<lparr>p_tail := Some a\<rparr> = po'" for m m'
    using l(3) by (simp_all add: P_def po'_def)
  have "set_pre (Some b) None (P m1) = Some (P m2)" "set_next (Some t) (Some a) (P m2) = Some (P m3)"
    "set_next (Some a) None (P m3) = Some (P (m3(a \<mapsto> s\<lparr>locked := True, s_next := None\<rparr>)))"
    "set_pre (Some a) (Some t) (P (m3(a \<mapsto> s\<lparr>locked := True, s_next := None\<rparr>))) = Some (P m5)"
    using sb st a3 by (simp_all add: set_link_simps P m2_def m3_def m5_def)
  then have "pool_alloc po = Some (Some (a + sizeof_struct_slice), po')"
    using assms(1) s P_def [of m1] by (simp add: pool_alloc_def pool_list_def Let_def m1_def [symmetric] P)
  ultimately show thesis using that [of po'] lk by (simp add: po'_def)
qed

lemma pool_alloc_spec:
  assumes inv: "pool_inv po (a # fs) bs" and two: "fs @ bs \<noteq> []"
  obtains po' where "pool_alloc po = Some (Some (a + sizeof_struct_slice), po')" "pool_inv po' fs (bs @ [a])" "p_size po' = p_size po"
proof -
  obtain b ys where ys: "fs @ bs = b # ys" using two by (cases "fs @ bs") auto
  have l: "pool_list po (a # b # ys)" using inv ys by (simp add: pool_inv_def)
  have "\<not> is_locked (p_slices po) a" using inv by (simp add: pool_inv_def)
  then obtain po' where po': "pool_alloc po = Some (Some (a + sizeof_struct_slice), po')"
    "pool_list po' (b # ys @ [a])" "\<And>x. is_locked (p_slices po') x = (x = a \<or> is_locked (p_slices po) x)"
    "slice_use po' = slice_use po + 1" "p_size po' = p_size po"
    by (rule rotate_links [OF l]) blast
  have "distinct (a # fs @ bs)" using l ys by (simp add: pool_list_def)
  moreover have "pool_list po' (fs @ (bs @ [a]))" using po'(2) ys by (metis append_Cons append_assoc)
  ultimately have "pool_inv po' fs (bs @ [a])" using inv po'(3-5) unfolding pool_inv_def by auto
  then show thesis using that po'(1,5) by blast
qed

lemma pool_alloc_exhausted: "pool_inv po [] bs \<Longrightarrow> pool_alloc po = Some (None, po)"
  by (cases bs) (auto simp: pool_inv_def pool_list_def pool_alloc_def is_locked_def)

text \<open>With a single slice in the pool \<^verbatim>\<open>alloc\<close> follows its null successor.\<close>

lemma pool_alloc_single: "pool_inv po [a] [] \<Longrightarrow> pool_alloc po = None"
  by (auto simp: pool_inv_def pool_list_def pool_alloc_def is_locked_def set_pre_def Let_def)


text \<open>The list surgery of \<^verbatim>\<open>free\<close>: cut the slice out, then put it in front.\<close>

lemma unlink:
  assumes l: "distinct (us @ a # vs)" "dseg (p_slices po) None (us @ a # vs) None" "us \<noteq> []"
    and tl: "p_tail po = Some (last (us @ a # vs))" and s: "p_slices po a = Some s" "s_pre s = pr" "s_next s = nx"
  obtains m t where "(if nx = None then map_option (\<lambda>q. q\<lparr>p_tail := pr\<rparr>) (set_next pr None po)
      else do { q \<leftarrow> set_next pr nx po; set_pre nx pr q }) = Some (po\<lparr>p_slices := m, p_tail := t\<rparr>)"
    and "dseg m None (us @ vs) None" and "t = Some (last (us @ vs))" and "m a = Some s"
    and "is_locked m = is_locked (p_slices po)" and "dom m = dom (p_slices po)"
proof -
  define u where "u = last us"
  have lu: "last_of None us = Some u" using l(3) by (simp add: last_of_def u_def)
  have d: "dseg (p_slices po) None us (Some a)" "dseg (p_slices po) (Some a) vs None" "pr = Some u" "nx = first_of vs None"
    using l(2) lu s by (auto simp: dseg_append)
  have uin: "u \<in> set us" using l(3) by (simp add: u_def)
  then have nin: "u \<noteq> a" "u \<notin> set vs" "a \<notin> set us" "a \<notin> set vs" using l(1) by auto
  obtain su where su: "p_slices po u = Some su" using dseg_mem [OF d(1) uin] by auto
  define m1 where "m1 = (p_slices po)(u \<mapsto> su\<lparr>s_next := nx\<rparr>)"
  have m1: "dseg m1 None us nx" "dseg m1 (Some a) vs None" "m1 a = Some s"
    "is_locked m1 = is_locked (p_slices po)" "dom m1 = dom (p_slices po)"
    unfolding m1_def using dseg_set_next [OF d(1) l(3), of su nx] su l(1) d(2) nin s by (auto simp: u_def)
  have n1: "set_next (Some u) nx po = Some (po\<lparr>p_slices := m1\<rparr>)" using su by (simp add: set_link_simps m1_def)
  show thesis
  proof (cases vs)
    case Nil
    then show thesis using that [where m = m1 and t = "Some u"] m1 n1 d(3,4) by (auto simp: u_def)
  next
    case (Cons v ws)
    obtain sv where sv: "m1 v = Some sv" using dseg_mem [OF m1(2), of v] Cons by auto
    define m2 where "m2 = m1(v \<mapsto> sv\<lparr>s_pre := Some u\<rparr>)"
    have v: "v \<notin> set us" "v \<noteq> a" "v \<notin> set ws" using l(1) Cons by auto
    have "dseg m2 None us (Some v)" "dseg m2 (Some u) vs None"
      unfolding m2_def using m1 v sv Cons d(4) dseg_set_pre [of m1 "Some a" v ws None sv "Some u"] by auto
    then have "dseg m2 None (us @ vs) None" using Cons lu by (simp add: dseg_append)
    moreover have "is_locked m2 = is_locked (p_slices po)" "dom m2 = dom (p_slices po)" "m2 a = Some s"
      using sv m1(3-5) v by (auto simp: m2_def)
    moreover have "set_pre (Some v) (Some u) (po\<lparr>p_slices := m1\<rparr>) = Some (po\<lparr>p_slices := m2\<rparr>)"
      using sv by (simp add: set_link_simps m2_def)
    ultimately show thesis using that [where m = m2 and t = "p_tail po"] d(3,4) n1 Cons tl by simp
  qed
qed

lemma relink:
  assumes l: "distinct (a # x # xs)" "dseg (p_slices po) None (x # xs) None" "p_head po = Some x" and s: "p_slices po a = Some s"
  obtains m where "do { po3 \<leftarrow> set_pre (Some a) None po; po4 \<leftarrow> set_next (Some a) (p_head po3) po3;
      po5 \<leftarrow> set_pre (p_head po4) (Some a) po4; Some (po5\<lparr>p_head := Some a\<rparr>) } = Some (po\<lparr>p_slices := m, p_head := Some a\<rparr>)"
    and "dseg m None (a # x # xs) None" and "is_locked m = is_locked (p_slices po)" and "dom m = dom (p_slices po)"
proof -
  obtain sx where sx: "p_slices po x = Some sx" using l(2) by auto
  define m1 where "m1 = (p_slices po)(a \<mapsto> s\<lparr>s_pre := None, s_next := Some x\<rparr>)"
  define m where "m = m1(x \<mapsto> sx\<lparr>s_pre := Some a\<rparr>)"
  have m1x: "m1 x = Some sx" using sx l(1) by (auto simp: m1_def)
  have "dseg m None (a # x # xs) None" using l sx by (auto simp: m_def m1_def)
  moreover have "is_locked m = is_locked m1" "is_locked m1 = is_locked (p_slices po)" "dom m = dom (p_slices po)"
    using s sx m1x by (auto simp: m_def m1_def fun_eq_iff)
  moreover have "set_pre (Some a) None po = Some (po\<lparr>p_slices := (p_slices po)(a \<mapsto> s\<lparr>s_pre := None\<rparr>)\<rparr>)"
    using s by (simp add: set_link_simps)
  moreover have "set_next (Some a) (Some x) (po\<lparr>p_slices := (p_slices po)(a \<mapsto> s\<lparr>s_pre := None\<rparr>)\<rparr>) = Some (po\<lparr>p_slices := m1\<rparr>)"
    by (simp add: set_link_simps m1_def)
  moreover have "set_pre (Some x) (Some a) (po\<lparr>p_slices := m1\<rparr>) = Some (po\<lparr>p_slices := m\<rparr>)"
    using m1x by (simp add: set_link_simps m_def)
  ultimately show thesis using that [of m] l(3) by simp
qed

lemma pool_free_list:
  assumes l: "pool_list po (us @ a # vs)" and s: "p_slices po a = Some s"
    and b: "a + sizeof_struct_slice < p_size po"
  obtains m t where "pool_free (a + sizeof_struct_slice) po = Some (po\<lparr>p_slices := m, p_head := Some a, p_tail := t,
      slice_use := (if locked s then slice_use po - 1 else slice_use po)\<rparr>)"
    and "pool_list (po\<lparr>p_slices := m, p_head := Some a, p_tail := t\<rparr>) (a # us @ vs)"
    and "\<And>x. is_locked m x = (x \<noteq> a \<and> is_locked (p_slices po) x)"
proof -
  define m0 where "m0 = (p_slices po)(a \<mapsto> s\<lparr>locked := False\<rparr>)"
  define po1 where "po1 = po\<lparr>slice_use := (if locked s then slice_use po - 1 else slice_use po), p_slices := m0\<rparr>"
  have ds: "distinct (us @ a # vs)" "dseg (p_slices po) None (us @ a # vs) None" "p_tail po = Some (last (us @ a # vs))"
    "p_head po = Some (hd (us @ a # vs))" "dom (p_slices po) = set (us @ a # vs)" using l by (simp_all add: pool_list_def)
  have pre: "s_pre s = last_of None us" using ds(2) s by (auto simp: dseg_append)
  have d0: "dseg m0 None (us @ a # vs) None" using ds(1,2) s by (auto simp: m0_def dseg_append)
  have lk: "is_locked m0 x = (x \<noteq> a \<and> is_locked (p_slices po) x)" for x by (simp add: m0_def is_locked_def)
  have dm: "dom m0 = set (us @ a # vs)" using ds(5) by (auto simp: m0_def)
  have p: "0 < a + sizeof_struct_slice" by (simp add: sizeof_struct_slice_def)
  show thesis
  proof (cases us)
    case Nil
    then show thesis using that [where m = m0 and t = "p_tail po"] p b s pre ds d0 lk dm
      by (auto simp: pool_free_def Let_def pool_list_def m0_def)
  next
    case (Cons x xs)
    then obtain pv where pv: "s_pre s = Some pv" using pre by (auto simp: last_of_def)
    have p1: "p_slices po1 = m0" "po\<lparr>slice_use := (if locked s then slice_use po - 1 else slice_use po),
        p_slices := (p_slices po)(a \<mapsto> s\<lparr>locked := False\<rparr>)\<rparr> = po1" by (simp_all add: po1_def m0_def)
    have "dseg (p_slices po1) None (us @ a # vs) None" "us \<noteq> []" "p_tail po1 = Some (last (us @ a # vs))" "p_slices po1 a = Some (s\<lparr>locked := False\<rparr>)"
      using d0 Cons ds(3) by (simp_all add: po1_def m0_def)
    then obtain m1 t where m1: "(if s_next s = None then map_option (\<lambda>q. q\<lparr>p_tail := s_pre s\<rparr>) (set_next (s_pre s) None po1)
      else do { q \<leftarrow> set_next (s_pre s) (s_next s) po1; set_pre (s_next s) (s_pre s) q }) = Some (po1\<lparr>p_slices := m1, p_tail := t\<rparr>)"
      "dseg m1 None (us @ vs) None" "t = Some (last (us @ vs))" "m1 a = Some (s\<lparr>locked := False\<rparr>)"
      "is_locked m1 = is_locked m0" "dom m1 = dom m0"
      by (rule unlink [OF ds(1), where pr = "s_pre s" and nx = "s_next s"]) (simp_all add: p1)
    define po2 where "po2 = po1\<lparr>p_slices := m1, p_tail := t\<rparr>"
    have "distinct (a # x # xs @ vs)" "dseg (p_slices po2) None (x # xs @ vs) None" "p_head po2 = Some x" "p_slices po2 a = Some (s\<lparr>locked := False\<rparr>)"
      using ds(1,4) m1(2,4) Cons by (simp_all add: po2_def po1_def)
    from relink [OF this] obtain m2 where m2: "do { po3 \<leftarrow> set_pre (Some a) None po2; po4 \<leftarrow> set_next (Some a) (p_head po3) po3;
      po5 \<leftarrow> set_pre (p_head po4) (Some a) po4; Some (po5\<lparr>p_head := Some a\<rparr>) } = Some (po2\<lparr>p_slices := m2, p_head := Some a\<rparr>)"
      "dseg m2 None (a # x # xs @ vs) None" "is_locked m2 = is_locked m1" "dom m2 = dom m1" by (auto simp: po2_def)
    have "pool_free (a + sizeof_struct_slice) po = Some (po2\<lparr>p_slices := m2, p_head := Some a\<rparr>)"
      using p b s m1(1) [folded po2_def] m2(1)
      by (simp add: pool_free_def Let_def p1(2) pv cong: if_cong split del: if_split del: One_nat_def)
    then show thesis using that [where m = m2 and t = t] m2 m1 lk dm ds(1) Cons by (auto simp: po2_def po1_def pool_list_def)
  qed
qed

lemma pool_free_spec:
  assumes inv: "pool_inv po fs (us @ a # vs)"
  obtains po' where "pool_free (a + sizeof_struct_slice) po = Some po'" "pool_inv po' (a # fs) (us @ vs)" "p_size po' = p_size po"
proof -
  have l: "pool_list po ((fs @ us) @ a # vs)" using inv by (simp add: pool_inv_def)
  have "is_locked (p_slices po) a" and b: "a + sizeof_struct_slice < p_size po" using inv by (simp_all add: pool_inv_def)
  then obtain s where s: "p_slices po a = Some s" "locked s" by (auto simp: is_locked_def split: option.splits)
  obtain m t where m: "pool_free (a + sizeof_struct_slice) po = Some (po\<lparr>p_slices := m, p_head := Some a, p_tail := t,
      slice_use := (if locked s then slice_use po - 1 else slice_use po)\<rparr>)"
    "pool_list (po\<lparr>p_slices := m, p_head := Some a, p_tail := t\<rparr>) (a # (fs @ us) @ vs)"
    "\<And>x. is_locked m x = (x \<noteq> a \<and> is_locked (p_slices po) x)" using pool_free_list [OF l s(1) b] by metis
  have "a \<notin> set (fs @ us @ vs)" using l by (auto simp: pool_list_def)
  then have "pool_inv (po\<lparr>p_slices := m, p_head := Some a, p_tail := t, slice_use := slice_use po - 1\<rparr>) (a # fs) (us @ vs)"
    using inv m(2,3) unfolding pool_inv_def pool_list_def by auto
  then show thesis using that m(1) s(2) by simp
qed


subsection \<open>Building the list\<close>

text \<open>The state of the loop of \<^verbatim>\<open>init\<close> before it makes the slice at \<open>cur\<close>.\<close>

definition building :: "nat \<Rightarrow> pool \<Rightarrow> addr list \<Rightarrow> bool" where
  "building cur po ys \<longleftrightarrow> distinct ys \<and> (\<forall>y\<in>set ys. y < cur) \<and> dseg (p_slices po) (Some cur) ys None \<and>
     p_head po = first_of ys None \<and> (ys \<noteq> [] \<longrightarrow> p_tail po = Some (last ys)) \<and> dom (p_slices po) = set ys \<and>
     (\<forall>a. \<not> is_locked (p_slices po) a)"

definition init_body :: "nat \<Rightarrow> addr option \<Rightarrow> pool \<Rightarrow> pool" where
  "init_body cur pr po = (case p_head po of
      None \<Rightarrow> po\<lparr>p_tail := Some cur, p_head := Some cur,
                 p_slices := (p_slices po)(cur \<mapsto> \<lparr>locked = False, s_next = None, s_pre = pr\<rparr>)\<rparr>
    | Some h \<Rightarrow> po\<lparr>p_head := Some cur,
                   p_slices := (p_slices po)(h \<mapsto> (the (p_slices po h))\<lparr>s_pre := Some cur\<rparr>,
                                             cur \<mapsto> \<lparr>locked = False, s_next = Some h, s_pre = pr\<rparr>)\<rparr>)"

lemma pool_init_loop_body:
  "pool_init_loop cur po =
     (let cur' = cur + (sizeof_struct_slice + slice_size po)
      in if cur' < p_size po then pool_init_loop cur' (init_body cur (Some cur') po) else init_body cur None po)"
  by (subst pool_init_loop.simps) (auto simp: Let_def init_body_def split: option.splits)

lemma init_body_spec:
  assumes "building cur po ys"
  shows "dseg (p_slices (init_body cur pr po)) pr (cur # ys) None" and "dom (p_slices (init_body cur pr po)) = set (cur # ys)"
    and "p_head (init_body cur pr po) = Some cur" and "p_tail (init_body cur pr po) = Some (last (cur # ys))"
    and "\<not> is_locked (p_slices (init_body cur pr po)) a"
    and "p_size (init_body cur pr po) = p_size po" and "slice_size (init_body cur pr po) = slice_size po"
    and "slice_use (init_body cur pr po) = slice_use po" and "slice_num (init_body cur pr po) = slice_num po"
    and "distinct (cur # ys)"
  using assms
  by (cases ys; auto simp: building_def init_body_def is_locked_def split: option.splits)+

lemma pool_init_loop_spec:
  assumes "building cur po ys" and "cur < p_size po"
  shows "\<exists>k. let po' = pool_init_loop cur po; w = sizeof_struct_slice + slice_size po; zs = rev (map (\<lambda>i. cur + i * w) [0..<Suc k]) in
    pool_list po' (zs @ ys) \<and> (\<forall>a. \<not> is_locked (p_slices po') a) \<and> cur + k * w < p_size po \<and> p_size po \<le> cur + Suc k * w \<and>
    p_size po' = p_size po \<and> slice_size po' = slice_size po \<and> slice_use po' = slice_use po \<and> slice_num po' = slice_num po"
  using assms
proof (induction "p_size po - cur" arbitrary: cur po ys rule: less_induct)
  case less
  define w where "w = sizeof_struct_slice + slice_size po"
  define cur' where "cur' = cur + w"
  note loop = pool_init_loop_body [of cur po, unfolded Let_def, folded w_def, folded cur'_def]
  show ?case
  proof (cases "cur' < p_size po")
    case False
    have "pool_list (init_body cur None po) (cur # ys)"
      using init_body_spec(1-4) [OF less.prems(1), of None] init_body_spec(10) [OF less.prems(1)] by (simp add: pool_list_def)
    then show ?thesis using False less.prems(2) init_body_spec(5-9) [OF less.prems(1), of None]
      by (intro exI [of _ 0]) (simp add: loop cur'_def w_def [symmetric])
  next
    case True
    define po1 where "po1 = init_body cur (Some cur') po"
    note body = init_body_spec(1-9) [OF less.prems(1), of "Some cur'", folded po1_def]
    have w0: "0 < w" by (simp add: w_def sizeof_struct_slice_def)
    have b: "building cur' po1 (cur # ys)"
      using body init_body_spec(10) [OF less.prems(1)] less.prems(1) w0 by (fastforce simp: building_def cur'_def)
    have "p_size po1 - cur' < p_size po - cur" using True w0 body(6) less.prems(2) by (simp add: cur'_def)
    then obtain k where k: "let po' = pool_init_loop cur' po1; zs = rev (map (\<lambda>i. cur' + i * w) [0..<Suc k]) in
        pool_list po' (zs @ cur # ys) \<and> (\<forall>a. \<not> is_locked (p_slices po') a) \<and> cur' + k * w < p_size po \<and> p_size po \<le> cur' + Suc k * w \<and>
        p_size po' = p_size po \<and> slice_size po' = slice_size po \<and> slice_use po' = slice_use po \<and> slice_num po' = slice_num po"
      using less.hyps [of po1 cur', OF _ b] True body(6-9) by (auto simp: w_def Let_def)
    have "map (\<lambda>i. cur + i * w) [0..<Suc (Suc k)] = cur # map (\<lambda>i. cur' + i * w) [0..<Suc k]"
      by (rule nth_equalityI) (auto simp: nth_Cons' cur'_def algebra_simps simp del: upt_Suc split: nat.splits)
    then show ?thesis using k True unfolding w_def [symmetric] Let_def
      by (intro exI [of _ "Suc k"]) (simp add: loop po1_def [symmetric] cur'_def [symmetric] del: upt_Suc, simp add: cur'_def)
  qed
qed


text \<open>When the memory is a whole number of slices, the list holds exactly those, end to end.\<close>

lemma pool_init_inv:
  assumes "0 < num" and "0 < sz" and w: "w = sizeof_struct_slice + sz"
    and po0: "po0 = \<lparr>p_slices = Map.empty, p_size = num * w, p_head = None, p_tail = None, slice_num = num, slice_use = 0, slice_size = sz\<rparr>"
  shows "pool_inv (pool_init_loop 0 po0) (rev (map (\<lambda>i. i * w) [0..<num])) []" and "p_size (pool_init_loop 0 po0) = num * w"
proof -
  have w0: "24 < w" using assms(2) by (simp add: w sizeof_struct_slice_def)
  have "building 0 po0 []" by (simp add: building_def po0 is_locked_def)
  moreover have "0 < p_size po0" using assms w0 by (simp add: po0)
  ultimately obtain k where k: "pool_list (pool_init_loop 0 po0) (rev (map (\<lambda>i. i * w) [0..<Suc k]))"
      "\<forall>a. \<not> is_locked (p_slices (pool_init_loop 0 po0)) a" "k * w < num * w" "num * w \<le> Suc k * w"
      "p_size (pool_init_loop 0 po0) = num * w" "slice_use (pool_init_loop 0 po0) = 0"
    using pool_init_loop_spec [of 0 po0 "[]"] by (auto simp: po0 w Let_def simp del: upt_Suc mult_Suc)
  have "k < num" "num \<le> Suc k" using k(3,4) w0 by (auto simp del: mult_Suc)
  then have n: "num = Suc k" by simp
  have "i * w + 24 < num * w" if "i < num" for i
    using mult_le_mono1 [of "Suc i" num w] that w0 by simp
  then show "pool_inv (pool_init_loop 0 po0) (rev (map (\<lambda>i. i * w) [0..<num])) []" "p_size (pool_init_loop 0 po0) = num * w"
    using k n by (auto simp: pool_inv_def sizeof_struct_slice_def simp del: upt_Suc mult_Suc)
qed

lemma pool_new_inv:
  assumes "0 < num" and "0 < sz"
  shows "pool_inv (pool_new num sz) (rev (map (\<lambda>i. i * (sizeof_struct_slice + mem_aligned_size sz)) [0..<num])) []"
  using pool_init_inv(1) [of num "mem_aligned_size sz" _ _, OF assms(1) _ refl refl] assms(2) mem_aligned_size_ge [of sz]
  by (simp add: pool_new_def Let_def)

lemma pool_new_in_inv:
  assumes "0 < num" and "0 < sz" and "memory_size = sizeof_struct_impl + num * (sizeof_struct_slice + sz)"
  shows "pool_inv (pool_new_in sz memory_size) (rev (map (\<lambda>i. i * (sizeof_struct_slice + sz)) [0..<num])) []"
proof -
  have "(memory_size - sizeof_struct_impl) div (sz + sizeof_struct_slice) = num"
    using assms(3) by (simp add: sizeof_struct_slice_def add.commute)
  then show ?thesis using pool_init_inv(1) [OF assms(1,2) refl refl] assms(3)
    by (simp add: pool_new_in_def Let_def)
qed

subsection \<open>The interface of a slice allocator\<close>

text \<open>
  A client sees a set \<open>A\<close> of slices and the subset \<open>B\<close> it holds. The laws are enough for it to
  allocate as many slices as there are free ones, all different from those it holds.
\<close>

locale slice_pool =
  fixes inv :: "'p \<Rightarrow> addr set \<Rightarrow> addr set \<Rightarrow> bool" and alloc :: "'p \<Rightarrow> (addr option \<times> 'p) option"
    and free :: "addr \<Rightarrow> 'p \<Rightarrow> 'p option"
  assumes busy: "inv p A B \<Longrightarrow> B \<subseteq> A \<and> finite A"
    and alloc_Some: "inv p A B \<Longrightarrow> B \<noteq> A \<Longrightarrow> \<exists>a p'. alloc p = Some (Some a, p') \<and> a \<in> A - B \<and> inv p' A (insert a B)"
    and alloc_None: "inv p A A \<Longrightarrow> alloc p = Some (None, p)"
    and free_law: "inv p A B \<Longrightarrow> a \<in> B \<Longrightarrow> \<exists>p'. free a p = Some p' \<and> inv p' A (B - {a})"
begin

fun take_all :: "nat \<Rightarrow> 'p \<Rightarrow> (addr list \<times> 'p) option" where
  "take_all 0 p = Some ([], p)"
| "take_all (Suc n) p = Option.bind (alloc p) (\<lambda>(r, p'). case r of
      None \<Rightarrow> Some ([], p')
    | Some a \<Rightarrow> map_option (\<lambda>(as, p''). (a # as, p'')) (take_all n p'))"

lemma take_all_spec:
  "inv p A B \<Longrightarrow> \<exists>as p'. take_all n p = Some (as, p') \<and> distinct as \<and> set as \<subseteq> A - B \<and> inv p' A (B \<union> set as) \<and>
     length as = min n (card (A - B))"
proof (induction n arbitrary: p B)
  case (Suc n)
  show ?case
  proof (cases "B = A")
    case True
    then show ?thesis using Suc.prems alloc_None by simp
  next
    case False
    obtain a p' where a: "alloc p = Some (Some a, p')" "a \<in> A - B" "inv p' A (insert a B)"
      using alloc_Some [OF Suc.prems False] by blast
    obtain as p'' where s: "take_all n p' = Some (as, p'')" "distinct as" "set as \<subseteq> A - insert a B"
      "inv p'' A (insert a B \<union> set as)" "length as = min n (card (A - insert a B))" using Suc.IH [OF a(3)] by blast
    have "A - insert a B = (A - B) - {a}" by auto
    then have "Suc (card (A - insert a B)) = card (A - B)"
      using a(2) busy [OF Suc.prems] by (metis card_Suc_Diff1 finite_Diff)
    then show ?thesis using a s by auto
  qed
qed simp

end

definition pool_sets :: "pool \<Rightarrow> addr set \<Rightarrow> addr set \<Rightarrow> bool" where
  "pool_sets po A B \<longleftrightarrow> (\<exists>fs bs. pool_inv po fs bs \<and> 2 \<le> length (fs @ bs) \<and>
     A = (\<lambda>a. a + sizeof_struct_slice) ` set (fs @ bs) \<and> B = (\<lambda>a. a + sizeof_struct_slice) ` set bs)"

interpretation fp: slice_pool pool_sets pool_alloc pool_free
proof
  let ?f = "\<lambda>a. a + sizeof_struct_slice"
  fix po A B
  assume sets: "pool_sets po A B"
  then obtain fs bs where p: "pool_inv po fs bs" "2 \<le> length (fs @ bs)" "A = ?f ` set (fs @ bs)" "B = ?f ` set bs"
    by (auto simp: pool_sets_def)
  have d: "distinct (fs @ bs)" using p(1) by (simp add: pool_inv_def pool_list_def)
  show "B \<subseteq> A \<and> finite A" using p by auto
  show "\<exists>a p'. pool_alloc po = Some (Some a, p') \<and> a \<in> A - B \<and> pool_sets p' A (insert a B)" if ne: "B \<noteq> A"
  proof -
    have "fs \<noteq> []" using ne p(3,4) by auto
    then obtain a fs' where fs: "fs = a # fs'" by (cases fs) auto
    have "fs' @ bs \<noteq> []" using p(2) fs by auto
    from p(1) [unfolded fs] this obtain po' where po': "pool_alloc po = Some (Some (?f a), po')" "pool_inv po' fs' (bs @ [a])"
      by (rule pool_alloc_spec)
    have "pool_sets po' A (insert (?f a) B)"
      unfolding pool_sets_def using po'(2) p fs by (intro exI [of _ fs'] exI [of _ "bs @ [a]"]) auto
    moreover have "?f a \<in> A - B" using d fs p(3,4) by auto
    ultimately show ?thesis using po'(1) by blast
  qed
  show "\<exists>p'. pool_free a po = Some p' \<and> pool_sets p' A (B - {a})" if ab: "a \<in> B" for a
  proof -
    obtain b where "a = ?f b" "b \<in> set bs" using ab p(4) by blast
    then obtain us vs where b: "a = ?f b" "bs = us @ b # vs" by (auto dest: split_list)
    from p(1) [unfolded b(2)] obtain po' where po': "pool_free (?f b) po = Some po'" "pool_inv po' (b # fs) (us @ vs)"
      by (rule pool_free_spec)
    have "B - {a} = ?f ` set (us @ vs)" using d b p(4) by auto
    moreover have "set (fs @ bs) = set ((b # fs) @ (us @ vs))" using b(2) by auto
    then have "A = ?f ` set ((b # fs) @ (us @ vs))" using p(3) by simp
    moreover have "2 \<le> length ((b # fs) @ (us @ vs))" using p(2) b(2) by simp
    ultimately have "pool_sets po' A (B - {a})" unfolding pool_sets_def using po'(2) by blast
    then show ?thesis using po'(1) b(1) by blast
  qed
next
  fix po A
  assume "pool_sets po A A"
  then obtain fs bs where p: "pool_inv po fs bs" "(\<lambda>a. a + sizeof_struct_slice) ` set (fs @ bs) = (\<lambda>a. a + sizeof_struct_slice) ` set bs"
    by (auto simp: pool_sets_def)
  then have "set (fs @ bs) = set bs" by (simp add: inj_image_eq_iff)
  then have "fs = []" using p(1) by (cases fs) (auto simp: pool_inv_def pool_list_def)
  then show "pool_alloc po = Some (None, po)" using pool_alloc_exhausted p(1) by simp
qed


subsection \<open>Properties\<close>



text \<open>
  \<^verbatim>\<open>alloc\<close> and \<^verbatim>\<open>free\<close> keep the list of slices well formed, with the free ones in front. An
  allocation takes a free slice and fails only when none is left; a slice given back is
  free again at once, and no other slice changes hands. A pool with one slice only, though,
  dereferences a null pointer on its first allocation.
\<close>

theorem pool_alloc_free:
  assumes "pool_inv po fs bs"
  shows "case fs of
      [] \<Rightarrow> pool_alloc po = Some (None, po)
    | a # fs' \<Rightarrow> if fs' @ bs = [] then pool_alloc po = None
        else \<exists>po'. pool_alloc po = Some (Some (a + sizeof_struct_slice), po') \<and> pool_inv po' fs' (bs @ [a]) \<and>
               (\<exists>po''. pool_free (a + sizeof_struct_slice) po' = Some po'' \<and> pool_inv po'' fs bs)"
proof (cases fs)
  case Nil
  then show ?thesis using pool_alloc_exhausted assms by simp
next
  case (Cons a fs')
  show ?thesis
  proof (cases "fs' @ bs = []")
    case True
    then show ?thesis using Cons assms pool_alloc_single by simp
  next
    case False
    obtain po' where po': "pool_alloc po = Some (Some (a + sizeof_struct_slice), po')" "pool_inv po' fs' (bs @ [a])"
      using pool_alloc_spec [OF assms [unfolded Cons] False] by blast
    obtain po'' where "pool_free (a + sizeof_struct_slice) po' = Some po''" "pool_inv po'' (a # fs') (bs @ [])"
      using pool_free_spec [of po' fs' bs a "[]"] po'(2) by blast
    then show ?thesis using Cons False po' by auto
  qed
qed

theorem pool_alloc_free_witness:
  "\<exists>po'. pool_alloc (pool_new 2 8) = Some (Some 56, po') \<and> pool_inv po' [0] [32]"
proof -
  have "pool_inv (pool_new 2 8) [32, 0] []"
    using pool_new_inv [of 2 8] by (simp add: upt_rec numeral_2_eq_2 sizeof_struct_slice_def mem_aligned_size_def mem_aligned_size_ex_def)
  from pool_alloc_free [OF this] show ?thesis by (auto simp: sizeof_struct_slice_def)
qed

end
