(* ===== verification/Osw_Hash.thy ===== *)
theory Osw_Hash
  imports Osw_Bytes
begin

text \<open>
  The hash functions of \<^verbatim>\<open>include/openswoole_hash.h\<close> and the table-driven CRC-32 of
  \<^verbatim>\<open>src/core/crc32.cc\<close>, on machine words. A \<^verbatim>\<open>char\<close> is signed, so a byte is sign-extended
  before it enters the arithmetic.
\<close>

definition schar32 :: "u8 \<Rightarrow> u32" where
  "schar32 b = signed b"

definition schar64 :: "u8 \<Rightarrow> u64" where
  "schar64 b = signed b"

subsection \<open>Times 33\<close>

definition php_step :: "u64 \<Rightarrow> u8 \<Rightarrow> u64" where
  "php_step hash b = (push_bit 5 hash + hash) + schar64 b"

text \<open>The loop unrolled eight times, and the switch for the rest.\<close>

fun php_loop :: "u64 \<Rightarrow> bytes \<Rightarrow> u64" where
  "php_loop hash (a # b # c # d # e # f # g # h # key) =
     (let hash = php_step hash a; hash = php_step hash b; hash = php_step hash c; hash = php_step hash d;
          hash = php_step hash e; hash = php_step hash f; hash = php_step hash g; hash = php_step hash h
      in php_loop hash key)"
| "php_loop hash [a, b, c, d, e, f, g] =
     php_step (php_step (php_step (php_step (php_step (php_step (php_step hash a) b) c) d) e) f) g"
| "php_loop hash [a, b, c, d, e, f] = php_step (php_step (php_step (php_step (php_step (php_step hash a) b) c) d) e) f"
| "php_loop hash [a, b, c, d, e] = php_step (php_step (php_step (php_step (php_step hash a) b) c) d) e"
| "php_loop hash [a, b, c, d] = php_step (php_step (php_step (php_step hash a) b) c) d"
| "php_loop hash [a, b, c] = php_step (php_step (php_step hash a) b) c"
| "php_loop hash [a, b] = php_step (php_step hash a) b"
| "php_loop hash [a] = php_step hash a"
| "php_loop hash [] = hash"

definition openswoole_hash_php :: "bytes \<Rightarrow> u64" where
  "openswoole_hash_php key = php_loop 5381 key"

lemma php_loop_foldl: "php_loop hash key = foldl php_step hash key"
  by (induction hash key rule: php_loop.induct) (simp_all add: Let_def)

lemma php_step_times33: "php_step hash b = 33 * hash + schar64 b"
  by (simp add: php_step_def push_bit_eq_mult algebra_simps)

subsection \<open>MurmurHash2\<close>

definition austin_m :: u32 where
  "austin_m = 0x5bd1e995"

fun austin_loop :: "u32 \<Rightarrow> bytes \<Rightarrow> u32 \<times> bytes" where
  "austin_loop h (k0 # k1 # k2 # k3 # key) =
     (let k = schar32 k0 OR push_bit 8 (schar32 k1) OR push_bit 16 (schar32 k2) OR push_bit 24 (schar32 k3);
          k = k * austin_m;
          k = k XOR drop_bit 24 k;
          k = k * austin_m;
          h = h * austin_m;
          h = h XOR k
      in austin_loop h key)"
| "austin_loop h key = (h, key)"

definition openswoole_hash_austin :: "bytes \<Rightarrow> u32" where
  "openswoole_hash_austin key0 =
     (let (h, key) = austin_loop (word_of_nat (length key0)) key0;
          h = (case key of
                 [a, b, c] \<Rightarrow> (h XOR push_bit 16 (schar32 c) XOR push_bit 8 (schar32 b) XOR schar32 a) * austin_m
               | [a, b] \<Rightarrow> (h XOR push_bit 8 (schar32 b) XOR schar32 a) * austin_m
               | [a] \<Rightarrow> (h XOR schar32 a) * austin_m
               | _ \<Rightarrow> h);
          h = h XOR drop_bit 13 h;
          h = h * austin_m
      in h XOR drop_bit 15 h)"

subsection \<open>Jenkins\<close>

text \<open>\<^verbatim>\<open>HASH_JEN_MIX(i, j, hashv)\<close>: \<open>i\<close> and \<open>j\<close> are 32 bits wide, \<open>hashv\<close> 64, so each assignment to
  one of the former truncates.\<close>

definition to32 :: "u64 \<Rightarrow> u32" where
  "to32 w = ucast w"

definition to64 :: "u32 \<Rightarrow> u64" where
  "to64 w = ucast w"

definition jen_round :: "nat \<Rightarrow> nat \<Rightarrow> nat \<Rightarrow> u32 \<times> u32 \<times> u64 \<Rightarrow> u32 \<times> u32 \<times> u64" where
  "jen_round s1 s2 s3 = (\<lambda>(a, b, c).
     (let a = a - b;
          a = to32 (to64 a - c);
          a = to32 (to64 a XOR drop_bit s1 c);
          b = to32 (to64 b - c);
          b = b - a;
          b = b XOR push_bit s2 a;
          c = c - to64 a;
          c = c - to64 b;
          c = c XOR to64 (drop_bit s3 b)
      in (a, b, c)))"

definition HASH_JEN_MIX :: "u32 \<times> u32 \<times> u64 \<Rightarrow> u32 \<times> u32 \<times> u64" where
  "HASH_JEN_MIX s = jen_round 3 10 15 (jen_round 12 16 5 (jen_round 13 8 13 s))"

definition jen_word :: "u8 \<Rightarrow> u8 \<Rightarrow> u8 \<Rightarrow> u8 \<Rightarrow> u32" where
  "jen_word a b c d = schar32 a + push_bit 8 (schar32 b) + push_bit 16 (schar32 c) + push_bit 24 (schar32 d)"

function jen_loop :: "u32 \<times> u32 \<times> u64 \<Rightarrow> bytes \<Rightarrow> (u32 \<times> u32 \<times> u64) \<times> bytes" where
  "jen_loop s key =
     (if 12 \<le> length key then
        (let (i, j, hashv) = s;
             w = (\<lambda>p. jen_word (key ! p) (key ! (p + 1)) (key ! (p + 2)) (key ! (p + 3)))
         in jen_loop (HASH_JEN_MIX (i + w 0, j + w 4, hashv + to64 (w 8))) (drop 12 key))
      else (s, key))"
  by pat_completeness auto
termination
  by (relation "measure (\<lambda>(s, key). length key)") auto

declare jen_loop.simps [simp del]

text \<open>The switch falls through, so with \<open>n\<close> bytes left every byte below \<open>n\<close> is added.\<close>

definition jen_tail :: "bytes \<Rightarrow> u32 \<times> u32 \<times> u64 \<Rightarrow> u32 \<times> u32 \<times> u64" where
  "jen_tail key = (\<lambda>(i, j, hashv).
     (let n = length key;
          u = (\<lambda>p s. if p < n then push_bit s (schar32 (key ! p)) else 0);
          hashv = hashv + to64 (u 10 24) + to64 (u 9 16) + to64 (u 8 8);
          j = j + u 7 24 + u 6 16 + u 5 8 + u 4 0;
          i = i + u 3 24 + u 2 16 + u 1 8 + u 0 0
      in (i, j, hashv)))"

definition openswoole_hash_jenkins :: "bytes \<Rightarrow> u64" where
  "openswoole_hash_jenkins key0 =
     (let ((i, j, hashv), key) = jen_loop (0x9e3779b9, 0x9e3779b9, 0xfeedbeef) key0;
          (i, j, hashv) = HASH_JEN_MIX (jen_tail key (i, j, hashv + word_of_nat (length key0)))
      in hashv)"

subsection \<open>CRC-32\<close>

definition crc_bit :: "u32 \<Rightarrow> u32" where
  "crc_bit c = (if c AND 1 \<noteq> 0 then 0xEDB88320 XOR drop_bit 1 c else drop_bit 1 c)"

definition generate_table :: "u32 list" where
  "generate_table = map (\<lambda>i. (crc_bit ^^ 8) (word_of_nat i)) [0..<256]"

definition crc_step :: "u32 \<Rightarrow> u8 \<Rightarrow> u32" where
  "crc_step crc b = (drop_bit 8 crc AND 0x00ffffff) XOR generate_table ! unat ((crc XOR schar32 b) AND 0xff)"

definition openswoole_crc32 :: "bytes \<Rightarrow> u32" where
  "openswoole_crc32 data = foldl crc_step (0 XOR 0xffffffff) data XOR 0xffffffff"


text \<open>The division by the polynomial is linear over exclusive or, and is a plain shift as long as
  the bits shifted out are zero.\<close>

lemma crc_bit_alt: "crc_bit c = (if bit c 0 then 0xEDB88320 else 0) XOR drop_bit 1 c"
  by (simp add: crc_bit_def and_one_eq odd_iff_mod_2_eq_one bit_0)

lemma crc_bit_xor: "crc_bit (x XOR y) = crc_bit x XOR crc_bit y"
  by (cases "bit x 0"; cases "bit y 0")
    (simp_all add: crc_bit_alt bit_xor_iff drop_bit_xor xor.left_commute xor.assoc)

lemma crc_bits_xor: "(crc_bit ^^ n) (x XOR y) = (crc_bit ^^ n) x XOR (crc_bit ^^ n) y"
  by (induction n) (simp_all add: crc_bit_xor)

lemma crc_bits_8: "(crc_bit ^^ 8) c = crc_bit (crc_bit (crc_bit (crc_bit (crc_bit (crc_bit (crc_bit (crc_bit c)))))))"
  by (simp add: eval_nat_numeral)

lemma crc_bits_high: "(\<And>i. i < n \<Longrightarrow> \<not> bit y i) \<Longrightarrow> (crc_bit ^^ n) y = drop_bit n y"
proof (induction n)
  case (Suc n)
  have "(crc_bit ^^ n) y = drop_bit n y" by (rule Suc.IH) (simp add: Suc.prems)
  moreover have "\<not> bit (drop_bit n y) 0" using Suc.prems [of n] by (simp add: bit_drop_bit_eq)
  ultimately show ?case by (simp add: crc_bit_alt [of "drop_bit n y"] drop_bit_drop_bit)
qed simp

text \<open>The reference: bit by bit, no table.\<close>

definition crc_byte :: "u32 \<Rightarrow> u8 \<Rightarrow> u32" where
  "crc_byte crc b = (crc_bit ^^ 8) (crc XOR ucast b)"

lemma crc_step_byte: "crc_step crc b = crc_byte crc b"
proof -
  define x where "x = crc XOR ucast b"
  have mask: "(0xff :: u32) = mask 8" "(0x00ffffff :: u32) = mask 24" by (simp_all add: mask_eq_exp_minus_1)
  have min7: "min 7 n = n" if "n < 8" for n :: nat using that by simp
  have nob: "\<not> bit b (8 + n)" for n using bit_imp_le_length [of b "8 + n"] by auto
  have low: "(crc XOR schar32 b) AND 0xff = x AND 0xff"
    unfolding x_def schar32_def mask by (rule bit_eqI) (auto simp: bit_simps min7)
  have bound: "unat (x AND 0xff) < 256"
    unfolding mask using take_bit_nat_less_exp [of 8 "unat x"] by (simp add: take_bit_eq_mask [symmetric] unsigned_take_bit_eq)
  have "generate_table ! unat (x AND 0xff) = (crc_bit ^^ 8) (word_of_nat (0 + unat (x AND 0xff)))"
    unfolding generate_table_def by (rule nth_map_upt) (use bound in simp)
  then have "generate_table ! unat (x AND 0xff) = (crc_bit ^^ 8) (x AND 0xff)" by simp
  moreover have "drop_bit 8 crc AND 0x00ffffff = (crc_bit ^^ 8) (x AND NOT 0xff)"
  proof -
    have "(crc_bit ^^ 8) (x AND NOT 0xff) = drop_bit 8 (x AND NOT 0xff)"
      by (rule crc_bits_high) (simp add: mask bit_simps)
    also have "\<dots> = drop_bit 8 crc AND 0x00ffffff"
      unfolding x_def mask by (rule bit_eqI) (auto simp: bit_simps nob)
    finally show ?thesis by simp
  qed
  ultimately have "crc_step crc b = (crc_bit ^^ 8) (x AND NOT 0xff) XOR (crc_bit ^^ 8) (x AND 0xff)"
    by (simp add: crc_step_def low)
  also have "\<dots> = (crc_bit ^^ 8) ((x AND NOT 0xff) XOR (x AND 0xff))" by (simp only: crc_bits_xor)
  also have "(x AND NOT 0xff) XOR (x AND 0xff) = x" by (rule bit_eqI) (auto simp: bit_simps)
  finally show ?thesis by (simp add: crc_byte_def x_def)
qed


subsection \<open>Properties\<close>

text \<open>
  \<^verbatim>\<open>openswoole_hash_php\<close>, eight times unrolled with a fall-through switch for the rest, is
  the plain hash \<open>h = 33 * h + c\<close> over all characters, for every length of the key.
\<close>

theorem hash_php_times33:
  "openswoole_hash_php key = foldl (\<lambda>h c. 33 * h + schar64 c) 5381 key"
  unfolding openswoole_hash_php_def php_loop_foldl by (simp add: php_step_times33 [abs_def])

text \<open>
  C40. \<^verbatim>\<open>openswoole_crc32\<close> with its table of 256 entries computes the CRC-32 of the bits, division
  by the reflected polynomial one bit at a time; on the check string \<open>123456789\<close> it gives
  the published check value.
\<close>

theorem crc32_bitwise:
  "openswoole_crc32 data = foldl crc_byte 0xffffffff data XOR 0xffffffff \<and>
   openswoole_crc32 [0x31, 0x32, 0x33, 0x34, 0x35, 0x36, 0x37, 0x38, 0x39] = 0xCBF43926"
proof
  show eq: "openswoole_crc32 data = foldl crc_byte 0xffffffff data XOR 0xffffffff" for data
    unfolding openswoole_crc32_def by (simp add: crc_step_byte [abs_def])
  show "openswoole_crc32 [0x31, 0x32, 0x33, 0x34, 0x35, 0x36, 0x37, 0x38, 0x39] = 0xCBF43926"
    unfolding eq by (simp add: crc_byte_def crc_bits_8 crc_bit_def)
qed

end
