(* ===== verification/Osw_Table.thy ===== *)
theory Osw_Table
  imports Osw_Fixed_Pool Osw_Hash
begin

text \<open>
  The shared-memory hash table of \<^verbatim>\<open>src/memory/table.cc\<close>: an array of root rows, each the head
  of a chain of conflict rows that come from a \<^verbatim>\<open>FixedPool\<close>. Root row \<open>i\<close> has address \<open>i\<close>, a
  conflict row the address of its slice behind the root rows. Rows are modelled with their
  key, link and data bytes; the row spin locks and the process-shared mutexes make each
  operation atomic and are not part of the state. \<open>None\<close> is a failed assertion, a null
  dereference, or an access outside the row.
\<close>

subsection \<open>Data\<close>

record trow =
  r_active :: bool
  r_key :: bytes
  r_next :: "addr option"
  r_data :: bytes

datatype column_type = TYPE_INT | TYPE_FLOAT | TYPE_STRING

record column =
  c_type :: column_type
  c_size :: nat
  c_name :: string
  c_index :: nat

record table =
  tb_size :: nat
  tb_mask :: u64
  tb_item_size :: nat
  tb_memory_size :: nat
  tb_row_num :: u32
  tb_rows :: "addr \<Rightarrow> trow"
  tb_pool :: pool
  tb_hash :: "bytes \<Rightarrow> u64"
  tb_column_map :: "string \<rightharpoonup> column"
  tb_column_list :: "column list"
  tb_created :: bool

record table_iterator =
  absolute_index :: nat
  collision_index :: nat
  current_row :: trow

definition OSW_TABLE_KEY_SIZE :: nat where
  "OSW_TABLE_KEY_SIZE = 64"

subsection \<open>Construction\<close>

text \<open>\<^verbatim>\<open>make\<close> rounds the number of rows up to a power of two, from 64 to \<open>2 ^ 31\<close>.\<close>

function round_rows :: "nat \<Rightarrow> nat \<Rightarrow> nat" where
  "round_rows rows_size i = (if 2 ^ i < rows_size then round_rows rows_size (i + 1) else 2 ^ i)"
  by pat_completeness auto
termination
proof (relation "measure (\<lambda>(n, i). n - i)")
  fix n i :: nat
  assume "2 ^ i < n"
  then have "i < n" using less_exp [of i] by (rule less_trans [rotated])
  then show "((n, i + 1), (n, i)) \<in> measure (\<lambda>(n, i). n - i)" by simp
qed simp

declare round_rows.simps [simp del]

definition table_rows_size :: "nat \<Rightarrow> nat" where
  "table_rows_size rows_size = (if rows_size \<ge> 2147483648 then 2147483648 else round_rows rows_size 6)"

definition table_make :: "pool \<Rightarrow> (addr \<Rightarrow> trow) \<Rightarrow> nat \<Rightarrow> table" where
  "table_make po mem rows_size =
     (let n = table_rows_size rows_size in
      \<lparr>tb_size = n, tb_mask = word_of_nat (n - 1), tb_item_size = 0, tb_memory_size = 0, tb_row_num = 0, tb_rows = mem,
       tb_pool = po, tb_hash = openswoole_hash_php, tb_column_map = Map.empty, tb_column_list = [], tb_created = False\<rparr>)"

definition column_type_of :: "nat \<Rightarrow> column_type option" where
  "column_type_of n =
     (if n = 1 then Some TYPE_INT else if n = 2 then Some TYPE_FLOAT else if n = 3 then Some TYPE_STRING else None)"

text \<open>The size of a column is kept in 32 bits.\<close>

definition column_new :: "string \<Rightarrow> column_type \<Rightarrow> nat \<Rightarrow> column" where
  "column_new name ty n =
     \<lparr>c_type = ty, c_size = (case ty of TYPE_INT \<Rightarrow> 8 | TYPE_FLOAT \<Rightarrow> 8 | TYPE_STRING \<Rightarrow> (n + 4) mod 2 ^ 32),
      c_name = name, c_index = 0\<rparr>"

text \<open>A second column of a name takes its place in the row, but the name keeps denoting the first.\<close>

definition add_column :: "string \<Rightarrow> nat \<Rightarrow> nat \<Rightarrow> table \<Rightarrow> bool \<times> table" where
  "add_column name type n t = (case column_type_of type of
      None \<Rightarrow> (False, t)
    | Some ty \<Rightarrow>
        (let col = (column_new name ty n)\<lparr>c_index := tb_item_size t\<rparr> in
         (True, t\<lparr>tb_item_size := tb_item_size t + c_size col,
                  tb_column_map := (if tb_column_map t name = None then (tb_column_map t)(name \<mapsto> col) else tb_column_map t),
                  tb_column_list := tb_column_list t @ [col]\<rparr>)))"

definition get_column :: "string \<Rightarrow> table \<Rightarrow> column option" where
  "get_column name t = tb_column_map t name"

definition sizeof_TableRow :: nat where
  "sizeof_TableRow = 88"

text \<open>The conflict proportion is clamped to 1 from both sides, so there are as many conflict rows
  as root rows.\<close>

definition table_row_memory :: "table \<Rightarrow> nat" where
  "table_row_memory t = sizeof_TableRow + tb_item_size t"

definition get_memory_size :: "table \<Rightarrow> nat \<times> table" where
  "get_memory_size t =
     (if tb_memory_size t > 0 then (tb_memory_size t, t)
      else
        (let row_num = tb_size t * 2;
             n = row_num * table_row_memory t + (sizeof_struct_impl + (row_num - tb_size t) * sizeof_struct_slice) + tb_size t * 8
         in (n, t\<lparr>tb_memory_size := n\<rparr>)))"

definition empty_row :: "bytes \<Rightarrow> trow" where
  "empty_row d = \<lparr>r_active = False, r_key = [], r_next = None, r_data = d\<rparr>"

text \<open>\<^verbatim>\<open>create\<close>: clear the root rows and give the rest of the block to the pool.\<close>

definition table_create :: "bool \<Rightarrow> table \<Rightarrow> bool \<times> table" where
  "table_create shm_ok t =
     (if tb_created t then (False, t)
      else
        (let (n, t1) = get_memory_size t in
         if \<not> shm_ok then (False, t1)
         else
           (let rest = nat ((int n - int (tb_size t) * 8 - int (table_row_memory t) * int (tb_size t)) mod 2 ^ 64) in
            (True, t1\<lparr>tb_rows := (\<lambda>a. if a < tb_size t then empty_row (r_data (tb_rows t a)) else tb_rows t a),
                      tb_pool := pool_new_in (table_row_memory t) rest, tb_created := True\<rparr>))))"

subsection \<open>Operations\<close>

definition check_key_length :: "bytes \<Rightarrow> bytes" where
  "check_key_length key = (if length key \<ge> OSW_TABLE_KEY_SIZE then take (OSW_TABLE_KEY_SIZE - 1) key else key)"

definition table_index :: "table \<Rightarrow> bytes \<Rightarrow> nat" where
  "table_index t key = unat (tb_hash t key AND tb_mask t)"

text \<open>The search along a chain; \<open>None\<close> if it does not end.\<close>

partial_function (option) row_find :: "(addr \<Rightarrow> trow) \<Rightarrow> bytes \<Rightarrow> addr \<Rightarrow> addr option option" where
  "row_find m key a =
     (if r_key (m a) = key then Some (Some a)
      else case r_next (m a) of None \<Rightarrow> Some None | Some b \<Rightarrow> row_find m key b)"

definition table_get :: "bytes \<Rightarrow> table \<Rightarrow> addr option option" where
  "table_get key0 t =
     (let key = check_key_length key0; i = table_index t key in
      if i \<ge> tb_size t then None
      else do {
        r \<leftarrow> row_find (tb_rows t) key i;
        Some (case r of None \<Rightarrow> None | Some a \<Rightarrow> if r_active (tb_rows t a) then Some a else None)
      })"

definition table_exists :: "bytes \<Rightarrow> table \<Rightarrow> bool option" where
  "table_exists key t = map_option (\<lambda>r. r \<noteq> None) (table_get key t)"

definition init_row :: "addr \<Rightarrow> bytes \<Rightarrow> table \<Rightarrow> table" where
  "init_row a key t =
     t\<lparr>tb_rows := (tb_rows t)(a := \<lparr>r_active = True, r_key = key, r_next = None, r_data = r_data (tb_rows t a)\<rparr>),
       tb_row_num := tb_row_num t + 1\<rparr>"

datatype table_flag = NEW_ROW | CONFLICT

text \<open>The loop of \<^verbatim>\<open>set\<close>: the row with the key, or else the last row of the chain.\<close>

partial_function (option) set_find :: "(addr \<Rightarrow> trow) \<Rightarrow> bytes \<Rightarrow> addr \<Rightarrow> table_flag set \<Rightarrow> (bool \<times> addr \<times> table_flag set) option" where
  "set_find m key a fl =
     (if r_key (m a) = key then Some (True, a, fl)
      else case r_next (m a) of None \<Rightarrow> Some (False, a, fl) | Some b \<Rightarrow> set_find m key b (insert CONFLICT fl))"

definition table_set :: "bytes \<Rightarrow> table \<Rightarrow> ((addr \<times> table_flag set) option \<times> table) option" where
  "table_set key0 t =
     (let key = check_key_length key0; i = table_index t key in
      if i \<ge> tb_size t then None
      else if r_active (tb_rows t i) then do {
        (found, a, fl) \<leftarrow> set_find (tb_rows t) key i {};
        if found then Some (Some (a, fl), t)
        else do {
          (r, po) \<leftarrow> pool_alloc (tb_pool t);
          case r of
            None \<Rightarrow> Some (None, t\<lparr>tb_pool := po\<rparr>)
          | Some p \<Rightarrow>
              (let new_row = tb_size t + p;
                   t1 = init_row new_row key (t\<lparr>tb_pool := po\<rparr>)
               in Some (Some (new_row, insert NEW_ROW fl),
                        t1\<lparr>tb_rows := (tb_rows t1)(a := (tb_rows t1 a)\<lparr>r_next := Some new_row\<rparr>)\<rparr>))
        }
      }
      else Some (Some (i, {NEW_ROW}), init_row i key t))"

text \<open>The loop of \<^verbatim>\<open>del\<close> over a chain of at least two rows: the row with the key and its
  predecessor.\<close>

partial_function (option) del_find :: "(addr \<Rightarrow> trow) \<Rightarrow> bytes \<Rightarrow> addr option \<Rightarrow> addr \<Rightarrow> (addr option \<times> addr option) option" where
  "del_find m key prev a =
     (if r_key (m a) = key then Some (Some a, prev)
      else case r_next (m a) of None \<Rightarrow> Some (None, Some a) | Some b \<Rightarrow> del_find m key (Some a) b)"

definition row_clear :: "addr \<Rightarrow> table \<Rightarrow> table" where
  "row_clear a t = t\<lparr>tb_rows := (tb_rows t)(a := empty_row (r_data (tb_rows t a)))\<rparr>"

text \<open>Give a conflict row back to the pool, cleared.\<close>

definition row_release :: "addr \<Rightarrow> table \<Rightarrow> table option" where
  "row_release a t =
     (let t1 = row_clear a t in map_option (\<lambda>po. t1\<lparr>tb_pool := po\<rparr>) (pool_free (a - tb_size t) (tb_pool t1)))"

definition table_del :: "bytes \<Rightarrow> table \<Rightarrow> (bool \<times> table) option" where
  "table_del key0 t =
     (let key = check_key_length key0; row = table_index t key; m = tb_rows t in
      if row \<ge> tb_size t then None
      else if \<not> r_active (m row) then Some (False, t)
      else if r_next (m row) = None then
        (if r_key (m row) = key then Some (True, (row_clear row t)\<lparr>tb_row_num := tb_row_num t - 1\<rparr>)
         else Some (False, t))
      else do {
        (tmp, prev) \<leftarrow> del_find m key None row;
        case tmp of
          None \<Rightarrow> Some (False, t)
        | Some a \<Rightarrow>
            (if a = row then do {
               b \<leftarrow> r_next (m row);
               let t1 = t\<lparr>tb_rows := m(row := \<lparr>r_active = r_active (m row), r_key = r_key (m b), r_next = r_next (m b), r_data = r_data (m b)\<rparr>)\<rparr>;
               t2 \<leftarrow> row_release b t1;
               Some (True, t2\<lparr>tb_row_num := tb_row_num t - 1\<rparr>)
             }
             else do {
               p \<leftarrow> prev;
               let t1 = t\<lparr>tb_rows := m(p := (m p)\<lparr>r_next := r_next (m a)\<rparr>)\<rparr>;
               t2 \<leftarrow> row_release a t1;
               Some (True, t2\<lparr>tb_row_num := tb_row_num t - 1\<rparr>)
             })
      })"

definition get_by_index :: "table \<Rightarrow> nat \<Rightarrow> addr option" where
  "get_by_index t i = (if r_active (tb_rows t i) then Some i else None)"

subsection \<open>Iteration\<close>

definition table_rewind :: "nat \<Rightarrow> table_iterator" where
  "table_rewind row_memory_size =
     \<lparr>absolute_index = 0, collision_index = 0, current_row = empty_row (replicate (row_memory_size - sizeof_TableRow) 0)\<rparr>"

primrec nth_row :: "(addr \<Rightarrow> trow) \<Rightarrow> nat \<Rightarrow> addr option \<Rightarrow> addr option" where
  "nth_row m 0 a = a"
| "nth_row m (Suc n) a = Option.bind a (\<lambda>x. nth_row m n (r_next (m x)))"

function table_forward :: "table \<Rightarrow> table_iterator \<Rightarrow> table_iterator" where
  "table_forward t it =
     (if absolute_index it < tb_size t then
        (case get_by_index t (absolute_index it) of
           None \<Rightarrow> table_forward t (it\<lparr>absolute_index := absolute_index it + 1\<rparr>)
         | Some row \<Rightarrow>
             if r_next (tb_rows t row) = None
             then it\<lparr>absolute_index := absolute_index it + 1, current_row := tb_rows t row\<rparr>
             else case nth_row (tb_rows t) (collision_index it) (Some row) of
                None \<Rightarrow> table_forward t (it\<lparr>collision_index := 0, absolute_index := absolute_index it + 1\<rparr>)
              | Some r \<Rightarrow> it\<lparr>collision_index := collision_index it + 1, current_row := tb_rows t r\<rparr>)
      else it\<lparr>current_row := empty_row (r_data (current_row it))\<rparr>)"
  by pat_completeness auto
termination
  by (relation "measure (\<lambda>(t, it). tb_size t - absolute_index it)") auto

declare table_forward.simps [simp del]

subsection \<open>Column values\<close>

text \<open>The limit for a string is computed in 64 bits from the 32-bit column size.\<close>

definition string_limit :: "column \<Rightarrow> nat" where
  "string_limit col = nat ((int (c_size col) - 4) mod 2 ^ 64)"

definition set_value :: "column \<Rightarrow> bytes option \<Rightarrow> bytes \<Rightarrow> bytes option" where
  "set_value col v row = (case c_type col of
      TYPE_STRING \<Rightarrow>
        (let s = (case v of None \<Rightarrow> [] | Some bs \<Rightarrow> take (string_limit col) bs) in
         do { d \<leftarrow> mem_write (c_index col) (le_bytes 4 (length s)) row; mem_write (c_index col + 4) s d })
    | _ \<Rightarrow> do { bs \<leftarrow> v; w \<leftarrow> mem_read 0 8 bs; mem_write (c_index col) w row })"

definition get_value :: "column \<Rightarrow> bytes \<Rightarrow> bytes option" where
  "get_value col row = (case c_type col of
      TYPE_STRING \<Rightarrow> do { l \<leftarrow> mem_read (c_index col) 4 row; mem_read (c_index col + 4) (le_value l) row }
    | _ \<Rightarrow> mem_read (c_index col) 8 row)"

definition clear_column :: "column \<Rightarrow> bytes \<Rightarrow> bytes option" where
  "clear_column col row = set_value col (if c_type col = TYPE_STRING then None else Some (replicate 8 0)) row"

primrec clear_columns :: "column list \<Rightarrow> bytes \<Rightarrow> bytes option" where
  "clear_columns [] row = Some row"
| "clear_columns (col # cols) row = do { d \<leftarrow> clear_column col row; clear_columns cols d }"

definition clear_row :: "addr \<Rightarrow> table \<Rightarrow> table option" where
  "clear_row a t = do {
     d \<leftarrow> clear_columns (tb_column_list t) (r_data (tb_rows t a));
     Some (t\<lparr>tb_rows := (tb_rows t)(a := (tb_rows t a)\<lparr>r_data := d\<rparr>)\<rparr>)
   }"

subsection \<open>The invariant\<close>

text \<open>A chain of rows, and the chain operations on it.\<close>

fun links :: "(addr \<Rightarrow> trow) \<Rightarrow> addr list \<Rightarrow> addr option \<Rightarrow> bool" where
  "links m [] n \<longleftrightarrow> True"
| "links m (a # as) n \<longleftrightarrow> r_next (m a) = first_of as n \<and> links m as n"

lemma links_append: "links m (xs @ ys) n \<longleftrightarrow> links m xs (first_of ys n) \<and> links m ys n"
  by (induction xs) auto

lemma links_cong: "(\<And>a. a \<in> set xs \<Longrightarrow> m a = m' a) \<Longrightarrow> links m xs n = links m' xs n"
  by (induction xs) auto

lemma row_find_links: "links m (a # xs) None \<Longrightarrow> row_find m k a = Some (find (\<lambda>b. r_key (m b) = k) (a # xs))"
proof (induction xs arbitrary: a)
  case Nil
  then show ?case by (subst row_find.simps) simp
next
  case (Cons b xs)
  have "row_find m k b = Some (find (\<lambda>b. r_key (m b) = k) (b # xs))" using Cons by simp
  then show ?case using Cons.prems by (subst row_find.simps) simp
qed

lemma set_find_links:
  "links m (a # xs) None \<Longrightarrow> distinct (a # xs) \<Longrightarrow>
     set_find m k a fl = Some (case find (\<lambda>b. r_key (m b) = k) (a # xs) of
        None \<Rightarrow> (False, last (a # xs), if xs = [] then fl else insert CONFLICT fl)
      | Some b \<Rightarrow> (True, b, if b = a then fl else insert CONFLICT fl))"
proof (induction xs arbitrary: a fl)
  case Nil
  then show ?case by (subst set_find.simps) simp
next
  case (Cons b xs)
  have ih: "set_find m k b (insert CONFLICT fl) = Some (case find (\<lambda>b. r_key (m b) = k) (b # xs) of
      None \<Rightarrow> (False, last (b # xs), insert CONFLICT fl) | Some c \<Rightarrow> (True, c, insert CONFLICT fl))"
    using Cons.IH [of b "insert CONFLICT fl"] Cons.prems by (simp add: insert_absorb2 split: option.splits)
  have ne: "find (\<lambda>b. r_key (m b) = k) (b # xs) = Some c \<Longrightarrow> c \<noteq> a" for c
    using Cons.prems(2) by (auto simp: find_Some_iff split: if_splits)
  show ?case
  proof (cases "r_key (m a) = k")
    case True
    then show ?thesis by (subst set_find.simps) simp
  next
    case False
    then have f: "find (\<lambda>b. r_key (m b) = k) (a # b # xs) = find (\<lambda>b. r_key (m b) = k) (b # xs)" by simp
    have "set_find m k a fl = set_find m k b (insert CONFLICT fl)"
      using False Cons.prems(1) by (subst set_find.simps) simp
    then show ?thesis unfolding f ih using ne by (auto split: option.splits simp del: find.simps)
  qed
qed

lemma del_find_hit:
  "links m (us @ b # vs) None \<Longrightarrow> (\<forall>c\<in>set us. r_key (m c) \<noteq> k) \<Longrightarrow> r_key (m b) = k \<Longrightarrow> us @ b # vs = a # xs \<Longrightarrow>
     del_find m k p a = Some (Some b, last_of p us)"
proof (induction us arbitrary: p a xs)
  case Nil
  then show ?case by (subst del_find.simps) simp
next
  case (Cons u us)
  obtain c ys where c: "us @ b # vs = c # ys" by (cases us) auto
  have "del_find m k (Some u) c = Some (Some b, last_of (Some u) us)"
    by (rule Cons.IH [OF _ _ _ c]) (use Cons.prems in auto)
  moreover have "r_next (m u) = Some c" using Cons.prems(1) c by simp
  moreover have "a = u" "r_key (m u) \<noteq> k" using Cons.prems by auto
  ultimately show ?case by (subst del_find.simps) simp
qed

lemma del_find_miss:
  "links m (a # xs) None \<Longrightarrow> (\<forall>c\<in>set (a # xs). r_key (m c) \<noteq> k) \<Longrightarrow> del_find m k p a = Some (None, Some (last (a # xs)))"
proof (induction xs arbitrary: a p)
  case Nil
  then show ?case by (subst del_find.simps) simp
next
  case (Cons b xs)
  have "del_find m k (Some a) b = Some (None, Some (last (b # xs)))" using Cons by simp
  then show ?case using Cons.prems by (subst del_find.simps) simp
qed

text \<open>The rows in use of a bucket, whose conflict rows are \<open>ys\<close>, and what makes a bucket
  well formed for the index function \<open>h\<close>.\<close>

definition bucket :: "(addr \<Rightarrow> trow) \<Rightarrow> nat \<Rightarrow> addr list \<Rightarrow> addr list" where
  "bucket m i ys = (if r_active (m i) then i # ys else [])"

definition bucket_ok :: "(addr \<Rightarrow> trow) \<Rightarrow> (bytes \<Rightarrow> nat) \<Rightarrow> nat \<Rightarrow> addr list \<Rightarrow> bool" where
  "bucket_ok m h i ys \<longleftrightarrow> links m (i # ys) None \<and> (\<forall>a\<in>set ys. r_active (m a)) \<and>
     (\<not> r_active (m i) \<longrightarrow> ys = [] \<and> r_key (m i) = []) \<and> distinct (map (\<lambda>a. r_key (m a)) (bucket m i ys)) \<and>
     (\<forall>a\<in>set (bucket m i ys). h (r_key (m a)) = i \<and> length (r_key (m a)) < OSW_TABLE_KEY_SIZE)"

definition table_inv :: "table \<Rightarrow> (nat \<Rightarrow> addr list) \<Rightarrow> addr set \<Rightarrow> bool" where
  "table_inv t C A \<longleftrightarrow> (\<forall>k. table_index t k < tb_size t) \<and>
     (\<forall>i<tb_size t. bucket_ok (tb_rows t) (table_index t) i (C i)) \<and>
     (\<forall>i<tb_size t. \<forall>j<tb_size t. i \<noteq> j \<longrightarrow> set (C i) \<inter> set (C j) = {}) \<and>
     (\<exists>B. pool_sets (tb_pool t) A B \<and> (+) (tb_size t) ` B = (\<Union>i<tb_size t. set (C i))) \<and>
     tb_row_num t = word_of_nat (\<Sum>i<tb_size t. length (bucket (tb_rows t) i (C i)))"

definition table_row_of :: "table \<Rightarrow> (nat \<Rightarrow> addr list) \<Rightarrow> bytes \<Rightarrow> addr option" where
  "table_row_of t C k =
     (let i = table_index t k in find (\<lambda>a. r_key (tb_rows t a) = k) (bucket (tb_rows t) i (C i)))"

text \<open>The table as a finite map from keys to row contents.\<close>

definition table_abs :: "table \<Rightarrow> (nat \<Rightarrow> addr list) \<Rightarrow> bytes \<Rightarrow> bytes option" where
  "table_abs t C k = map_option (\<lambda>a. r_data (tb_rows t a)) (table_row_of t C k)"

definition bucket_entries :: "(addr \<Rightarrow> trow) \<Rightarrow> nat \<Rightarrow> addr list \<Rightarrow> (bytes \<times> bytes) list" where
  "bucket_entries m i ys = map (\<lambda>a. (r_key (m a), r_data (m a))) (bucket m i ys)"

lemma find_map_of: "map_option g (find (\<lambda>a. f a = k) xs) = map_of (map (\<lambda>a. (f a, g a)) xs) k"
  by (induction xs) auto

lemma table_abs_map_of:
  "table_abs t C k = map_of (bucket_entries (tb_rows t) (table_index t k) (C (table_index t k))) k"
  by (simp add: table_abs_def table_row_of_def bucket_entries_def Let_def find_map_of)

lemma bucket_cong: "m i = m' i \<Longrightarrow> bucket m i ys = bucket m' i ys"
  by (simp add: bucket_def)

lemma bucket_ok_cong:
  assumes "\<And>a. a \<in> set (i # ys) \<Longrightarrow> m a = m' a"
  shows "bucket_ok m h i ys = bucket_ok m' h i ys"
proof -
  have "links m (i # ys) None = links m' (i # ys) None" by (rule links_cong) (rule assms)
  moreover have "bucket m i ys = bucket m' i ys" by (rule bucket_cong) (simp add: assms)
  moreover have "map (\<lambda>a. r_key (m a)) (bucket m' i ys) = map (\<lambda>a. r_key (m' a)) (bucket m' i ys)"
    by (rule map_cong) (use assms in \<open>auto simp: bucket_def split: if_splits\<close>)
  moreover have "(\<forall>a\<in>set (bucket m' i ys). h (r_key (m a)) = i \<and> length (r_key (m a)) < OSW_TABLE_KEY_SIZE) =
     (\<forall>a\<in>set (bucket m' i ys). h (r_key (m' a)) = i \<and> length (r_key (m' a)) < OSW_TABLE_KEY_SIZE)"
    by (rule ball_cong) (use assms in \<open>auto simp: bucket_def split: if_splits\<close>)
  moreover have "(\<forall>a\<in>set ys. r_active (m a)) = (\<forall>a\<in>set ys. r_active (m' a))" "m i = m' i" using assms by auto
  ultimately show ?thesis unfolding bucket_ok_def by presburger
qed

lemma bucket_ok_distinct: "bucket_ok m h i ys \<Longrightarrow> distinct (i # ys)"
  by (auto simp: bucket_ok_def bucket_def distinct_map split: if_splits)

lemma table_inv_ge:
  assumes "table_inv t C A" and "i < tb_size t" and "a \<in> set (C i)"
  shows "tb_size t \<le> a"
proof -
  obtain B where B: "(+) (tb_size t) ` B = (\<Union>i<tb_size t. set (C i))" using assms(1) by (auto simp: table_inv_def)
  have "a \<in> (+) (tb_size t) ` B" unfolding B using assms(2,3) by blast
  then show ?thesis by auto
qed

lemma bucket_disjoint:
  assumes inv: "table_inv t C A" and ij: "i < tb_size t" "j < tb_size t" "i \<noteq> j"
    and "a \<in> set (i # C i)" and "b \<in> set (j # C j)"
  shows "a \<noteq> b"
proof -
  have "set (C i) \<inter> set (C j) = {}" using inv ij by (simp add: table_inv_def)
  then show ?thesis using assms table_inv_ge [OF inv ij(1), of j] table_inv_ge [OF inv ij(2), of i] by auto
qed

text \<open>An operation changes one bucket.\<close>

lemma table_inv_change:
  assumes inv: "table_inv t C A" and i: "i < tb_size t"
    and same: "tb_size t' = tb_size t" "tb_hash t' = tb_hash t" "tb_mask t' = tb_mask t"
    and frame: "\<forall>j<tb_size t. j \<noteq> i \<longrightarrow> (\<forall>a\<in>set (j # C j). tb_rows t' a = tb_rows t a)"
    and ok: "bucket_ok (tb_rows t') (table_index t) i ys"
    and pool: "pool_sets (tb_pool t') A B'" "(+) (tb_size t) ` B' = set ys \<union> (\<Union>j\<in>{..<tb_size t} - {i}. set (C j))"
    and disj: "\<forall>j<tb_size t. j \<noteq> i \<longrightarrow> set ys \<inter> set (C j) = {}"
    and num: "tb_row_num t' + word_of_nat (length (bucket (tb_rows t) i (C i))) =
                tb_row_num t + word_of_nat (length (bucket (tb_rows t') i ys))"
  shows "table_inv t' (C(i := ys)) A"
    and "\<And>k. table_abs t' (C(i := ys)) k =
           (if table_index t k = i then map_of (bucket_entries (tb_rows t') i ys) k else table_abs t C k)"
proof -
  have idx: "table_index t' = table_index t" by (simp add: table_index_def same fun_eq_iff)
  have lt: "table_index t k < tb_size t" for k using inv by (simp add: table_inv_def)
  have b: "bucket_ok (tb_rows t') (table_index t) j (C j)" if "j < tb_size t" "j \<noteq> i" for j
    using inv that bucket_ok_cong [where m = "tb_rows t'" and m' = "tb_rows t" and i = j and ys = "C j"] frame
    by (auto simp: table_inv_def)
  have bl: "bucket (tb_rows t') j (C j) = bucket (tb_rows t) j (C j)" if "j < tb_size t" "j \<noteq> i" for j
    by (rule bucket_cong) (use frame that in auto)
  define S where "S = (\<Sum>j\<in>{..<tb_size t} - {i}. length (bucket (tb_rows t) j (C j)))"
  have sum: "(\<Sum>j<tb_size t. f j) = f i + (\<Sum>j\<in>{..<tb_size t} - {i}. f j)" for f :: "nat \<Rightarrow> nat"
    using i by (simp add: sum.remove)
  have "(\<Sum>j\<in>{..<tb_size t} - {i}. length (bucket (tb_rows t') j ((C(i := ys)) j))) = S"
    unfolding S_def by (rule sum.cong) (auto simp: bl)
  then have n: "tb_row_num t' = word_of_nat (\<Sum>j<tb_size t. length (bucket (tb_rows t') j ((C(i := ys)) j)))"
    using num inv by (simp add: sum table_inv_def S_def [symmetric] algebra_simps)
  have un: "(\<Union>j<tb_size t. set ((C(i := ys)) j)) = set ys \<union> (\<Union>j\<in>{..<tb_size t} - {i}. set (C j))"
    using i by (auto split: if_splits)
  have dj: "\<forall>j<tb_size t. \<forall>k<tb_size t. j \<noteq> k \<longrightarrow> set ((C(i := ys)) j) \<inter> set ((C(i := ys)) k) = {}"
    using inv disj by (simp add: table_inv_def Int_commute)
  show "table_inv t' (C(i := ys)) A"
    unfolding table_inv_def same idx un using lt b ok dj pool n by auto
  have "bucket_entries (tb_rows t') j (C j) = bucket_entries (tb_rows t) j (C j)" if "j < tb_size t" "j \<noteq> i" for j
    unfolding bucket_entries_def bl [OF that] by (rule map_cong) (use frame that in \<open>auto simp: bucket_def split: if_splits\<close>)
  then show "table_abs t' (C(i := ys)) k =
      (if table_index t k = i then map_of (bucket_entries (tb_rows t') i ys) k else table_abs t C k)" for k
    using lt [of k] by (simp add: table_abs_map_of idx)
qed

subsection \<open>Lookup\<close>

lemma check_key_length_less: "length (check_key_length k) < OSW_TABLE_KEY_SIZE"
  by (simp add: check_key_length_def OSW_TABLE_KEY_SIZE_def)

lemma table_inv_bucket:
  assumes "table_inv t C A" and "i < tb_size t"
  shows "bucket_ok (tb_rows t) (table_index t) i (C i)"
  using assms by (simp add: table_inv_def)

lemma table_get_spec:
  assumes inv: "table_inv t C A"
  shows "table_get k0 t = Some (table_row_of t C (check_key_length k0))"
proof -
  define k where "k = check_key_length k0"
  define i where "i = table_index t k"
  have i: "i < tb_size t" using inv by (simp add: table_inv_def i_def)
  note ok = table_inv_bucket [OF inv i, unfolded bucket_ok_def]
  have r: "row_find (tb_rows t) k i = Some (find (\<lambda>b. r_key (tb_rows t b) = k) (i # C i))"
    by (rule row_find_links) (use ok in blast)
  have act: "r_active (tb_rows t a)" if "find (\<lambda>b. r_key (tb_rows t b) = k) (i # C i) = Some a" "r_active (tb_rows t i)" for a
    using that ok by (auto simp: find_Some_iff nth_Cons' split: if_splits)
  have "(case find (\<lambda>b. r_key (tb_rows t b) = k) (i # C i) of None \<Rightarrow> None
          | Some a \<Rightarrow> if r_active (tb_rows t a) then Some a else None) = table_row_of t C k"
  proof (cases "r_active (tb_rows t i)")
    case True
    then show ?thesis using act by (simp add: table_row_of_def Let_def bucket_def i_def split: option.split del: find.simps)
  next
    case False
    then have "C i = []" using ok by simp
    then show ?thesis using False by (auto simp: table_row_of_def Let_def bucket_def i_def [symmetric])
  qed
  then show ?thesis using i r by (simp add: table_get_def Let_def k_def [symmetric] i_def [symmetric])
qed

lemma find_distinct: "distinct (map f xs) \<Longrightarrow> a \<in> set xs \<Longrightarrow> find (\<lambda>b. f b = f a) xs = Some a"
  by (induction xs) auto

lemma find_split: "find P xs = Some a \<Longrightarrow> \<exists>us vs. xs = us @ a # vs \<and> P a \<and> (\<forall>c\<in>set us. \<not> P c)"
proof (induction xs)
  case (Cons x xs)
  show ?case
  proof (cases "P x")
    case True
    then have "x # xs = [] @ a # xs \<and> P a \<and> (\<forall>c\<in>set []. \<not> P c)" using Cons.prems by simp
    then show ?thesis by blast
  next
    case False
    then obtain us vs where "xs = us @ a # vs" "P a" "\<forall>c\<in>set us. \<not> P c" using Cons by auto
    then have "x # xs = (x # us) @ a # vs \<and> P a \<and> (\<forall>c\<in>set (x # us). \<not> P c)" using False by simp
    then show ?thesis by blast
  qed
qed simp

lemma table_row_of_unique:
  assumes inv: "table_inv t C A" and i: "i < tb_size t" and a: "a \<in> set (bucket (tb_rows t) i (C i))"
  shows "table_row_of t C (r_key (tb_rows t a)) = Some a"
proof -
  note ok = table_inv_bucket [OF inv i]
  have "table_index t (r_key (tb_rows t a)) = i" using ok a by (simp add: bucket_ok_def)
  then show ?thesis using find_distinct [OF _ a, where f = "\<lambda>a. r_key (tb_rows t a)"] ok
    by (simp add: table_row_of_def bucket_ok_def)
qed

lemma table_row_of_None: "table_row_of t C k = None \<longleftrightarrow> table_abs t C k = None"
  by (simp add: table_abs_def)

subsection \<open>Insertion\<close>

lemma links_snoc:
  assumes "links m (us @ [l]) None" and "distinct (us @ [l, a])" and "r_next z = None"
  shows "links (m(a := z, l := (m l)\<lparr>r_next := Some a\<rparr>)) (us @ [l, a]) None"
proof -
  have "links (m(a := z, l := (m l)\<lparr>r_next := Some a\<rparr>)) us (Some l) = links m us (Some l)"
    by (rule links_cong) (use assms(2) in auto)
  then show ?thesis using assms by (auto simp: links_append)
qed

lemma bucket_ok_snoc:
  assumes ok: "bucket_ok m h i ys" and act: "r_active (m i)" and fresh: "a \<notin> set (i # ys)"
    and new: "k \<notin> r_key ` m ` set (i # ys)" "h k = i" "length k < OSW_TABLE_KEY_SIZE"
    and z: "z = \<lparr>r_active = True, r_key = k, r_next = None, r_data = d\<rparr>" and l: "l = last (i # ys)"
  defines "m' \<equiv> m(a := z, l := (m l)\<lparr>r_next := Some a\<rparr>)"
  shows "bucket_ok m' h i (ys @ [a])" "bucket_entries m' i (ys @ [a]) = bucket_entries m i ys @ [(k, d)]"
proof -
  obtain us where us: "i # ys = us @ [l]" unfolding l by (metis append_butlast_last_id list.distinct(1))
  have "distinct ((i # ys) @ [a])" using bucket_ok_distinct [OF ok] fresh by auto
  then have d: "distinct (us @ [l, a])" unfolding us by simp
  have "links m (us @ [l]) None" using ok unfolding bucket_ok_def us by blast
  then have lk: "links m' (us @ [l, a]) None" unfolding m'_def by (rule links_snoc [OF _ d]) (simp add: z)
  have e: "i # ys @ [a] = us @ [l, a]" using us by simp
  have fl: "l \<noteq> a" "l \<in> set (i # ys)" using d unfolding us by auto
  have same: "r_key (m' x) = r_key (m x) \<and> r_active (m' x) = r_active (m x) \<and> r_data (m' x) = r_data (m x)"
    if "x \<in> set (i # ys)" for x using that fresh fl by (auto simp: m'_def)
  have a: "m' a = z" using fl by (simp add: m'_def)
  have b: "bucket m' i (ys @ [a]) = i # ys @ [a]" "bucket m i ys = i # ys" using act same by (auto simp: bucket_def)
  have mp: "map (\<lambda>x. r_key (m' x)) (i # ys) = map (\<lambda>x. r_key (m x)) (i # ys)"
    by (rule map_cong [OF refl]) (use same in blast)
  show "bucket_entries m' i (ys @ [a]) = bucket_entries m i ys @ [(k, d)]"
    unfolding bucket_entries_def b using same by (auto simp: a z)
  have dk: "distinct (map (\<lambda>x. r_key (m' x)) ((i # ys) @ [a]))"
    unfolding map_append mp using ok new(1) by (auto simp: bucket_ok_def b a z)
  have ks: "\<forall>x\<in>set ((i # ys) @ [a]). r_active (m' x) \<and> h (r_key (m' x)) = i \<and> length (r_key (m' x)) < OSW_TABLE_KEY_SIZE"
    using ok act same new(2,3) by (auto simp: bucket_ok_def b a z)
  show "bucket_ok m' h i (ys @ [a])"
    unfolding bucket_ok_def b using lk [folded e] dk ks by simp
qed

lemma table_abs_None:
  "table_abs t C k = None \<longleftrightarrow> k \<notin> (\<lambda>a. r_key (tb_rows t a)) ` set (bucket (tb_rows t) (table_index t k) (C (table_index t k)))"
  by (auto simp: table_abs_def table_row_of_def find_None_iff Let_def)

lemma table_abs_other:
  assumes "table_inv t C A" and "i < tb_size t" and "table_index t k \<noteq> i"
  shows "map_of (bucket_entries (tb_rows t) i (C i)) k = None"
  using table_inv_bucket [OF assms(1,2)] assms(3) by (auto simp: map_of_eq_None_iff bucket_entries_def bucket_ok_def)

text \<open>The key is new and its root row is free.\<close>

lemma table_set_root:
  assumes inv: "table_inv t C A" and k: "k = check_key_length k0" and act: "\<not> r_active (tb_rows t (table_index t k))"
  defines "i \<equiv> table_index t k"
  shows "table_set k0 t = Some (Some (i, {NEW_ROW}), init_row i k t)" "table_inv (init_row i k t) C A"
    "table_abs (init_row i k t) C = (table_abs t C)(k \<mapsto> r_data (tb_rows t i))" "table_abs t C k = None"
    "table_row_of (init_row i k t) C k = Some i"
proof -
  let ?t = "init_row i k t"
  have i: "i < tb_size t" using inv by (simp add: table_inv_def i_def)
  have na: "\<not> r_active (tb_rows t i)" using act by (simp add: i_def)
  have Ci: "C i = []" using table_inv_bucket [OF inv i] na by (simp add: bucket_ok_def)
  then have id: "C(i := []) = C" by (simp add: fun_upd_idem)
  obtain B where B: "pool_sets (tb_pool t) A B" "(+) (tb_size t) ` B = (\<Union>j<tb_size t. set (C j))"
    using inv by (auto simp: table_inv_def)
  have un: "(\<Union>j<tb_size t. set (C j)) = set [] \<union> (\<Union>j\<in>{..<tb_size t} - {i}. set (C j))" using Ci i by auto
  have fr: "\<forall>j<tb_size t. j \<noteq> i \<longrightarrow> (\<forall>a\<in>set (j # C j). tb_rows ?t a = tb_rows t a)"
    using table_inv_ge [OF inv] i by (force simp: init_row_def)
  have dj: "\<forall>j<tb_size t. j \<noteq> i \<longrightarrow> set [] \<inter> set (C j) = {}" by simp
  have ok: "bucket_ok (tb_rows ?t) (table_index t) i []"
    using check_key_length_less by (simp add: bucket_ok_def bucket_def init_row_def i_def k)
  have num: "tb_row_num ?t + word_of_nat (length (bucket (tb_rows t) i (C i))) =
      tb_row_num t + word_of_nat (length (bucket (tb_rows ?t) i []))"
    using na by (simp add: init_row_def bucket_def)
  have pl: "pool_sets (tb_pool ?t) A B" using B(1) by (simp add: init_row_def)
  have same: "tb_size ?t = tb_size t" "tb_hash ?t = tb_hash t" "tb_mask ?t = tb_mask t" by (simp_all add: init_row_def)
  note ch = table_inv_change [where t = t and t' = ?t and ys = "[]", OF inv i same fr ok pl B(2) [unfolded un] dj num]
  show "table_inv ?t C A" using ch(1) by (simp add: id)
  show "table_set k0 t = Some (Some (i, {NEW_ROW}), ?t)"
    using i na by (simp add: table_set_def Let_def k [symmetric] i_def [symmetric])
  show ab: "table_abs t C k = None" using na by (simp add: table_abs_None bucket_def i_def)
  show "table_row_of ?t C k = Some i"
    using Ci by (simp add: table_row_of_def Let_def bucket_def init_row_def table_index_def i_def)
  have e: "bucket_entries (tb_rows ?t) i [] = [(k, r_data (tb_rows t i))]"
    by (simp add: bucket_entries_def bucket_def init_row_def)
  have "table_abs t C k' = None" if "table_index t k' = i" for k'
    using na that by (simp add: table_abs_None bucket_def)
  then show "table_abs ?t C = (table_abs t C)(k \<mapsto> r_data (tb_rows t i))"
    by (intro ext) (simp add: ch(2) [unfolded id e] i_def [symmetric])
qed

text \<open>The key is new and a row is in its root: the new row comes from the pool, or there is none.\<close>

lemma table_set_chain:
  assumes inv: "table_inv t C A" and k: "k = check_key_length k0" and act: "r_active (tb_rows t (table_index t k))"
    and new: "table_abs t C k = None" and B: "pool_sets (tb_pool t) A B" "(+) (tb_size t) ` B = (\<Union>j<tb_size t. set (C j))"
    and ne: "B \<noteq> A"
  defines "i \<equiv> table_index t k"
  shows "\<exists>a t'. table_set k0 t = Some (Some (a, insert NEW_ROW (if C i = [] then {} else {CONFLICT})), t') \<and>
     table_inv t' (C(i := C i @ [a])) A \<and> table_abs t' (C(i := C i @ [a])) = (table_abs t C)(k \<mapsto> r_data (tb_rows t a)) \<and>
     table_row_of t' (C(i := C i @ [a])) k = Some a \<and> tb_row_num t' = tb_row_num t + 1"
proof -
  have i: "i < tb_size t" using inv by (simp add: table_inv_def i_def)
  have act: "r_active (tb_rows t i)" using act by (simp add: i_def)
  note ok = table_inv_bucket [OF inv i]
  obtain p po where p: "pool_alloc (tb_pool t) = Some (Some p, po)" "p \<in> A - B" "pool_sets po A (insert p B)"
    using fp.alloc_Some [OF B(1) ne] by blast
  define a where "a = tb_size t + p"
  have "a \<notin> (+) (tb_size t) ` B" using p(2) by (auto simp: a_def)
  then have fresh: "a \<notin> set (j # C j)" if "j < tb_size t" for j using that unfolding B(2) by (auto simp: a_def)
  define l where "l = last (i # C i)"
  define z where "z = \<lparr>r_active = True, r_key = k, r_next = None, r_data = r_data (tb_rows t a)\<rparr>"
  define m' where "m' = (tb_rows t)(a := z, l := (tb_rows t l)\<lparr>r_next := Some a\<rparr>)"
  define t' where "t' = t\<lparr>tb_pool := po, tb_rows := m', tb_row_num := tb_row_num t + 1\<rparr>"
  have l: "l \<in> set (i # C i)" unfolding l_def by (rule last_in_set) simp
  have la: "l \<noteq> a" using l fresh [OF i] by metis
  have keys: "k \<notin> r_key ` tb_rows t ` set (i # C i)"
    using new act by (simp add: table_abs_None bucket_def i_def [symmetric] image_image)
  have h: "table_index t k = i" "length k < OSW_TABLE_KEY_SIZE" using check_key_length_less by (simp_all add: i_def k)
  note sn = bucket_ok_snoc [OF ok act fresh [OF i] keys h z_def l_def, folded m'_def]
  have "find (\<lambda>b. r_key (tb_rows t b) = k) (i # C i) = None" using keys by (force simp: find_None_iff)
  moreover have "links (tb_rows t) (i # C i) None" using ok by (simp add: bucket_ok_def)
  ultimately have sf: "set_find (tb_rows t) k i {} = Some (False, l, if C i = [] then {} else {CONFLICT})"
    using set_find_links [where k = k and fl = "{}", OF _ bucket_ok_distinct [OF ok]] by (simp add: l_def del: find.simps)
  have "t\<lparr>tb_pool := po, tb_rows := m', tb_row_num := tb_row_num t + 1\<rparr> =
    (let t1 = init_row a k (t\<lparr>tb_pool := po\<rparr>) in t1\<lparr>tb_rows := (tb_rows t1)(l := (tb_rows t1 l)\<lparr>r_next := Some a\<rparr>)\<rparr>)"
    using la by (simp add: init_row_def m'_def z_def Let_def)
  then have set: "table_set k0 t = Some (Some (a, insert NEW_ROW (if C i = [] then {} else {CONFLICT})), t')"
    using i act sf p(1) by (simp add: table_set_def Let_def k [symmetric] i_def [symmetric] a_def [symmetric] t'_def)
  have dj: "\<forall>j<tb_size t. j \<noteq> i \<longrightarrow> set (C i @ [a]) \<inter> set (C j) = {}"
    using inv i fresh by (auto simp: table_inv_def)
  have fr: "\<forall>j<tb_size t. j \<noteq> i \<longrightarrow> (\<forall>x\<in>set (j # C j). tb_rows t' x = tb_rows t x)"
  proof (intro allI impI ballI)
    fix j x
    assume j: "j < tb_size t" "j \<noteq> i" and x: "x \<in> set (j # C j)"
    have "x \<noteq> a" using fresh [OF j(1)] x by metis
    moreover have "x \<noteq> l" by (rule bucket_disjoint [OF inv j(1) i j(2) x l])
    ultimately show "tb_rows t' x = tb_rows t x" by (simp add: t'_def m'_def)
  qed
  have un: "(+) (tb_size t) ` insert p B = set (C i @ [a]) \<union> (\<Union>j\<in>{..<tb_size t} - {i}. set (C j))"
    using i unfolding image_insert B(2) a_def [symmetric] by auto
  have ai: "r_active (m' i)" using sn(1) by (simp add: bucket_ok_def)
  have num: "tb_row_num t' + word_of_nat (length (bucket (tb_rows t) i (C i))) =
      tb_row_num t + word_of_nat (length (bucket (tb_rows t') i (C i @ [a])))"
    using act ai by (simp add: t'_def bucket_def)
  have same: "tb_size t' = tb_size t" "tb_hash t' = tb_hash t" "tb_mask t' = tb_mask t" by (simp_all add: t'_def)
  have sn': "bucket_ok (tb_rows t') (table_index t) i (C i @ [a])" "pool_sets (tb_pool t') A (insert p B)"
    using sn(1) p(3) by (simp_all add: t'_def)
  note ch = table_inv_change [where t = t and t' = t', OF inv i same fr sn' un dj num]
  have "bucket_entries (tb_rows t') i (C i @ [a]) = bucket_entries (tb_rows t) i (C i) @ [(k, r_data (tb_rows t a))]"
    using sn(2) by (simp add: t'_def)
  then have "table_abs t' (C(i := C i @ [a])) k' = ((table_abs t C)(k \<mapsto> r_data (tb_rows t a))) k'" for k'
    using new by (auto simp: ch(2) table_abs_map_of [of t] map_add_def h(1) split: option.split)
  moreover have "table_row_of t' (C(i := C i @ [a])) (r_key (tb_rows t' a)) = Some a"
    by (rule table_row_of_unique [OF ch(1), where i = i]) (use i ai in \<open>auto simp: t'_def bucket_def\<close>)
  moreover have "r_key (tb_rows t' a) = k" using la by (simp add: t'_def m'_def z_def)
  ultimately show ?thesis using set ch(1) by (intro exI [where x = a] exI [where x = t']) (auto simp: fun_eq_iff t'_def)
qed

lemma table_set_found:
  assumes inv: "table_inv t C A" and k: "k = check_key_length k0" and a: "table_row_of t C k = Some a"
  shows "table_set k0 t = Some (Some (a, if a < tb_size t then {} else {CONFLICT}), t)"
proof -
  define i where "i = table_index t k"
  have i: "i < tb_size t" using inv by (simp add: table_inv_def i_def)
  note ok = table_inv_bucket [OF inv i]
  have f: "find (\<lambda>b. r_key (tb_rows t b) = k) (bucket (tb_rows t) i (C i)) = Some a"
    using a by (simp add: table_row_of_def Let_def i_def)
  then have act: "r_active (tb_rows t i)" by (simp add: bucket_def split: if_splits)
  have "links (tb_rows t) (i # C i) None" using ok by (simp add: bucket_ok_def)
  then have sf: "set_find (tb_rows t) k i {} = Some (True, a, if a = i then {} else {CONFLICT})"
    using f act set_find_links [where k = k and fl = "{}", OF _ bucket_ok_distinct [OF ok]]
    by (simp add: bucket_def del: find.simps)
  have "a \<in> set (i # C i)" using f act by (auto simp: bucket_def find_Some_iff nth_Cons' split: if_splits)
  then have "a < tb_size t \<longleftrightarrow> a = i" using i table_inv_ge [OF inv i, of a] by auto
  then show ?thesis using i act sf by (simp add: table_set_def Let_def k [symmetric] i_def [symmetric])
qed

lemma table_set_full:
  assumes inv: "table_inv t C A" and k: "k = check_key_length k0" and act: "r_active (tb_rows t (table_index t k))"
    and new: "table_abs t C k = None" and B: "pool_sets (tb_pool t) A A"
  shows "table_set k0 t = Some (None, t)"
proof -
  define i where "i = table_index t k"
  have i: "i < tb_size t" using inv by (simp add: table_inv_def i_def)
  note ok = table_inv_bucket [OF inv i]
  have "find (\<lambda>b. r_key (tb_rows t b) = k) (i # C i) = None"
    using new act by (simp add: table_abs_def table_row_of_def bucket_def Let_def i_def)
  moreover have "links (tb_rows t) (i # C i) None" using ok by (simp add: bucket_ok_def)
  ultimately have "set_find (tb_rows t) k i {} = Some (False, last (i # C i), if C i = [] then {} else {CONFLICT})"
    using set_find_links [where k = k and fl = "{}", OF _ bucket_ok_distinct [OF ok]] by (simp del: find.simps)
  then show ?thesis using i act fp.alloc_None [OF B]
    by (simp add: table_set_def Let_def k [symmetric] i_def [symmetric])
qed

subsection \<open>Deletion\<close>

lemma links_unlink:
  assumes "links m (us @ p # a # vs) n" and "distinct (us @ p # a # vs)"
  shows "links (m(p := (m p)\<lparr>r_next := r_next (m a)\<rparr>, a := z)) (us @ p # vs) n"
proof -
  let ?m = "m(p := (m p)\<lparr>r_next := r_next (m a)\<rparr>, a := z)"
  have "links ?m us (Some p) = links m us (Some p)" "links ?m vs n = links m vs n"
    by (rule links_cong; use assms(2) in auto)+
  then show ?thesis using assms by (auto simp: links_append)
qed

lemma map_of_remove: "distinct (map fst (us @ e # vs)) \<Longrightarrow> map_of (us @ vs) = (map_of (us @ e # vs))(fst e := None)"
proof (induction us)
  case Nil
  then have "map_of vs (fst e) = None" by (simp add: map_of_eq_None_iff)
  then show ?case by (cases e) (auto simp: fun_eq_iff)
qed (auto simp: fun_eq_iff)

text \<open>A bucket that loses one row; \<open>m'\<close> may move the contents of rows.\<close>

lemma bucket_ok_shrink:
  assumes ok: "bucket_ok m h i ys" and act: "r_active (m i)"
    and es: "map (\<lambda>a. (r_key (m a), r_data (m a))) (i # ys) = us @ e # vs"
    and es': "map (\<lambda>a. (r_key (m' a), r_data (m' a))) (i # ys') = us @ vs"
    and lk: "links m' (i # ys') None" and act': "\<forall>a\<in>set (i # ys'). r_active (m' a)"
  shows "bucket_ok m' h i ys'" "bucket_entries m' i ys' = us @ vs"
    "map_of (us @ vs) = (map_of (bucket_entries m i ys))(fst e := None)"
    "length (bucket m i ys) = length (bucket m' i ys') + 1"
proof -
  have b: "bucket m i ys = i # ys" "bucket m' i ys' = i # ys'" using act act' by (auto simp: bucket_def)
  have k: "map (\<lambda>a. r_key (m a)) (i # ys) = map fst (us @ e # vs)" "map (\<lambda>a. r_key (m' a)) (i # ys') = map fst (us @ vs)"
    unfolding es [symmetric] es' [symmetric] by simp_all
  have d: "distinct (map fst (us @ e # vs))" using ok unfolding bucket_ok_def b k by simp
  have "\<forall>x\<in>set (map fst (us @ e # vs)). h x = i \<and> length x < OSW_TABLE_KEY_SIZE"
    unfolding k(1) [symmetric] using ok unfolding bucket_ok_def b by auto
  then have "\<forall>x\<in>set (map (\<lambda>a. r_key (m' a)) (i # ys')). h x = i \<and> length x < OSW_TABLE_KEY_SIZE"
    unfolding k(2) by auto
  then have "\<forall>a\<in>set (i # ys'). h (r_key (m' a)) = i \<and> length (r_key (m' a)) < OSW_TABLE_KEY_SIZE" by simp
  moreover have "distinct (map (\<lambda>a. r_key (m' a)) (i # ys'))" unfolding k(2) using d by auto
  ultimately show "bucket_ok m' h i ys'" unfolding bucket_ok_def b using lk act' by simp
  show "bucket_entries m' i ys' = us @ vs" unfolding bucket_entries_def b es' ..
  show "map_of (us @ vs) = (map_of (bucket_entries m i ys))(fst e := None)"
    unfolding bucket_entries_def b es by (rule map_of_remove [OF d])
  have "length (i # ys) = length (us @ e # vs)" "length (i # ys') = length (us @ vs)"
    unfolding es [symmetric] es' [symmetric] by simp_all
  then show "length (bucket m i ys) = length (bucket m' i ys') + 1" unfolding b by simp
qed

text \<open>The conflict row \<open>a\<close> of bucket \<open>i\<close> goes back to the pool.\<close>

lemma table_del_release:
  assumes inv: "table_inv t C A" and i: "i < tb_size t" and act: "r_active (tb_rows t i)" and a: "a \<in> set (C i)"
    and t1: "t1 = t\<lparr>tb_rows := mr\<rparr>" and mr: "\<forall>x. x \<notin> set (i # C i) \<longrightarrow> mr x = tb_rows t x"
    and ys: "set (C i) = insert a (set ys)" "a \<notin> set ys"
  defines "m2 \<equiv> mr(a := empty_row (r_data (mr a)))"
  assumes es: "map (\<lambda>a. (r_key (tb_rows t a), r_data (tb_rows t a))) (i # C i) = us @ (k, d) # vs"
    and es': "map (\<lambda>a. (r_key (m2 a), r_data (m2 a))) (i # ys) = us @ vs"
    and lk: "links m2 (i # ys) None" and act': "\<forall>a\<in>set (i # ys). r_active (m2 a)"
  shows "\<exists>t2. row_release a t1 = Some t2 \<and> table_inv (t2\<lparr>tb_row_num := tb_row_num t - 1\<rparr>) (C(i := ys)) A \<and>
     table_abs (t2\<lparr>tb_row_num := tb_row_num t - 1\<rparr>) (C(i := ys)) = (table_abs t C)(k := None)"
proof -
  obtain B where B: "pool_sets (tb_pool t) A B" "(+) (tb_size t) ` B = (\<Union>j<tb_size t. set (C j))"
    using inv by (auto simp: table_inv_def)
  have "a \<in> (+) (tb_size t) ` B" unfolding B(2) using a i by blast
  then obtain p where p: "p \<in> B" "a = tb_size t + p" by auto
  obtain po where po: "pool_free p (tb_pool t) = Some po" "pool_sets po A (B - {p})" using fp.free_law [OF B(1) p(1)] by blast
  define t2 where "t2 = t\<lparr>tb_rows := m2, tb_pool := po\<rparr>"
  have rel: "row_release a t1 = Some t2"
    using po(1) by (simp add: row_release_def row_clear_def t1 m2_def t2_def p(2))
  let ?t' = "t2\<lparr>tb_row_num := tb_row_num t - 1\<rparr>"
  have same: "tb_size ?t' = tb_size t" "tb_hash ?t' = tb_hash t" "tb_mask ?t' = tb_mask t" by (simp_all add: t2_def)
  have fr: "\<forall>j<tb_size t. j \<noteq> i \<longrightarrow> (\<forall>x\<in>set (j # C j). tb_rows ?t' x = tb_rows t x)"
  proof (intro allI impI ballI)
    fix j x
    assume j: "j < tb_size t" "j \<noteq> i" and x: "x \<in> set (j # C j)"
    have "x \<notin> set (i # C i)" using bucket_disjoint [OF inv j(1) i j(2) x] by blast
    then show "tb_rows ?t' x = tb_rows t x" using mr a by (auto simp: t2_def m2_def)
  qed
  note sh = bucket_ok_shrink [OF table_inv_bucket [OF inv i] act es es' lk act']
  have "\<forall>j<tb_size t. j \<noteq> i \<longrightarrow> set (C i) \<inter> set (C j) = {}" using inv i by (simp add: table_inv_def)
  then have dj: "\<forall>j<tb_size t. j \<noteq> i \<longrightarrow> set ys \<inter> set (C j) = {}" and na: "\<forall>j<tb_size t. j \<noteq> i \<longrightarrow> a \<notin> set (C j)"
    unfolding ys(1) by auto
  have un: "(+) (tb_size t) ` (B - {p}) = set ys \<union> (\<Union>j\<in>{..<tb_size t} - {i}. set (C j))"
  proof -
    have "(+) (tb_size t) ` (B - {p}) = (\<Union>j<tb_size t. set (C j)) - {a}" unfolding B(2) [symmetric] p(2) by auto
    also have "(\<Union>j<tb_size t. set (C j)) = insert a (set ys) \<union> (\<Union>j\<in>{..<tb_size t} - {i}. set (C j))" using i ys(1) by auto
    finally show ?thesis using na ys(2) by auto
  qed
  have num: "tb_row_num ?t' + word_of_nat (length (bucket (tb_rows t) i (C i))) =
      tb_row_num t + word_of_nat (length (bucket (tb_rows ?t') i ys))"
    using sh(4) by (simp add: t2_def)
  have ok: "bucket_ok (tb_rows ?t') (table_index t) i ys" "pool_sets (tb_pool ?t') A (B - {p})"
    using sh(1) po(2) by (simp_all add: t2_def)
  note ch = table_inv_change [where t = t and t' = ?t', OF inv i same fr ok un dj num]
  have e: "bucket_entries (tb_rows t2) i ys = us @ vs" using sh(2) by (simp add: t2_def)
  have ki: "table_index t k = i"
  proof -
    have "(k, d) \<in> set (map (\<lambda>a. (r_key (tb_rows t a), r_data (tb_rows t a))) (i # C i))" unfolding es by simp
    then show ?thesis using table_inv_bucket [OF inv i] act by (auto simp: bucket_ok_def bucket_def)
  qed
  have "table_abs ?t' (C(i := ys)) x = ((table_abs t C)(k := None)) x" for x
    by (cases "table_index t x = i") (simp_all add: ch(2) e sh(3) ki table_abs_map_of [of t] del: map_of_append, auto simp: ki)
  then show ?thesis using rel ch(1) by blast
qed

text \<open>The deleted row is a conflict row behind \<open>us\<close>.\<close>

lemma table_del_middle:
  assumes inv: "table_inv t C A" and k: "k = check_key_length k0" and act: "r_active (tb_rows t (table_index t k))"
  defines "i \<equiv> table_index t k"
  assumes sp: "i # C i = us @ p # a # vs" and ka: "r_key (tb_rows t a) = k" and ku: "\<forall>c\<in>set (us @ [p]). r_key (tb_rows t c) \<noteq> k"
  shows "\<exists>t'. table_del k0 t = Some (True, t') \<and> table_inv t' (C(i := tl (us @ p # vs))) A \<and>
     table_abs t' (C(i := tl (us @ p # vs))) = (table_abs t C)(k := None)"
proof -
  have i: "i < tb_size t" using inv by (simp add: table_inv_def i_def)
  note ok = table_inv_bucket [OF inv i]
  have acti: "r_active (tb_rows t i)" using act by (simp add: i_def)
  define ys where "ys = tl (us @ p # vs)"
  have ys: "i # ys = us @ p # vs" using sp by (cases us) (auto simp: ys_def)
  have Ci: "C i = tl (us @ [p]) @ a # vs" and ys2: "ys = tl (us @ [p]) @ vs" using sp by (cases us; simp add: ys_def)+
  have di: "distinct (us @ p # a # vs)" using bucket_ok_distinct [OF ok] unfolding sp .
  have lk: "links (tb_rows t) (us @ p # a # vs) None" using ok unfolding bucket_ok_def sp by blast
  define m1 where "m1 = (tb_rows t)(p := (tb_rows t p)\<lparr>r_next := r_next (tb_rows t a)\<rparr>)"
  define m2 where "m2 = m1(a := empty_row (r_data (m1 a)))"
  have lk2: "links m2 (i # ys) None" unfolding ys m2_def m1_def by (rule links_unlink [OF lk di])
  have eq: "r_key (m2 x) = r_key (tb_rows t x) \<and> r_data (m2 x) = r_data (tb_rows t x) \<and> r_active (m2 x) = r_active (tb_rows t x)"
    if "x \<noteq> a" for x using that by (simp add: m2_def m1_def)
  have all: "\<forall>x\<in>set (i # C i). r_active (tb_rows t x)" using ok acti by (auto simp: bucket_ok_def)
  have pin: "p \<in> set (i # C i)" "a \<in> set (C i)" unfolding sp unfolding Ci by auto
  let ?e = "\<lambda>m x. (r_key (m x), r_data (m x))"
  have nin: "\<forall>x\<in>set (us @ p # vs). x \<noteq> a" using di by auto
  have rel: "\<exists>t2. row_release a (t\<lparr>tb_rows := m1\<rparr>) = Some t2 \<and> table_inv (t2\<lparr>tb_row_num := tb_row_num t - 1\<rparr>) (C(i := ys)) A \<and>
     table_abs (t2\<lparr>tb_row_num := tb_row_num t - 1\<rparr>) (C(i := ys)) = (table_abs t C)(k := None)"
  proof (rule table_del_release [OF inv i acti pin(2) refl, where mr = m1 and us = "map (?e (tb_rows t)) (us @ [p])" and d = "r_data (tb_rows t a)"
        and vs = "map (?e (tb_rows t)) vs", folded m2_def])
    show "\<forall>x. x \<notin> set (i # C i) \<longrightarrow> m1 x = tb_rows t x" using pin by (auto simp: m1_def)
    show "set (C i) = insert a (set ys)" unfolding Ci ys2 by auto
    show "a \<notin> set ys" using di unfolding ys2 by (cases us) auto
    show "map (?e (tb_rows t)) (i # C i) = map (?e (tb_rows t)) (us @ [p]) @ (k, r_data (tb_rows t a)) # map (?e (tb_rows t)) vs"
      unfolding sp using ka by simp
    show "map (?e m2) (i # ys) = map (?e (tb_rows t)) (us @ [p]) @ map (?e (tb_rows t)) vs"
      unfolding ys using eq nin by auto
    show "links m2 (i # ys) None" by (rule lk2)
    show "\<forall>x\<in>set (i # ys). r_active (m2 x)" unfolding ys using all [unfolded sp] eq nin by auto
  qed
  have "del_find (tb_rows t) k None i = Some (Some a, last_of None (us @ [p]))"
    by (rule del_find_hit [where us = "us @ [p]" and vs = vs and xs = "C i"]) (use lk ku ka sp in auto)
  moreover have "a \<noteq> i" using di sp by (cases us) auto
  moreover have "r_next (tb_rows t i) = first_of (C i) None" "C i \<noteq> []" using ok by (simp_all add: bucket_ok_def Ci)
  then have "r_next (tb_rows t i) \<noteq> None" by (simp add: first_of_def split: list.splits)
  ultimately show ?thesis using rel i acti
    by (auto simp: table_del_def Let_def k [symmetric] i_def [symmetric] ys_def [symmetric] m1_def [symmetric])
qed

text \<open>The deleted row is the root: the first conflict row moves into it.\<close>

lemma table_del_root:
  assumes inv: "table_inv t C A" and k: "k = check_key_length k0" and act: "r_active (tb_rows t (table_index t k))"
  defines "i \<equiv> table_index t k"
  assumes sp: "C i = b # ys" and ki: "r_key (tb_rows t i) = k"
  shows "\<exists>t'. table_del k0 t = Some (True, t') \<and> table_inv t' (C(i := ys)) A \<and> table_abs t' (C(i := ys)) = (table_abs t C)(k := None)"
proof -
  have i: "i < tb_size t" using inv by (simp add: table_inv_def i_def)
  note ok = table_inv_bucket [OF inv i]
  have acti: "r_active (tb_rows t i)" using act by (simp add: i_def)
  have di: "distinct (i # b # ys)" using bucket_ok_distinct [OF ok] unfolding sp .
  have lk: "links (tb_rows t) (i # b # ys) None" using ok unfolding bucket_ok_def sp by blast
  let ?m = "tb_rows t"
  define m1 where "m1 = ?m(i := \<lparr>r_active = r_active (?m i), r_key = r_key (?m b), r_next = r_next (?m b), r_data = r_data (?m b)\<rparr>)"
  define m2 where "m2 = m1(b := empty_row (r_data (m1 b)))"
  have eq: "m2 x = ?m x" if "x \<in> set ys" for x using that di by (auto simp: m2_def m1_def)
  let ?e = "\<lambda>m x. (r_key (m x), r_data (m x))"
  have rel: "\<exists>t2. row_release b (t\<lparr>tb_rows := m1\<rparr>) = Some t2 \<and> table_inv (t2\<lparr>tb_row_num := tb_row_num t - 1\<rparr>) (C(i := ys)) A \<and>
     table_abs (t2\<lparr>tb_row_num := tb_row_num t - 1\<rparr>) (C(i := ys)) = (table_abs t C)(k := None)"
  proof (rule table_del_release [OF inv i acti _ refl, where mr = m1 and a = b and us = "[]" and d = "r_data (?m i)" and vs = "map (?e ?m) (b # ys)", folded m2_def])
    show "b \<in> set (C i)" "set (C i) = insert b (set ys)" "b \<notin> set ys" using sp di by auto
    show "\<forall>x. x \<notin> set (i # C i) \<longrightarrow> m1 x = ?m x" by (simp add: m1_def)
    show "map (?e ?m) (i # C i) = [] @ (k, r_data (?m i)) # map (?e ?m) (b # ys)" unfolding sp using ki by simp
    show "map (?e m2) (i # ys) = [] @ map (?e ?m) (b # ys)" using eq di by (auto simp: m2_def m1_def)
    have "links m2 ys None = links ?m ys None" by (rule links_cong) (rule eq)
    then show "links m2 (i # ys) None" using lk di by (auto simp: m2_def m1_def)
    have "\<forall>x\<in>set ys. r_active (?m x)" using ok by (simp add: bucket_ok_def sp)
    then show "\<forall>x\<in>set (i # ys). r_active (m2 x)" using eq di acti by (auto simp: m2_def m1_def)
  qed
  have m1: "?m(i := \<lparr>r_active = True, r_key = r_key (?m b), r_next = r_next (?m b), r_data = r_data (?m b)\<rparr>) = m1"
    using acti by (simp add: m1_def)
  have "del_find ?m k None i = Some (Some i, None)" using ki by (subst del_find.simps) simp
  moreover have "r_next (?m i) = Some b" using lk by simp
  ultimately show ?thesis using rel i acti
    by (auto simp: table_del_def Let_def k [symmetric] i_def [symmetric] m1)
qed

text \<open>The deleted row is a root row without conflict rows.\<close>

lemma table_del_single:
  assumes inv: "table_inv t C A" and k: "k = check_key_length k0" and act: "r_active (tb_rows t (table_index t k))"
  defines "i \<equiv> table_index t k"
  assumes sp: "C i = []" and ki: "r_key (tb_rows t i) = k"
  shows "\<exists>t'. table_del k0 t = Some (True, t') \<and> table_inv t' C A \<and> table_abs t' C = (table_abs t C)(k := None)"
proof -
  define t' where "t' = (row_clear i t)\<lparr>tb_row_num := tb_row_num t - 1\<rparr>"
  have i: "i < tb_size t" using inv by (simp add: table_inv_def i_def)
  have acti: "r_active (tb_rows t i)" using act by (simp add: i_def)
  have nx: "r_next (tb_rows t i) = None" using table_inv_bucket [OF inv i] by (simp add: bucket_ok_def sp)
  obtain B where B: "pool_sets (tb_pool t) A B" "(+) (tb_size t) ` B = (\<Union>j<tb_size t. set (C j))"
    using inv by (auto simp: table_inv_def)
  have id: "C(i := []) = C" using sp by (simp add: fun_upd_idem)
  have un: "(\<Union>j<tb_size t. set (C j)) = set [] \<union> (\<Union>j\<in>{..<tb_size t} - {i}. set (C j))" using sp i by auto
  have same: "tb_size t' = tb_size t" "tb_hash t' = tb_hash t" "tb_mask t' = tb_mask t" by (simp_all add: t'_def row_clear_def)
  have fr: "\<forall>j<tb_size t. j \<noteq> i \<longrightarrow> (\<forall>a\<in>set (j # C j). tb_rows t' a = tb_rows t a)"
    using table_inv_ge [OF inv] i by (force simp: t'_def row_clear_def)
  have ok: "bucket_ok (tb_rows t') (table_index t) i []" "pool_sets (tb_pool t') A B"
    using B(1) by (simp_all add: bucket_ok_def bucket_def t'_def row_clear_def empty_row_def)
  have dj: "\<forall>j<tb_size t. j \<noteq> i \<longrightarrow> set [] \<inter> set (C j) = {}" by simp
  have num: "tb_row_num t' + word_of_nat (length (bucket (tb_rows t) i (C i))) =
      tb_row_num t + word_of_nat (length (bucket (tb_rows t') i []))"
    using acti sp by (simp add: t'_def row_clear_def bucket_def empty_row_def)
  note ch = table_inv_change [where t = t and t' = t', OF inv i same fr ok B(2) [unfolded un] dj num, unfolded id]
  have e: "bucket_entries (tb_rows t') i [] = []"
    by (simp add: bucket_entries_def bucket_def t'_def row_clear_def empty_row_def)
  have o: "bucket_entries (tb_rows t) i (C i) = [(k, r_data (tb_rows t i))]"
    using acti sp ki by (simp add: bucket_entries_def bucket_def)
  have "table_abs t' C x = ((table_abs t C)(k := None)) x" for x
    using o by (cases "table_index t x = i") (auto simp: ch(2) e table_abs_map_of [of t] i_def [symmetric])
  then show ?thesis using ch(1) i acti nx ki
    by (auto simp: table_del_def Let_def k [symmetric] i_def [symmetric] t'_def fun_eq_iff)
qed

lemma table_del_miss:
  assumes inv: "table_inv t C A" and k: "k = check_key_length k0" and no: "table_abs t C k = None"
  shows "table_del k0 t = Some (False, t)"
proof -
  define i where "i = table_index t k"
  have i: "i < tb_size t" using inv by (simp add: table_inv_def i_def)
  show ?thesis
  proof (cases "r_active (tb_rows t i)")
    case True
    have ks: "\<forall>c\<in>set (i # C i). r_key (tb_rows t c) \<noteq> k" using no True by (auto simp: table_abs_None bucket_def i_def [symmetric])
    have "links (tb_rows t) (i # C i) None" using table_inv_bucket [OF inv i] by (simp add: bucket_ok_def)
    then have "del_find (tb_rows t) k None i = Some (None, Some (last (i # C i)))" using ks by (rule del_find_miss)
    then show ?thesis using True i ks by (simp add: table_del_def Let_def k [symmetric] i_def [symmetric])
  next
    case False
    then show ?thesis using i by (simp add: table_del_def Let_def k [symmetric] i_def [symmetric])
  qed
qed

subsection \<open>Iteration\<close>

definition table_order :: "table \<Rightarrow> (nat \<Rightarrow> addr list) \<Rightarrow> addr list" where
  "table_order t C = concat (map (\<lambda>i. bucket (tb_rows t) i (C i)) [0..<tb_size t])"

lemma nth_row_links: "links m xs None \<Longrightarrow> nth_row m n (first_of xs None) = (if n < length xs then Some (xs ! n) else None)"
proof (induction n arbitrary: xs)
  case 0
  then show ?case by (cases xs) auto
next
  case (Suc n)
  then show ?case by (cases xs) auto
qed

text \<open>The rows an iterator has still to visit.\<close>

definition iter_rest :: "table \<Rightarrow> (nat \<Rightarrow> addr list) \<Rightarrow> table_iterator \<Rightarrow> addr list" where
  "iter_rest t C it = (if absolute_index it < tb_size t
     then drop (collision_index it) (bucket (tb_rows t) (absolute_index it) (C (absolute_index it))) @
          concat (map (\<lambda>i. bucket (tb_rows t) i (C i)) [Suc (absolute_index it)..<tb_size t])
     else [])"

definition iter_ok :: "table \<Rightarrow> (nat \<Rightarrow> addr list) \<Rightarrow> table_iterator \<Rightarrow> bool" where
  "iter_ok t C it \<longleftrightarrow> collision_index it = 0 \<or> (absolute_index it < tb_size t \<and> C (absolute_index it) \<noteq> [])"

lemma iter_rest_skip:
  assumes "absolute_index it < tb_size t"
  shows "iter_rest t C it = drop (collision_index it) (bucket (tb_rows t) (absolute_index it) (C (absolute_index it))) @
     iter_rest t C (it\<lparr>collision_index := 0, absolute_index := absolute_index it + 1\<rparr>)"
  using assms by (cases "Suc (absolute_index it) < tb_size t") (simp_all add: iter_rest_def upt_conv_Cons)

lemma table_forward_bucket:
  assumes inv: "table_inv t C A" and ok: "iter_ok t C it" and j: "absolute_index it < tb_size t"
  defines "b \<equiv> bucket (tb_rows t) (absolute_index it) (C (absolute_index it))"
  shows "table_forward t it =
     (if collision_index it < length b
      then (if C (absolute_index it) = [] then it\<lparr>absolute_index := absolute_index it + 1\<rparr>
            else it\<lparr>collision_index := collision_index it + 1\<rparr>)\<lparr>current_row := tb_rows t (b ! collision_index it)\<rparr>
      else table_forward t (it\<lparr>collision_index := 0, absolute_index := absolute_index it + 1\<rparr>))"
proof -
  let ?j = "absolute_index it"
  note bo = table_inv_bucket [OF inv j, unfolded bucket_ok_def]
  have nx: "r_next (tb_rows t ?j) = first_of (C ?j) None" and lk: "links (tb_rows t) (?j # C ?j) None" using bo by auto
  have c0: "collision_index it = 0" if "C ?j = []" using ok that by (simp add: iter_ok_def)
  show ?thesis
  proof (cases "C ?j")
    case Nil
    have "it\<lparr>collision_index := 0\<rparr> = it" using c0 [OF Nil] by (cases it) simp
    then have "table_forward t (it\<lparr>collision_index := 0, absolute_index := Suc ?j\<rparr>) = table_forward t (it\<lparr>absolute_index := Suc ?j\<rparr>)"
      by (rule arg_cong)
    then show ?thesis using Nil j nx c0 by (subst table_forward.simps) (simp add: get_by_index_def b_def bucket_def)
  next
    case (Cons x xs)
    then have act: "r_active (tb_rows t ?j)" using bo by auto
    have "nth_row (tb_rows t) (collision_index it) (Some ?j) =
        (if collision_index it < length b then Some (b ! collision_index it) else None)"
      using nth_row_links [OF lk, of "collision_index it"] act by (simp add: b_def bucket_def)
    then show ?thesis using j nx Cons act by (subst table_forward.simps) (simp add: get_by_index_def)
  qed
qed

lemma table_forward_spec:
  assumes inv: "table_inv t C A" and "iter_ok t C it"
  shows "iter_ok t C (table_forward t it) \<and> iter_rest t C (table_forward t it) = tl (iter_rest t C it) \<and>
     current_row (table_forward t it) =
       (case iter_rest t C it of [] \<Rightarrow> empty_row (r_data (current_row it)) | a # _ \<Rightarrow> tb_rows t a)"
  using assms(2)
proof (induction "tb_size t - absolute_index it" arbitrary: it rule: less_induct)
  case less
  let ?j = "absolute_index it" and ?c = "collision_index it" and ?b = "bucket (tb_rows t) (absolute_index it) (C (absolute_index it))"
  let ?skip = "it\<lparr>collision_index := 0, absolute_index := ?j + 1\<rparr>"
  have skip: "iter_ok t C ?skip" by (simp add: iter_ok_def)
  show ?case
  proof (cases "?j < tb_size t")
    case j: True
    note fw = table_forward_bucket [OF inv less.prems j] and rs = iter_rest_skip [OF j, of C]
    show ?thesis
    proof (cases "?c < length ?b")
      case True
      then have r: "iter_rest t C it = ?b ! ?c # drop (Suc ?c) ?b @ iter_rest t C ?skip" using rs by (simp add: Cons_nth_drop_Suc)
      show ?thesis
      proof (cases "C ?j = []")
        case Nil: True
        then have "?c = 0" "drop (Suc ?c) ?b = []" using less.prems by (simp_all add: iter_ok_def bucket_def)
        then show ?thesis using fw True r Nil by (simp add: iter_ok_def iter_rest_def)
      next
        case False
        then show ?thesis using fw True r j iter_rest_skip [of "it\<lparr>collision_index := ?c + 1\<rparr>" t C]
          by (simp add: iter_ok_def iter_rest_def)
      qed
    next
      case False
      have "current_row ?skip = current_row it" by simp
      then show ?thesis using fw False rs less.hyps [OF _ skip] j by (simp cong: list.case_cong)
    qed
  next
    case False
    then show ?thesis using less.prems by (subst (1 2 3) table_forward.simps) (simp add: iter_ok_def iter_rest_def)
  qed
qed

lemma table_forward_iterate:
  assumes "table_inv t C A" and "iter_ok t C it"
  shows "iter_ok t C ((table_forward t ^^ n) it) \<and> iter_rest t C ((table_forward t ^^ n) it) = drop n (iter_rest t C it)"
proof (induction n)
  case (Suc n)
  then show ?case using table_forward_spec [OF assms(1), of "(table_forward t ^^ n) it"] by (simp add: drop_Suc drop_tl)
qed (simp add: assms(2))

lemma iter_rest_rewind: "iter_rest t C (table_rewind n) = table_order t C"
  by (cases "0 < tb_size t") (simp_all add: iter_rest_def table_rewind_def table_order_def upt_conv_Cons)

text \<open>The keys of all rows in use are distinct, and are the keys of the map.\<close>

lemma concat_keys:
  fixes f :: "nat \<Rightarrow> ('k \<times> 'v) list"
  assumes "\<And>i. i < n \<Longrightarrow> distinct (map fst (f i))" and "\<And>i x. i < n \<Longrightarrow> x \<in> set (f i) \<Longrightarrow> h (fst x) = i"
  shows "distinct (map fst (concat (map f [0..<n])))"
    and "h k < n \<Longrightarrow> map_of (concat (map f [0..<n])) k = map_of (f (h k)) k"
proof -
  have "distinct (map fst (concat (map f [0..<n]))) \<and> (h k < n \<longrightarrow> map_of (concat (map f [0..<n])) k = map_of (f (h k)) k) \<and>
      (\<not> h k < n \<longrightarrow> map_of (concat (map f [0..<n])) k = None)"
    using assms
  proof (induction n)
    case (Suc n)
    have none: "map_of (f n) k = None" if "h k \<noteq> n" using Suc.prems(2) [of n] that by (force simp: map_of_eq_None_iff)
    have "h y < n" if y: "y \<in> fst ` set (concat (map f [0..<n]))" for y
    proof -
      obtain i x where "i < n" "x \<in> set (f i)" "y = fst x" using y by auto
      then show ?thesis using Suc.prems(2) [of i x] by simp
    qed
    moreover have "h y = n" if "y \<in> fst ` set (f n)" for y using Suc.prems(2) [of n] that by auto
    ultimately have "fst ` set (concat (map f [0..<n])) \<inter> fst ` set (f n) = {}" by (metis disjoint_iff less_irrefl)
    then have "distinct (map fst (concat (map f [0..<Suc n])))" using Suc by auto
    then show ?case using Suc none by (auto simp: map_add_def less_Suc_eq split: option.splits)
  qed simp
  then show "distinct (map fst (concat (map f [0..<n])))"
    and "h k < n \<Longrightarrow> map_of (concat (map f [0..<n])) k = map_of (f (h k)) k" by auto
qed

lemma table_order_keys:
  assumes inv: "table_inv t C A"
  shows "distinct (map (\<lambda>a. r_key (tb_rows t a)) (table_order t C))"
    "table_abs t C k = map_of (map (\<lambda>a. (r_key (tb_rows t a), r_data (tb_rows t a))) (table_order t C)) k"
proof -
  let ?f = "\<lambda>i. bucket_entries (tb_rows t) i (C i)"
  have d: "distinct (map fst (?f i))" "\<And>x. x \<in> set (?f i) \<Longrightarrow> table_index t (fst x) = i" if "i < tb_size t" for i
    using table_inv_bucket [OF inv that] by (auto simp: bucket_entries_def bucket_ok_def comp_def)
  have e: "map (\<lambda>a. (r_key (tb_rows t a), r_data (tb_rows t a))) (table_order t C) = concat (map ?f [0..<tb_size t])"
    by (simp add: table_order_def bucket_entries_def map_concat comp_def)
  have "map (\<lambda>a. r_key (tb_rows t a)) (table_order t C) = map fst (concat (map ?f [0..<tb_size t]))"
    unfolding e [symmetric] by simp
  then show "distinct (map (\<lambda>a. r_key (tb_rows t a)) (table_order t C))" using concat_keys(1) [where n = "tb_size t" and f = ?f and h = "table_index t"] d by simp
  have "table_index t k < tb_size t" using inv by (simp add: table_inv_def)
  then show "table_abs t C k = map_of (map (\<lambda>a. (r_key (tb_rows t a), r_data (tb_rows t a))) (table_order t C)) k"
    unfolding e using concat_keys(2) [where n = "tb_size t" and f = ?f and h = "table_index t" and k = k] d by (simp add: table_abs_map_of)
qed

subsection \<open>Column layout\<close>

text \<open>The columns lie one after the other from offset \<open>n\<close> to \<open>e\<close>.\<close>

fun layout :: "nat \<Rightarrow> column list \<Rightarrow> nat \<Rightarrow> bool" where
  "layout n [] e \<longleftrightarrow> n = e"
| "layout n (c # cs) e \<longleftrightarrow> c_index c = n \<and> c_size c < 2 ^ 32 \<and>
     (if c_type c = TYPE_STRING then 4 \<le> c_size c else c_size c = 8) \<and> layout (n + c_size c) cs e"

lemma layout_append: "layout n (cs @ ds) e \<longleftrightarrow> (\<exists>k. layout n cs k \<and> layout k ds e)"
  by (induction cs arbitrary: n) auto

lemma layout_le: "layout n cs e \<Longrightarrow> n \<le> e"
proof (induction cs arbitrary: n)
  case (Cons c cs)
  then have "n + c_size c \<le> e" by simp
  then show ?case by simp
qed simp

lemma layout_column:
  assumes "layout n cs e" and "i < length cs"
  shows "n \<le> c_index (cs ! i) \<and> c_index (cs ! i) + c_size (cs ! i) \<le> e \<and> c_size (cs ! i) < 2 ^ 32 \<and>
    (if c_type (cs ! i) = TYPE_STRING then 4 \<le> c_size (cs ! i) else c_size (cs ! i) = 8)"
  using assms
proof (induction cs arbitrary: n i)
  case (Cons c cs)
  then show ?case using layout_le [of "n + c_size c" cs e] by (cases i) (auto split: if_splits dest: Cons.IH)
qed simp

lemma layout_disjoint:
  assumes "layout n cs e" and "i < j" and "j < length cs"
  shows "c_index (cs ! i) + c_size (cs ! i) \<le> c_index (cs ! j)"
proof -
  have s: "cs = take i cs @ cs ! i # drop (Suc i) cs" using assms by (simp add: id_take_nth_drop)
  obtain k where "layout k (cs ! i # drop (Suc i) cs) e" using assms(1) by (subst (asm) s) (auto simp: layout_append)
  then have "layout (c_index (cs ! i) + c_size (cs ! i)) (drop (Suc i) cs) e" by simp
  from layout_column [OF this, of "j - Suc i"] show ?thesis using assms by simp
qed

lemma add_column_layout:
  assumes "layout 0 (tb_column_list t) (tb_item_size t)" and "n + 4 < 2 ^ 32" and "add_column name ty n t = (r, t')"
  shows "layout 0 (tb_column_list t') (tb_item_size t')"
  using assms by (auto simp: add_column_def column_new_def layout_append Let_def split: option.splits column_type.splits)

text \<open>The bytes a stored value is expected to come back as.\<close>

definition stored_value :: "column \<Rightarrow> bytes \<Rightarrow> bytes" where
  "stored_value col v = take (if c_type col = TYPE_STRING then c_size col - 4 else 8) v"

lemma string_limit_eq: "4 \<le> c_size col \<Longrightarrow> c_size col < 2 ^ 32 \<Longrightarrow> string_limit col = c_size col - 4"
  by (simp add: string_limit_def nat_mod_distrib nat_diff_distrib')

lemma set_get_value:
  assumes col: "c_index col + c_size col \<le> length row" "c_size col < 2 ^ 32"
      "if c_type col = TYPE_STRING then 4 \<le> c_size col else c_size col = 8"
    and v: "c_type col \<noteq> TYPE_STRING \<Longrightarrow> 8 \<le> length v"
  shows "\<exists>row'. set_value col (Some v) row = Some row' \<and> length row' = length row \<and> get_value col row' = Some (stored_value col v) \<and>
     (\<forall>q n. q + n \<le> c_index col \<or> c_index col + c_size col \<le> q \<longrightarrow> mem_read q n row' = mem_read q n row)"
proof (cases "c_type col = TYPE_STRING")
  case True
  let ?p = "c_index col" and ?s = "stored_value col v"
  have s: "?s = take (string_limit col) v" "length ?s + 4 \<le> c_size col"
    using col True by (auto simp: stored_value_def string_limit_eq)
  obtain r1 where r1: "mem_write ?p (le_bytes 4 (length ?s)) row = Some r1"
    using mem_write_Some [of ?p "le_bytes 4 (length ?s)" row] col s(2) by auto
  note l1 = mem_write_length [OF r1]
  obtain r2 where r2: "mem_write (?p + 4) ?s r1 = Some r2" using mem_write_Some [of "?p + 4" ?s r1] col s(2) l1 by auto
  have "mem_read ?p 4 r2 = Some (le_bytes 4 (length ?s))"
    using mem_read_disjoint [OF r2, of ?p 4] mem_read_same [OF r1] by simp
  moreover have "length ?s mod 256 ^ 4 = length ?s" using s(2) col(2) by simp
  ultimately have g: "get_value col r2 = Some ?s" using True mem_read_same [OF r2] by (simp add: get_value_def le_value_bytes)
  have "mem_read q n r2 = mem_read q n row" if "q + n \<le> ?p \<or> ?p + c_size col \<le> q" for q n
    using mem_read_disjoint [OF r2, of q n] mem_read_disjoint [OF r1, of q n] that s(2) by auto
  then show ?thesis using r1 r2 g l1 mem_write_length [OF r2] True
    by (auto simp: set_value_def s(1) [symmetric])
next
  case False
  have m: "mem_read 0 8 v = Some (take 8 v)" using v [OF False] by (simp add: mem_read_def)
  obtain r where r: "mem_write (c_index col) (take 8 v) row = Some r"
    using mem_write_Some [of "c_index col" "take 8 v" row] col v [OF False] False by auto
  have "mem_read q n r = mem_read q n row" if "q + n \<le> c_index col \<or> c_index col + c_size col \<le> q" for q n
    using mem_read_disjoint [OF r, of q n] that col(3) False by auto
  then show ?thesis using r m mem_write_length [OF r] mem_read_same [OF r] v [OF False] False
    by (cases "c_type col") (auto simp: set_value_def get_value_def stored_value_def)
qed

subsection \<open>Construction\<close>

lemma round_rows_power: "\<exists>j\<ge>i. round_rows n i = 2 ^ j"
proof (induction n i rule: round_rows.induct)
  case (1 n i)
  then show ?case by (subst round_rows.simps) (auto intro: Suc_leD)
qed

lemma round_rows_ge: "n \<le> round_rows n i"
proof (induction n i rule: round_rows.induct)
  case (1 n i)
  then show ?case by (subst round_rows.simps) auto
qed

lemma round_rows_tight: "round_rows n i \<le> 2 ^ i \<or> round_rows n i < 2 * n"
proof (induction n i rule: round_rows.induct)
  case (1 n i)
  then show ?case by (subst (1 2) round_rows.simps) auto
qed

lemma table_rows_size_power:
  obtains j where "6 \<le> j" "j \<le> 31" "table_rows_size n = 2 ^ j"
proof (cases "n \<ge> 2147483648")
  case True
  then show ?thesis using that [of 31] by (simp add: table_rows_size_def)
next
  case False
  obtain j where j: "6 \<le> j" "round_rows n 6 = 2 ^ j" using round_rows_power by blast
  have "(2 :: nat) ^ j < 2 ^ 32" using round_rows_tight [of n 6] False unfolding j(2) by auto
  then have "j < 32" using power_less_imp_less_exp [of "2 :: nat" j 32] by simp
  then show ?thesis using that [of j] j False by (simp add: table_rows_size_def)
qed

definition table_ready :: "table \<Rightarrow> bool" where
  "table_ready t \<longleftrightarrow> (\<exists>n. tb_size t = table_rows_size n) \<and> tb_mask t = word_of_nat (tb_size t - 1) \<and> tb_row_num t = 0 \<and>
     \<not> tb_created t \<and> tb_memory_size t = 0 \<and> tb_item_size t < 2 ^ 31"

lemma unat_u64: "n < 2 ^ 64 \<Longrightarrow> unat (word_of_nat n :: u64) = n"
  by (simp add: unat_of_nat)

lemma mask_index_less:
  assumes "j \<le> 31"
  shows "unat ((h :: u64) AND word_of_nat (2 ^ j - 1)) < 2 ^ j"
proof -
  have "(2 :: nat) ^ j \<le> 2 ^ 31" using assms by (intro power_increasing) auto
  then have "unat (word_of_nat (2 ^ j - 1) :: u64) = 2 ^ j - 1" by (intro unat_u64) auto
  moreover have "h AND word_of_nat (2 ^ j - 1) \<le> word_of_nat (2 ^ j - 1)" by (rule word_and_le1)
  ultimately have "unat (h AND word_of_nat (2 ^ j - 1)) \<le> 2 ^ j - 1" by (simp add: word_le_nat_alt)
  then show ?thesis by (rule le_less_trans) simp
qed

text \<open>\<^verbatim>\<open>create\<close> gives the pool exactly the memory of \<^term>\<open>tb_size t\<close> conflict rows.\<close>

lemma table_create_eq:
  assumes r: "table_ready t"
  defines "rest \<equiv> sizeof_struct_impl + tb_size t * (sizeof_struct_slice + table_row_memory t)"
  shows "64 \<le> tb_size t" "\<exists>N. table_create True t =
     (True, t\<lparr>tb_memory_size := N, tb_rows := (\<lambda>a. if a < tb_size t then empty_row (r_data (tb_rows t a)) else tb_rows t a),
              tb_pool := pool_new_in (table_row_memory t) rest, tb_created := True\<rparr>)" "\<And>h :: u64. unat (h AND tb_mask t) < tb_size t"
proof -
  obtain n where n: "tb_size t = table_rows_size n" using r by (auto simp: table_ready_def)
  obtain j where j: "6 \<le> j" "j \<le> 31" "tb_size t = 2 ^ j" using table_rows_size_power n by metis
  have s: "64 \<le> tb_size t" "tb_size t \<le> 2 ^ 31"
    using j power_increasing [of 6 j "2 :: nat"] power_increasing [of j 31 "2 :: nat"] by simp_all
  let ?w = "table_row_memory t"
  have w: "?w < 2 ^ 31 + 88" using r by (simp add: table_ready_def table_row_memory_def sizeof_TableRow_def)
  have "tb_size t * (24 + ?w) \<le> 2 ^ 31 * (24 + (2 ^ 31 + 88))" by (rule mult_le_mono) (use s w in auto)
  then have lt: "rest < 2 ^ 64" by (simp add: rest_def sizeof_struct_impl_def sizeof_struct_slice_def)
  define N where "N = fst (get_memory_size t)"
  have "N = rest + tb_size t * 8 + ?w * tb_size t"
    using r by (simp add: N_def get_memory_size_def table_ready_def Let_def rest_def algebra_simps)
  then have "nat ((int N - int (tb_size t) * 8 - int ?w * int (tb_size t)) mod 2 ^ 64) = rest"
    using lt by (simp add: nat_mod_distrib)
  moreover have "get_memory_size t = (N, t\<lparr>tb_memory_size := N\<rparr>)" using r by (simp add: N_def get_memory_size_def table_ready_def Let_def)
  ultimately show "\<exists>N. table_create True t =
     (True, t\<lparr>tb_memory_size := N, tb_rows := (\<lambda>a. if a < tb_size t then empty_row (r_data (tb_rows t a)) else tb_rows t a),
              tb_pool := pool_new_in ?w rest, tb_created := True\<rparr>)"
    using r by (auto simp: table_create_def table_ready_def)
  show "64 \<le> tb_size t" by (rule s)
  show "unat (h AND tb_mask t) < tb_size t" for h :: u64
    using mask_index_less [OF j(2)] r by (simp add: table_ready_def j(3))
qed

lemma table_create_inv:
  assumes r: "table_ready t" and c: "table_create True t = (b, t')"
  shows "b \<and> tb_created t' \<and> (\<exists>A. table_inv t' (\<lambda>_. []) A \<and> card A = tb_size t) \<and> (\<forall>k. table_abs t' (\<lambda>_. []) k = None)"
proof -
  let ?w = "table_row_memory t"
  note ce = table_create_eq [OF r]
  define rest where "rest = sizeof_struct_impl + tb_size t * (sizeof_struct_slice + ?w)"
  obtain N where t': "b" "t' = t\<lparr>tb_memory_size := N,
      tb_rows := (\<lambda>a. if a < tb_size t then empty_row (r_data (tb_rows t a)) else tb_rows t a),
      tb_pool := pool_new_in ?w rest, tb_created := True\<rparr>"
    using c ce(2) by (auto simp: rest_def)
  define fs where "fs = rev (map (\<lambda>i. i * (sizeof_struct_slice + ?w)) [0..<tb_size t])"
  define A where "A = (\<lambda>a. a + sizeof_struct_slice) ` set fs"
  have "pool_inv (pool_new_in ?w rest) fs []" unfolding fs_def
    by (rule pool_new_in_inv) (use ce(1) in \<open>auto simp: rest_def table_row_memory_def sizeof_TableRow_def\<close>)
  then have pool: "pool_sets (tb_pool t') A {}"
    unfolding pool_sets_def by (intro exI [of _ fs] exI [of _ "[]"]) (use ce(1) in \<open>simp add: A_def fs_def t'\<close>)
  have "inj_on (\<lambda>i. i * (sizeof_struct_slice + ?w)) {..<tb_size t}" by (simp add: inj_on_def sizeof_struct_slice_def)
  then have card: "card A = tb_size t" unfolding A_def by (subst card_image) (auto simp: fs_def card_image atLeast0LessThan)
  have idx: "table_index t' k < tb_size t'" for k using ce(3) by (simp add: table_index_def t')
  have b: "bucket (tb_rows t') i [] = []" if "i < tb_size t" for i using that by (simp add: bucket_def t' empty_row_def)
  have "bucket_ok (tb_rows t') h i []" if "i < tb_size t" for h i
    using that b [OF that] by (simp add: bucket_ok_def) (simp add: t' empty_row_def)
  moreover have "tb_row_num t' = 0" "tb_size t' = tb_size t" "tb_created t'" using r by (simp_all add: t' table_ready_def)
  ultimately have "table_inv t' (\<lambda>_. []) A" using idx b pool by (auto simp: table_inv_def)
  moreover have "table_abs t' (\<lambda>_. []) k = None" for k using idx b by (simp add: table_abs_None t'(2))
  ultimately show ?thesis using card t'(1) \<open>tb_created t'\<close> by blast
qed

subsection \<open>Properties\<close>

text \<open>
  \<^verbatim>\<open>Table::create\<close> after \<^verbatim>\<open>make\<close> and \<^verbatim>\<open>add_column\<close> succeeds when the shared memory does, and leaves an
  empty, well-formed table whose pool holds one conflict row per root row.\<close>

theorem table_create_correct:
  assumes "table_ready t"
  shows "\<exists>t' A. table_create True t = (True, t') \<and> table_inv t' (\<lambda>_. []) A \<and> card A = tb_size t \<and> (\<forall>k. table_abs t' (\<lambda>_. []) k = None)"
  using table_create_inv [OF assms, of "fst (table_create True t)" "snd (table_create True t)"] by (metis prod.collapse)

definition sample_table :: table where
  "sample_table = snd (table_create True (snd (add_column ''v'' 1 0 (table_make (pool_new 1 8) (\<lambda>_. empty_row (replicate 8 0)) 100))))"

lemma sample_ready: "table_ready (snd (add_column ''v'' 1 0 (table_make (pool_new 1 8) (\<lambda>_. empty_row (replicate 8 0)) 100)))"
  by (auto simp: table_ready_def add_column_def column_type_of_def column_new_def table_make_def Let_def)

lemma sample_table_inv: "\<exists>A. table_inv sample_table (\<lambda>_. []) A" and sample_table_abs: "table_abs sample_table (\<lambda>_. []) k = None"
  using table_create_inv [OF sample_ready surjective_pairing] by (auto simp: sample_table_def)

lemma sample_row: "\<exists>t A. table_inv t (\<lambda>_. []) A \<and> table_abs t (\<lambda>_. []) [97] \<noteq> None"
proof -
  obtain A where A: "table_inv sample_table (\<lambda>_. []) A" using sample_table_inv by blast
  have k: "[97] = check_key_length [97]" by (simp add: check_key_length_def OSW_TABLE_KEY_SIZE_def)
  have na: "\<not> r_active (tb_rows sample_table (table_index sample_table [97]))"
    using table_row_of_unique [OF A, of "table_index sample_table [97]" "table_index sample_table [97]"] A
      sample_table_abs by (auto simp: table_row_of_None [symmetric] table_inv_def bucket_def)
  show ?thesis using table_set_root(2,3) [OF A k na] by force
qed

theorem table_create_correct_witness:
  "\<exists>t t' A. tb_size t = 128 \<and> table_create True t = (True, t') \<and> table_inv t' (\<lambda>_. []) A \<and> card A = 128"
proof -
  let ?t = "snd (add_column ''v'' 1 0 (table_make (pool_new 1 8) (\<lambda>_. empty_row (replicate 8 0)) 100))"
  have "tb_size ?t = 128"
    by (simp add: add_column_def column_type_of_def table_make_def Let_def table_rows_size_def round_rows.simps [of 100 6]
        round_rows.simps [of 100 7])
  then show ?thesis using table_create_correct [OF sample_ready] by metis
qed

text \<open>
  C29. \<^verbatim>\<open>Table::get\<close> ends on every well-formed table and returns the row of the key, cut to 63 bytes, exactly
  when the table has it; \<^verbatim>\<open>exists\<close> agrees.\<close>

theorem table_get_correct:
  assumes "table_inv t C A" and "k = check_key_length k0"
  shows "\<exists>r. table_get k0 t = Some r \<and> table_abs t C k = map_option (\<lambda>a. r_data (tb_rows t a)) r \<and>
     (\<forall>a. r = Some a \<longrightarrow> r_key (tb_rows t a) = k \<and> r_active (tb_rows t a)) \<and> table_exists k0 t = Some (k \<in> dom (table_abs t C))"
proof -
  let ?i = "table_index t k"
  have i: "?i < tb_size t" using assms(1) by (simp add: table_inv_def)
  have "r_key (tb_rows t a) = k \<and> r_active (tb_rows t a)" if "table_row_of t C k = Some a" for a
    using that table_inv_bucket [OF assms(1) i]
    by (fastforce simp: table_row_of_def Let_def bucket_ok_def bucket_def find_Some_iff nth_Cons' split: if_splits)
  then show ?thesis using table_get_spec [OF assms(1), of k0] assms(2)
    by (auto simp: table_exists_def table_abs_def dom_def)
qed

theorem table_get_correct_witness:
  "\<exists>t r. table_get [97] t = Some (Some r) \<and> table_exists [97] t = Some True"
proof -
  obtain t A where t: "table_inv t (\<lambda>_. []) A" "table_abs t (\<lambda>_. []) [97] \<noteq> None" using sample_row by blast
  have "[97] = check_key_length [97]" by (simp add: check_key_length_def OSW_TABLE_KEY_SIZE_def)
  from table_get_correct [OF t(1) this] show ?thesis using t(2) by (force simp: dom_def)
qed

text \<open>
  C4. \<^verbatim>\<open>Table::set\<close> refines the insertion into a map. It returns the row of the key, flags it as new exactly
  when the key was absent, leaves every other key as it was and counts the new row; it fails only when the
  key is absent and every conflict row is in use, and then the table is as before.\<close>

theorem table_set_correct:
  assumes inv: "table_inv t C A" and k: "k = check_key_length k0"
  shows "\<exists>r t' C'. table_set k0 t = Some (r, t') \<and> table_inv t' C' A \<and> (case r of
      None \<Rightarrow> t' = t \<and> table_abs t C k = None \<and> (+) (tb_size t) ` A = (\<Union>i<tb_size t. set (C i))
    | Some (a, fl) \<Rightarrow> table_row_of t' C' k = Some a \<and> (NEW_ROW \<in> fl \<longleftrightarrow> table_abs t C k = None) \<and>
        table_abs t' C' = (table_abs t C)(k \<mapsto> r_data (tb_rows t a)) \<and>
        tb_row_num t' = tb_row_num t + (if NEW_ROW \<in> fl then 1 else 0))"
proof (cases "table_row_of t C k")
  case (Some a)
  then have "table_abs t C k = Some (r_data (tb_rows t a))" by (simp add: table_abs_def)
  then have "(table_abs t C)(k \<mapsto> r_data (tb_rows t a)) = table_abs t C" by (simp add: fun_upd_idem)
  then show ?thesis using table_set_found [OF inv k Some] inv Some
    by (intro exI [where x = "Some (a, if a < tb_size t then {} else {CONFLICT})"] exI [where x = t] exI [where x = C])
       (auto simp: table_row_of_None [symmetric])
next
  case None
  then have new: "table_abs t C k = None" by (simp add: table_abs_def)
  obtain B where B: "pool_sets (tb_pool t) A B" "(+) (tb_size t) ` B = (\<Union>j<tb_size t. set (C j))"
    using inv by (auto simp: table_inv_def)
  consider "\<not> r_active (tb_rows t (table_index t k))" | "r_active (tb_rows t (table_index t k))" "B \<noteq> A"
    | "r_active (tb_rows t (table_index t k))" "B = A" by blast
  then show ?thesis
  proof cases
    case 1
    then show ?thesis using table_set_root [OF inv k 1]
      by (intro exI [where x = "Some (table_index t k, {NEW_ROW})"] exI [where x = "init_row (table_index t k) k t"]
          exI [where x = C]) (auto simp: init_row_def)
  next
    case 2
    show ?thesis using table_set_chain [OF inv k 2(1) new B 2(2)] new by fastforce
  next
    case 3
    have "table_set k0 t = Some (None, t)" by (rule table_set_full [OF inv k 3(1) new B(1) [unfolded 3(2)]])
    then show ?thesis using inv new B(2) 3(2) by fastforce
  qed
qed

theorem table_set_correct_witness:
  "\<exists>r t'. table_set [97] sample_table = Some (r, t') \<and> (case r of None \<Rightarrow> t' = sample_table | Some (a, fl) \<Rightarrow> NEW_ROW \<in> fl)"
proof -
  obtain A where A: "table_inv sample_table (\<lambda>_. []) A" using sample_table_inv by blast
  have k: "[97] = check_key_length [97]" by (simp add: check_key_length_def OSW_TABLE_KEY_SIZE_def)
  from table_set_correct [OF A k] show ?thesis using sample_table_abs by (fastforce split: option.splits)
qed

text \<open>
  C7. \<^verbatim>\<open>Table::del\<close> refines the deletion from a map: it ends, returns whether the key was there, removes it and
  only it (also when the key is in the root row of a chain, or inside the chain), and gives the row back.\<close>

theorem table_del_correct:
  assumes inv: "table_inv t C A" and k: "k = check_key_length k0"
  shows "\<exists>t' C'. table_del k0 t = Some (k \<in> dom (table_abs t C), t') \<and> table_inv t' C' A \<and> table_abs t' C' = (table_abs t C)(k := None)"
proof (cases "table_row_of t C k")
  case None
  then have "table_abs t C k = None" by (simp add: table_abs_def)
  then show ?thesis using table_del_miss [OF inv k] inv by (auto simp: dom_def fun_upd_None_idle)
next
  case (Some a)
  let ?i = "table_index t k"
  have act: "r_active (tb_rows t ?i)" using Some by (auto simp: table_row_of_def bucket_def Let_def split: if_splits)
  have dm: "(k \<in> dom (table_abs t C)) = True" using Some by (simp add: table_abs_def dom_def)
  have f: "find (\<lambda>a. r_key (tb_rows t a) = k) (?i # C ?i) = Some a" using Some act by (simp add: table_row_of_def bucket_def Let_def)
  from find_split [OF this] obtain us vs where sp: "?i # C ?i = us @ a # vs" and ka: "r_key (tb_rows t a) = k"
    and ku: "\<forall>c\<in>set us. r_key (tb_rows t c) \<noteq> k" by blast
  show ?thesis
  proof (cases us rule: rev_cases)
    case Nil
    then have ki: "r_key (tb_rows t ?i) = k" using sp ka by simp
    show ?thesis unfolding dm using table_del_single [OF inv k act _ ki] table_del_root [OF inv k act _ ki] by (cases "C ?i") blast+
  next
    case (snoc us' p)
    then have "?i # C ?i = us' @ p # a # vs" "\<forall>c\<in>set (us' @ [p]). r_key (tb_rows t c) \<noteq> k" using sp ku by auto
    from table_del_middle [OF inv k act this(1) ka this(2)] show ?thesis unfolding dm by blast
  qed
qed

theorem table_del_correct_witness: "\<exists>t t'. table_del [97] t = Some (True, t')"
proof -
  obtain t A where t: "table_inv t (\<lambda>_. []) A" "table_abs t (\<lambda>_. []) [97] \<noteq> None" using sample_row by blast
  have "[97] = check_key_length [97]" by (simp add: check_key_length_def OSW_TABLE_KEY_SIZE_def)
  from table_del_correct [OF t(1) this] show ?thesis using t(2) by (auto simp: dom_def)
qed

text \<open>
  C30. Iterating a table with \<^verbatim>\<open>rewind\<close> and \<^verbatim>\<open>forward\<close> copies every row in use into \<^verbatim>\<open>current\<close> exactly once, root rows
  and conflict rows, as many as \<^verbatim>\<open>count\<close> says (modulo its width); every further step leaves \<^verbatim>\<open>current\<close> inactive with
  an empty key.\<close>

theorem table_forward_visits:
  assumes inv: "table_inv t C A"
  shows "\<exists>rs. distinct (map r_key rs) \<and> tb_row_num t = word_of_nat (length rs) \<and>
     (\<forall>k. table_abs t C k = map_of (map (\<lambda>r. (r_key r, r_data r)) rs) k) \<and>
     (\<forall>n. let cur = current_row ((table_forward t ^^ Suc n) (table_rewind w)) in
        if n < length rs then cur = rs ! n else \<not> r_active cur \<and> r_key cur = [])"
proof -
  define rs where "rs = map (tb_rows t) (table_order t C)"
  have ok: "iter_ok t C (table_rewind w)" by (simp add: iter_ok_def table_rewind_def)
  have cur: "let cur = current_row ((table_forward t ^^ Suc n) (table_rewind w)) in
      if n < length rs then cur = rs ! n else \<not> r_active cur \<and> r_key cur = []" for n
  proof (cases "n < length (table_order t C)")
    case True
    then have "drop n (table_order t C) = table_order t C ! n # drop (Suc n) (table_order t C)" by (simp add: Cons_nth_drop_Suc)
    then show ?thesis using True table_forward_iterate [OF inv ok, of n]
        table_forward_spec [OF inv, of "(table_forward t ^^ n) (table_rewind w)"] by (simp add: iter_rest_rewind rs_def)
  next
    case False
    then show ?thesis using table_forward_iterate [OF inv ok, of n]
        table_forward_spec [OF inv, of "(table_forward t ^^ n) (table_rewind w)"]
      by (simp add: iter_rest_rewind rs_def empty_row_def)
  qed
  have "tb_row_num t = word_of_nat (length rs)"
    using inv by (simp add: table_inv_def rs_def table_order_def length_concat sum_list_sum_nth atLeast0LessThan)
  moreover have "distinct (map r_key rs)" "\<And>k. table_abs t C k = map_of (map (\<lambda>r. (r_key r, r_data r)) rs) k"
    using table_order_keys [OF inv] by (simp_all add: rs_def comp_def)
  ultimately show ?thesis using cur by blast
qed

theorem table_forward_visits_witness:
  "\<exists>t rs. rs \<noteq> [] \<and> (\<forall>n<length rs. current_row ((table_forward t ^^ Suc n) (table_rewind 96)) = rs ! n)"
proof -
  obtain t A where t: "table_inv t (\<lambda>_. []) A" "table_abs t (\<lambda>_. []) [97] \<noteq> None" using sample_row by blast
  from table_forward_visits [OF t(1), of 96] obtain rs where rs: "table_abs t (\<lambda>_. []) [97] = map_of (map (\<lambda>r. (r_key r, r_data r)) rs) [97]"
    "\<forall>n<length rs. current_row ((table_forward t ^^ Suc n) (table_rewind 96)) = rs ! n" by (auto simp: Let_def)
  have "rs \<noteq> []" using rs(1) t(2) by auto
  then show ?thesis using rs(2) by blast
qed

text \<open>
  A value stored in a column of a row reads back (a string cut to the column's capacity, a number as its 8
  bytes), the write stays inside the row, and it changes no other column.\<close>

theorem column_roundtrip:
  assumes "layout 0 cols e" and "i < length cols" and "length row = e" and "c_type (cols ! i) \<noteq> TYPE_STRING \<Longrightarrow> 8 \<le> length v"
  shows "\<exists>row'. set_value (cols ! i) (Some v) row = Some row' \<and> length row' = e \<and>
     get_value (cols ! i) row' = Some (stored_value (cols ! i) v) \<and>
     (\<forall>j<length cols. j \<noteq> i \<longrightarrow> mem_read (c_index (cols ! j)) (c_size (cols ! j)) row' = mem_read (c_index (cols ! j)) (c_size (cols ! j)) row)"
proof -
  note c = layout_column [OF assms(1,2)]
  obtain row' where r: "set_value (cols ! i) (Some v) row = Some row'" "length row' = length row"
    "get_value (cols ! i) row' = Some (stored_value (cols ! i) v)"
    "\<forall>q n. q + n \<le> c_index (cols ! i) \<or> c_index (cols ! i) + c_size (cols ! i) \<le> q \<longrightarrow> mem_read q n row' = mem_read q n row"
    using set_get_value [of "cols ! i" row v] c assms(3,4) by auto
  have "c_index (cols ! j) + c_size (cols ! j) \<le> c_index (cols ! i) \<or> c_index (cols ! i) + c_size (cols ! i) \<le> c_index (cols ! j)"
    if "j < length cols" "j \<noteq> i" for j
    using layout_disjoint [OF assms(1), of i j] layout_disjoint [OF assms(1), of j i] that assms(2) by linarith
  then show ?thesis using r assms(3) by blast
qed

theorem column_roundtrip_witness:
  "\<exists>row'. set_value \<lparr>c_type = TYPE_STRING, c_size = 6, c_name = ''s'', c_index = 8\<rparr> (Some [1, 2, 3]) (replicate 14 0) = Some row' \<and>
     get_value \<lparr>c_type = TYPE_STRING, c_size = 6, c_name = ''s'', c_index = 8\<rparr> row' = Some [1, 2]"
  using column_roundtrip [of "[\<lparr>c_type = TYPE_INT, c_size = 8, c_name = ''v'', c_index = 0\<rparr>,
      \<lparr>c_type = TYPE_STRING, c_size = 6, c_name = ''s'', c_index = 8\<rparr>]" 14 1 "replicate 14 0" "[1, 2, 3]"]
  by (auto simp: stored_value_def)

end
