(* ===== verification/Osw_String.thy ===== *)
theory Osw_String
  imports Osw_Bytes "HOL-Library.Monad_Syntax"
begin

text \<open>
  The growing byte buffer \<^verbatim>\<open>String\<close> of \<^verbatim>\<open>include/openswoole_string.h\<close> and \<^verbatim>\<open>src/core/string.cc\<close>, with the
  substring search of \<^verbatim>\<open>include/openswoole.h\<close>. The block behind \<^verbatim>\<open>str\<close> is a list of bytes, whose
  length is \<^verbatim>\<open>size\<close>. The allocator is a parameter: it returns a block of the requested size with
  arbitrary contents, or nothing. \<open>None\<close> means that an operation does not return: a failed
  assertion, \<^verbatim>\<open>std::bad_alloc\<close>, or an access outside the block.
\<close>

subsection \<open>Data\<close>

type_synonym allocator = "nat \<Rightarrow> bytes option"

definition allocator_ok :: "allocator \<Rightarrow> bool" where
  "allocator_ok al \<longleftrightarrow> (\<forall>n. \<exists>b. al n = Some b \<and> length b = n)"

record ostring =
  st_mem :: bytes
  st_length :: nat
  st_offset :: int

abbreviation st_size :: "ostring \<Rightarrow> nat" where
  "st_size s \<equiv> length (st_mem s)"

text \<open>The contents, and the invariant.\<close>

definition string_value :: "ostring \<Rightarrow> bytes" where
  "string_value s = take (st_length s) (st_mem s)"

definition string_inv :: "ostring \<Rightarrow> bool" where
  "string_inv s \<longleftrightarrow> st_length s \<le> st_size s"

subsection \<open>Substring search\<close>

text \<open>\<^verbatim>\<open>openswoole_strnstr\<close>: the loop over the start positions; the result is the position.\<close>

primrec strnstr_loop :: "nat \<Rightarrow> bytes \<Rightarrow> bytes \<Rightarrow> nat option" where
  "strnstr_loop 0 haystack needle = None"
| "strnstr_loop (Suc n) haystack needle =
     (if take 1 haystack = take 1 needle \<and> take (length needle) haystack = needle then Some 0
      else map_option Suc (strnstr_loop n (tl haystack) needle))"

definition openswoole_strnstr :: "bytes \<Rightarrow> bytes \<Rightarrow> nat option option" where
  "openswoole_strnstr haystack needle =
     (if needle = [] then None
      else if length needle \<le> length haystack
      then Some (strnstr_loop (length haystack - length needle + 1) haystack needle) else Some None)"

definition openswoole_strnpos :: "bytes \<Rightarrow> bytes \<Rightarrow> int option" where
  "openswoole_strnpos haystack needle =
     map_option (\<lambda>r. case r of None \<Rightarrow> - 1 | Some i \<Rightarrow> int i) (openswoole_strnstr haystack needle)"

text \<open>\<^verbatim>\<open>openswoole_strrnpos\<close>: the loop runs from the last position down to 1, and never looks at 0.\<close>

primrec strrnpos_loop :: "nat \<Rightarrow> bytes \<Rightarrow> bytes \<Rightarrow> int" where
  "strrnpos_loop 0 haystack needle = - 1"
| "strrnpos_loop (Suc i) haystack needle =
     (if take (length needle) (drop (Suc i) haystack) = needle then int (Suc i) else strrnpos_loop i haystack needle)"

definition openswoole_strrnpos :: "bytes \<Rightarrow> bytes \<Rightarrow> int option" where
  "openswoole_strrnpos haystack needle =
     (if needle = [] \<or> length haystack < length needle then None
      else Some (strrnpos_loop (length haystack - length needle) haystack needle))"

definition openswoole_size_align :: "nat \<Rightarrow> nat \<Rightarrow> nat" where
  "openswoole_size_align n pagesize = n + (pagesize - n mod pagesize)"

subsection \<open>Construction\<close>

definition string_alloc :: "allocator \<Rightarrow> nat \<Rightarrow> ostring option" where
  "string_alloc al n = do { b \<leftarrow> al (mem_aligned_size n); Some \<lparr>st_mem = b, st_length = 0, st_offset = 0\<rparr> }"

definition string_empty_new :: ostring where
  "string_empty_new = \<lparr>st_mem = [], st_length = 0, st_offset = 0\<rparr>"

definition string_of_bytes :: "allocator \<Rightarrow> bytes \<Rightarrow> ostring option" where
  "string_of_bytes al bs = do {
     s \<leftarrow> string_alloc al (length bs);
     m \<leftarrow> mem_write 0 bs (st_mem s);
     Some (s\<lparr>st_mem := m, st_length := length bs\<rparr>)
   }"

text \<open>The copy constructor (and the copy assignment, which first frees the old block): the
  arguments of \<^verbatim>\<open>memcpy\<close> are swapped, so the new block is copied over the source. The result is the
  new string and the source after the call.\<close>

definition string_copy :: "allocator \<Rightarrow> ostring \<Rightarrow> (ostring \<times> ostring) option" where
  "string_copy al src = do {
     s \<leftarrow> string_alloc al (st_size src);
     bs \<leftarrow> mem_read 0 (st_length src) (st_mem s);
     m \<leftarrow> mem_write 0 bs (st_mem src);
     Some (s\<lparr>st_length := st_length src, st_offset := st_offset src\<rparr>, src\<lparr>st_mem := m\<rparr>)
   }"

definition string_move :: "ostring \<Rightarrow> ostring \<times> ostring" where
  "string_move src = (src, string_empty_new)"

subsection \<open>Growing\<close>

definition string_reserve :: "allocator \<Rightarrow> nat \<Rightarrow> ostring \<Rightarrow> ostring option" where
  "string_reserve al n s =
     (if st_size s = 0 then string_alloc al n
      else do {
        b \<leftarrow> al (mem_aligned_size n);
        Some (s\<lparr>st_mem := take (mem_aligned_size n) (st_mem s) @ drop (st_size s) b\<rparr>)
      })"

definition string_extend :: "allocator \<Rightarrow> nat \<Rightarrow> ostring \<Rightarrow> ostring option" where
  "string_extend al n s = (if n > st_size s then string_reserve al n s else None)"

definition string_extend_double :: "allocator \<Rightarrow> ostring \<Rightarrow> ostring option" where
  "string_extend_double al s = string_extend al (st_size s * 2) s"

partial_function (option) align_double :: "nat \<Rightarrow> nat \<Rightarrow> nat option" where
  "align_double new_size a = (if a < new_size then align_double new_size (a * 2) else Some a)"

definition string_extend_align :: "allocator \<Rightarrow> nat \<Rightarrow> ostring \<Rightarrow> ostring option" where
  "string_extend_align al new_size s = do {
     a \<leftarrow> align_double new_size (mem_aligned_size (st_size s * 2));
     string_reserve al a s
   }"

definition string_grow :: "allocator \<Rightarrow> nat \<Rightarrow> ostring \<Rightarrow> ostring option" where
  "string_grow al incr s =
     (let s1 = s\<lparr>st_length := st_length s + incr\<rparr> in
      if st_length s1 = st_size s then string_reserve al (st_size s * 2) s1 else Some s1)"

subsection \<open>Contents\<close>

definition string_append :: "allocator \<Rightarrow> bytes \<Rightarrow> ostring \<Rightarrow> ostring option" where
  "string_append al bs s = do {
     s1 \<leftarrow> (if st_length s + length bs > st_size s then string_reserve al (st_length s + length bs) s else Some s);
     m \<leftarrow> mem_write (st_length s1) bs (st_mem s1);
     Some (s1\<lparr>st_mem := m, st_length := st_length s1 + length bs\<rparr>)
   }"

definition string_write :: "allocator \<Rightarrow> nat \<Rightarrow> nat \<Rightarrow> bytes \<Rightarrow> ostring \<Rightarrow> ostring option" where
  "string_write al pagesize off bs s =
     (let new_length = off + length bs in
      do {
        s1 \<leftarrow> (if new_length > st_size s then string_reserve al (openswoole_size_align (new_length * 2) pagesize) s else Some s);
        m \<leftarrow> mem_write off bs (st_mem s1);
        Some (s1\<lparr>st_mem := m, st_length := max new_length (st_length s1)\<rparr>)
      })"

primrec append_times :: "allocator \<Rightarrow> bytes \<Rightarrow> nat \<Rightarrow> ostring \<Rightarrow> ostring option" where
  "append_times al bs 0 s = Some s"
| "append_times al bs (Suc n) s = do { s1 \<leftarrow> string_append al bs s; append_times al bs n s1 }"

definition string_repeat :: "allocator \<Rightarrow> bytes \<Rightarrow> nat \<Rightarrow> ostring \<Rightarrow> (bool \<times> ostring) option" where
  "string_repeat al bs n s =
     (if n = 0 then Some (False, s)
      else if length bs = 1 then do {
        s1 \<leftarrow> (if st_size s < st_length s + n then string_reserve al (st_length s + n) s else Some s);
        m \<leftarrow> mem_write (st_length s1) (replicate n (hd bs)) (st_mem s1);
        Some (True, s1\<lparr>st_mem := m, st_length := st_length s1 + n\<rparr>)
      }
      else map_option (Pair True) (append_times al bs n s))"

definition string_clear :: "ostring \<Rightarrow> ostring" where
  "string_clear s = s\<lparr>st_length := 0, st_offset := 0\<rparr>"

text \<open>\<^verbatim>\<open>reduce\<close> moves the bytes behind an offset to the front.\<close>

definition string_reduce :: "int \<Rightarrow> ostring \<Rightarrow> ostring option" where
  "string_reduce off s =
     (if off < 0 \<or> int (st_length s) < off then None
      else if off = 0 then Some s
      else
        (let s1 = s\<lparr>st_length := st_length s - nat off, st_offset := 0\<rparr> in
         if st_length s1 = 0 then Some s1
         else do {
           bs \<leftarrow> mem_read (nat off) (st_length s1) (st_mem s);
           m \<leftarrow> mem_write 0 bs (st_mem s);
           Some (s1\<lparr>st_mem := m\<rparr>)
         }))"

text \<open>\<^verbatim>\<open>pop\<close> hands the block to the caller and keeps the bytes behind the offset in a new one; a failed
  allocation is a null pointer.\<close>

definition string_pop :: "allocator \<Rightarrow> nat \<Rightarrow> ostring \<Rightarrow> (bytes option \<times> ostring) option" where
  "string_pop al init_size s =
     (if int (st_length s) < st_offset s \<or> st_offset s < 0 then None
      else
        (let n = st_length s - nat (st_offset s);
             alloc_size = mem_aligned_size (if n = 0 then init_size else max n init_size)
         in case al alloc_size of
              None \<Rightarrow> Some (None, s)
            | Some b \<Rightarrow> do {
                bs \<leftarrow> mem_read (nat (st_offset s)) n (st_mem s);
                m \<leftarrow> mem_write 0 bs b;
                Some (Some (st_mem s), \<lparr>st_mem = m, st_length = n, st_offset = 0\<rparr>)
              }))"

definition string_substr :: "allocator \<Rightarrow> nat \<Rightarrow> nat \<Rightarrow> ostring \<Rightarrow> ostring option option" where
  "string_substr al off len s =
     (if off + len > st_length s then Some None
      else do {
        s1 \<leftarrow> string_alloc al len;
        bs \<leftarrow> mem_read off len (st_mem s);
        s2 \<leftarrow> string_append al bs s1;
        Some (Some s2)
      })"

definition string_contains :: "bytes \<Rightarrow> ostring \<Rightarrow> bool option" where
  "string_contains needle s = map_option (\<lambda>r. r \<noteq> None) (openswoole_strnstr (string_value s) needle)"

subsection \<open>Splitting at a delimiter\<close>

text \<open>
  The loop of \<^verbatim>\<open>split\<close>. \<open>start\<close> is \<^verbatim>\<open>start_addr - str\<close>, \<open>back\<close> is \<^verbatim>\<open>_offset\<close>; the callback gets the bytes
  of the piece and the caller's state, and stops the loop with \<open>False\<close>. The result is the state, whether it
  was stopped, the final \<open>start\<close> and \<open>back\<close>.
\<close>

partial_function (option) split_loop ::
    "(bytes \<Rightarrow> 's \<Rightarrow> bool \<times> 's) \<Rightarrow> bytes \<Rightarrow> bytes \<Rightarrow> nat \<Rightarrow> nat \<Rightarrow> 's \<Rightarrow> ('s \<times> bool \<times> nat \<times> nat) option" where
  "split_loop handler delim val start bk st =
     Option.bind (openswoole_strnstr (drop start val) delim) (\<lambda>r. case r of
       None \<Rightarrow> Some (st, True, start, bk)
     | Some i \<Rightarrow>
         (let n = i + length delim; (go, st') = handler (take (n + bk) (drop (start - bk) val)) st in
          if go then split_loop handler delim val (start + n) 0 st' else Some (st', False, start, bk)))"

definition string_split ::
    "(bytes \<Rightarrow> 's \<Rightarrow> bool \<times> 's) \<Rightarrow> bytes \<Rightarrow> ostring \<Rightarrow> 's \<Rightarrow> (int \<times> ostring \<times> 's) option" where
  "string_split handler delim s st =
     (if st_offset s < 0 \<or> int (st_length s) < st_offset s then None
      else do {
        (st', fin, start, bk) \<leftarrow> split_loop handler delim (string_value s) (nat (st_offset s)) (nat (st_offset s)) st;
        if fin
        then Some (int start - int bk,
                   s\<lparr>st_offset := (if int bk = int start then int (st_length s) - int (length delim) else int start)\<rparr>, st')
        else Some (- 1, s\<lparr>st_offset := int start\<rparr>, st')
      })"

subsection \<open>Search\<close>

text \<open>\<open>occurs\<close>: the needle stands at a position of the haystack.\<close>

definition occurs :: "bytes \<Rightarrow> nat \<Rightarrow> bytes \<Rightarrow> bool" where
  "occurs needle i haystack \<longleftrightarrow> take (length needle) (drop i haystack) = needle"

lemma occurs_le: "occurs needle i haystack \<Longrightarrow> needle \<noteq> [] \<Longrightarrow> i + length needle \<le> length haystack"
proof -
  assume o: "occurs needle i haystack" "needle \<noteq> []"
  have "length needle = min (length needle) (length haystack - i)" using arg_cong [OF o(1) [unfolded occurs_def], of length] by simp
  moreover have "0 < length needle" using o(2) by simp
  ultimately show ?thesis by linarith
qed

lemma occurs_append:
  assumes "i + length needle \<le> length xs"
  shows "occurs needle i (xs @ ys) = occurs needle i xs"
  using assms by (simp add: occurs_def)

lemma occurs_drop: "occurs needle i (drop k xs) = occurs needle (k + i) xs"
  by (simp add: occurs_def add.commute)

lemma strnstr_loop_spec:
  "needle \<noteq> [] \<Longrightarrow> strnstr_loop n h needle = (if \<exists>i<n. occurs needle i h then Some (LEAST i. occurs needle i h) else None)"
proof (induction n arbitrary: h)
  case (Suc n)
  have z: "take 1 h = take 1 needle \<and> take (length needle) h = needle \<longleftrightarrow> occurs needle 0 h"
    using Suc.prems by (cases needle; cases h) (auto simp: occurs_def)
  have s: "occurs needle i (tl h) \<longleftrightarrow> occurs needle (Suc i) h" for i using occurs_drop [of needle i 1 h] by (simp add: drop_Suc)
  show ?case
  proof (cases "occurs needle 0 h")
    case True
    then have "(LEAST i. occurs needle i h) = 0" by simp
    then show ?thesis using True z by auto
  next
    case False
    have "(LEAST i. occurs needle i h) = Suc (LEAST i. occurs needle (Suc i) h)" if "occurs needle i h" for i
      by (rule Least_Suc [OF that False])
    moreover have "(\<exists>i<Suc n. occurs needle i h) \<longleftrightarrow> (\<exists>i<n. occurs needle (Suc i) h)"
      using False by (metis less_Suc_eq_0_disj)
    ultimately show ?thesis using Suc z False by (auto simp: s)
  qed
qed simp

lemma strnstr_Some:
  assumes "needle \<noteq> []"
  shows "openswoole_strnstr h needle = Some (if \<exists>i. occurs needle i h then Some (LEAST i. occurs needle i h) else None)"
proof (cases "length needle \<le> length h")
  case True
  have "(\<exists>i<length h - length needle + 1. occurs needle i h) \<longleftrightarrow> (\<exists>i. occurs needle i h)"
    using occurs_le [OF _ assms] True by (metis Suc_eq_plus1 add_le_imp_le_diff le_imp_less_Suc)
  then show ?thesis using assms True by (simp add: openswoole_strnstr_def strnstr_loop_spec [OF assms] del: strnstr_loop.simps)
next
  case False
  then have "\<not> occurs needle i h" for i using occurs_le [OF _ assms, of i h] by auto
  then show ?thesis using assms False by (simp add: openswoole_strnstr_def)
qed

lemma strnstr_cases:
  assumes "needle \<noteq> []"
  obtains (none) "openswoole_strnstr h needle = Some None" "\<forall>i. \<not> occurs needle i h"
  | (first) i where "openswoole_strnstr h needle = Some (Some i)" "occurs needle i h" "\<forall>j<i. \<not> occurs needle j h"
      "i + length needle \<le> length h"
proof (cases "\<exists>i. occurs needle i h")
  case True
  then have o: "occurs needle (LEAST i. occurs needle i h) h" by (metis LeastI)
  have "openswoole_strnstr h needle = Some (Some (LEAST i. occurs needle i h))" using True strnstr_Some [OF assms, of h] by simp
  moreover have "\<forall>j<(LEAST i. occurs needle i h). \<not> occurs needle j h" using not_less_Least by blast
  ultimately show ?thesis by (rule first [OF _ o _ occurs_le [OF o assms]])
next
  case False
  then show ?thesis using none strnstr_Some [OF assms, of h] by simp
qed

lemma strrnpos_loop_zero: "strrnpos_loop n h needle \<noteq> 0"
  by (induction n) auto

subsection \<open>Growing and writing\<close>

named_theorems string_simps \<open>unfolding of the string operations\<close>

lemma string_alloc_spec:
  assumes "allocator_ok al"
  obtains s where "string_alloc al n = Some s" "st_size s = mem_aligned_size n" "st_length s = 0" "st_offset s = 0"
proof -
  obtain b where "al (mem_aligned_size n) = Some b" "length b = mem_aligned_size n" using assms by (auto simp: allocator_ok_def)
  then show ?thesis using that by (simp add: string_alloc_def)
qed

lemma string_reserve_spec:
  assumes al: "allocator_ok al" and inv: "string_inv s" and le: "st_length s \<le> n"
  obtains s' where "string_reserve al n s = Some s'" "string_inv s'" "string_value s' = string_value s"
    "st_size s' = mem_aligned_size n" "st_length s' = st_length s" "st_size s \<noteq> 0 \<longrightarrow> st_offset s' = st_offset s"
proof (cases "st_size s = 0")
  case True
  then have "st_length s = 0" using inv by (simp add: string_inv_def)
  then show ?thesis using that True
    by (rule_tac string_alloc_spec [OF al, of n]) (simp add: string_inv_def string_reserve_def string_value_def)
next
  case False
  let ?n = "mem_aligned_size n"
  obtain b where b: "al ?n = Some b" "length b = ?n" using al by (auto simp: allocator_ok_def)
  have "st_length s \<le> ?n" using le mem_aligned_size_ge [of n] by simp
  then show ?thesis using that [of "s\<lparr>st_mem := take ?n (st_mem s) @ drop (st_size s) b\<rparr>"] False b inv
    by (auto simp: string_reserve_def string_inv_def string_value_def min_def)
qed

lemma string_value_length: "string_inv s \<Longrightarrow> length (string_value s) = st_length s"
  by (simp add: string_value_def string_inv_def)

text \<open>Making room for \<open>n\<close> bytes when there is not enough.\<close>

lemma string_ensure_spec:
  assumes al: "allocator_ok al" and inv: "string_inv s"
  obtains s' where "(if st_size s < n then string_extend al n s else Some s) = Some s'" "string_inv s'" "string_value s' = string_value s"
    "n \<le> st_size s'" "st_length s' = st_length s" "st_size s \<le> st_size s'"
proof (cases "st_size s < n")
  case True
  then have "st_length s \<le> n" using inv by (simp add: string_inv_def)
  then obtain s' where "string_reserve al n s = Some s'" "string_inv s'" "string_value s' = string_value s"
      "st_size s' = mem_aligned_size n" "st_length s' = st_length s"
    by (rule string_reserve_spec [OF al inv])
  then show ?thesis using that [of s'] True mem_aligned_size_ge [of n] by (simp add: string_extend_def)
next
  case False
  then show ?thesis using that [of s] inv by simp
qed

lemma string_read_front:
  assumes "string_inv s" and "n \<le> st_length s"
  shows "mem_read 0 n (st_mem s) = Some (take n (string_value s))"
  using assms by (simp add: mem_read_def string_inv_def string_value_def min_absorb1)

lemma string_append_spec:
  assumes al: "allocator_ok al" and inv: "string_inv s"
  obtains s' where "string_append al bs s = Some s'" "string_inv s'" "string_value s' = string_value s @ bs"
    "st_length s' = st_length s + length bs" "st_size s \<noteq> 0 \<longrightarrow> st_offset s' = st_offset s"
proof -
  obtain s1 where s1: "(if st_length s + length bs > st_size s then string_reserve al (st_length s + length bs) s else Some s) = Some s1"
    "string_inv s1" "string_value s1 = string_value s" "st_length s1 = st_length s" "st_length s + length bs \<le> st_size s1"
    "st_size s \<noteq> 0 \<longrightarrow> st_offset s1 = st_offset s"
  proof (cases "st_length s + length bs > st_size s")
    case True
    show ?thesis
      by (rule string_reserve_spec [OF al inv, of "st_length s + length bs"])
         (use that True mem_aligned_size_ge [of "st_length s + length bs"] in auto)
  next
    case False
    then show ?thesis using that [of s] inv by simp
  qed
  let ?m = "take (st_length s1) (st_mem s1) @ bs @ drop (st_length s1 + length bs) (st_mem s1)"
  have "mem_write (st_length s1) bs (st_mem s1) = Some ?m" using s1 by (simp add: mem_write_def)
  then have "string_append al bs s = Some (s1\<lparr>st_mem := ?m, st_length := st_length s1 + length bs\<rparr>)"
    using s1(1) by (simp add: string_append_def)
  then show ?thesis using that s1 by (fastforce simp: string_inv_def string_value_def)
qed

lemma append_times_spec:
  assumes al: "allocator_ok al" and inv: "string_inv s"
  shows "\<exists>s'. append_times al bs n s = Some s' \<and> string_inv s' \<and> string_value s' = string_value s @ concat (replicate n bs)"
  using inv
proof (induction n arbitrary: s)
  case (Suc n)
  obtain s1 where "string_append al bs s = Some s1" "string_inv s1" "string_value s1 = string_value s @ bs"
    using string_append_spec [OF al Suc.prems] by metis
  then show ?case using Suc.IH [of s1] by simp
qed simp

lemma string_reduce_spec:
  assumes inv: "string_inv s" and n: "n \<le> st_length s"
  obtains s' where "string_reduce (int n) s = Some s'" "string_inv s'" "string_value s' = drop n (string_value s)"
    "st_size s' = st_size s" "st_offset s' = (if n = 0 then st_offset s else 0)"
proof (cases "n = 0 \<or> st_length s = n")
  case True
  then show ?thesis using that [of "if n = 0 then s else s\<lparr>st_length := 0, st_offset := 0\<rparr>"] inv n
    by (auto simp: string_reduce_def string_inv_def string_value_def)
next
  case False
  let ?l = "st_length s - n"
  have r: "mem_read n ?l (st_mem s) = Some (take ?l (drop n (st_mem s)))" using inv n by (simp add: mem_read_def string_inv_def)
  let ?m = "take ?l (drop n (st_mem s)) @ drop ?l (st_mem s)"
  have len: "length (take ?l (drop n (st_mem s))) = ?l" using inv n by (simp add: string_inv_def)
  then have w: "mem_write 0 (take ?l (drop n (st_mem s))) (st_mem s) = Some ?m" using inv by (simp add: mem_write_def string_inv_def)
  show ?thesis
    by (rule that [of "s\<lparr>st_length := ?l, st_offset := 0, st_mem := ?m\<rparr>"])
       (use False n r w inv in \<open>auto simp: string_reduce_def string_inv_def string_value_def drop_take\<close>)
qed

lemma string_write_spec:
  assumes al: "allocator_ok al" and inv: "string_inv s" and off: "off \<le> st_length s" and pg: "0 < pagesize"
  shows "\<exists>s'. string_write al pagesize off bs s = Some s' \<and> string_inv s' \<and>
     string_value s' = take off (string_value s) @ bs @ drop (off + length bs) (string_value s)"
proof -
  let ?nl = "off + length bs"
  obtain s1 where s1: "(if ?nl > st_size s then string_reserve al (openswoole_size_align (?nl * 2) pagesize) s else Some s) = Some s1"
    "string_inv s1" "string_value s1 = string_value s" "st_length s1 = st_length s" "?nl \<le> st_size s1"
  proof (cases "?nl > st_size s")
    case True
    have g: "?nl \<le> openswoole_size_align (?nl * 2) pagesize" by (simp add: openswoole_size_align_def)
    show ?thesis
      by (rule string_reserve_spec [OF al inv, of "openswoole_size_align (?nl * 2) pagesize"])
         (use that True g inv mem_aligned_size_ge [of "openswoole_size_align (?nl * 2) pagesize"] in \<open>auto simp: string_inv_def\<close>)
  next
    case False
    then show ?thesis using that [of s] inv by simp
  qed
  let ?m = "take off (st_mem s1) @ bs @ drop ?nl (st_mem s1)"
  have "mem_write off bs (st_mem s1) = Some ?m" using s1(5) by (simp add: mem_write_def)
  then have w: "string_write al pagesize off bs s = Some (s1\<lparr>st_mem := ?m, st_length := max ?nl (st_length s)\<rparr>)" (is "_ = Some ?s")
    using s1(1,4) by (simp add: string_write_def Let_def)
  have "string_value ?s = take off (string_value s1) @ bs @ drop ?nl (string_value s1)"
    using off s1(2,4,5) by (auto simp: string_value_def string_inv_def max_def min_def drop_take)
  moreover have "string_inv ?s" using off s1(2,4,5) by (auto simp: string_inv_def)
  ultimately show ?thesis using w s1(3) by auto
qed

lemma string_repeat_spec:
  assumes al: "allocator_ok al" and inv: "string_inv s"
  shows "\<exists>s'. string_repeat al bs n s = Some (0 < n, s') \<and> string_inv s' \<and> string_value s' = string_value s @ concat (replicate n bs)"
proof (cases "n = 0 \<or> length bs \<noteq> 1")
  case True
  then show ?thesis using append_times_spec [OF al inv, of bs n] inv by (auto simp: string_repeat_def)
next
  case False
  then obtain b where b: "bs = [b]" by (auto simp: length_Suc_conv)
  have "string_repeat al bs n s = map_option (Pair True) (string_append al (replicate n b) s)"
    using False b by (auto simp: string_repeat_def string_append_def map_option_bind bind_map_option comp_def)
  moreover have "concat (replicate n bs) = replicate n b" unfolding b by (induction n) auto
  moreover obtain s' where "string_append al (replicate n b) s = Some s'" "string_inv s'" "string_value s' = string_value s @ replicate n b"
    by (rule string_append_spec [OF al inv])
  ultimately show ?thesis using False by auto
qed

text \<open>Doubling ends unless it starts from zero, which it does for a string without a block.\<close>

lemma align_double_total: "0 < a \<Longrightarrow> \<exists>b. align_double n a = Some b \<and> n \<le> b \<and> a \<le> b"
proof (induction "n - a" arbitrary: a rule: less_induct)
  case less
  show ?case
  proof (cases "a < n")
    case True
    then have "n - a * 2 < n - a" using less.prems by arith
    then obtain b where "align_double n (a * 2) = Some b" "n \<le> b" "a * 2 \<le> b" using less.hyps [of "a * 2"] less.prems by auto
    then show ?thesis using True by (subst align_double.simps) auto
  next
    case False
    then show ?thesis by (subst align_double.simps) auto
  qed
qed

subsection \<open>Frames\<close>

lemma strnstr_shorter:
  assumes "openswoole_strnstr bs d = Some (Some i)"
  shows "length bs - (i + length d) < length bs"
proof -
  have d: "d \<noteq> []" using assms by (auto simp: openswoole_strnstr_def)
  then have "i + length d \<le> length bs" by (rule strnstr_cases [of d bs]) (use assms in auto)
  moreover have "0 < length d" using d by simp
  ultimately show ?thesis by linarith
qed

text \<open>The specification of splitting: the frames of a byte string, each up to and including the first
  delimiter, and the rest.\<close>

function frames :: "bytes \<Rightarrow> bytes \<Rightarrow> bytes list \<times> bytes" where
  "frames d bs = (case openswoole_strnstr bs d of
      Some (Some i) \<Rightarrow> (take (i + length d) bs # fst (frames d (drop (i + length d) bs)), snd (frames d (drop (i + length d) bs)))
    | _ \<Rightarrow> ([], bs))"
  by pat_completeness auto
termination
  by (relation "measure (\<lambda>(d, bs). length bs)") (auto dest: strnstr_shorter)

declare frames.simps [simp del]

lemma frames_none: "d \<noteq> [] \<Longrightarrow> \<forall>i. \<not> occurs d i bs \<Longrightarrow> frames d bs = ([], bs)"
  by (subst frames.simps) (simp add: strnstr_Some)

lemma frames_first:
  assumes "d \<noteq> []" and "occurs d i bs" and "\<forall>j<i. \<not> occurs d j bs"
  shows "frames d bs = (take (i + length d) bs # fst (frames d (drop (i + length d) bs)), snd (frames d (drop (i + length d) bs)))"
proof -
  have "(LEAST i. occurs d i bs) = i" by (rule Least_equality) (use assms in \<open>auto simp: not_less [symmetric]\<close>)
  then have "openswoole_strnstr bs d = Some (Some i)" using strnstr_Some [OF assms(1), of bs] assms(2) by auto
  then show ?thesis by (subst frames.simps) simp
qed

lemma first_occurrence: "occurs d k bs \<Longrightarrow> \<exists>i\<le>k. occurs d i bs \<and> (\<forall>j<i. \<not> occurs d j bs)"
  by (rule exI [where x = "LEAST i. occurs d i bs"]) (auto intro: LeastI Least_le dest: not_less_Least)

text \<open>Each frame ends in the delimiter and has it nowhere else; the rest does not have it; together they
  are the string.\<close>

lemma frames_sound:
  assumes "d \<noteq> []"
  shows "concat (fst (frames d bs)) @ snd (frames d bs) = bs \<and> (\<forall>i. \<not> occurs d i (snd (frames d bs))) \<and>
     (\<forall>f\<in>set (fst (frames d bs)). length d \<le> length f \<and> (\<forall>i. occurs d i f \<longleftrightarrow> i + length d = length f))"
proof (induction "length bs" arbitrary: bs rule: less_induct)
  case less
  show ?case
  proof (cases "\<exists>i. occurs d i bs")
    case True
    then obtain i where i: "occurs d i bs" "\<forall>j<i. \<not> occurs d j bs" by (metis first_occurrence)
    let ?n = "i + length d"
    have le: "?n \<le> length bs" by (rule occurs_le [OF i(1) assms])
    have "0 < length d" using assms by simp
    then have "length (drop ?n bs) < length bs" unfolding length_drop using le by linarith
    note ih = less.hyps [OF this]
    have "occurs d j (take ?n bs) \<longleftrightarrow> j + length d = ?n" for j
    proof (cases "j + length d \<le> ?n")
      case True
      have "occurs d j (take ?n bs) = occurs d j bs"
        using occurs_append [of j d "take ?n bs" "drop ?n bs"] True le by simp
      then show ?thesis using i True by (cases "j = i") auto
    next
      case False
      then show ?thesis using occurs_le [OF _ assms, of j "take ?n bs"] le by auto
    qed
    then show ?thesis using ih frames_first [OF assms i] le by (auto simp: append.assoc)
  next
    case False
    then show ?thesis using frames_none [OF assms] by simp
  qed
qed

text \<open>Splitting what has arrived and then the rest with what comes is splitting it all at once.\<close>

lemma frames_append:
  assumes "d \<noteq> []"
  shows "frames d (xs @ ys) = (fst (frames d xs) @ fst (frames d (snd (frames d xs) @ ys)), snd (frames d (snd (frames d xs) @ ys)))"
proof (induction "length xs" arbitrary: xs rule: less_induct)
  case less
  show ?case
  proof (cases "\<exists>i. occurs d i xs")
    case True
    then obtain i where i: "occurs d i xs" "\<forall>j<i. \<not> occurs d j xs" by (metis first_occurrence)
    let ?n = "i + length d"
    have le: "?n \<le> length xs" by (rule occurs_le [OF i(1) assms])
    have o: "occurs d j (xs @ ys) = occurs d j xs" if "j \<le> i" for j using le that by (intro occurs_append) simp
    have "0 < length d" using assms by simp
    then have "length (drop ?n xs) < length xs" unfolding length_drop using le by linarith
    note ih = less.hyps [OF this]
    have "occurs d i (xs @ ys)" "\<forall>j<i. \<not> occurs d j (xs @ ys)" using i o by auto
    note f = frames_first [OF assms this]
    show ?thesis using f ih frames_first [OF assms i] le by simp
  next
    case False
    then show ?thesis using frames_none [OF assms] by simp
  qed
qed

primrec feed :: "(bytes \<Rightarrow> 's \<Rightarrow> bool \<times> 's) \<Rightarrow> bytes list \<Rightarrow> 's \<Rightarrow> bool \<times> 's" where
  "feed h [] st = (True, st)"
| "feed h (f # fs) st = (case h f st of (go, st') \<Rightarrow> if go then feed h fs st' else (False, st'))"

lemma split_loop_spec:
  assumes "d \<noteq> []" and "bk \<le> start" and "start \<le> length val" and "\<forall>j<bk. \<not> occurs d j (drop (start - bk) val)"
  defines "fs \<equiv> fst (frames d (drop (start - bk) val))"
  shows "\<exists>start' bk'. split_loop h d val start bk st = Some (snd (feed h fs st), fst (feed h fs st), start', bk') \<and>
     (fst (feed h fs st) \<longrightarrow> (if fs = [] then start' = start \<and> bk' = bk else start' = start - bk + length (concat fs) \<and> bk' = 0))"
  using assms(2-4) unfolding fs_def
proof (induction "length val - start" arbitrary: start bk st rule: less_induct)
  case less
  let ?w = "drop (start - bk) val"
  have oc: "occurs d i (drop start val) = occurs d (bk + i) ?w" for i using less.prems(1) by (simp add: occurs_drop)
  from assms(1) show ?case
  proof (cases rule: strnstr_cases [of d "drop start val"])
    case none
    have "\<not> occurs d i ?w" for i
      using less.prems(3) none(2) oc [of "i - bk"] by (cases "i < bk") auto
    then have "frames d ?w = ([], ?w)" by (intro frames_none [OF assms(1)]) blast
    then show ?thesis using none(1) by (subst split_loop.simps) simp
  next
    case (first i)
    let ?n = "i + length d"
    have f1: "occurs d (bk + i) ?w" using first(2) oc by simp
    have "\<not> occurs d j ?w" if "j < bk + i" for j
      using first(3) less.prems(3) oc [of "j - bk"] that by (cases "j < bk") auto
    then have f: "occurs d (bk + i) ?w" "\<forall>j<bk + i. \<not> occurs d j ?w" using f1 by auto
    have d0: "0 < length d" using assms(1) by simp
    have le: "start + ?n \<le> length val" and lt: "length val - (start + ?n) < length val - start"
      using first(4) d0 unfolding length_drop by linarith+
    define gs where "gs = fst (frames d (drop (start + ?n) val))"
    define g where "g = take (?n + bk) ?w"
    have dr: "drop (bk + i + length d) ?w = drop (start + ?n) val" using less.prems(1) by (simp add: add.commute add.left_commute)
    have fr: "fst (frames d ?w) = g # gs"
      using frames_first [OF assms(1) f] unfolding dr by (simp add: add.commute add.left_commute gs_def g_def)
    have len: "length g = ?n + bk" using le less.prems(1) by (simp add: g_def)
    obtain go st' where h: "h g st = (go, st')" by (cases "h g st")
    have sl: "split_loop h d val start bk st = (if go then split_loop h d val (start + ?n) 0 st' else Some (st', False, start, bk))"
      using first(1) h by (subst split_loop.simps) (simp add: g_def)
    show ?thesis
    proof (cases go)
      case True
      obtain s2 b2 where ih: "split_loop h d val (start + ?n) 0 st' = Some (snd (feed h gs st'), fst (feed h gs st'), s2, b2)"
        "fst (feed h gs st') \<longrightarrow> (if gs = [] then s2 = start + ?n \<and> b2 = 0 else s2 = start + ?n + length (concat gs) \<and> b2 = 0)"
        using less.hyps [OF lt, of 0 st'] le unfolding gs_def by auto
      then have "split_loop h d val start bk st = Some (snd (feed h (g # gs) st), fst (feed h (g # gs) st), s2, b2) \<and>
          (fst (feed h (g # gs) st) \<longrightarrow> s2 = start - bk + length (concat (g # gs)) \<and> b2 = 0)"
        using sl True h len less.prems(1) by (auto split: if_splits)
      then show ?thesis unfolding fr by auto
    next
      case False
      then show ?thesis using sl h by (simp add: fr)
    qed
  qed
qed

lemma string_split_spec:
  assumes inv: "string_inv s" and d: "d \<noteq> []" and off: "0 \<le> st_offset s" "st_offset s \<le> int (st_length s)"
    and no: "\<forall>j<nat (st_offset s). \<not> occurs d j (string_value s)"
  defines "fs \<equiv> fst (frames d (string_value s))"
  shows "\<exists>n off'. string_split h d s st = Some (n, s\<lparr>st_offset := off'\<rparr>, snd (feed h fs st)) \<and>
     (if fst (feed h fs st) then n = int (length (concat fs)) \<and> (fs = [] \<longrightarrow> off' = int (st_length s) - int (length d))
      else n = - 1)"
proof -
  let ?o = "nat (st_offset s)"
  have len: "?o \<le> length (string_value s)" using off(2) string_value_length [OF inv] by linarith
  have "\<forall>j<?o. \<not> occurs d j (drop (?o - ?o) (string_value s))" using no by simp
  from split_loop_spec [OF d le_refl len this, of h st] obtain start' bk' where
    l: "split_loop h d (string_value s) ?o ?o st = Some (snd (feed h fs st), fst (feed h fs st), start', bk')"
      "fst (feed h fs st) \<longrightarrow> (if fs = [] then start' = ?o \<and> bk' = ?o else start' = length (concat fs) \<and> bk' = 0)"
    unfolding fs_def by auto
  have "0 < length (concat fs)" if "fs \<noteq> []"
  proof -
    obtain g gs where g: "fs = g # gs" using \<open>fs \<noteq> []\<close> by (cases fs) auto
    then have "length d \<le> length g" using frames_sound [OF d, of "string_value s"] by (simp add: fs_def)
    then have "g \<noteq> []" using d by (cases g) auto
    then show ?thesis using g by simp
  qed
  then show ?thesis using off l by (auto simp: string_split_def split: if_splits)
qed

subsection \<open>Properties\<close>

text \<open>
  \<^verbatim>\<open>openswoole_strnpos\<close> returns the first position of a nonempty needle, and -1 exactly when there is none.\<close>

theorem strnpos_correct:
  assumes "needle \<noteq> []"
  shows "openswoole_strnpos h needle = Some (if \<exists>i. occurs needle i h then int (LEAST i. occurs needle i h) else - 1)"
  using strnstr_Some [OF assms, of h] by (simp add: openswoole_strnpos_def)

theorem strnpos_correct_witness: "openswoole_strnpos [1, 2, 3, 2, 3] [2, 3] = Some (int (LEAST i. occurs [2, 3] i [1, 2, 3, 2, 3]))"
proof -
  have "occurs [2, 3] 1 [1, 2, 3, 2, 3]" by (simp add: occurs_def)
  then show ?thesis using strnpos_correct [of "[2, 3]" "[1, 2, 3, 2, 3]"] by auto
qed

text \<open>
  On a well-formed string and a working allocator the editing operations never leave the block, keep the
  invariant, and do to the contents what they should: \<^verbatim>\<open>append\<close>, \<^verbatim>\<open>repeat\<close>, \<^verbatim>\<open>write\<close> at an offset in the string, and \<^verbatim>\<open>reduce\<close>.\<close>

theorem string_edit_correct:
  assumes al: "allocator_ok al" and inv: "string_inv s"
  shows "(\<exists>s'. string_append al bs s = Some s' \<and> string_inv s' \<and> string_value s' = string_value s @ bs) \<and>
     (\<exists>s'. string_repeat al bs n s = Some (0 < n, s') \<and> string_inv s' \<and> string_value s' = string_value s @ concat (replicate n bs)) \<and>
     (off \<le> st_length s \<longrightarrow> (\<exists>s'. string_write al (Suc pg) off bs s = Some s' \<and> string_inv s' \<and>
        string_value s' = take off (string_value s) @ bs @ drop (off + length bs) (string_value s))) \<and>
     (off \<le> st_length s \<longrightarrow> (\<exists>s'. string_reduce (int off) s = Some s' \<and> string_inv s' \<and> string_value s' = drop off (string_value s)))"
proof (intro conjI impI)
  show "\<exists>s'. string_append al bs s = Some s' \<and> string_inv s' \<and> string_value s' = string_value s @ bs"
    by (rule string_append_spec [OF al inv, of bs]) blast
  show "\<exists>s'. string_repeat al bs n s = Some (0 < n, s') \<and> string_inv s' \<and> string_value s' = string_value s @ concat (replicate n bs)"
    by (rule string_repeat_spec [OF al inv])
  show "\<exists>s'. string_write al (Suc pg) off bs s = Some s' \<and> string_inv s' \<and>
      string_value s' = take off (string_value s) @ bs @ drop (off + length bs) (string_value s)" if "off \<le> st_length s"
    by (rule string_write_spec [OF al inv that]) simp
  show "\<exists>s'. string_reduce (int off) s = Some s' \<and> string_inv s' \<and> string_value s' = drop off (string_value s)" if "off \<le> st_length s"
    by (rule string_reduce_spec [OF inv that]) blast
qed

lemma sample_allocator: "allocator_ok (\<lambda>n. Some (replicate n 7))"
  by (simp add: allocator_ok_def)

theorem string_edit_correct_witness:
  "\<exists>s'. string_reduce (int 1) \<lparr>st_mem = [1, 2, 3, 4], st_length = 3, st_offset = 0\<rparr> = Some s' \<and> string_value s' = [2, 3]"
  using string_edit_correct [OF sample_allocator, of "\<lparr>st_mem = [1, 2, 3, 4], st_length = 3, st_offset = 0\<rparr>" "[]" 0 1 0]
  by (auto simp: string_inv_def string_value_def)

text \<open>
  \<^verbatim>\<open>String::split\<close> ends and hands the callback exactly the frames of the contents, in order, until the callback
  stops it; when it is not stopped it returns the length of the frames. The search may start at \<^verbatim>\<open>offset\<close> as long as
  the delimiter does not occur before it.\<close>

theorem string_split_correct:
  assumes "string_inv s" and "d \<noteq> []" and "0 \<le> st_offset s" and "st_offset s \<le> int (st_length s)"
    and "\<forall>j<nat (st_offset s). \<not> occurs d j (string_value s)" and "frames d (string_value s) = (fs, r)"
  shows "\<exists>n off'. string_split h d s st = Some (n, s\<lparr>st_offset := off'\<rparr>, snd (feed h fs st)) \<and>
     n = (if fst (feed h fs st) then int (length (concat fs)) else - 1) \<and> concat fs @ r = string_value s \<and>
     (\<forall>i. \<not> occurs d i r) \<and> (\<forall>f\<in>set fs. \<forall>i. occurs d i f \<longleftrightarrow> i + length d = length f)"
  using string_split_spec [OF assms(1-5), of h st] frames_sound [OF assms(2), of "string_value s"] assms(6)
  by (auto split: if_splits)

theorem string_split_correct_witness:
  "\<exists>fs s'. string_split (\<lambda>f st. (True, st @ [f])) [10] \<lparr>st_mem = [1, 10, 2], st_length = 3, st_offset = 0\<rparr> [] =
     Some (int (length (concat fs)), s', snd (feed (\<lambda>f st. (True, st @ [f])) fs []))"
proof -
  let ?s = "\<lparr>st_mem = [1, 10, 2], st_length = 3, st_offset = 0\<rparr> :: ostring"
  let ?fs = "fst (frames [10] (string_value ?s))"
  have "fst (feed (\<lambda>f st. (True, st @ [f])) fs st)" for fs and st :: "bytes list" by (induction fs arbitrary: st) auto
  then show ?thesis
    using string_split_correct [of ?s "[10]" ?fs "snd (frames [10] (string_value ?s))" "\<lambda>f st. (True, st @ [f])" "[]"]
    by (auto simp: string_inv_def)
qed

text \<open>
  The copy constructor copies in the wrong direction: the new string holds the uninitialised bytes of its new block,
  and the source is overwritten with the same bytes.\<close>

theorem string_copy_reversed:
  assumes "al (mem_aligned_size (st_size src)) = Some b" and "length b = mem_aligned_size (st_size src)" and "string_inv src"
  shows "\<exists>s src'. string_copy al src = Some (s, src') \<and> string_value s = take (st_length src) b \<and> string_value src' = take (st_length src) b"
proof -
  have le: "st_length src \<le> st_size src" "st_length src \<le> length b"
    using assms(2,3) mem_aligned_size_ge [of "st_size src"] by (auto simp: string_inv_def)
  then show ?thesis using assms(1)
    by (simp add: string_copy_def string_alloc_def mem_read_def mem_write_def string_value_def)
qed

theorem string_copy_reversed_witness:
  "\<exists>s src'. string_copy (\<lambda>n. Some (replicate n 7)) \<lparr>st_mem = [1, 2], st_length = 2, st_offset = 0\<rparr> = Some (s, src') \<and>
     string_value s = [7, 7] \<and> string_value src' = [7, 7]"
proof -
  have m: "mem_aligned_size (Suc (Suc 0)) = 8" by (simp add: mem_aligned_size_def mem_aligned_size_ex_def)
  show ?thesis
    using string_copy_reversed [of "\<lambda>n. Some (replicate n 7)" "\<lparr>st_mem = [1, 2], st_length = 2, st_offset = 0\<rparr>" "replicate 8 7"]
    by (simp add: m string_inv_def numeral_2_eq_2)
qed

end
