(* ===== verification/Osw_Endian.thy ===== *)
theory Osw_Endian
  imports Osw_Bytes
begin

text \<open>
  Byte order: the swaps and conversions of \<^verbatim>\<open>include/openswoole_protocol.h\<close>, the unpacking of a length field
  by type letter, and the sizes of the types (\<^verbatim>\<open>src/core/base.cc\<close>). The machine is little-endian, so the
  library functions \<^verbatim>\<open>ntohs\<close> and \<^verbatim>\<open>ntohl\<close> reverse the bytes.
\<close>

subsection \<open>Definitions\<close>

definition ntohs :: "u16 \<Rightarrow> u16" where
  "ntohs x = word_of_nat (be_value (le_bytes 2 (unat x)))"

definition ntohl :: "u32 \<Rightarrow> u32" where
  "ntohl x = word_of_nat (be_value (le_bytes 4 (unat x)))"

definition openswoole_swap_endian16 :: "u16 \<Rightarrow> u16" where
  "openswoole_swap_endian16 x = push_bit 8 (x AND 0xff) OR drop_bit 8 (x AND 0xff00)"

definition openswoole_swap_endian32 :: "u32 \<Rightarrow> u32" where
  "openswoole_swap_endian32 x =
     ((push_bit 24 (x AND 0xff) OR push_bit 8 (x AND 0xff00)) OR drop_bit 8 (x AND 0xff0000)) OR drop_bit 24 (x AND 0xff000000)"

definition openswoole_ntoh64 :: "u64 \<Rightarrow> u64" where
  "openswoole_ntoh64 net =
     (let low = ntohl (ucast (net AND 0xFFFFFFFF)); high = ntohl (ucast (drop_bit 32 net))
      in push_bit 32 (ucast low) OR ucast high)"

definition openswoole_hton64 :: "u64 \<Rightarrow> u64" where
  "openswoole_hton64 host =
     (let low = ntohl (ucast (host AND 0xFFFFFFFF)); high = ntohl (ucast (drop_bit 32 host AND 0xFFFFFFFF))
      in push_bit 32 (ucast low) OR ucast high)"

definition openswoole_type_size :: "char \<Rightarrow> nat" where
  "openswoole_type_size type =
     (if type \<in> {CHR ''c'', CHR ''C''} then 1
      else if type \<in> {CHR ''s'', CHR ''S'', CHR ''n'', CHR ''v''} then 2
      else if type \<in> {CHR ''l'', CHR ''L'', CHR ''N'', CHR ''V''} then 4 else 0)"

text \<open>\<^verbatim>\<open>openswoole_unpack\<close>: the value of the field at the start of \<open>data\<close>, as a signed 32-bit number. A type letter
  it does not know reads four bytes.\<close>

definition load16 :: "bytes \<Rightarrow> u16 option" where
  "load16 data = map_option (\<lambda>bs. word_of_nat (le_value bs)) (mem_read 0 2 data)"

definition load32 :: "bytes \<Rightarrow> u32 option" where
  "load32 data = map_option (\<lambda>bs. word_of_nat (le_value bs)) (mem_read 0 4 data)"

definition load64 :: "bytes \<Rightarrow> u64 option" where
  "load64 data = map_option (\<lambda>bs. word_of_nat (le_value bs)) (mem_read 0 8 data)"

definition openswoole_unpack :: "char \<Rightarrow> bytes \<Rightarrow> int option" where
  "openswoole_unpack type data =
     (if type = CHR ''c'' then map_option (\<lambda>bs. sint (hd bs)) (mem_read 0 1 data)
      else if type = CHR ''C'' then map_option (\<lambda>bs. uint (hd bs)) (mem_read 0 1 data)
      else if type = CHR ''s'' then map_option sint (load16 data)
      else if type = CHR ''S'' then map_option uint (load16 data)
      else if type = CHR ''n'' then map_option (\<lambda>x. uint (ntohs x)) (load16 data)
      else if type = CHR ''v'' then map_option (\<lambda>x. uint (openswoole_swap_endian16 (ntohs x))) (load16 data)
      else if type = CHR ''L'' then map_option sint (load32 data)
      else if type = CHR ''l'' then map_option sint (load32 data)
      else if type = CHR ''N'' then map_option (\<lambda>x. sint (ntohl x)) (load32 data)
      else if type = CHR ''V'' then map_option (\<lambda>x. sint (openswoole_swap_endian32 (ntohl x))) (load32 data)
      else map_option sint (load32 data))"

subsection \<open>The swaps reverse the bytes\<close>

lemma word_of_le_value:
  "(word_of_nat (le_value (b # bs)) :: 'a :: len word) = ucast b + 256 * word_of_nat (le_value bs)"
  by simp

text \<open>A little-endian value is put together from its bytes by shifting, since they do not overlap.\<close>

lemma add_shift_disjoint:
  fixes b :: u8 and x :: "'a :: len word"
  shows "ucast b + 256 * x = ucast b OR push_bit 8 x"
proof -
  have "256 * x = push_bit 8 x" by (simp add: push_bit_eq_mult)
  moreover have "ucast b + push_bit 8 x = ucast b OR push_bit 8 x" by (rule disjunctive_add) (auto simp: bit_simps dest: bit_imp_le_length)
  ultimately show ?thesis by simp
qed

lemma byte_masks:
  "(0xff :: u16) = mask 8" "(0xff00 :: u16) = push_bit 8 (mask 8)"
  "(0xff :: u32) = mask 8" "(0xff00 :: u32) = push_bit 8 (mask 8)" "(0xff0000 :: u32) = push_bit 16 (mask 8)"
  "(0xff000000 :: u32) = push_bit 24 (mask 8)" "(0xFFFFFFFF :: u64) = mask 32"
  by (simp_all add: mask_eq_exp_minus_1 push_bit_eq_mult)

lemma le_word_nil: "(word_of_nat (le_value []) :: 'a :: len word) = 0"
  by simp

lemma le_word_cons: "(word_of_nat (le_value (b # bs)) :: 'a :: len word) = ucast b OR push_bit 8 (word_of_nat (le_value bs))"
  unfolding word_of_le_value by (rule add_shift_disjoint)

lemmas le_word = le_word_nil le_word_cons push_bit_of_0 or.right_neutral

lemma bit_ucast_u8: "bit (ucast (b :: u8) :: 'a :: len word) n \<longleftrightarrow> n < LENGTH('a) \<and> n < 8 \<and> bit b n"
  by (auto simp: bit_simps dest: bit_imp_le_length)

lemma swap16_bytes: "openswoole_swap_endian16 (word_of_nat (le_value [a, b])) = word_of_nat (le_value [b, a])"
  unfolding openswoole_swap_endian16_def le_word byte_masks
  by (rule bit_word_eqI) (auto simp: bit_push_bit_iff bit_drop_bit_eq bit_or_iff bit_and_iff bit_mask_iff bit_ucast_u8)

lemma swap32_bytes:
  "openswoole_swap_endian32 (word_of_nat (le_value [a, b, c, d])) = word_of_nat (le_value [d, c, b, a])"
proof (rule bit_word_eqI)
  fix n :: nat
  assume "n < LENGTH(32)"
  then have "n < 32" by simp
  then consider "n < 8" | "8 \<le> n" "n < 16" | "16 \<le> n" "n < 24" | "24 \<le> n" "n < 32" by linarith
  then show "bit (openswoole_swap_endian32 (word_of_nat (le_value [a, b, c, d]))) n = bit (word_of_nat (le_value [d, c, b, a]) :: u32) n"
    unfolding openswoole_swap_endian32_def le_word byte_masks
    by cases (auto simp: bit_push_bit_iff bit_drop_bit_eq bit_or_iff bit_and_iff bit_mask_iff bit_ucast_u8)
qed

subsection \<open>Conversions\<close>

lemma ucast_nat: "(ucast (x :: 'a :: len word) :: 'b :: len word) = word_of_nat (unat x)"
  by simp

lemma unat_le_value: "(256 :: nat) ^ length bs \<le> 2 ^ LENGTH('a) \<Longrightarrow> unat (word_of_nat (le_value bs) :: 'a :: len word) = le_value bs"
  using le_value_less [of bs] by (simp add: unat_of_nat take_bit_nat_eq_self)

lemma ntohs_bytes: "length bs = 2 \<Longrightarrow> ntohs (word_of_nat (le_value bs)) = word_of_nat (be_value bs)"
  using unat_le_value [of bs, where 'a = 16] le_bytes_value [of bs] by (simp add: ntohs_def)

lemma ntohl_bytes: "length bs = 4 \<Longrightarrow> ntohl (word_of_nat (le_value bs)) = word_of_nat (be_value bs)"
  using unat_le_value [of bs, where 'a = 32] le_bytes_value [of bs] by (simp add: ntohl_def)

lemma unat_be_value: "(256 :: nat) ^ length bs \<le> 2 ^ LENGTH('a) \<Longrightarrow> unat (word_of_nat (be_value bs) :: 'a :: len word) = be_value bs"
  using unat_le_value [of "rev bs", where 'a = 'a] by (simp add: be_value_def)

lemma ntoh64_words:
  assumes "length xs = 4" and "length ys = 4"
  shows "ucast (word_of_nat (le_value (xs @ ys)) AND 0xFFFFFFFF :: u64) = (word_of_nat (le_value xs) :: u32)"
    "ucast (drop_bit 32 (word_of_nat (le_value (xs @ ys)) :: u64)) = (word_of_nat (le_value ys) :: u32)"
proof -
  have lx: "le_value xs < 2 ^ 32" and ly: "le_value ys < 2 ^ 32" using le_value_less [of xs] le_value_less [of ys] assms by simp_all
  have v: "le_value (xs @ ys) = le_value xs + 2 ^ 32 * le_value ys" using assms by (simp add: le_value_append)
  have u: "unat (word_of_nat (le_value (xs @ ys)) :: u64) = le_value (xs @ ys)"
    using unat_le_value [of "xs @ ys", where 'a = 64] assms by simp
  have z: "(word_of_nat (le_value xs + 2 ^ 32 * n) :: u32) = word_of_nat (le_value xs)" for n
  proof -
    have "(2 ^ 32 :: u32) = 0" by simp
    then show ?thesis by (simp only: of_nat_add of_nat_mult of_nat_power of_nat_numeral mult_zero_left add_0_right)
  qed
  have "ucast (w AND 0xFFFFFFFF :: u64) = (ucast w :: u32)" for w
    unfolding byte_masks by (rule bit_word_eqI) (auto simp: bit_simps)
  moreover have "ucast (word_of_nat (le_value (xs @ ys)) :: u64) = (word_of_nat (le_value (xs @ ys)) :: u32)"
    by (simp only: ucast_nat u)
  moreover have "(word_of_nat (le_value (xs @ ys)) :: u32) = word_of_nat (le_value xs)" by (simp only: v z)
  ultimately show "ucast (word_of_nat (le_value (xs @ ys)) AND 0xFFFFFFFF :: u64) = (word_of_nat (le_value xs) :: u32)" by (simp only:)
  have "unat (drop_bit 32 (word_of_nat (le_value (xs @ ys)) :: u64)) = drop_bit 32 (le_value (xs @ ys))"
    by (simp only: unat_drop_bit_eq u)
  also have "\<dots> = le_value ys" unfolding v drop_bit_eq_div using lx by simp
  finally have "unat (drop_bit 32 (word_of_nat (le_value (xs @ ys)) :: u64)) = le_value ys" .
  then show "ucast (drop_bit 32 (word_of_nat (le_value (xs @ ys)) :: u64)) = (word_of_nat (le_value ys) :: u32)"
    by (simp add: ucast_nat)
qed

lemma ntoh64_bytes:
  assumes "length bs = 8"
  shows "openswoole_ntoh64 (word_of_nat (le_value bs)) = word_of_nat (be_value bs)"
proof -
  define xs ys where "xs = take 4 bs" and "ys = drop 4 bs"
  have l: "length xs = 4" "length ys = 4" and bs: "bs = xs @ ys" using assms by (simp_all add: xs_def ys_def)
  have u: "ucast (word_of_nat (be_value zs) :: u32) = (word_of_nat (be_value zs) :: u64)" if "length zs = 4" for zs
    using unat_be_value [of zs, where 'a = 32] that by (simp add: ucast_nat)
  have disj: "push_bit 32 (ucast x) OR ucast y = (push_bit 32 (ucast x) + ucast y :: u64)" for x y :: u32
    by (rule sym, rule disjunctive_add) (auto simp: bit_simps dest: bit_imp_le_length)
  show ?thesis
    unfolding bs openswoole_ntoh64_def Let_def ntoh64_words [OF l] ntohl_bytes [OF l(1)] ntohl_bytes [OF l(2)] disj u [OF l(1)] u [OF l(2)]
    using l(2) by (simp add: be_value_append push_bit_eq_mult)
qed

lemma hton64_ntoh64: "openswoole_hton64 = openswoole_ntoh64"
proof
  fix w :: u64
  have "ucast (drop_bit 32 w AND 0xFFFFFFFF) = (ucast (drop_bit 32 w) :: u32)"
    unfolding byte_masks by (rule bit_word_eqI) (auto simp: bit_simps)
  then show "openswoole_hton64 w = openswoole_ntoh64 w" by (simp only: openswoole_hton64_def openswoole_ntoh64_def Let_def)
qed

text \<open>What the network value of a 64-bit length is in memory: eight bytes in big-endian order.\<close>

lemma hton64_store: "n < 2 ^ 64 \<Longrightarrow> le_bytes 8 (unat (openswoole_hton64 (word_of_nat n))) = be_bytes 8 n"
proof -
  assume n: "n < 2 ^ 64"
  have e: "le_value (le_bytes 8 n) = n" using n by (simp add: le_value_bytes)
  have "openswoole_hton64 (word_of_nat n) = word_of_nat (be_value (le_bytes 8 n))"
    using ntoh64_bytes [of "le_bytes 8 n"] by (simp add: hton64_ntoh64 e)
  then have "unat (openswoole_hton64 (word_of_nat n)) = be_value (le_bytes 8 n)"
    using unat_be_value [of "le_bytes 8 n", where 'a = 64] by simp
  then show ?thesis using le_bytes_value [of "rev (le_bytes 8 n)"] by (simp add: be_value_def be_bytes_def)
qed

text \<open>The unsigned value of a length field in its byte order.\<close>

definition field_value :: "char \<Rightarrow> bytes \<Rightarrow> nat" where
  "field_value type bs = (if type \<in> {CHR ''n'', CHR ''N''} then be_value bs else le_value bs)"

definition signed_of :: "nat \<Rightarrow> nat \<Rightarrow> int" where
  "signed_of w n = (if n < 2 ^ (w - 1) then int n else int n - 2 ^ w)"

lemma sint_signed_of:
  assumes "n < 2 ^ LENGTH('a)"
  shows "sint (word_of_nat n :: 'a :: len word) = signed_of LENGTH('a) n"
proof -
  obtain k where k: "LENGTH('a) = Suc k" by (cases "LENGTH('a)") auto
  have "sint (word_of_nat n :: 'a word) = (int n + 2 ^ k) mod 2 ^ Suc k - 2 ^ k"
    using int_word_sint [of "int n", where 'a = 'a] by (simp add: k)
  moreover have "(int n + 2 ^ k) mod 2 ^ Suc k = (if n < 2 ^ k then int n + 2 ^ k else int n - 2 ^ k)"
  proof (cases "n < 2 ^ k")
    case True
    then have "int n < 2 ^ k" by (metis of_nat_less_iff of_nat_numeral of_nat_power)
    then show ?thesis using True by simp
  next
    case False
    then have "2 ^ k \<le> int n" by (metis not_less of_nat_le_iff of_nat_numeral of_nat_power)
    moreover have "int n < 2 * 2 ^ k" using assms unfolding k by (metis of_nat_less_iff of_nat_numeral of_nat_power power_Suc)
    ultimately have "(int n - 2 ^ k) mod (2 * 2 ^ k) = int n - 2 ^ k" by (intro mod_pos_pos_trivial) auto
    moreover have "(int n + 2 ^ k) mod (2 * 2 ^ k) = (int n - 2 ^ k) mod (2 * 2 ^ k)"
      using mod_add_self2 [of "int n - 2 ^ k" "2 * 2 ^ k"] by (simp add: algebra_simps)
    ultimately show ?thesis using False by simp
  qed
  ultimately show ?thesis by (simp add: signed_of_def k)
qed

subsection \<open>Properties\<close>

lemma swap16_le: "length bs = 2 \<Longrightarrow> openswoole_swap_endian16 (word_of_nat (be_value bs)) = word_of_nat (le_value bs)"
  using swap16_bytes [of "bs ! 1" "bs ! 0"]
  by (cases bs; cases "tl bs") (auto simp: be_value_def simp del: le_value.simps)

lemma swap32_le: "length bs = 4 \<Longrightarrow> openswoole_swap_endian32 (word_of_nat (be_value bs)) = word_of_nat (le_value bs)"
  by (auto simp: be_value_def swap32_bytes numeral_eq_Suc length_Suc_conv simp del: le_value.simps)

lemma uint_of_unat: "unat w = n \<Longrightarrow> uint w = int n"
  by (metis of_nat_unat)

lemma uint_u16: "length bs = 2 \<Longrightarrow> uint (word_of_nat (le_value bs) :: u16) = int (le_value bs)"
    "length bs = 2 \<Longrightarrow> uint (word_of_nat (be_value bs) :: u16) = int (be_value bs)"
  using unat_le_value [of bs, where 'a = 16] unat_be_value [of bs, where 'a = 16] by (simp_all add: uint_of_unat)

text \<open>
  \<^verbatim>\<open>openswoole_unpack\<close> reads exactly \<^verbatim>\<open>openswoole_type_size\<close> bytes and decodes them in the byte order of the type
  letter; the one- and two-byte unsigned types are nonnegative, while every four-byte type comes back as a
  signed 32-bit number.\<close>

theorem unpack_correct:
  assumes "k = openswoole_type_size type" and "0 < k"
  shows "openswoole_unpack type data =
     (if length data < k then None
      else let v = field_value type (take k data) in
           Some (if type \<in> {CHR ''C'', CHR ''S'', CHR ''n'', CHR ''v''} then int v else signed_of (8 * k) v))"
proof (cases "length data < k")
  case True
  then show ?thesis using assms
    by (auto simp: openswoole_unpack_def openswoole_type_size_def load16_def load32_def mem_read_def split: if_splits)
next
  case False
  define bs where "bs = take k data"
  have l: "length bs = k" and m: "mem_read 0 k data = Some bs" using False by (simp_all add: bs_def mem_read_def)
  have lt: "le_value bs < 256 ^ k" "be_value bs < 256 ^ k" using le_value_less [of bs] be_value_less [of bs] l by simp_all
  consider "k = 1" "type \<in> {CHR ''c'', CHR ''C''}" | "k = 2" "type \<in> {CHR ''s'', CHR ''S'', CHR ''n'', CHR ''v''}"
    | "k = 4" "type \<in> {CHR ''l'', CHR ''L'', CHR ''N'', CHR ''V''}"
    using assms by (auto simp: openswoole_type_size_def split: if_splits)
  then show ?thesis
  proof cases
    case 1
    then obtain b where b: "bs = [b]" using l by (auto simp: length_Suc_conv)
    have "sint b = signed_of 8 (unat b)" using sint_signed_of [of "unat b", where 'a = 8] u8_less [of b] by simp
    moreover have t: "take 1 data = bs" "mem_read 0 1 data = Some bs" "\<not> length data < 1" using 1 m False by (simp_all add: bs_def)
    ultimately show ?thesis using 1(2) b unfolding 1(1)
      by (auto simp: openswoole_unpack_def field_value_def Let_def simp del: One_nat_def)
  next
    case 2
    then have s: "sint (word_of_nat (le_value bs) :: u16) = signed_of 16 (le_value bs)"
      using sint_signed_of [of "le_value bs", where 'a = 16] lt by simp
    have t: "take 2 data = bs" "mem_read 0 2 data = Some bs" "\<not> length data < 2" "length bs = 2" using 2 m False l by (simp_all add: bs_def)
    show ?thesis using 2(2) unfolding 2(1)
      by (auto simp: openswoole_unpack_def load16_def field_value_def Let_def ntohs_bytes swap16_le uint_u16 s t)
  next
    case 3
    then have s: "sint (word_of_nat (le_value bs) :: u32) = signed_of 32 (le_value bs)"
        "sint (word_of_nat (be_value bs) :: u32) = signed_of 32 (be_value bs)"
      using sint_signed_of [of "le_value bs", where 'a = 32] sint_signed_of [of "be_value bs", where 'a = 32] lt by simp_all
    have t: "take 4 data = bs" "mem_read 0 4 data = Some bs" "\<not> length data < 4" "length bs = 4" using 3 m False l by (simp_all add: bs_def)
    show ?thesis using 3(2) unfolding 3(1)
      by (auto simp: openswoole_unpack_def load32_def field_value_def Let_def ntohl_bytes swap32_le s t)
  qed
qed

theorem unpack_correct_witness: "openswoole_unpack CHR ''N'' [0, 0, 1, 2, 9] = Some 258"
proof -
  have "openswoole_type_size CHR ''N'' = 4" by (simp add: openswoole_type_size_def)
  then show ?thesis using unpack_correct [of 4 "CHR ''N''" "[0, 0, 1, 2, 9]"] by (simp add: field_value_def be_value_def signed_of_def)
qed

text \<open>
  \<^verbatim>\<open>openswoole_ntoh64\<close> turns eight bytes in network order into their value, and undoes \<^verbatim>\<open>openswoole_hton64\<close>.\<close>

theorem ntoh64_correct:
  "openswoole_ntoh64 (openswoole_hton64 w) = w \<and>
   (length bs = 8 \<longrightarrow> openswoole_ntoh64 (word_of_nat (le_value bs)) = word_of_nat (be_value bs))"
proof
  let ?n = "unat w"
  have n: "?n < 2 ^ 64" using unsigned_less [of w, where ?'a = nat] by simp
  define x where "x = openswoole_hton64 w"
  have "unat x < 256 ^ 8" using unsigned_less [of x, where ?'a = nat] by simp
  then have "unat x = le_value (le_bytes 8 (unat x))" by (simp only: le_value_bytes mod_less)
  also have "le_bytes 8 (unat x) = be_bytes 8 ?n" using hton64_store [OF n] by (simp add: x_def)
  finally have "x = word_of_nat (le_value (be_bytes 8 ?n))" by (metis ucast_nat ucast_id)
  then show "openswoole_ntoh64 (openswoole_hton64 w) = w"
    unfolding x_def [symmetric] using ntoh64_bytes [of "be_bytes 8 ?n"] n by (simp add: be_value_bytes)
  show "length bs = 8 \<longrightarrow> openswoole_ntoh64 (word_of_nat (le_value bs)) = word_of_nat (be_value bs)"
    using ntoh64_bytes by blast
qed

theorem ntoh64_correct_witness: "openswoole_ntoh64 (word_of_nat (le_value [0, 0, 0, 0, 0, 0, 1, 0])) = 256"
  using ntoh64_correct [of 0 "[0, 0, 0, 0, 0, 0, 1, 0]"] by (simp add: be_value_def)

end
