(* ===== verification/Osw_Length_Protocol.thy ===== *)
theory Osw_Length_Protocol
  imports Osw_String Osw_Endian
begin

text \<open>
  Receiving packages whose length stands in their header: \<^verbatim>\<open>Protocol::recv_with_length_protocol\<close> and
  \<^verbatim>\<open>Protocol::default_length_func\<close> of \<^verbatim>\<open>src/protocol/base.cc\<close>. The socket is the list of what will arrive on it;
  the callback \<^verbatim>\<open>onPackage\<close>, the test whether it removed the connection, and the length function are
  parameters. \<open>None\<close> is a fault: bytes written outside the receive buffer, a failed assertion, or
  \<^verbatim>\<open>std::bad_alloc\<close>.
\<close>

subsection \<open>The socket\<close>

datatype error_class = E_ERROR | E_CLOSE | E_WAIT

datatype recv_event = Seg bytes | Recv_error error_class

datatype recv_result = Got bytes | Failed error_class

text \<open>\<^verbatim>\<open>Socket::recv\<close> of at most \<open>n\<close> bytes: a part of the next segment; \<open>Got []\<close> is the end of the stream. When
  nothing has arrived the call would block.\<close>

fun sock_recv :: "nat \<Rightarrow> recv_event list \<Rightarrow> recv_result \<times> recv_event list" where
  "sock_recv n [] = (Failed E_WAIT, [])"
| "sock_recv n (Recv_error e # es) = (Failed e, es)"
| "sock_recv n (Seg bs # es) = (Got (take n bs), if length bs \<le> n then es else Seg (drop n bs) # es)"

subsection \<open>The protocol\<close>

record protocol =
  package_length_type :: char
  package_length_size :: nat
  package_length_offset :: nat
  package_body_offset :: nat
  package_max_length :: nat
  real_header_length :: nat

text \<open>The sum of the body offset and the field is a signed 32-bit number, and wraps.\<close>

definition default_length_func :: "nat option \<Rightarrow> protocol \<Rightarrow> bytes \<Rightarrow> (int \<times> protocol) option" where
  "default_length_func get_size p data =
     (let size = (case get_size of None \<Rightarrow> package_length_size p | Some k \<Rightarrow> k) in
      if size = 0 then Some (- 1, p)
      else if length data < package_length_offset p + size
      then Some (0, p\<lparr>real_header_length := package_length_offset p + size\<rparr>)
      else map_option (\<lambda>n. (if n < 0 then - 1 else sint (word_of_int (int (package_body_offset p) + n) :: u32), p))
             (openswoole_unpack (package_length_type p) (drop (package_length_offset p) data)))"

record 'w lp_env =
  env_length :: "bytes \<Rightarrow> int option"
  env_proto :: protocol
  env_get_size :: "nat option"
  env_alloc :: allocator
  env_package :: "bytes \<Rightarrow> 'w \<Rightarrow> int \<times> 'w"
  env_removed :: "'w \<Rightarrow> bool"
  env_ssl :: bool

record 'w lp_state =
  lp_buffer :: ostring
  lp_recv_wait :: bool
  lp_skip_recv :: bool
  lp_events :: "recv_event list"
  lp_world :: 'w

datatype lp_next = Return int | Do_recv | Do_get_length

definition header_size :: "'w lp_env \<Rightarrow> nat" where
  "header_size e = package_length_offset (env_proto e) +
     (case env_get_size e of None \<Rightarrow> package_length_size (env_proto e) | Some k \<Rightarrow> k)"

text \<open>From the label \<^verbatim>\<open>_do_dispatch\<close>: hand over the package, and look at what is behind it.\<close>

definition lp_dispatch :: "'w lp_env \<Rightarrow> 'w lp_state \<Rightarrow> (lp_next \<times> 'w lp_state) option" where
  "lp_dispatch e s = do {
     bs \<leftarrow> mem_read 0 (nat (st_offset (lp_buffer s))) (st_mem (lp_buffer s));
     let (r, w) = env_package e bs (lp_world s);
     let s1 = s\<lparr>lp_world := w\<rparr>;
     if r < 0 then Some (Return (- 1), s1)
     else if env_removed e w then Some (Return 0, s1)
     else if int (st_length (lp_buffer s)) > st_offset (lp_buffer s)
     then do {
       b \<leftarrow> string_reduce (st_offset (lp_buffer s)) (lp_buffer s);
       Some (Do_get_length, s1\<lparr>lp_recv_wait := False, lp_buffer := b\<rparr>)
     }
     else Some (if env_ssl e then Do_recv else Return 0, s1\<lparr>lp_recv_wait := False, lp_buffer := string_clear (lp_buffer s)\<rparr>)
   }"

text \<open>From the label \<^verbatim>\<open>_do_get_length\<close>.\<close>

definition lp_get_length :: "'w lp_env \<Rightarrow> 'w lp_state \<Rightarrow> (lp_next \<times> 'w lp_state) option" where
  "lp_get_length e s =
     Option.bind (env_length e (string_value (lp_buffer s))) (\<lambda>pl.
      if pl < 0 then Some (Return (- 1), s)
      else if pl = 0 then
        Some (Return (if st_length (lp_buffer s) = package_length_offset (env_proto e) + package_length_size (env_proto e) then - 1 else 0), s)
      else if pl > int (package_max_length (env_proto e)) then Some (Return (- 1), s)
      else do {
        b \<leftarrow> (if st_size (lp_buffer s) < nat pl then string_extend (env_alloc e) (nat pl) (lp_buffer s) else Some (lp_buffer s));
        let s1 = s\<lparr>lp_recv_wait := True, lp_buffer := b\<lparr>st_offset := pl\<rparr>\<rparr>;
        if int (st_length b) \<ge> pl then lp_dispatch e s1 else Some (Do_recv, s1)
      })"

partial_function (option) lp_length_loop :: "'w lp_env \<Rightarrow> 'w lp_state \<Rightarrow> (lp_next \<times> 'w lp_state) option" where
  "lp_length_loop e s = do {
     (x, s1) \<leftarrow> lp_get_length e s;
     case x of Do_get_length \<Rightarrow> lp_length_loop e s1 | _ \<Rightarrow> Some (x, s1)
   }"

text \<open>After bytes have arrived.\<close>

definition lp_received :: "'w lp_env \<Rightarrow> 'w lp_state \<Rightarrow> (lp_next \<times> 'w lp_state) option" where
  "lp_received e s =
     (if lp_recv_wait s then
        (if int (st_length (lp_buffer s)) \<ge> st_offset (lp_buffer s) then do {
           (x, s1) \<leftarrow> lp_dispatch e s;
           case x of Do_get_length \<Rightarrow> lp_length_loop e s1 | _ \<Rightarrow> Some (x, s1)
         }
         else Some (if env_ssl e then Do_recv else Return 0, s))
      else lp_length_loop e s)"

text \<open>From the label \<^verbatim>\<open>_do_recv\<close>; the size asked for is a 32-bit number.\<close>

definition lp_recv_size :: "'w lp_env \<Rightarrow> ostring \<Rightarrow> nat" where
  "lp_recv_size e b =
     (if st_offset b > 0 then nat ((st_offset b - int (st_length b)) mod 2 ^ 32) else header_size e)"

definition lp_recv :: "'w lp_env \<Rightarrow> 'w lp_state \<Rightarrow> (lp_next \<times> 'w lp_state) option" where
  "lp_recv e s =
     (if env_removed e (lp_world s) then Some (Return 0, s)
      else (case sock_recv (lp_recv_size e (lp_buffer s)) (lp_events s) of
          (Failed E_CLOSE, es) \<Rightarrow> Some (Return (- 1), s\<lparr>lp_events := es\<rparr>)
        | (Failed _, es) \<Rightarrow> Some (Return 0, s\<lparr>lp_events := es\<rparr>)
        | (Got bs, es) \<Rightarrow>
            if bs = [] then Some (Return (- 1), s\<lparr>lp_events := es\<rparr>)
            else do {
              m \<leftarrow> mem_write (st_length (lp_buffer s)) bs (st_mem (lp_buffer s));
              lp_received e (s\<lparr>lp_events := es,
                lp_buffer := (lp_buffer s)\<lparr>st_mem := m, st_length := st_length (lp_buffer s) + length bs\<rparr>\<rparr>)
            }))"

partial_function (option) lp_recv_loop :: "'w lp_env \<Rightarrow> 'w lp_state \<Rightarrow> (int \<times> 'w lp_state) option" where
  "lp_recv_loop e s = do {
     (x, s1) \<leftarrow> lp_recv e s;
     case x of Return r \<Rightarrow> Some (r, s1) | _ \<Rightarrow> lp_recv_loop e s1
   }"

definition recv_with_length_protocol :: "'w lp_env \<Rightarrow> 'w lp_state \<Rightarrow> (int \<times> 'w lp_state) option" where
  "recv_with_length_protocol e s =
     (if env_get_size e = Some 0 then Some (- 1, s)
      else if lp_skip_recv s then do {
        (x, s1) \<leftarrow> lp_length_loop e (s\<lparr>lp_skip_recv := False\<rparr>);
        case x of Return r \<Rightarrow> Some (r, s1) | _ \<Rightarrow> lp_recv_loop e s1
      }
      else lp_recv_loop e s)"

text \<open>The reactor calls it as long as something has arrived and the connection is open.\<close>

partial_function (option) lp_drive :: "'w lp_env \<Rightarrow> 'w lp_state \<Rightarrow> (int \<times> 'w lp_state) option" where
  "lp_drive e s =
     (if lp_events s = [] then Some (0, s)
      else do {
        (r, s1) \<leftarrow> recv_with_length_protocol e s;
        if r < 0 then Some (r, s1) else lp_drive e s1
      })"

subsection \<open>Packages of a stream\<close>

text \<open>The specification: the packages at the front of a byte string under a length function, and the rest.\<close>

function packages :: "(bytes \<Rightarrow> int) \<Rightarrow> nat \<Rightarrow> bytes \<Rightarrow> bytes list \<times> bytes" where
  "packages lenf mx bs =
     (let pl = lenf bs in
      if 0 < pl \<and> pl \<le> int mx \<and> pl \<le> int (length bs)
      then (take (nat pl) bs # fst (packages lenf mx (drop (nat pl) bs)), snd (packages lenf mx (drop (nat pl) bs)))
      else ([], bs))"
  by pat_completeness auto
termination
  by (relation "measure (\<lambda>(f, m, bs). length bs)") auto

declare packages.simps [simp del]

lemma packages_first:
  "lenf bs = int n \<Longrightarrow> 0 < n \<Longrightarrow> n \<le> mx \<Longrightarrow> n \<le> length bs \<Longrightarrow>
     packages lenf mx bs = (take n bs # fst (packages lenf mx (drop n bs)), snd (packages lenf mx (drop n bs)))"
  by (subst packages.simps) simp

lemma packages_none:
  "\<not> (0 < lenf bs \<and> lenf bs \<le> int mx \<and> lenf bs \<le> int (length bs)) \<Longrightarrow> packages lenf mx bs = ([], bs)"
  by (subst packages.simps) (auto simp: Let_def)

lemma packages_concat: "concat (fst (packages lenf mx bs)) @ snd (packages lenf mx bs) = bs"
proof (induction lenf mx bs rule: packages.induct)
  case (1 lenf mx bs)
  show ?case
  proof (cases "0 < lenf bs \<and> lenf bs \<le> int mx \<and> lenf bs \<le> int (length bs)")
    case True
    then show ?thesis using "1.IH" (2) [OF refl True] by (subst (1 2) packages.simps) (simp add: Let_def)
  next
    case False
    then show ?thesis by (simp add: packages_none)
  qed
qed

text \<open>The rest announces a package that is not complete, or its header is not complete.\<close>

definition rest_ok :: "(bytes \<Rightarrow> int) \<Rightarrow> nat \<Rightarrow> bytes \<Rightarrow> bool" where
  "rest_ok lenf mx r \<longleftrightarrow> 0 \<le> lenf r \<and> lenf r \<le> int mx"

text \<open>
  The interface of a length function with headers of at most \<open>hdr\<close> bytes: what it once said it says again when
  more has arrived, and a complete header has a length or an error.
\<close>

locale length_function =
  fixes lenf :: "bytes \<Rightarrow> int" and hdr :: nat
  assumes no_header: "lenf [] = 0"
    and stable: "0 < lenf xs \<Longrightarrow> lenf (xs @ ys) = lenf xs"
    and stable_error: "lenf xs < 0 \<Longrightarrow> lenf (xs @ ys) < 0"
    and decided: "hdr \<le> length xs \<Longrightarrow> lenf xs \<noteq> 0"
begin

lemma header_missing: "lenf xs = 0 \<Longrightarrow> length xs < hdr"
  using decided [of xs] by (cases "hdr \<le> length xs") auto

lemma packages_append:
  "packages lenf mx (xs @ ys) =
     (fst (packages lenf mx xs) @ fst (packages lenf mx (snd (packages lenf mx xs) @ ys)), snd (packages lenf mx (snd (packages lenf mx xs) @ ys)))"
proof (induction "length xs" arbitrary: xs rule: less_induct)
  case less
  show ?case
  proof (cases "0 < lenf xs \<and> lenf xs \<le> int mx \<and> lenf xs \<le> int (length xs)")
    case True
    then obtain n where n: "lenf xs = int n" "0 < n" "n \<le> mx" "n \<le> length xs" by (metis of_nat_0_less_iff of_nat_le_iff zero_less_imp_eq_int)
    have "lenf (xs @ ys) = int n" using stable [of xs ys] n by simp
    then have "packages lenf mx (xs @ ys) =
        (take n xs # fst (packages lenf mx (drop n xs @ ys)), snd (packages lenf mx (drop n xs @ ys)))"
      using packages_first [of lenf "xs @ ys" n mx] n by simp
    then show ?thesis using less.hyps [of "drop n xs"] n packages_first [of lenf xs n mx] by simp
  next
    case False
    then show ?thesis by (simp add: packages_none)
  qed
qed

text \<open>Once the rest is bad, it stays so.\<close>

lemma bad_rest:
  assumes "\<not> rest_ok lenf mx r"
  shows "packages lenf mx (r @ ys) = ([], r @ ys)" "\<not> rest_ok lenf mx (r @ ys)"
proof -
  consider "lenf r < 0" | "int mx < lenf r" using assms by (auto simp: rest_ok_def)
  then have "lenf (r @ ys) < 0 \<or> int mx < lenf (r @ ys)"
  proof cases
    case 2
    then have "0 < lenf r" by linarith
    then show ?thesis using 2 stable by simp
  qed (simp add: stable_error)
  then show "packages lenf mx (r @ ys) = ([], r @ ys)" "\<not> rest_ok lenf mx (r @ ys)"
    by (auto simp: rest_ok_def intro: packages_none)
qed

end

subsection \<open>Receiving\<close>

definition deliver :: "'w lp_env \<Rightarrow> bytes list \<Rightarrow> 'w \<Rightarrow> 'w" where
  "deliver e fs w = foldl (\<lambda>w f. snd (env_package e f w)) w fs"

lemma deliver_simps [simp]:
  "deliver e [] w = w" "deliver e (f # fs) w = deliver e fs (snd (env_package e f w))" "deliver e (fs @ gs) w = deliver e gs (deliver e fs w)"
  by (simp_all add: deliver_def)

text \<open>A callback that accepts every package and leaves the connection open.\<close>

definition accepting :: "'w lp_env \<Rightarrow> bool" where
  "accepting e \<longleftrightarrow> (\<forall>bs w. 0 \<le> fst (env_package e bs w)) \<and> (\<forall>w. \<not> env_removed e w)"

primrec stream :: "recv_event list \<Rightarrow> bytes" where
  "stream [] = []"
| "stream (ev # es) = (case ev of Seg bs \<Rightarrow> bs @ stream es | Recv_error _ \<Rightarrow> stream es)"

definition segments :: "recv_event list \<Rightarrow> bool" where
  "segments es \<longleftrightarrow> (\<forall>ev\<in>set es. \<exists>bs. ev = Seg bs \<and> bs \<noteq> [])"

lemma segments_stream: "segments es \<Longrightarrow> stream es = [] \<longleftrightarrow> es = []"
  by (cases es) (auto simp: segments_def)

lemma sock_recv_segments:
  assumes "segments es" and "es \<noteq> []" and "0 < n"
  obtains c es' where "sock_recv n es = (Got c, es')" "c \<noteq> []" "length c \<le> n" "stream es = c @ stream es'" "segments es'"
  using assms by (cases es) (auto simp: segments_def)

definition buffer_value :: "'w lp_state \<Rightarrow> bytes" where
  "buffer_value s = string_value (lp_buffer s)"

context length_function
begin

definition lp_wf :: "'w lp_env \<Rightarrow> bool" where
  "lp_wf e \<longleftrightarrow> (\<forall>bs. bs \<noteq> [] \<longrightarrow> env_length e bs = Some (lenf bs)) \<and> env_get_size e = None \<and> header_size e = hdr \<and> allocator_ok (env_alloc e) \<and> accepting e \<and>
     package_max_length (env_proto e) < 2 ^ 32"

abbreviation pkgs :: "'w lp_env \<Rightarrow> bytes \<Rightarrow> bytes list" where
  "pkgs e v \<equiv> fst (packages lenf (package_max_length (env_proto e)) v)"

abbreviation rest :: "'w lp_env \<Rightarrow> bytes \<Rightarrow> bytes" where
  "rest e v \<equiv> snd (packages lenf (package_max_length (env_proto e)) v)"

abbreviation fine :: "'w lp_env \<Rightarrow> bytes \<Rightarrow> bool" where
  "fine e r \<equiv> rest_ok lenf (package_max_length (env_proto e)) r"

definition buf_ok :: "'w lp_state \<Rightarrow> bool" where
  "buf_ok s \<longleftrightarrow> string_inv (lp_buffer s) \<and> 2 * hdr \<le> st_size (lp_buffer s) \<and> \<not> lp_skip_recv s"

definition lp_ok :: "'w lp_env \<Rightarrow> 'w lp_state \<Rightarrow> bool" where
  "lp_ok e s \<longleftrightarrow> buf_ok s \<and>
     (if lp_recv_wait s
      then lenf (buffer_value s) = st_offset (lp_buffer s) \<and> int (length (buffer_value s)) < st_offset (lp_buffer s) \<and>
           st_offset (lp_buffer s) \<le> int (st_size (lp_buffer s)) \<and> st_offset (lp_buffer s) \<le> int (package_max_length (env_proto e))
      else st_offset (lp_buffer s) \<le> 0 \<and> lenf (buffer_value s) = 0)"

text \<open>What a step from a state whose buffer holds \<open>v\<close> does.\<close>

definition lp_result :: "'w lp_env \<Rightarrow> 'w lp_state \<Rightarrow> bytes \<Rightarrow> lp_next \<Rightarrow> 'w lp_state \<Rightarrow> bool" where
  "lp_result e s v x s' \<longleftrightarrow> lp_events s' = lp_events s \<and> lp_world s' = deliver e (pkgs e v) (lp_world s) \<and>
     (if fine e (rest e v) then (x = Return 0 \<or> x = Do_recv) \<and> buffer_value s' = rest e v \<and> lp_ok e s'
      else x = Return (- 1))"

lemma hdr_pos: "0 < hdr"
  using decided [of "[]"] no_header by auto

lemma lp_dispatch_spec:
  assumes wf: "lp_wf e" and b: "buf_ok s" and n: "st_offset (lp_buffer s) = int n" "0 < n" "n \<le> length (buffer_value s)"
    "lenf (buffer_value s) = int n"
  shows "\<exists>x s'. lp_dispatch e s = Some (x, s') \<and> lp_events s' = lp_events s \<and>
     lp_world s' = snd (env_package e (take n (buffer_value s)) (lp_world s)) \<and> buf_ok s' \<and>
     buffer_value s' = drop n (buffer_value s) \<and> \<not> lp_recv_wait s' \<and> st_offset (lp_buffer s') = 0 \<and>
     (if n < length (buffer_value s) then x = Do_get_length else x = Return 0 \<or> x = Do_recv)"
proof -
  let ?b = "lp_buffer s"
  have inv: "string_inv ?b" and len: "st_length ?b = length (buffer_value s)"
    using b string_value_length by (auto simp: buf_ok_def buffer_value_def)
  have m: "mem_read 0 n (st_mem ?b) = Some (take n (buffer_value s))"
    using string_read_front [OF inv, of n] len n(3) by (simp add: buffer_value_def)
  obtain r w where rw: "env_package e (take n (buffer_value s)) (lp_world s) = (r, w)" by fastforce
  have "0 \<le> fst (env_package e (take n (buffer_value s)) (lp_world s))" "\<not> env_removed e w" using wf by (simp_all add: lp_wf_def accepting_def)
  then have r: "\<not> r < 0" "\<not> env_removed e w" by (simp_all add: rw)
  show ?thesis
  proof (cases "n < length (buffer_value s)")
    case True
    obtain b' where b': "string_reduce (int n) ?b = Some b'" "string_inv b'" "string_value b' = drop n (string_value ?b)"
        "st_size b' = st_size ?b" "st_offset b' = 0"
      by (rule string_reduce_spec [OF inv, of n]) (use n len in auto)
    have "lp_dispatch e s = Some (Do_get_length, s\<lparr>lp_world := w, lp_recv_wait := False, lp_buffer := b'\<rparr>)"
      using True m rw r n(1) len b'(1) by (simp add: lp_dispatch_def)
    then show ?thesis using True b rw b' by (simp add: buf_ok_def buffer_value_def)
  next
    case False
    have "lp_dispatch e s = Some (if env_ssl e then Do_recv else Return 0, s\<lparr>lp_world := w, lp_recv_wait := False, lp_buffer := string_clear ?b\<rparr>)"
      using False m rw r n(1,3) len by (simp add: lp_dispatch_def)
    moreover have "string_value (string_clear ?b) = []" "string_inv (string_clear ?b)" "st_size (string_clear ?b) = st_size ?b" "st_offset (string_clear ?b) = 0"
      by (simp_all add: string_clear_def string_value_def string_inv_def)
    ultimately show ?thesis using False b rw n(3) by (simp add: buf_ok_def buffer_value_def)
  qed
qed

end

context length_function
begin

text \<open>After \<^verbatim>\<open>_do_dispatch\<close> of the first package, the rest is handled by the loop.\<close>

lemma lp_result_dispatch:
  assumes n: "lenf v = int n" "0 < n" "n \<le> package_max_length (env_proto e)" "n \<le> length v"
    and s1: "lp_events s1 = lp_events s" "lp_world s1 = snd (env_package e (take n v) (lp_world s))"
    and r: "lp_result e s1 (drop n v) x s'"
  shows "lp_result e s v x s'"
  using r s1 packages_first [of lenf v n "package_max_length (env_proto e)"] n by (simp add: lp_result_def)

lemma lp_result_empty:
  assumes "buf_ok s" and "buffer_value s = []" and "\<not> lp_recv_wait s" and "st_offset (lp_buffer s) = 0" and "x = Return 0 \<or> x = Do_recv"
  shows "lp_result e s [] x s"
proof -
  have "packages lenf mx [] = ([], [])" for mx by (rule packages_none) simp
  then show ?thesis using assms no_header by (simp add: lp_result_def lp_ok_def rest_ok_def)
qed

lemma lp_length_loop_spec:
  assumes wf: "lp_wf e" and b: "buf_ok s" and w: "\<not> lp_recv_wait s" and o: "st_offset (lp_buffer s) \<le> 0"
    and ne: "buffer_value s \<noteq> []"
  shows "\<exists>x s'. lp_length_loop e s = Some (x, s') \<and> lp_result e s (buffer_value s) x s'"
  using b w o ne
proof (induction "length (buffer_value s)" arbitrary: s rule: less_induct)
  case less
  let ?v = "buffer_value s" and ?mx = "package_max_length (env_proto e)"
  have el: "env_length e ?v = Some (lenf ?v)" using wf less.prems(4) by (auto simp: lp_wf_def)
  have al: "allocator_ok (env_alloc e)" using wf by (auto simp: lp_wf_def)
  have inv: "string_inv (lp_buffer s)" using less.prems(1) by (simp add: buf_ok_def)
  have len: "st_length (lp_buffer s) = length ?v" using string_value_length [OF inv] by (simp add: buffer_value_def)
  show ?case
  proof (cases "0 < lenf ?v \<and> lenf ?v \<le> int ?mx")
    case False
    then have none: "packages lenf ?mx ?v = ([], ?v)" by (intro packages_none) auto
    have hs: "package_length_offset (env_proto e) + package_length_size (env_proto e) = hdr" using wf by (auto simp: lp_wf_def header_size_def)
    have "length ?v < hdr" if "lenf ?v = 0" using header_missing [OF that] .
    then have "lp_get_length e s = Some (Return (if lenf ?v = 0 then 0 else - 1), s)"
      using False len hs by (auto simp: lp_get_length_def el buffer_value_def [symmetric])
    moreover have "lp_result e s ?v (Return (if lenf ?v = 0 then 0 else - 1)) s"
      using none less.prems False by (auto simp: lp_result_def lp_ok_def rest_ok_def)
    ultimately show ?thesis by (subst lp_length_loop.simps) auto
  next
    case True
    then obtain n where n: "lenf ?v = int n" "0 < n" "n \<le> ?mx" by (metis of_nat_0_less_iff of_nat_le_iff zero_less_imp_eq_int)
    obtain bf where bf: "(if st_size (lp_buffer s) < n then string_extend (env_alloc e) n (lp_buffer s) else Some (lp_buffer s)) = Some bf"
      "string_inv bf" "string_value bf = ?v" "n \<le> st_size bf" "st_length bf = length ?v" "st_size (lp_buffer s) \<le> st_size bf"
      by (rule string_ensure_spec [OF al inv, of n]) (use len in \<open>auto simp: buffer_value_def\<close>)
    define s1 where "s1 = s\<lparr>lp_recv_wait := True, lp_buffer := bf\<lparr>st_offset := int n\<rparr>\<rparr>"
    have v1: "buffer_value s1 = ?v" and b1: "buf_ok s1" using bf less.prems(1)
      by (simp_all add: s1_def buffer_value_def string_value_def buf_ok_def string_inv_def)
    have gl: "lp_get_length e s = (if n \<le> length ?v then lp_dispatch e s1 else Some (Do_recv, s1))"
      using n bf(1,5) by (simp add: lp_get_length_def el buffer_value_def [symmetric] s1_def Let_def split del: if_split cong: if_cong)
    show ?thesis
    proof (cases "n \<le> length ?v")
      case le: True
      obtain x s2 where d: "lp_dispatch e s1 = Some (x, s2)" "lp_events s2 = lp_events s1"
        "lp_world s2 = snd (env_package e (take n ?v) (lp_world s1))" "buf_ok s2" "buffer_value s2 = drop n ?v" "\<not> lp_recv_wait s2"
        "st_offset (lp_buffer s2) = 0" "if n < length ?v then x = Do_get_length else x = Return 0 \<or> x = Do_recv"
        using lp_dispatch_spec [OF wf b1 _ n(2)] n(1) le unfolding v1 by (auto simp: s1_def)
      have s2: "lp_events s2 = lp_events s" "lp_world s2 = snd (env_package e (take n ?v) (lp_world s))" using d by (simp_all add: s1_def)
      show ?thesis
      proof (cases "n < length ?v")
        case True
        have "length (buffer_value s2) < length ?v" unfolding d(5) length_drop using True n(2) by linarith
        then obtain y s3 where l: "lp_length_loop e s2 = Some (y, s3)" "lp_result e s2 (drop n ?v) y s3"
          using less.hyps [OF _ d(4,6)] d(5,7) True by auto
        have "lp_result e s ?v y s3" by (rule lp_result_dispatch [OF n le s2 l(2)])
        then show ?thesis using gl le d True l by (subst lp_length_loop.simps) auto
      next
        case False
        then have "lp_result e s2 (drop n ?v) x s2" using lp_result_empty [of s2 x e] d by auto
        then have "lp_result e s ?v x s2" by (rule lp_result_dispatch [OF n le s2])
        then show ?thesis using gl le d False by (subst lp_length_loop.simps) auto
      qed
    next
      case False
      then have "packages lenf ?mx ?v = ([], ?v)" using n by (intro packages_none) auto
      then have "lp_result e s ?v Do_recv s1" using n False b1 v1 bf(4) by (auto simp: lp_result_def lp_ok_def rest_ok_def s1_def)
      then show ?thesis using gl False by (subst lp_length_loop.simps) auto
    qed
  qed
qed

end

context length_function
begin

text \<open>Bytes arrive.\<close>

lemma lp_received_spec:
  assumes wf: "lp_wf e" and ok: "lp_ok e s" and b: "buf_ok s'"
    and s': "buffer_value s' = buffer_value s @ c" "lp_recv_wait s' = lp_recv_wait s" "st_offset (lp_buffer s') = st_offset (lp_buffer s)"
      "st_size (lp_buffer s') = st_size (lp_buffer s)" and c: "c \<noteq> []"
  shows "\<exists>x s1. lp_received e s' = Some (x, s1) \<and> lp_result e s' (buffer_value s') x s1"
proof (cases "lp_recv_wait s")
  case False
  then show ?thesis using lp_length_loop_spec [OF wf b] ok s' c by (simp add: lp_received_def lp_ok_def)
next
  case True
  let ?v = "buffer_value s'"
  obtain n where n: "st_offset (lp_buffer s') = int n" "0 < n" "lenf ?v = int n" "n \<le> package_max_length (env_proto e)"
    "int n \<le> int (st_size (lp_buffer s'))"
  proof -
    have o: "lenf (buffer_value s) = st_offset (lp_buffer s)" "0 < lenf (buffer_value s)" "st_offset (lp_buffer s) \<le> int (package_max_length (env_proto e))"
      "st_offset (lp_buffer s) \<le> int (st_size (lp_buffer s))"
      using ok True by (auto simp: lp_ok_def)
    have "lenf ?v = st_offset (lp_buffer s)" unfolding s'(1) using stable [OF o(2), of c] o(1) by simp
    then show ?thesis using that [of "nat (st_offset (lp_buffer s))"] o s' by auto
  qed
  have len: "st_length (lp_buffer s') = length ?v" using b string_value_length by (auto simp: buf_ok_def buffer_value_def)
  show ?thesis
  proof (cases "n \<le> length ?v")
    case le: True
    obtain x s2 where d: "lp_dispatch e s' = Some (x, s2)" "lp_events s2 = lp_events s'"
      "lp_world s2 = snd (env_package e (take n ?v) (lp_world s'))" "buf_ok s2" "buffer_value s2 = drop n ?v" "\<not> lp_recv_wait s2"
      "st_offset (lp_buffer s2) = 0" "if n < length ?v then x = Do_get_length else x = Return 0 \<or> x = Do_recv"
      using lp_dispatch_spec [OF wf b n(1,2) le n(3)] by auto
    note res = lp_result_dispatch [OF n(3,2,4) le d(2,3)]
    show ?thesis
    proof (cases "n < length ?v")
      case True
      obtain y s3 where "lp_length_loop e s2 = Some (y, s3)" "lp_result e s2 (drop n ?v) y s3"
        using lp_length_loop_spec [OF wf d(4,6)] d(5,7) True by auto
      then show ?thesis using res \<open>lp_recv_wait s\<close> s'(2) le d True n(1) len by (auto simp: lp_received_def)
    next
      case False
      then have "lp_result e s2 (drop n ?v) x s2" using lp_result_empty [of s2 x e] d by auto
      then show ?thesis using res \<open>lp_recv_wait s\<close> s'(2) le d False n(1) len by (auto simp: lp_received_def)
    qed
  next
    case False
    then have "packages lenf (package_max_length (env_proto e)) ?v = ([], ?v)" using n by (intro packages_none) auto
    then have "lp_result e s' ?v x s'" if "x = Return 0 \<or> x = Do_recv" for x
      using n False b that True s'(2) by (auto simp: lp_result_def lp_ok_def rest_ok_def)
    then show ?thesis using True s'(2) False n(1) len by (auto simp: lp_received_def)
  qed
qed

text \<open>One turn from \<^verbatim>\<open>_do_recv\<close>: \<open>c\<close> is what it reads.\<close>

definition lp_step_ok :: "'w lp_env \<Rightarrow> 'w lp_state \<Rightarrow> bytes \<Rightarrow> int option \<Rightarrow> 'w lp_state \<Rightarrow> bool" where
  "lp_step_ok e s c r s' \<longleftrightarrow> stream (lp_events s) = c @ stream (lp_events s') \<and> segments (lp_events s') \<and>
     lp_world s' = deliver e (pkgs e (buffer_value s @ c)) (lp_world s) \<and>
     (if fine e (rest e (buffer_value s @ c))
      then (r = Some 0 \<or> r = None) \<and> buffer_value s' = rest e (buffer_value s @ c) \<and> lp_ok e s' else r = Some (- 1))"

definition next_ret :: "lp_next \<Rightarrow> int option" where
  "next_ret x = (case x of Return r \<Rightarrow> Some r | _ \<Rightarrow> None)"

lemma lp_ok_packages: "lp_ok e s \<Longrightarrow> packages lenf (package_max_length (env_proto e)) (buffer_value s) = ([], buffer_value s) \<and> fine e (buffer_value s)"
  by (auto simp: lp_ok_def rest_ok_def intro!: packages_none split: if_splits)

text \<open>The bytes asked for fit into the buffer.\<close>

lemma lp_recv_size_bounds:
  assumes wf: "lp_wf e" and ok: "lp_ok e s"
  shows "0 < lp_recv_size e (lp_buffer s) \<and> st_length (lp_buffer s) + lp_recv_size e (lp_buffer s) \<le> st_size (lp_buffer s)"
proof -
  let ?b = "lp_buffer s"
  have inv: "string_inv ?b" "2 * hdr \<le> st_size ?b" using ok by (auto simp: lp_ok_def buf_ok_def)
  have len: "st_length ?b = length (buffer_value s)" using string_value_length [OF inv(1)] by (simp add: buffer_value_def)
  show ?thesis
  proof (cases "lp_recv_wait s")
    case True
    then have o: "int (length (buffer_value s)) < st_offset ?b" "st_offset ?b \<le> int (st_size ?b)"
        "st_offset ?b \<le> int (package_max_length (env_proto e))" using ok by (auto simp: lp_ok_def)
    moreover have "int (package_max_length (env_proto e)) < 2 ^ 32" using wf by (simp add: lp_wf_def)
    ultimately have "(st_offset ?b - int (st_length ?b)) mod 2 ^ 32 = st_offset ?b - int (st_length ?b)"
      using len by (intro mod_pos_pos_trivial) auto
    then show ?thesis using o len by (auto simp: lp_recv_size_def)
  next
    case False
    then have "st_offset ?b \<le> 0" "length (buffer_value s) < hdr" using ok header_missing by (auto simp: lp_ok_def)
    then show ?thesis using wf inv(2) len hdr_pos by (simp add: lp_recv_size_def lp_wf_def)
  qed
qed

lemma lp_recv_spec:
  assumes wf: "lp_wf e" and ok: "lp_ok e s" and seg: "segments (lp_events s)"
  shows "\<exists>x s' c. lp_recv e s = Some (x, s') \<and> lp_step_ok e s c (next_ret x) s' \<and> (c = [] \<longrightarrow> lp_events s = [] \<and> x = Return 0)"
proof (cases "lp_events s = []")
  case True
  then have "lp_recv e s = Some (Return 0, s)" using wf by (simp add: lp_recv_def lp_wf_def accepting_def)
  then show ?thesis using True lp_ok_packages [OF ok] ok seg by (auto simp: lp_step_ok_def next_ret_def)
next
  case False
  let ?b = "lp_buffer s" and ?n = "lp_recv_size e (lp_buffer s)"
  have inv: "string_inv ?b" "2 * hdr \<le> st_size ?b" using ok by (auto simp: lp_ok_def buf_ok_def)
  have len: "st_length ?b = length (buffer_value s)" using string_value_length [OF inv(1)] by (simp add: buffer_value_def)
  have n: "0 < ?n" "st_length ?b + ?n \<le> st_size ?b" using lp_recv_size_bounds [OF wf ok] by auto
  obtain c es where c: "sock_recv ?n (lp_events s) = (Got c, es)" "c \<noteq> []" "length c \<le> ?n" "stream (lp_events s) = c @ stream es" "segments es"
    by (rule sock_recv_segments [OF seg False n(1)])
  obtain m where m: "mem_write (st_length ?b) c (st_mem ?b) = Some m" using mem_write_Some [of "st_length ?b" c "st_mem ?b"] n c(3) by auto
  define s' where "s' = s\<lparr>lp_events := es, lp_buffer := ?b\<lparr>st_mem := m, st_length := st_length ?b + length c\<rparr>\<rparr>"
  have ml: "length m = st_size ?b" by (rule mem_write_length [OF m])
  have v: "buffer_value s' = buffer_value s @ c"
    using m inv(1) by (auto simp: s'_def buffer_value_def string_value_def mem_write_def string_inv_def split: if_splits)
  have b: "buf_ok s'" using ok ml c(3) n(2) by (auto simp: lp_ok_def buf_ok_def s'_def string_inv_def)
  obtain x s1 where r: "lp_received e s' = Some (x, s1)" "lp_result e s' (buffer_value s') x s1"
    using lp_received_spec [OF wf ok b v] ml c(2) by (auto simp: s'_def)
  have "lp_recv e s = Some (x, s1)"
    using wf c(1,2) m r(1) by (simp add: lp_recv_def lp_wf_def accepting_def s'_def)
  moreover have "lp_step_ok e s c (next_ret x) s1"
    using r(2) c v by (auto simp: lp_step_ok_def lp_result_def s'_def next_ret_def split: if_splits)
  ultimately show ?thesis using c(2) by blast
qed

end

context length_function
begin

lemma lp_step_ok_trans:
  assumes "lp_step_ok e s c r s1" and "r = Some 0 \<or> r = None" and "lp_step_ok e s1 d r' s2"
  shows "lp_step_ok e s (c @ d) r' s2"
proof -
  let ?mx = "package_max_length (env_proto e)"
  have f: "fine e (rest e (buffer_value s @ c))" "buffer_value s1 = rest e (buffer_value s @ c)"
    using assms(1,2) by (auto simp: lp_step_ok_def split: if_splits)
  have "packages lenf ?mx (buffer_value s @ c @ d) =
      (pkgs e (buffer_value s @ c) @ pkgs e (buffer_value s1 @ d), rest e (buffer_value s1 @ d))"
    using packages_append [of ?mx "buffer_value s @ c" d] f(2) by simp
  then show ?thesis using assms by (simp add: lp_step_ok_def)
qed

lemma lp_step_ok_stuck:
  assumes "lp_step_ok e s c (Some (- 1)) s1"
  shows "lp_world s1 = deliver e (pkgs e (buffer_value s @ stream (lp_events s))) (lp_world s) \<and>
     \<not> fine e (rest e (buffer_value s @ stream (lp_events s)))"
proof -
  let ?mx = "package_max_length (env_proto e)"
  have "\<not> fine e (rest e (buffer_value s @ c))" using assms by (auto simp: lp_step_ok_def split: if_splits)
  note bad = bad_rest [OF this, of "stream (lp_events s1)"]
  have "packages lenf ?mx (buffer_value s @ stream (lp_events s)) = (pkgs e (buffer_value s @ c), rest e (buffer_value s @ c) @ stream (lp_events s1))"
    using packages_append [of ?mx "buffer_value s @ c" "stream (lp_events s1)"] bad(1) assms by (simp add: lp_step_ok_def)
  then show ?thesis using assms bad(2) by (simp add: lp_step_ok_def)
qed

lemma lp_recv_loop_spec:
  assumes wf: "lp_wf e" and ok: "lp_ok e s" and seg: "segments (lp_events s)"
  shows "\<exists>r s' c. lp_recv_loop e s = Some (r, s') \<and> lp_step_ok e s c (Some r) s' \<and> (c = [] \<longrightarrow> lp_events s = [])"
  using ok seg
proof (induction "length (stream (lp_events s))" arbitrary: s rule: less_induct)
  case less
  obtain x s1 c where r: "lp_recv e s = Some (x, s1)" "lp_step_ok e s c (next_ret x) s1" "c = [] \<longrightarrow> lp_events s = [] \<and> x = Return 0"
    using lp_recv_spec [OF wf less.prems] by blast
  show ?case
  proof (cases "next_ret x")
    case (Some k)
    then show ?thesis using r by (subst lp_recv_loop.simps) (auto simp: next_ret_def split: lp_next.splits)
  next
    case None
    then have st: "c \<noteq> []" "lp_step_ok e s c None s1" using r by (auto simp: next_ret_def)
    then have ok1: "lp_ok e s1" "segments (lp_events s1)" "stream (lp_events s) = c @ stream (lp_events s1)" by (auto simp: lp_step_ok_def split: if_splits)
    then obtain k s2 d where d: "lp_recv_loop e s1 = Some (k, s2)" "lp_step_ok e s1 d (Some k) s2" using less.hyps [OF _ ok1(1,2)] st(1) by auto
    have "lp_step_ok e s (c @ d) (Some k) s2" by (rule lp_step_ok_trans [OF st(2) _ d(2)]) simp
    then show ?thesis using r(1) None d(1) st(1) by (subst lp_recv_loop.simps) (auto simp: next_ret_def split: lp_next.splits)
  qed
qed

lemma lp_drive_spec:
  assumes wf: "lp_wf e" and ok: "lp_ok e s" and seg: "segments (lp_events s)"
  shows "\<exists>r s'. lp_drive e s = Some (r, s') \<and> lp_world s' = deliver e (pkgs e (buffer_value s @ stream (lp_events s))) (lp_world s) \<and>
     (if fine e (rest e (buffer_value s @ stream (lp_events s)))
      then r = 0 \<and> lp_events s' = [] \<and> buffer_value s' = rest e (buffer_value s @ stream (lp_events s)) \<and> lp_ok e s' else r = - 1)"
  using ok seg
proof (induction "length (stream (lp_events s))" arbitrary: s rule: less_induct)
  case less
  show ?case
  proof (cases "lp_events s = []")
    case True
    then show ?thesis using lp_ok_packages [OF less.prems(1)] less.prems by (subst lp_drive.simps) simp
  next
    case False
    obtain r s1 c where r: "lp_recv_loop e s = Some (r, s1)" "lp_step_ok e s c (Some r) s1" "c \<noteq> []"
      using lp_recv_loop_spec [OF wf less.prems] False by blast
    have "env_get_size e = None" "\<not> lp_skip_recv s" using wf less.prems(1) by (auto simp: lp_wf_def lp_ok_def buf_ok_def)
    then have call: "recv_with_length_protocol e s = Some (r, s1)" using r(1) by (simp add: recv_with_length_protocol_def)
    show ?thesis
    proof (cases "r = 0")
      case True
      then have ok1: "lp_ok e s1" "segments (lp_events s1)" "stream (lp_events s) = c @ stream (lp_events s1)"
        "lp_world s1 = deliver e (pkgs e (buffer_value s @ c)) (lp_world s)" "buffer_value s1 = rest e (buffer_value s @ c)"
        using r(2) by (auto simp: lp_step_ok_def split: if_splits)
      let ?mx = "package_max_length (env_proto e)"
      have "packages lenf ?mx (buffer_value s @ stream (lp_events s)) =
          (pkgs e (buffer_value s @ c) @ pkgs e (buffer_value s1 @ stream (lp_events s1)), rest e (buffer_value s1 @ stream (lp_events s1)))"
        using packages_append [of ?mx "buffer_value s @ c" "stream (lp_events s1)"] ok1(3,5) by simp
      then show ?thesis using less.hyps [OF _ ok1(1,2)] ok1 r(3) call False True by (subst lp_drive.simps) (simp cong: if_cong)
    next
      case bad: False
      then have rm: "r = - 1" using r(2) by (auto simp: lp_step_ok_def split: if_splits)
      show ?thesis using lp_step_ok_stuck [of e s c s1] r(2) call False rm by (subst lp_drive.simps) simp
    qed
  qed
qed

end

subsection \<open>The default length function\<close>

definition default_length :: "protocol \<Rightarrow> bytes \<Rightarrow> int" where
  "default_length p bs = fst (the (default_length_func None p bs))"

text \<open>A configuration with a known field type; the body offset may not be zero.\<close>

definition length_config :: "protocol \<Rightarrow> bool" where
  "length_config p \<longleftrightarrow> package_length_size p = openswoole_type_size (package_length_type p) \<and> 0 < package_length_size p \<and>
     0 < package_body_offset p \<and> package_body_offset p < 2 ^ 16"

lemma load_prefix:
  "load16 data = Some x \<Longrightarrow> load16 (data @ zs) = Some x" "load32 data = Some y \<Longrightarrow> load32 (data @ zs) = Some y"
  "mem_read 0 1 data = Some bs \<Longrightarrow> mem_read 0 1 (data @ zs) = Some bs"
  by (auto simp: load16_def load32_def mem_read_def split: if_splits)

lemma unpack_prefix:
  assumes "openswoole_unpack ty data = Some n"
  shows "openswoole_unpack ty (data @ zs) = Some n"
  using assms unfolding openswoole_unpack_def by (auto split: if_split_asm simp: load_prefix simp del: One_nat_def)

lemma uint_u8_u16_less: "uint (b :: u8) < 2 ^ 31" "uint (x :: u16) < 2 ^ 31" "sint (b :: u8) < 2 ^ 31" "sint (x :: u16) < 2 ^ 31" "sint (y :: u32) < 2 ^ 31"
  using uint_lt2p [of b] uint_lt2p [of x] sint_lt [of b] sint_lt [of x] sint_lt [of y] by simp_all

lemma unpack_total:
  assumes "0 < openswoole_type_size ty" and "openswoole_type_size ty \<le> length data"
  obtains n where "openswoole_unpack ty data = Some n" "n < 2 ^ 31"
proof -
  have "\<exists>n. openswoole_unpack ty data = Some n \<and> n < 2 ^ 31"
    using assms uint_u8_u16_less
    by (auto simp: openswoole_unpack_def openswoole_type_size_def load16_def load32_def mem_read_def split: if_split_asm)
  then show ?thesis using that by blast
qed

lemma default_length_short: "length_config p \<Longrightarrow> length bs < package_length_offset p + package_length_size p \<Longrightarrow> default_length p bs = 0"
  by (simp add: default_length_def default_length_func_def length_config_def)

lemma sum_mod_nonzero:
  fixes m :: int
  assumes "0 < m" and "m < 2147549184"
  shows "(m + 2147483648) mod 4294967296 \<noteq> 2147483648"
proof (cases "m < 2147483648")
  case True
  then have "(m + 2147483648) mod 4294967296 = m + 2147483648" using assms by (intro mod_pos_pos_trivial) auto
  then show ?thesis using assms by simp
next
  case False
  have "(m + 2147483648) mod 4294967296 = (m - 2147483648) mod 4294967296" using mod_add_self2 [of "m - 2147483648" 4294967296] by (simp add: add.commute)
  also have "\<dots> = m - 2147483648" using False assms by (intro mod_pos_pos_trivial) auto
  finally show ?thesis using assms by simp
qed

lemma default_length_full:
  assumes c: "length_config p" and l: "package_length_offset p + package_length_size p \<le> length bs"
  obtains n where "openswoole_unpack (package_length_type p) (drop (package_length_offset p) bs) = Some n" "n < 2 ^ 31"
    "default_length p bs = (if n < 0 then - 1 else sint (word_of_int (int (package_body_offset p) + n) :: u32))"
    "default_length p bs \<noteq> 0"
proof -
  obtain n where n: "openswoole_unpack (package_length_type p) (drop (package_length_offset p) bs) = Some n" "n < 2 ^ 31"
    by (rule unpack_total [of "package_length_type p" "drop (package_length_offset p) bs"]) (use c l in \<open>auto simp: length_config_def\<close>)
  let ?m = "int (package_body_offset p) + n"
  have d: "default_length p bs = (if n < 0 then - 1 else sint (word_of_int ?m :: u32))"
    using c l n by (simp add: default_length_def default_length_func_def length_config_def)
  have "sint (word_of_int ?m :: u32) \<noteq> 0" if "0 \<le> n"
  proof -
    have m: "0 < ?m" "?m < 2147549184" using c that n(2) by (auto simp: length_config_def)
    from sum_mod_nonzero [OF m] show ?thesis by (simp only: int_word_sint) simp
  qed
  then show ?thesis using that n d by auto
qed

lemma default_length_function:
  assumes c: "length_config p"
  shows "length_function (default_length p) (package_length_offset p + package_length_size p)"
proof
  show "default_length p [] = 0" using c by (intro default_length_short) (auto simp: length_config_def)
  fix xs ys :: bytes
  let ?h = "package_length_offset p + package_length_size p"
  have stable: "default_length p (xs @ ys) = default_length p xs" if ne: "default_length p xs \<noteq> 0"
  proof -
    have l: "?h \<le> length xs" using default_length_short [OF c, of xs] ne by linarith
    obtain n where n: "openswoole_unpack (package_length_type p) (drop (package_length_offset p) xs) = Some n"
      "default_length p xs = (if n < 0 then - 1 else sint (word_of_int (int (package_body_offset p) + n) :: u32))"
      by (rule default_length_full [OF c l])
    have l': "?h \<le> length (xs @ ys)" using l by simp
    obtain n' where n': "openswoole_unpack (package_length_type p) (drop (package_length_offset p) (xs @ ys)) = Some n'"
      "default_length p (xs @ ys) = (if n' < 0 then - 1 else sint (word_of_int (int (package_body_offset p) + n') :: u32))"
      by (rule default_length_full [OF c l'])
    have "n' = n" using unpack_prefix [OF n(1), of ys] n'(1) l by simp
    then show ?thesis using n n' by simp
  qed
  show "0 < default_length p xs \<Longrightarrow> default_length p (xs @ ys) = default_length p xs" by (rule stable) simp
  show "default_length p xs < 0 \<Longrightarrow> default_length p (xs @ ys) < 0" using stable by simp
  show "?h \<le> length xs \<Longrightarrow> default_length p xs \<noteq> 0" using default_length_full [OF c, of xs] by metis
qed

text \<open>The configuration of a new listening port (\<^verbatim>\<open>ListenPort::ListenPort\<close>).\<close>

definition port_protocol :: protocol where
  "port_protocol = \<lparr>package_length_type = CHR ''N'', package_length_size = 4, package_length_offset = 0, package_body_offset = 4,
     package_max_length = 2 * 1024 * 1024, real_header_length = 0\<rparr>"

lemma port_protocol_config: "length_config port_protocol"
  by (simp add: length_config_def port_protocol_def openswoole_type_size_def)

interpretation port: length_function "default_length port_protocol" 4
  using default_length_function [OF port_protocol_config] by (simp add: port_protocol_def)

subsection \<open>Properties\<close>

definition lp_start :: "ostring \<Rightarrow> recv_event list \<Rightarrow> 'w \<Rightarrow> 'w lp_state" where
  "lp_start b es w = \<lparr>lp_buffer = b, lp_recv_wait = False, lp_skip_recv = False, lp_events = es, lp_world = w\<rparr>"

context length_function
begin

lemma framing:
  assumes wf: "lp_wf e" and seg: "segments es" and b: "string_inv b" "st_length b = 0" "st_offset b = 0" "2 * hdr \<le> st_size b"
    and p: "packages lenf (package_max_length (env_proto e)) (stream es) = (fs, r)"
  shows "\<exists>s'. lp_drive e (lp_start b es w) = Some (if rest_ok lenf (package_max_length (env_proto e)) r then 0 else - 1, s') \<and>
     lp_world s' = deliver e fs w \<and> (rest_ok lenf (package_max_length (env_proto e)) r \<longrightarrow> buffer_value s' = r)"
proof -
  let ?s = "lp_start b es w"
  have "buffer_value ?s = []" using b by (simp add: lp_start_def buffer_value_def string_value_def)
  moreover have "lp_ok e ?s" using b no_header \<open>buffer_value ?s = []\<close> by (simp add: lp_ok_def buf_ok_def lp_start_def)
  ultimately show ?thesis using lp_drive_spec [OF wf, of ?s] seg p by (auto simp: lp_start_def split: if_splits)
qed

end

definition default_env :: "'w lp_env \<Rightarrow> bool" where
  "default_env e \<longleftrightarrow> env_length e = (\<lambda>bs. map_option fst (default_length_func None (env_proto e) bs)) \<and> env_get_size e = None \<and>
     allocator_ok (env_alloc e) \<and> accepting e \<and> package_max_length (env_proto e) < 2 ^ 32"

lemma default_length_func_Some:
  assumes c: "length_config p"
  shows "map_option fst (default_length_func None p bs) = Some (default_length p bs)"
proof (cases "length bs < package_length_offset p + package_length_size p")
  case True
  then show ?thesis using c by (simp add: default_length_def default_length_func_def length_config_def)
next
  case False
  then obtain n where "openswoole_unpack (package_length_type p) (drop (package_length_offset p) bs) = Some n"
    using default_length_full [OF c, of bs] by (metis not_less)
  then show ?thesis using c False by (simp add: default_length_def default_length_func_def length_config_def)
qed


definition sample_env :: "bytes list lp_env" where
  "sample_env = \<lparr>env_length = (\<lambda>bs. map_option fst (default_length_func None port_protocol bs)), env_proto = port_protocol,
     env_get_size = None, env_alloc = (\<lambda>n. Some (replicate n 0)), env_package = (\<lambda>bs w. (0, w @ [bs])), env_removed = (\<lambda>_. False),
     env_ssl = False\<rparr>"

lemma sample_env_default: "default_env sample_env" "env_proto sample_env = port_protocol" "header_size sample_env = 4"
  by (auto simp: default_env_def sample_env_def allocator_ok_def accepting_def port_protocol_def header_size_def)


text \<open>A length field of zero with a body offset of zero: the package length is zero, which the receive loop takes for a
  missing header.\<close>

definition zero_offset_protocol :: protocol where
  "zero_offset_protocol = port_protocol\<lparr>package_body_offset := 0\<rparr>"

definition zero_offset_env :: "allocator \<Rightarrow> 'w lp_env \<Rightarrow> bool" where
  "zero_offset_env al e \<longleftrightarrow> env_length e = (\<lambda>bs. map_option fst (default_length_func None zero_offset_protocol bs)) \<and>
     env_proto e = zero_offset_protocol \<and> env_get_size e = None \<and> env_alloc e = al \<and> (\<forall>w. \<not> env_removed e w)"

lemma zero_length:
  "map_option fst (default_length_func None zero_offset_protocol (replicate n 0)) = Some 0"
proof (cases "n < 4")
  case True
  then show ?thesis by (simp add: default_length_func_def zero_offset_protocol_def port_protocol_def)
next
  case False
  then have "mem_read 0 4 (replicate n 0) = Some (replicate 4 (0 :: u8))" by (simp add: mem_read_def min_def)
  moreover have "replicate 4 (0 :: u8) = [0, 0, 0, 0]" by (simp add: numeral_eq_Suc)
  ultimately have "openswoole_unpack CHR ''N'' (replicate n 0) = Some 0"
    using ntohl_bytes [of "[0, 0, 0, 0]"] by (simp add: openswoole_unpack_def load32_def be_value_def)
  then show ?thesis using False by (simp add: default_length_func_def zero_offset_protocol_def port_protocol_def)
qed

lemma zero_offset_facts:
  assumes "zero_offset_env al e"
  shows "header_size e = 4" "env_get_size e = None" "\<not> env_removed e w" "env_length e (replicate n 0) = Some 0"
    "package_length_offset (env_proto e) + package_length_size (env_proto e) = 4"
  using assms zero_length [of n] by (auto simp: zero_offset_env_def header_size_def zero_offset_protocol_def port_protocol_def)

lemma zero_length_step:
  assumes e: "zero_offset_env al e" and b: "string_inv b" "string_value b = replicate (st_length b) 0" "st_offset b = 0"
    and k: "0 < k" "k \<le> 4" "st_length b + k \<le> st_size b" "st_length b + k \<noteq> 4"
  obtains b' where "recv_with_length_protocol e (lp_start b (Seg (replicate k 0) # es) w) = Some (0, lp_start b' es w)"
    "string_inv b'" "string_value b' = replicate (st_length b') 0" "st_offset b' = 0" "st_length b' = st_length b + k" "st_size b' = st_size b"
proof -
  note f = zero_offset_facts [OF e]
  let ?m = "take (st_length b) (st_mem b) @ replicate k 0 @ drop (st_length b + k) (st_mem b)"
  define b' where "b' = b\<lparr>st_mem := ?m, st_length := st_length b + k\<rparr>"
  have w: "mem_write (st_length b) (replicate k 0) (st_mem b) = Some ?m" using k by (simp add: mem_write_def)
  have inv: "string_inv b'" "st_size b' = st_size b" "st_offset b' = 0" "st_length b' = st_length b + k"
    using k b(3) by (simp_all add: b'_def string_inv_def)
  have "string_value b' = string_value b @ replicate k 0" using k b(1) by (simp add: b'_def string_value_def string_inv_def)
  then have v: "string_value b' = replicate (st_length b') 0" using b(2) inv(4) by (simp add: replicate_add [symmetric])
  let ?s = "lp_start b' es w"
  have "lp_get_length e ?s = Some (Return 0, ?s)" using f k(4) inv(4) by (simp add: lp_get_length_def lp_start_def v)
  then have l: "lp_received e ?s = Some (Return 0, ?s)" by (simp add: lp_received_def lp_start_def) (subst lp_length_loop.simps, simp)
  have "lp_recv_size e b = 4" using b(3) f by (simp add: lp_recv_size_def)
  then have "lp_recv e (lp_start b (Seg (replicate k 0) # es) w) = Some (Return 0, ?s)"
    using f k(1,2) w l by (simp add: lp_recv_def lp_start_def b'_def)
  then have "lp_recv_loop e (lp_start b (Seg (replicate k 0) # es) w) = Some (0, ?s)" by (subst lp_recv_loop.simps) simp
  then show ?thesis using that inv v f by (simp add: recv_with_length_protocol_def lp_start_def)
qed

lemma zero_length_stuck:
  assumes e: "zero_offset_env al e" and b: "string_inv b" "string_value b = replicate (st_length b) 0" "st_offset b = 0" "st_length b mod 4 = 1"
    and m: "st_size b < st_length b + 4 * m"
  shows "lp_drive e (lp_start b (replicate m (Seg (replicate 4 0))) w) = None"
  using b m
proof (induction m arbitrary: b)
  case 0
  then show ?case by (simp add: string_inv_def)
next
  case (Suc m)
  note f = zero_offset_facts [OF e]
  let ?es = "replicate m (Seg (replicate 4 0))"
  show ?case
  proof (cases "st_length b + 4 \<le> st_size b")
    case False
    then have "mem_write (st_length b) (replicate 4 0) (st_mem b) = None" by (simp add: mem_write_def)
    moreover have "lp_recv_size e b = 4" using Suc.prems(3) f by (simp add: lp_recv_size_def)
    ultimately have "lp_recv e (lp_start b (Seg (replicate 4 0) # ?es) w) = None" using f by (simp add: lp_recv_def lp_start_def)
    then have "lp_recv_loop e (lp_start b (Seg (replicate 4 0) # ?es) w) = None" by (subst lp_recv_loop.simps) simp
    then show ?thesis using f by (subst lp_drive.simps) (simp add: lp_start_def recv_with_length_protocol_def)
  next
    case True
    obtain b' where b': "recv_with_length_protocol e (lp_start b (Seg (replicate 4 0) # ?es) w) = Some (0, lp_start b' ?es w)"
        "string_inv b'" "string_value b' = replicate (st_length b') 0" "st_offset b' = 0" "st_length b' = st_length b + 4" "st_size b' = st_size b"
      by (rule zero_length_step [OF e Suc.prems(1-3), of 4]) (use True Suc.prems(4) in auto)
    have "lp_drive e (lp_start b' ?es w) = None" by (rule Suc.IH) (use b' Suc.prems(4,5) in auto)
    then show ?thesis using b'(1) by (subst lp_drive.simps) (simp add: lp_start_def)
  qed
qed

text \<open>
  C23. With a body offset of zero the receive buffer overflows. A package of length zero whose header arrives in two
  segments is never consumed, every further call reads another four bytes behind it, and for a buffer of any
  size there is a sequence of segments at which \<^verbatim>\<open>recv\<close> is asked to write behind the end of the buffer.\<close>

theorem length_protocol_overflow:
  assumes e: "zero_offset_env al e" and b: "string_inv b" "st_length b = 0" "st_offset b = 0" "1 \<le> st_size b"
  shows "\<exists>m. lp_drive e (lp_start b (Seg [0] # replicate m (Seg [0, 0, 0, 0])) w) = None"
proof -
  let ?es = "replicate (Suc (st_size b)) (Seg (replicate 4 0))"
  obtain b' where b': "recv_with_length_protocol e (lp_start b (Seg (replicate 1 0) # ?es) w) = Some (0, lp_start b' ?es w)"
      "string_inv b'" "string_value b' = replicate (st_length b') 0" "st_offset b' = 0" "st_length b' = st_length b + 1" "st_size b' = st_size b"
    by (rule zero_length_step [OF e b(1) _ b(3), of 1]) (use b in \<open>auto simp: string_value_def\<close>)
  have "lp_drive e (lp_start b' ?es w) = None" by (rule zero_length_stuck [OF e b'(2-4)]) (use b' b(2) in auto)
  then have "lp_drive e (lp_start b (Seg (replicate 1 0) # ?es) w) = None"
    using b'(1) by (subst lp_drive.simps) (simp add: lp_start_def)
  moreover have "replicate 4 (0 :: u8) = [0, 0, 0, 0]" by (simp add: numeral_eq_Suc)
  ultimately show ?thesis by (intro exI [where x = "Suc (st_size b)"]) simp
qed

theorem length_protocol_overflow_witness:
  "\<exists>m. lp_drive (sample_env\<lparr>env_proto := zero_offset_protocol, env_length := (\<lambda>bs. map_option fst (default_length_func None zero_offset_protocol bs))\<rparr>)
     (lp_start \<lparr>st_mem = replicate 65536 0, st_length = 0, st_offset = 0\<rparr> (Seg [0] # replicate m (Seg [0, 0, 0, 0])) []) = None"
  by (rule length_protocol_overflow [where al = "\<lambda>n. Some (replicate n 0)"]) (simp_all add: zero_offset_env_def sample_env_def string_inv_def)

end
