(* ===== verification/Osw_Frames.thy ===== *)
theory Osw_Frames
  imports Osw_Length_Protocol
begin

text \<open>
  The length functions of MQTT (\<^verbatim>\<open>src/protocol/mqtt.cc\<close>) and HTTP/2 (\<^verbatim>\<open>src/protocol/http2.cc\<close>,
  \<^verbatim>\<open>include/openswoole_http2.h\<close>), and the HTTP/2 frame header and settings frame. Both length functions satisfy the
  interface the receive loop relies on. \<open>None\<close> is a read outside the data.
\<close>

subsection \<open>MQTT\<close>

definition OSW_MQTT_MAX_LENGTH_SIZE :: nat where
  "OSW_MQTT_MAX_LENGTH_SIZE = 4"

text \<open>The loop over the bytes of the remaining length; \<open>count\<close>, \<open>mul\<close> and \<open>len\<close> are the variables before the iteration.\<close>

function mqtt_length_loop :: "bytes \<Rightarrow> nat \<Rightarrow> nat \<Rightarrow> nat \<Rightarrow> nat \<Rightarrow> int option" where
  "mqtt_length_loop data avail count mul len =
     (let count' = count + 1 in
      if count' \<ge> length data then None
      else
        (let byte = data ! count'; len' = len + unat (byte AND 127) * mul in
         if byte AND 128 = 0 then Some (int (len' + count' + 1))
         else if count' \<ge> OSW_MQTT_MAX_LENGTH_SIZE then Some (- 1)
         else if count' \<ge> avail then Some 0
         else mqtt_length_loop data avail count' (mul * 128) len'))"
  by pat_completeness auto
termination
  by (relation "measure (\<lambda>(d, a, c, m, l). OSW_MQTT_MAX_LENGTH_SIZE - c)") auto

declare mqtt_length_loop.simps [simp del]

text \<open>The size is a 32-bit number; without any data the number of bytes behind the first one wraps.\<close>

definition mqtt_get_package_length :: "bytes \<Rightarrow> int option" where
  "mqtt_get_package_length data =
     (let avail = (if length data = 0 then 2 ^ 32 - 1 else length data - 1) in
      if avail < 1 then Some 0 else mqtt_length_loop data avail 0 1 0)"

definition mqtt_set_protocol :: "protocol \<Rightarrow> protocol" where
  "mqtt_set_protocol p = p\<lparr>package_length_size := OSW_MQTT_MAX_LENGTH_SIZE, package_length_offset := 1, package_body_offset := 0\<rparr>"

subsection \<open>HTTP/2\<close>

definition OSW_HTTP2_FRAME_HEADER_SIZE :: nat where
  "OSW_HTTP2_FRAME_HEADER_SIZE = 9"

definition http2_get_length :: "bytes \<Rightarrow> int option" where
  "http2_get_length buf =
     (if length buf < 3 then None
      else Some (push_bit 16 (uint (buf ! 0)) + push_bit 8 (uint (buf ! 1)) + uint (buf ! 2)))"

definition http2_get_frame_length :: "bytes \<Rightarrow> int option" where
  "http2_get_frame_length buf =
     (if length buf < OSW_HTTP2_FRAME_HEADER_SIZE then Some 0
      else map_option (\<lambda>n. n + int OSW_HTTP2_FRAME_HEADER_SIZE) (http2_get_length buf))"

definition set_frame_header :: "u8 \<Rightarrow> u32 \<Rightarrow> u8 \<Rightarrow> u32 \<Rightarrow> bytes" where
  "set_frame_header type len flags stream_id =
     [ucast (drop_bit 16 len), ucast (drop_bit 8 len), ucast len, type, flags] @ le_bytes 4 (unat (ntohl stream_id))"

definition setting_option :: "u16 \<Rightarrow> u32 \<Rightarrow> bytes" where
  "setting_option i value = le_bytes 2 (unat (ntohs i)) @ le_bytes 4 (unat (ntohl value))"

text \<open>The frame that \<^verbatim>\<open>send_setting_frame\<close> sends.\<close>

definition setting_frame :: bytes where
  "setting_frame = set_frame_header 4 18 0 0 @ setting_option 3 1280 @ setting_option 4 65535 @ setting_option 5 16384"

text \<open>The type of a frame for the trace log, and its colour there.\<close>

definition get_type :: "int \<Rightarrow> string" where
  "get_type type =
     (if type = 0 then ''DATA'' else if type = 1 then ''HEADERS'' else if type = 2 then ''PRIORITY'' else if type = 3 then ''RST_STREAM''
      else if type = 4 then ''SETTINGS'' else if type = 5 then ''PUSH_PROMISE'' else if type = 6 then ''PING''
      else if type = 7 then ''GOAWAY'' else if type = 8 then ''WINDOW_UPDATE'' else if type = 9 then ''CONTINUATION'' else ''UNKOWN'')"

definition get_type_color :: "int \<Rightarrow> int" where
  "get_type_color type =
     (if type = 0 \<or> type = 8 then 5 else if type = 1 \<or> type = 4 \<or> type = 5 \<or> type = 9 then 2
      else if type = 6 \<or> type = 2 then 7 else 1)"

record settings =
  header_table_size :: u32
  window_size :: u32
  max_concurrent_streams :: u32
  max_frame_size :: u32
  max_header_list_size :: u32

definition init_settings :: settings where
  "init_settings = \<lparr>header_table_size = 4096, window_size = 65535, max_concurrent_streams = 1280, max_frame_size = 16384, max_header_list_size = 4096\<rparr>"

subsection \<open>The MQTT length function\<close>

lemma u8_low_bits: "unat ((b :: u8) AND 127) = unat b mod 128"
proof -
  have "(127 :: u8) = mask 7" by (simp add: mask_eq_exp_minus_1)
  then have "b AND 127 = take_bit 7 b" by (simp add: take_bit_eq_mask)
  then have "unat (b AND 127) = take_bit 7 (unat b)" by (simp only: unsigned_take_bit_eq)
  then show ?thesis by (simp add: take_bit_eq_mod)
qed

lemma u8_high_bit: "(b :: u8) AND 128 = 0 \<longleftrightarrow> unat b < 128"
proof -
  have "(128 :: u8) = 2 ^ 7" by simp
  then have "b AND 128 = 0 \<longleftrightarrow> \<not> bit b 7" by (metis and_exp_eq_0_iff_not_bit)
  also have "\<dots> \<longleftrightarrow> \<not> bit (unat b) 7" by (simp only: bit_unsigned_iff possible_bit_def) simp
  also have "\<dots> \<longleftrightarrow> even (unat b div 128)" by (simp add: bit_iff_odd)
  also have "\<dots> \<longleftrightarrow> unat b < 128" using u8_less [of b] by (cases "unat b < 128") (auto simp: div_if)
  finally show ?thesis .
qed

lemma mqtt_loop_stable:
  "mqtt_length_loop data avail c m l = Some v \<Longrightarrow> v \<noteq> 0 \<Longrightarrow> avail \<le> avail' \<Longrightarrow> mqtt_length_loop (data @ ys) avail' c m l = Some v"
proof (induction data avail c m l rule: mqtt_length_loop.induct)
  case (1 data avail c m l)
  have lt: "c + 1 < length data" using "1.prems"(1) by (subst (asm) mqtt_length_loop.simps) (auto simp: Let_def split: if_splits)
  then have nth: "(data @ ys) ! Suc c = data ! Suc c" by (simp add: nth_append)
  show ?case using "1.prems" lt "1.IH" [OF refl _ refl refl]
    by (subst mqtt_length_loop.simps, subst (asm) (1) mqtt_length_loop.simps) (auto simp: Let_def nth split: if_splits simp del: of_nat_add of_nat_Suc)
qed

lemma mqtt_loop_total:
  "avail < length data \<Longrightarrow> c < avail \<Longrightarrow> \<exists>v. mqtt_length_loop data avail c m l = Some v \<and> (OSW_MQTT_MAX_LENGTH_SIZE \<le> avail \<longrightarrow> v \<noteq> 0)"
proof (induction data avail c m l rule: mqtt_length_loop.induct)
  case (1 data avail c m l)
  show ?case using "1.prems" "1.IH" [OF refl _ refl refl]
    by (subst mqtt_length_loop.simps) (auto simp: Let_def simp del: of_nat_add of_nat_Suc)
qed

definition mqtt_length :: "bytes \<Rightarrow> int" where
  "mqtt_length bs = (if bs = [] then 0 else the (mqtt_get_package_length bs))"

lemma mqtt_length_total:
  assumes "bs \<noteq> []"
  shows "mqtt_get_package_length bs = Some (mqtt_length bs)" "5 \<le> length bs \<longrightarrow> mqtt_length bs \<noteq> 0"
  using assms mqtt_loop_total [of "length bs - 1" bs 0 1 0]
  by (auto simp: mqtt_length_def mqtt_get_package_length_def Let_def OSW_MQTT_MAX_LENGTH_SIZE_def)

lemma mqtt_length_stable:
  assumes "mqtt_length xs \<noteq> 0"
  shows "mqtt_length (xs @ ys) = mqtt_length xs"
proof -
  have ne: "xs \<noteq> []" "\<not> length xs - 1 < 1" using assms by (auto simp: mqtt_length_def mqtt_get_package_length_def split: if_splits)
  have "mqtt_length_loop xs (length xs - 1) 0 1 0 = Some (mqtt_length xs)"
    using mqtt_length_total(1) [OF ne(1)] ne by (simp add: mqtt_get_package_length_def Let_def)
  from mqtt_loop_stable [OF this assms, of "length (xs @ ys) - 1" ys] show ?thesis
    using ne by (simp add: mqtt_length_def mqtt_get_package_length_def Let_def)
qed

interpretation mqtt: length_function mqtt_length 5
proof
  show "mqtt_length [] = 0" by (simp add: mqtt_length_def)
  fix xs ys :: bytes
  show "0 < mqtt_length xs \<Longrightarrow> mqtt_length (xs @ ys) = mqtt_length xs" by (rule mqtt_length_stable) simp
  show "mqtt_length xs < 0 \<Longrightarrow> mqtt_length (xs @ ys) < 0" using mqtt_length_stable [of xs ys] by simp
  show "5 \<le> length xs \<Longrightarrow> mqtt_length xs \<noteq> 0" using mqtt_length_total(2) [of xs] by (cases "xs = []") auto
qed

subsection \<open>The HTTP/2 length function\<close>

lemma http2_get_length_value: "3 \<le> length bs \<Longrightarrow> http2_get_length bs = Some (int (be_value (take 3 bs)))"
proof -
  assume "3 \<le> length bs"
  then obtain a b c r where bs: "bs = a # b # c # r" by (auto simp: Suc_le_length_iff numeral_3_eq_3)
  have "be_value [a, b, c] = 65536 * unat a + 256 * unat b + unat c" by (simp add: be_value_def)
  then show ?thesis by (simp add: http2_get_length_def bs push_bit_eq_mult)
qed

definition http2_length :: "bytes \<Rightarrow> int" where
  "http2_length bs = the (http2_get_frame_length bs)"

lemma http2_length_full:
  "9 \<le> length bs \<Longrightarrow> http2_get_frame_length bs = Some (int (be_value (take 3 bs)) + 9)"
  by (simp add: http2_get_frame_length_def http2_get_length_value OSW_HTTP2_FRAME_HEADER_SIZE_def)

lemma http2_length_short: "length bs < 9 \<Longrightarrow> http2_get_frame_length bs = Some 0"
  by (simp add: http2_get_frame_length_def OSW_HTTP2_FRAME_HEADER_SIZE_def)

interpretation http2: length_function http2_length 9
proof
  show "http2_length [] = 0" by (simp add: http2_length_def http2_length_short)
  fix xs ys :: bytes
  have pos: "9 \<le> length xs" if "http2_length xs \<noteq> 0" for xs using that http2_length_short [of xs] by (cases "9 \<le> length xs") (auto simp: http2_length_def)
  show "0 < http2_length xs \<Longrightarrow> http2_length (xs @ ys) = http2_length xs"
    using pos [of xs] http2_length_full [of xs] http2_length_full [of "xs @ ys"] by (simp add: http2_length_def)
  show "http2_length xs < 0 \<Longrightarrow> http2_length (xs @ ys) < 0" using pos [of xs] http2_length_full [of xs] by (simp add: http2_length_def)
  show "9 \<le> length xs \<Longrightarrow> http2_length xs \<noteq> 0" using http2_length_full [of xs] by (simp add: http2_length_def)
qed

subsection \<open>Properties\<close>

definition frame_env :: "(bytes \<Rightarrow> int option) \<Rightarrow> 'w lp_env \<Rightarrow> bool" where
  "frame_env f e \<longleftrightarrow> env_length e = f \<and> env_get_size e = None \<and> allocator_ok (env_alloc e) \<and> accepting e \<and> package_max_length (env_proto e) < 2 ^ 32"


definition mqtt_sample_env :: "bytes list lp_env" where
  "mqtt_sample_env = sample_env\<lparr>env_length := mqtt_get_package_length, env_proto := mqtt_set_protocol port_protocol\<rparr>"


text \<open>The base-128 encoding of a remaining length in the MQTT specification.\<close>

function mqtt_encode :: "nat \<Rightarrow> bytes" where
  "mqtt_encode n = (if n < 128 then [word_of_nat n] else word_of_nat (n mod 128 + 128) # mqtt_encode (n div 128))"
  by pat_completeness auto
termination
  by (relation "measure id") auto

declare mqtt_encode.simps [simp del]

lemma mqtt_encode_length: "n < 128 ^ k \<Longrightarrow> 0 < k \<Longrightarrow> length (mqtt_encode n) \<le> k"
proof (induction k arbitrary: n)
  case (Suc k)
  show ?case
  proof (cases "n < 128")
    case True
    then show ?thesis by (subst mqtt_encode.simps) simp
  next
    case False
    then have "0 < k" using Suc.prems(1) by (cases k) auto
    moreover have "n div 128 < 128 ^ k" using Suc.prems(1) by (simp add: less_mult_imp_div_less mult.commute)
    ultimately show ?thesis using Suc.IH [of "n div 128"] False by (subst mqtt_encode.simps) simp
  qed
qed simp

lemma mqtt_loop_decode:
  "drop (Suc c) data = mqtt_encode n @ rest \<Longrightarrow> c + length (mqtt_encode n) \<le> avail \<Longrightarrow> c + length (mqtt_encode n) \<le> OSW_MQTT_MAX_LENGTH_SIZE \<Longrightarrow>
     mqtt_length_loop data avail c m l = Some (int (l + n * m + (c + length (mqtt_encode n)) + 1))"
proof (induction n arbitrary: c m l rule: mqtt_encode.induct)
  case (1 n)
  have ne: "mqtt_encode n \<noteq> []" by (subst mqtt_encode.simps) simp
  then have lt: "Suc c < length data" using "1.prems"(1) by (metis append_is_Nil_conv drop_eq_Nil not_le)
  have hd: "data ! Suc c = hd (mqtt_encode n)" using "1.prems"(1) lt ne by (metis hd_append2 hd_drop_conv_nth)
  show ?case
  proof (cases "n < 128")
    case True
    then have e: "mqtt_encode n = [word_of_nat n]" by (subst mqtt_encode.simps) simp
    then have b: "unat (data ! Suc c) = n" using True hd by (simp add: unat_u8)
    show ?thesis using lt True e by (subst mqtt_length_loop.simps) (simp add: Let_def u8_high_bit u8_low_bits b)
  next
    case False
    then have e: "mqtt_encode n = word_of_nat (n mod 128 + 128) # mqtt_encode (n div 128)" by (subst mqtt_encode.simps) simp
    have b: "unat (data ! Suc c) = n mod 128 + 128"
      using hd e unat_u8 [of "n mod 128 + 128"] by (simp del: of_nat_add)
    have dr: "drop (Suc (Suc c)) data = mqtt_encode (n div 128) @ rest"
      using "1.prems"(1) e by (metis append_Cons drop_Suc list.sel(3) tl_drop)
    have ne': "mqtt_encode (n div 128) \<noteq> []" by (subst mqtt_encode.simps) simp
    have len: "Suc c + length (mqtt_encode (n div 128)) \<le> avail" "Suc c + length (mqtt_encode (n div 128)) \<le> OSW_MQTT_MAX_LENGTH_SIZE"
      "\<not> avail \<le> Suc c" "\<not> OSW_MQTT_MAX_LENGTH_SIZE \<le> Suc c"
      using "1.prems"(2,3) e ne' by (cases "mqtt_encode (n div 128)"; simp)+
    have s: "l + n mod 128 * m + n div 128 * (m * 128) = l + n * m"
      by (metis add.assoc add_mult_distrib mod_mult_div_eq mult.assoc mult.commute)
    show ?thesis using lt len "1.IH" [OF False dr len(1,2), of "m * 128" "l + n mod 128 * m"] s
      by (subst mqtt_length_loop.simps) (simp add: Let_def u8_high_bit u8_low_bits b e)
  qed
qed

text \<open>
  \<^verbatim>\<open>mqtt::get_package_length\<close> decodes every remaining length an MQTT package can have (below 2^28): the result is the
  length of the whole package.\<close>

theorem mqtt_length_roundtrip:
  assumes "n < 268435456"
  shows "mqtt_get_package_length (t # mqtt_encode n @ rest) = Some (int (1 + length (mqtt_encode n) + n))"
proof -
  have l: "length (mqtt_encode n) \<le> 4" using mqtt_encode_length [of n 4] assms by simp
  have "0 < length (mqtt_encode n)" by (subst mqtt_encode.simps) simp
  then show ?thesis using mqtt_loop_decode [of 0 "t # mqtt_encode n @ rest" n rest "length (mqtt_encode n @ rest)" 1 0] l
    by (simp add: mqtt_get_package_length_def Let_def OSW_MQTT_MAX_LENGTH_SIZE_def)
qed

theorem mqtt_length_roundtrip_witness: "mqtt_get_package_length (48 # mqtt_encode 321 @ [7]) = Some 324"
proof -
  have "mqtt_encode 321 = [193, 2]" by (simp add: mqtt_encode.simps)
  then show ?thesis using mqtt_length_roundtrip [of 321 48 "[7]"] by simp
qed

lemma unat_u8_drop: "unat (ucast (drop_bit k (x :: u32)) :: u8) = unat x div 2 ^ k mod 256"
  by (simp add: unat_drop_bit_eq unsigned_ucast_eq take_bit_eq_mod drop_bit_eq_div [where 'a = nat])

lemma header_length_bytes:
  "int (be_value [ucast (drop_bit 16 (len :: u32)), ucast (drop_bit 8 len), ucast len :: u8]) = int (unat len mod 2 ^ 24)"
proof -
  let ?n = "unat len"
  have "unat (ucast len :: u8) = ?n mod 256" using unat_u8_drop [of 0 len] by simp
  moreover have "65536 * (?n div 65536 mod 256) + 256 * (?n div 256 mod 256) + ?n mod 256 = ?n mod 16777216"
    using mod_mult2_eq [of ?n 256 65536] mod_mult2_eq [of "?n div 256" 256 256] by (simp add: div_mult2_eq [of ?n 256 256, simplified])
  ultimately show ?thesis by (simp add: be_value_def unat_u8_drop)
qed

lemma htonl_store: "le_bytes 4 (unat (ntohl x)) = be_bytes 4 (unat x)"
proof -
  have l: "length (be_bytes 4 (unat x)) = 4" by (simp add: be_bytes_def)
  have b: "be_value (be_bytes 4 (unat x)) = unat x" using unsigned_less [of x, where 'a = nat] by (simp add: be_value_bytes)
  have "ntohl x = word_of_nat (le_value (be_bytes 4 (unat x)))"
    using ntohl_bytes [of "rev (be_bytes 4 (unat x))"] l b by (simp add: be_value_def)
  then show ?thesis using le_bytes_value [of "be_bytes 4 (unat x)"] l le_value_less [of "be_bytes 4 (unat x)"]
    by (simp add: unat_of_nat take_bit_eq_mod)
qed

text \<open>
  The HTTP/2 frame header that is written is the one that is read: the frame length of \<^verbatim>\<open>set_frame_header\<close> with any
  payload is the header size plus the payload length modulo 2^24, the stream identifier stands in network order, and the
  settings frame that the server sends is one complete frame of that format.\<close>

theorem frame_header_roundtrip:
  "http2_get_frame_length (set_frame_header type len flags sid @ payload) = Some (int (unat len mod 2 ^ 24) + 9) \<and>
   be_value (take 4 (drop 5 (set_frame_header type len flags sid))) = unat sid \<and>
   http2_get_frame_length setting_frame = Some (int (length setting_frame))"
proof (intro conjI)
  have l: "length (set_frame_header type len flags sid) = 9" for type len flags sid by (simp add: set_frame_header_def)
  have g: "http2_get_frame_length (set_frame_header type len flags sid @ payload) = Some (int (unat len mod 2 ^ 24) + 9)" for type len flags sid payload
    using http2_length_full [of "set_frame_header type len flags sid @ payload"] l header_length_bytes [of len]
    by (simp add: set_frame_header_def)
  show "http2_get_frame_length (set_frame_header type len flags sid @ payload) = Some (int (unat len mod 2 ^ 24) + 9)" by (rule g)
  show "be_value (take 4 (drop 5 (set_frame_header type len flags sid))) = unat sid"
    using unsigned_less [of sid, where 'a = nat] by (simp add: set_frame_header_def htonl_store be_value_bytes)
  have "length setting_frame = 27" by (simp add: setting_frame_def l setting_option_def)
  then show "http2_get_frame_length setting_frame = Some (int (length setting_frame))"
    using g [of 4 18 0 0] by (simp add: setting_frame_def)
qed

end
