(* ===== verification/Osw_Websocket.thy ===== *)
theory Osw_Websocket
  imports Osw_String Osw_Endian
begin

text \<open>
  WebSocket frames (\<^verbatim>\<open>src/protocol/websocket.cc\<close>, \<^verbatim>\<open>include/openswoole_websocket.h\<close>): the header and its bit
  fields, the length function, masking eight bytes at a time, encoding into a string, decoding in place, and the
  dispatch of a received frame with the reassembly of fragmented messages. A pointer into the data is an offset,
  and \<open>None\<close> is an access outside the memory or a failed allocation.
\<close>

subsection \<open>Header and flags\<close>

record ws_header =
  h_OPCODE :: u8
  h_RSV3 :: bool
  h_RSV2 :: bool
  h_RSV1 :: bool
  h_FIN :: bool
  h_LENGTH :: u8
  h_MASK :: bool

record ws_frame =
  fr_header :: ws_header
  fr_mask_key :: "bytes option"
  fr_header_length :: nat
  fr_payload_length :: nat
  fr_payload :: "nat option"

text \<open>The bit fields of the two header bytes, as the compiler lays them out.\<close>

definition flag_bit :: "nat \<Rightarrow> bool \<Rightarrow> u8" where
  "flag_bit n b = (if b then push_bit n 1 else 0)"

definition header_bytes :: "ws_header \<Rightarrow> bytes" where
  "header_bytes h =
     [h_OPCODE h OR flag_bit 4 (h_RSV3 h) OR flag_bit 5 (h_RSV2 h) OR flag_bit 6 (h_RSV1 h) OR flag_bit 7 (h_FIN h), h_LENGTH h OR flag_bit 7 (h_MASK h)]"

definition load_header :: "bytes \<Rightarrow> ws_header option" where
  "load_header data = map_option (\<lambda>bs.
     \<lparr>h_OPCODE = bs ! 0 AND 15, h_RSV3 = bit (bs ! 0) 4, h_RSV2 = bit (bs ! 0) 5, h_RSV1 = bit (bs ! 0) 6, h_FIN = bit (bs ! 0) 7,
      h_LENGTH = bs ! 1 AND 127, h_MASK = bit (bs ! 1) 7\<rparr>) (mem_read 0 2 data)"

text \<open>The flags: FIN 1, COMPRESS 2, RSV1 4, RSV2 8, RSV3 16, MASK 32, ENCODE\_HEADER\_ONLY 64.\<close>

definition get_ext_flags :: "u8 \<Rightarrow> u8 \<Rightarrow> u16" where
  "get_ext_flags opcode flags = push_bit 8 (ucast opcode) + ucast flags"

definition get_flags :: "ws_header \<Rightarrow> u8" where
  "get_flags h =
     (if h_FIN h then 1 else 0) OR (if h_RSV1 h then 4 else 0) OR (if h_RSV2 h then 8 else 0) OR (if h_RSV3 h then 16 else 0) OR (if h_MASK h then 32 else 0)"

definition set_flags :: "u8 \<Rightarrow> u8 \<Rightarrow> u8 \<Rightarrow> u8 \<Rightarrow> u8 \<Rightarrow> u8" where
  "set_flags fin masked rsv1 rsv2 rsv3 =
     (if fin \<noteq> 0 then 1 else 0) OR (if masked \<noteq> 0 then 32 else 0) OR (if rsv1 \<noteq> 0 then 4 else 0) OR (if rsv2 \<noteq> 0 then 8 else 0) OR (if rsv3 \<noteq> 0 then 16 else 0)"

subsection \<open>The length function\<close>

text \<open>The length is the sum of two 64-bit numbers, which wraps, and the second component is the header length that the
  function stores in the protocol when the header is not complete.\<close>

definition ws_get_package_length :: "bytes \<Rightarrow> (int \<times> nat option) option" where
  "ws_get_package_length buf =
     (if length buf < 2 then Some (0, None)
      else
        (let masked = bit (buf ! 1) 7; n = buf ! 1 AND 127; buf' = drop 2 buf;
             fin = (\<lambda>hl (pl :: u64).
               (let hl' = (if masked then hl + 4 else hl) in
                if masked \<and> length buf < hl' then Some (0, Some hl') else Some (sint (word_of_nat hl' + pl), None)))
         in
          if n = 126 then
            (if length buf < 4 then Some (0, Some 4)
             else Option.bind (load16 buf') (\<lambda>x. fin 4 (ucast (ntohs x))))
          else if n = 127 then
            (if length buf < 10 then Some (0, Some 10)
             else Option.bind (load64 buf') (\<lambda>x. fin 10 (openswoole_ntoh64 x)))
          else fin 2 (ucast n)))"

subsection \<open>Masking\<close>

text \<open>\<open>m\<close> is the memory and \<open>p\<close> the offset of the data in it. The first loop handles eight bytes at a time.\<close>

primrec mask_words :: "nat \<Rightarrow> nat \<Rightarrow> u64 \<Rightarrow> bytes \<Rightarrow> bytes option" where
  "mask_words 0 p key64 m = Some m"
| "mask_words (Suc n) p key64 m = do {
     x \<leftarrow> load64 (drop p m);
     m1 \<leftarrow> mem_write p (le_bytes 8 (unat (x XOR key64))) m;
     mask_words n (p + 8) key64 m1
   }"

primrec mask_bytes :: "nat \<Rightarrow> nat \<Rightarrow> nat \<Rightarrow> bytes \<Rightarrow> bytes \<Rightarrow> bytes option" where
  "mask_bytes 0 i p key m = Some m"
| "mask_bytes (Suc n) i p key m =
     (if p + i < length m then mask_bytes n (Suc i) p key (m[p + i := m ! (p + i) XOR key ! (i mod 4)]) else None)"

definition ws_mask :: "nat \<Rightarrow> nat \<Rightarrow> bytes \<Rightarrow> bytes \<Rightarrow> bytes option" where
  "ws_mask p len key m =
     (let n = len div 8 in
      do {
        k \<leftarrow> load32 key;
        m1 \<leftarrow> mask_words n p (push_bit 32 (ucast k) OR ucast k) m;
        mask_bytes (len - n * 8) (n * 8) p key m1
      })"

subsection \<open>Encoding\<close>

definition OSW_WEBSOCKET_MASK_DATA :: bytes where
  "OSW_WEBSOCKET_MASK_DATA = [0x32, 0x35, 0x38, 0x45]"

definition ws_encode :: "allocator \<Rightarrow> bytes \<Rightarrow> u8 \<Rightarrow> u8 \<Rightarrow> ostring \<Rightarrow> (bool \<times> ostring) option" where
  "ws_encode al data opcode flags buffer =
     (let n = length data;
          h = \<lparr>h_OPCODE = opcode AND 15, h_RSV3 = False, h_RSV2 = False, h_RSV1 = (flags AND 4 \<noteq> 0), h_FIN = (flags AND 1 \<noteq> 0),
               h_LENGTH = (if n < 126 then word_of_nat n else if n < 65536 then 126 else 127), h_MASK = (flags AND 32 \<noteq> 0)\<rparr>;
          frame_header = header_bytes h @
            (if n < 126 then [] else if n < 65536 then le_bytes 2 (unat (ntohs (word_of_nat n)))
             else le_bytes 8 (unat (openswoole_hton64 (word_of_nat n))))
      in do {
        b1 \<leftarrow> string_append al frame_header buffer;
        if h_MASK h then do {
          b2 \<leftarrow> string_append al OSW_WEBSOCKET_MASK_DATA b1;
          if flags AND 64 \<noteq> 0 then Some (False, b2)
          else if n > 0 then do {
            b3 \<leftarrow> string_append al data b2;
            m \<leftarrow> ws_mask (st_length b2) n OSW_WEBSOCKET_MASK_DATA (st_mem b3);
            Some (True, b3\<lparr>st_mem := m\<rparr>)
          }
          else Some (True, b2)
        }
        else if n > 0 \<and> \<not> flags AND 64 \<noteq> 0 then do {
          b2 \<leftarrow> string_append al data b1;
          Some (True, b2)
        }
        else Some (True, b1)
      })"

definition pack_close_frame :: "allocator \<Rightarrow> int \<Rightarrow> bytes \<Rightarrow> u8 \<Rightarrow> ostring \<Rightarrow> (int \<times> ostring) option" where
  "pack_close_frame al code reason flags buffer =
     (if length reason > 125 then Some (- 1, buffer)
      else do {
        (_, b) \<leftarrow> ws_encode al ([word_of_int (drop_bit 8 code), word_of_int code] @ reason) 8 (flags OR 1) buffer;
        Some (0, b)
      })"

subsection \<open>Decoding\<close>

definition ws_decode :: "bytes \<Rightarrow> (ws_frame \<times> bytes) option" where
  "ws_decode data = do {
     h \<leftarrow> load_header data;
     (pl, hl) \<leftarrow> (if h_LENGTH h = 126 then map_option (\<lambda>x. (unat (ntohs x), 4)) (load16 (drop 2 data))
                else if h_LENGTH h > 126 then map_option (\<lambda>x. (unat (openswoole_ntoh64 x), 10)) (load64 (drop 2 data))
                else Some (unat (h_LENGTH h), 2));
     if pl = 0 then Some (\<lparr>fr_header = h, fr_mask_key = None, fr_header_length = hl, fr_payload_length = 0, fr_payload = None\<rparr>, data)
     else if h_MASK h then do {
       key \<leftarrow> mem_read hl 4 data;
       data1 \<leftarrow> ws_mask (hl + 4) pl key data;
       Some (\<lparr>fr_header = h, fr_mask_key = Some key, fr_header_length = hl + 4, fr_payload_length = pl, fr_payload = Some (hl + 4)\<rparr>, data1)
     }
     else Some (\<lparr>fr_header = h, fr_mask_key = None, fr_header_length = hl, fr_payload_length = pl, fr_payload = Some hl\<rparr>, data)
   }"

subsection \<open>Dispatch\<close>

text \<open>
  The connection, the flags in the protocol, and what leaves the function: the tasks handed to
  \<^verbatim>\<open>Server::dispatch_task\<close> with their flags, and the frames sent back. The results of those calls are not used.
\<close>

record ws_conn =
  websocket_buffer :: "ostring option"
  websocket_status :: nat
  ext_flags :: u16
  tasks :: "(u16 \<times> bytes) list"
  sent :: "bytes list"

definition STATUS_CLOSING :: nat where
  "STATUS_CLOSING = 4"

definition ws_dispatch_task :: "bytes \<Rightarrow> ws_conn \<Rightarrow> ws_conn" where
  "ws_dispatch_task bs c = c\<lparr>tasks := tasks c @ [(ext_flags c, bs)], ext_flags := 0\<rparr>"

text \<open>\<^verbatim>\<open>length - ws.payload_length\<close> as a 64-bit number.\<close>

definition ws_offset :: "nat \<Rightarrow> ws_frame \<Rightarrow> u64" where
  "ws_offset len ws = word_of_nat len - word_of_nat (fr_payload_length ws)"

definition ws_continuation :: "allocator \<Rightarrow> nat \<Rightarrow> ws_frame \<Rightarrow> bytes \<Rightarrow> nat \<Rightarrow> ws_conn \<Rightarrow> (int \<times> ws_conn) option" where
  "ws_continuation al max_length ws data len c =
     (case websocket_buffer c of
        None \<Rightarrow> Some (- 1, c)
      | Some frame_buffer \<Rightarrow>
          (let offset = ws_offset len ws;
               frame_length = sint (ucast (word_of_nat len - offset) :: u32)
           in
            if nat ((int (st_length frame_buffer) + frame_length) mod 2 ^ 64) > max_length then Some (- 1, c)
            else do {
              bs \<leftarrow> mem_read (unat offset) (nat (frame_length mod 2 ^ 64)) data;
              b \<leftarrow> string_append al bs frame_buffer;
              if h_FIN (fr_header ws) then do {
                v \<leftarrow> mem_read 0 (st_length b) (st_mem b);
                Some (0, (ws_dispatch_task v (c\<lparr>ext_flags := word_of_int (st_offset b) OR 1\<rparr>))\<lparr>websocket_buffer := None\<rparr>)
              }
              else Some (0, c\<lparr>websocket_buffer := Some b\<rparr>)
            }))"

definition ws_message :: "allocator \<Rightarrow> ws_frame \<Rightarrow> bytes \<Rightarrow> nat \<Rightarrow> ws_conn \<Rightarrow> (int \<times> ws_conn) option" where
  "ws_message al ws data len c =
     (let offset = ws_offset len ws; h = fr_header ws;
          flags = get_ext_flags (h_OPCODE h) (get_flags h); c1 = c\<lparr>ext_flags := flags\<rparr>
      in
       if \<not> h_FIN h then
         (if websocket_buffer c \<noteq> None then Some (- 1, c1)
          else do {
            bs \<leftarrow> mem_read (unat offset) (unat (word_of_nat len - offset)) data;
            b \<leftarrow> string_of_bytes al bs;
            Some (0, c1\<lparr>websocket_buffer := Some (b\<lparr>st_offset := uint flags\<rparr>)\<rparr>)
          })
       else do {
         bs \<leftarrow> mem_read (unat offset) (unat (ucast (word_of_nat len - offset) :: u32)) data;
         Some (0, ws_dispatch_task bs c1)
       })"

definition ws_ping :: "ws_frame \<Rightarrow> bytes \<Rightarrow> nat \<Rightarrow> ws_conn \<Rightarrow> (int \<times> ws_conn) option" where
  "ws_ping ws data len c =
     (let h = fr_header ws; c1 = c\<lparr>ext_flags := get_ext_flags (h_OPCODE h) (get_flags h)\<rparr> in
      if len \<ge> 127 then Some (- 1, c)
      else if len = 2 then Some (0, ws_dispatch_task [] c1)
      else
        (let offset = (if h_MASK h then 6 else 2) in
         do {
           bs \<leftarrow> mem_read offset (unat (word_of_nat len - word_of_nat offset :: u32)) data;
           Some (0, ws_dispatch_task bs c1)
         }))"

text \<open>The reply to a close frame is built in a local array of 129 bytes.\<close>

definition ws_close :: "ws_frame \<Rightarrow> bytes \<Rightarrow> nat \<Rightarrow> ws_conn \<Rightarrow> (int \<times> ws_conn) option" where
  "ws_close ws data len c =
     (let offset = ws_offset len ws; h = fr_header ws in
      if unat (word_of_nat len - 2 :: u32) > 125 then Some (- 1, c)
      else if websocket_status c \<noteq> STATUS_CLOSING then do {
        bs \<leftarrow> mem_read (unat offset) (unat (ucast (word_of_nat len - offset) :: u32)) data;
        v \<leftarrow> mem_read (unat offset) (fr_payload_length ws) data;
        let c1 = ws_dispatch_task bs (c\<lparr>ext_flags := get_ext_flags (h_OPCODE h) (get_flags h)\<rparr>);
        if 2 + fr_payload_length ws \<le> 129
        then Some (- 1, c1\<lparr>sent := sent c @ [[0x88, word_of_nat (fr_payload_length ws)] @ v]\<rparr>)
        else None
      }
      else Some (- 1, c\<lparr>websocket_status := 0\<rparr>))"

definition ws_dispatch_frame :: "allocator \<Rightarrow> nat \<Rightarrow> bytes \<Rightarrow> nat \<Rightarrow> ws_conn \<Rightarrow> (int \<times> ws_conn) option" where
  "ws_dispatch_frame al max_length data len c = do {
     (ws, data1) \<leftarrow> ws_decode data;
     let op = h_OPCODE (fr_header ws);
     if op = 0 then ws_continuation al max_length ws data1 len c
     else if op = 1 \<or> op = 2 then ws_message al ws data1 len c
     else if op = 9 \<or> op = 10 then ws_ping ws data1 len c
     else if op = 8 then ws_close ws data1 len c
     else Some (0, c)
   }"

subsection \<open>Masking bytewise\<close>

text \<open>The definition of masking in the protocol: byte \<open>i\<close> is combined with byte \<open>i mod 4\<close> of the key.\<close>

definition xor_key :: "bytes \<Rightarrow> bytes \<Rightarrow> bytes" where
  "xor_key key bs = map (\<lambda>i. bs ! i XOR key ! (i mod 4)) [0..<length bs]"

definition xor_at :: "nat \<Rightarrow> nat \<Rightarrow> nat \<Rightarrow> bytes \<Rightarrow> bytes \<Rightarrow> bytes" where
  "xor_at p i n key m = map (\<lambda>j. if p + i \<le> j \<and> j < p + i + n then m ! j XOR key ! ((j - p) mod 4) else m ! j) [0..<length m]"

lemma xor_at_length [simp]: "length (xor_at p i n key m) = length m"
  by (simp add: xor_at_def)

lemma xor_at_nth: "j < length m \<Longrightarrow> xor_at p i n key m ! j = (if p + i \<le> j \<and> j < p + i + n then m ! j XOR key ! ((j - p) mod 4) else m ! j)"
  by (simp add: xor_at_def)

lemma xor_at_add: "xor_at p (i + n) k key (xor_at p i n key m) = xor_at p i (n + k) key m"
  by (rule nth_equalityI) (auto simp: xor_at_nth)

lemma xor_at_0 [simp]: "xor_at p i 0 key m = m"
  by (rule nth_equalityI) (auto simp: xor_at_nth)

lemma xor_at_split:
  "p + n \<le> length m \<Longrightarrow> xor_at p 0 n key m = take p m @ xor_key key (take n (drop p m)) @ drop (p + n) m"
  by (rule nth_equalityI) (auto simp: xor_at_nth xor_key_def nth_append min_def add.commute)

lemma xor_key_length [simp]: "length (xor_key key bs) = length bs"
  by (simp add: xor_key_def)

lemma xor_key_twice: "xor_key key (xor_key key bs) = bs"
  by (rule nth_equalityI) (auto simp: xor_key_def xor.assoc)

lemma mask_bytes_spec:
  "mask_bytes n i p key m = (if p + i + n \<le> length m \<or> n = 0 then Some (xor_at p i n key m) else None)"
proof (induction n arbitrary: i m)
  case (Suc n)
  show ?case
  proof (cases "p + i < length m")
    case True
    have "m[p + i := m ! (p + i) XOR key ! (i mod 4)] = xor_at p i 1 key m"
      by (rule nth_equalityI) (auto simp: xor_at_nth nth_list_update less_Suc_eq_le dest: le_antisym)
    then show ?thesis using Suc True xor_at_add [of p i 1 n key m] by auto
  qed auto
qed simp

text \<open>A 64-bit exclusive or is one of the bytes.\<close>

lemma le_bytes_nth: "i < k \<Longrightarrow> le_bytes k n ! i = word_of_nat (n div 256 ^ i)"
  by (induction k arbitrary: i n) (auto simp: nth_Cons' div_mult2_eq [symmetric] less_Suc_eq_0_disj split: nat.split)

lemma bit_le_bytes:
  assumes "i < 8" and "j < 8"
  shows "bit (le_bytes 8 (unat (x :: u64)) ! i) j = bit x (8 * i + j)"
proof -
  have "(256 :: nat) ^ i = 2 ^ (8 * i)" by (simp add: power_mult)
  then have "bit (word_of_nat (unat x div 256 ^ i) :: u8) j = bit (drop_bit (8 * i) (unat x)) j"
    using assms by (simp add: bit_of_nat_iff drop_bit_eq_div)
  then show ?thesis using assms by (simp add: le_bytes_nth bit_drop_bit_eq bit_unsigned_iff bit_imp_le_length)
qed


lemma bit_key64:
  assumes "length key = 4" and "i < 8" and "j < 8"
  defines "k \<equiv> word_of_nat (le_value key) :: u32"
  shows "bit (push_bit 32 (ucast k) OR ucast k :: u64) (8 * i + j) = bit (key ! (i mod 4)) j"
proof -
  have k: "bit k (8 * c + j) = bit (key ! c) j" if c: "c < 4" for c
  proof -
    have "unat k = le_value key" using le_value_less [of key] assms(1) by (simp add: k_def unat_of_nat take_bit_eq_mod)
    then have "key = le_bytes 4 (unat k)" using le_bytes_value [of key] assms(1) by simp
    then have "key ! c = word_of_nat (unat k div 256 ^ c)" using c by (simp add: le_bytes_nth)
    moreover have "(256 :: nat) ^ c = 2 ^ (8 * c)" by (simp add: power_mult)
    ultimately show ?thesis using c assms(3) by (simp add: bit_of_nat_iff drop_bit_eq_div [symmetric] bit_drop_bit_eq bit_unsigned_iff)
  qed
  show ?thesis
  proof (cases "i < 4")
    case True
    then show ?thesis using k [of i] assms(3) by (simp add: bit_or_iff bit_push_bit_iff bit_unsigned_iff)
  next
    case False
    then have i: "i mod 4 = i - 4" "i - 4 < 4" using assms(2) by (simp_all add: mod_if)
    have "8 * (i - 4) + j = 8 * i + j - 32" using False by simp
    then have "bit k (8 * i + j - 32) = bit (key ! (i - 4)) j" using k [OF i(2)] by simp
    moreover have "\<not> bit k (8 * i + j)" using False bit_imp_le_length [of k "8 * i + j"] by auto
    moreover have "8 * i + j - 32 < 64" using assms(2,3) by simp
    ultimately show ?thesis using False assms(2,3) i by (simp add: bit_or_iff bit_push_bit_iff bit_unsigned_iff)
  qed
qed

lemma xor_word_bytes:
  assumes "length key = 4" and "length bs = 8"
  defines "k \<equiv> word_of_nat (le_value key) :: u32"
  shows "le_bytes 8 (unat ((word_of_nat (le_value bs) :: u64) XOR (push_bit 32 (ucast k) OR ucast k))) = xor_key key bs"
proof (rule nth_equalityI)
  let ?x = "word_of_nat (le_value bs) :: u64" and ?k = "push_bit 32 (ucast k) OR ucast k :: u64"
  have "unat ?x = le_value bs" using le_value_less [of bs] assms(2) by (simp add: unat_of_nat take_bit_eq_mod)
  then have x: "le_bytes 8 (unat ?x) = bs" using le_bytes_value [of bs] assms(2) by simp
  fix i assume "i < length (le_bytes 8 (unat (?x XOR ?k)))"
  then have i: "i < 8" by simp
  show "le_bytes 8 (unat (?x XOR ?k)) ! i = xor_key key bs ! i"
  proof (rule bit_word_eqI)
    fix j assume "j < LENGTH(8)"
    then have j: "j < 8" by simp
    have "bit (le_bytes 8 (unat (?x XOR ?k)) ! i) j = (bit ?x (8 * i + j) \<noteq> bit ?k (8 * i + j))"
      by (simp add: bit_le_bytes [OF i j] bit_xor_iff)
    also have "\<dots> = (bit (bs ! i) j \<noteq> bit (key ! (i mod 4)) j)"
      using bit_le_bytes [OF i j, of ?x] bit_key64 [OF assms(1) i j] by (simp add: x k_def)
    finally show "bit (le_bytes 8 (unat (?x XOR ?k)) ! i) j = bit (xor_key key bs ! i) j"
      using i assms(2) by (simp add: xor_key_def bit_xor_iff)
  qed
qed (simp add: assms(2))

lemma mask_words_spec:
  assumes key: "length key = 4" and p: "p + 8 * n \<le> length m \<or> n = 0"
  defines "k \<equiv> word_of_nat (le_value key) :: u32"
  shows "mask_words n p (push_bit 32 (ucast k) OR ucast k) m = Some (xor_at p 0 (8 * n) key m)"
  using p
proof (induction n arbitrary: p m)
  case (Suc n)
  let ?k = "push_bit 32 (ucast k) OR ucast k :: u64" and ?bs = "take 8 (drop p m)"
  have l: "length ?bs = 8" "p + 8 \<le> length m" using Suc.prems by auto
  have ld: "load64 (drop p m) = Some (word_of_nat (le_value ?bs))" using l by (simp add: load64_def mem_read_def)
  have x: "le_bytes 8 (unat ((word_of_nat (le_value ?bs) :: u64) XOR ?k)) = xor_key key ?bs"
    using xor_word_bytes [OF key l(1)] by (simp add: k_def)
  have wr: "mem_write p (xor_key key ?bs) m = Some (xor_at p 0 8 key m)" using l by (simp add: mem_write_def xor_at_split)
  have "mask_words n (p + 8) ?k (xor_at p 0 8 key m) = Some (xor_at (p + 8) 0 (8 * n) key (xor_at p 0 8 key m))"
    using Suc.IH [of "p + 8" "xor_at p 0 8 key m"] Suc.prems by auto
  moreover have "xor_at (p + 8) 0 (8 * n) key (xor_at p 0 8 key m) = xor_at p 8 (8 * n) key (xor_at p 0 8 key m)"
  proof (rule nth_equalityI)
    fix i assume i: "i < length (xor_at (p + 8) 0 (8 * n) key (xor_at p 0 8 key m))"
    have "(i - (p + 8)) mod 4 = (i - p) mod 4" if p: "p + 8 \<le> i"
    proof -
      obtain d where "i = p + 8 + d" using p le_Suc_ex by blast
      then show ?thesis by (simp add: mod_add_eq [of 8 4 d, symmetric])
    qed
    then show "xor_at (p + 8) 0 (8 * n) key (xor_at p 0 8 key m) ! i = xor_at p 8 (8 * n) key (xor_at p 0 8 key m) ! i"
      using i by (auto simp: xor_at_nth)
  qed simp
  ultimately show ?case using xor_at_add [of p 0 8 "8 * n" key m] ld x wr by simp
qed simp

text \<open>The two loops do what the protocol says, and stay inside the memory when the data does.\<close>

lemma ws_mask_spec:
  assumes "length key = 4" and "p + len \<le> length m"
  shows "ws_mask p len key m = Some (take p m @ xor_key key (take len (drop p m)) @ drop (p + len) m)"
proof -
  let ?n = "len div 8"
  have n: "?n * 8 \<le> len" by simp
  have "mask_words ?n p (push_bit 32 (ucast (word_of_nat (le_value key) :: u32)) OR ucast (word_of_nat (le_value key) :: u32)) m
      = Some (xor_at p 0 (8 * ?n) key m)"
    by (rule mask_words_spec [OF assms(1)]) (use assms(2) n in linarith)
  moreover have "mask_bytes (len - ?n * 8) (?n * 8) p key (xor_at p 0 (8 * ?n) key m) = Some (xor_at p 0 len key m)"
    using mask_bytes_spec [of "len - ?n * 8" "?n * 8" p key "xor_at p 0 (8 * ?n) key m"] assms(2) n
      xor_at_add [of p 0 "8 * ?n" "len - ?n * 8" key m] by (simp add: mult.commute)
  moreover have "load32 key = Some (word_of_nat (le_value key))" using assms(1) by (simp add: load32_def mem_read_def)
  ultimately show ?thesis unfolding ws_mask_def Let_def xor_at_split [OF assms(2), symmetric] by (simp only: Option.bind.simps)
qed


subsection \<open>Frames on the wire\<close>

definition header_ok :: "ws_header \<Rightarrow> bool" where
  "header_ok h \<longleftrightarrow> h_OPCODE h AND 15 = h_OPCODE h \<and> h_LENGTH h AND 127 = h_LENGTH h"

lemma u8_masks: "(15 :: u8) = mask 4" "(127 :: u8) = mask 7"
  by (simp_all add: mask_eq_exp_minus_1)

lemma flag_bit_iff: "bit (flag_bit n b) j \<longleftrightarrow> b \<and> j = n \<and> n < 8"
  by (auto simp: flag_bit_def bit_push_bit_iff bit_1_iff simp del: push_bit_of_1)

lemma load_header_bytes:
  assumes "header_ok h"
  shows "load_header (header_bytes h @ r) = Some h"
proof -
  let ?a = "header_bytes h ! 0" and ?b = "header_bytes h ! 1"
  have o: "bit (h_OPCODE h) j \<Longrightarrow> j < 4" "bit (h_LENGTH h) j \<Longrightarrow> j < 7" for j
    using arg_cong [of "h_OPCODE h AND 15" "h_OPCODE h" "\<lambda>x. bit x j"] arg_cong [of "h_LENGTH h AND 127" "h_LENGTH h" "\<lambda>x. bit x j"] assms
    unfolding header_ok_def u8_masks bit_and_iff bit_mask_iff by auto
  have "?a AND 15 = h_OPCODE h"
    by (rule bit_word_eqI) (auto simp: header_bytes_def u8_masks bit_and_iff bit_or_iff bit_mask_iff flag_bit_iff dest: o(1))
  moreover have "?b AND 127 = h_LENGTH h"
    by (rule bit_word_eqI) (auto simp: header_bytes_def u8_masks bit_and_iff bit_or_iff bit_mask_iff flag_bit_iff dest: o(2))
  moreover have "bit ?a 4 = h_RSV3 h" "bit ?a 5 = h_RSV2 h" "bit ?a 6 = h_RSV1 h" "bit ?a 7 = h_FIN h" "bit ?b 7 = h_MASK h"
    using o(1) [of 4] o(1) [of 5] o(1) [of 6] o(1) [of 7] o(2) [of 7] by (auto simp: header_bytes_def bit_or_iff flag_bit_iff)
  moreover have "mem_read 0 2 (header_bytes h @ r) = Some (header_bytes h)" by (simp add: mem_read_def header_bytes_def)
  ultimately show ?thesis by (simp add: load_header_def)
qed

definition len_code :: "nat \<Rightarrow> u8" where
  "len_code n = (if n < 126 then word_of_nat n else if n < 65536 then 126 else 127)"

definition len_ext :: "nat \<Rightarrow> bytes" where
  "len_ext n = (if n < 126 then [] else if n < 65536 then be_bytes 2 n else be_bytes 8 n)"

definition ws_prefix :: "ws_header \<Rightarrow> nat \<Rightarrow> bytes" where
  "ws_prefix h n = header_bytes (h\<lparr>h_LENGTH := len_code n\<rparr>) @ len_ext n"

text \<open>The frame with header \<open>h\<close>, masking key \<open>key\<close> and payload \<open>d\<close>.\<close>

definition frame_bytes :: "ws_header \<Rightarrow> bytes \<Rightarrow> bytes \<Rightarrow> bytes" where
  "frame_bytes h key d = ws_prefix h (length d) @ (if h_MASK h then key @ xor_key key d else d)"

definition frame_head :: "ws_header \<Rightarrow> bytes \<Rightarrow> nat \<Rightarrow> bytes" where
  "frame_head h key n = ws_prefix h n @ (if h_MASK h then key else [])"

lemma len_code_unat: "unat (len_code n) = (if n < 126 then n else if n < 65536 then 126 else 127)"
  by (simp add: len_code_def unat_u8)

lemma u8_and_127: "unat (x :: u8) < 128 \<Longrightarrow> x AND 127 = x"
  unfolding u8_masks take_bit_eq_mask [symmetric] word_unat_eq_iff by (simp add: unsigned_take_bit_eq take_bit_nat_eq_self)

lemma len_code_ok: "header_ok h \<Longrightarrow> header_ok (h\<lparr>h_LENGTH := len_code n\<rparr>)"
  using len_code_unat [of n] by (simp add: header_ok_def u8_and_127)

lemma header_bytes_length [simp]: "length (header_bytes h) = 2"
  by (simp add: header_bytes_def)

lemma ws_prefix_length: "length (ws_prefix h n) = (if n < 126 then 2 else if n < 65536 then 4 else 10)"
  by (simp add: ws_prefix_def len_ext_def be_bytes_def)

lemma load_ext:
  "n < 65536 \<Longrightarrow> \<exists>x. load16 (be_bytes 2 n @ r) = Some x \<and> ntohs x = word_of_nat n"
  "n < 2 ^ 64 \<Longrightarrow> \<exists>x. load64 (be_bytes 8 n @ r) = Some x \<and> openswoole_ntoh64 x = word_of_nat n"
proof -
  have l: "length (be_bytes k n) = k" for k by (simp add: be_bytes_def)
  have b: "be_value (be_bytes k n) = n" if "n < 256 ^ k" for k using that by (simp add: be_value_bytes)
  show "n < 65536 \<Longrightarrow> \<exists>x. load16 (be_bytes 2 n @ r) = Some x \<and> ntohs x = word_of_nat n"
    using ntohs_bytes [of "be_bytes 2 n"] b [of 2] l [of 2] by (simp add: load16_def mem_read_def)
  show "n < 2 ^ 64 \<Longrightarrow> \<exists>x. load64 (be_bytes 8 n @ r) = Some x \<and> openswoole_ntoh64 x = word_of_nat n"
    using ntoh64_bytes [of "be_bytes 8 n"] b [of 8] l [of 8] by (simp add: load64_def mem_read_def)
qed


text \<open>What the length function and the decoder read of the header of a frame.\<close>

lemma frame_length_code:
  assumes "header_ok h"
  shows "(frame_bytes h key d @ r) ! 1 AND 127 = len_code (length d)" "bit ((frame_bytes h key d @ r) ! 1) 7 = h_MASK h"
    "load_header (frame_bytes h key d @ r) = Some (h\<lparr>h_LENGTH := len_code (length d)\<rparr>)"
proof -
  let ?h = "h\<lparr>h_LENGTH := len_code (length d)\<rparr>" and ?t = "len_ext (length d) @ (if h_MASK h then key @ xor_key key d else d) @ r"
  have f: "frame_bytes h key d @ r = header_bytes ?h @ ?t" by (simp add: frame_bytes_def ws_prefix_def)
  show l: "load_header (frame_bytes h key d @ r) = Some ?h" unfolding f by (rule load_header_bytes [OF len_code_ok [OF assms]])
  have m: "mem_read 0 2 (frame_bytes h key d @ r) = Some (header_bytes ?h)" unfolding f by (simp add: mem_read_def)
  have n: "(frame_bytes h key d @ r) ! 1 = header_bytes ?h ! 1" unfolding f by (simp add: nth_append)
  show "(frame_bytes h key d @ r) ! 1 AND 127 = len_code (length d)" "bit ((frame_bytes h key d @ r) ! 1) 7 = h_MASK h"
    using arg_cong [OF l, of "\<lambda>x. h_LENGTH (the x)"] arg_cong [OF l, of "\<lambda>x. h_MASK (the x)"] unfolding n load_header_def m by simp_all
qed

lemma frame_ext_drop: "drop 2 (frame_bytes h key d @ r) = len_ext (length d) @ (if h_MASK h then key @ xor_key key d else d) @ r"
  by (simp add: frame_bytes_def ws_prefix_def)

lemma frame_bytes_length:
  "length key = 4 \<Longrightarrow> length (frame_bytes h key d) = length (ws_prefix h (length d)) + (if h_MASK h then 4 else 0) + length d"
  by (simp add: frame_bytes_def)

lemma len_code_cases: "len_code n = 126 \<longleftrightarrow> 126 \<le> n \<and> n < 65536" "len_code n = 127 \<longleftrightarrow> 65536 \<le> n" "len_code n > 126 \<longleftrightarrow> 65536 \<le> n"
  by (auto simp: word_unat_eq_iff len_code_unat word_less_nat_alt)

lemma sint_length: "a + n < 2 ^ 63 \<Longrightarrow> sint (word_of_nat a + word_of_nat n :: u64) = int (a + n)"
  using signed_take_bit_int_eq_self [of 63 "int (a + n)"] by (simp add: signed_of_nat flip: of_nat_add)

lemma ws_length_frame:
  assumes h: "header_ok h" and k: "length key = 4" and d: "length d + 14 < 2 ^ 63"
  shows "ws_get_package_length (frame_bytes h key d @ r) = Some (int (length (frame_bytes h key d)), None)"
proof -
  let ?b = "frame_bytes h key d @ r" and ?n = "length d" and ?t = "(if h_MASK h then key @ xor_key key d else d) @ r"
  note c = frame_length_code [OF h, of key d r] and e = frame_ext_drop [of h key d r]
  have l: "length (frame_bytes h key d) = length (ws_prefix h ?n) + (if h_MASK h then 4 else 0) + ?n" by (rule frame_bytes_length [OF k])
  consider "?n < 126" | "126 \<le> ?n" "?n < 65536" | "65536 \<le> ?n" by linarith
  then show ?thesis
  proof cases
    case 1
    then have "ucast (len_code ?n) = (word_of_nat ?n :: u64)" using len_code_unat [of ?n] by (metis ucast_nat)
    then show ?thesis using 1 l c d len_code_cases [of ?n] sint_length [of 2 ?n] sint_length [of 6 ?n]
      by (simp add: ws_get_package_length_def Let_def ws_prefix_length)
  next
    case 2
    obtain x where x: "load16 (drop 2 ?b) = Some x" "ntohs x = word_of_nat ?n"
      using load_ext(1) [of ?n ?t] 2 unfolding e len_ext_def by auto
    have "ucast (ntohs x) = (word_of_nat ?n :: u64)" using x(2) 2 by (simp add: ucast_nat unat_of_nat take_bit_nat_eq_self)
    then show ?thesis using 2 l c d x(1) len_code_cases [of ?n] sint_length [of 4 ?n] sint_length [of 8 ?n]
      by (simp add: ws_get_package_length_def Let_def ws_prefix_length)
  next
    case 3
    obtain x where x: "load64 (drop 2 ?b) = Some x" "openswoole_ntoh64 x = word_of_nat ?n"
      using load_ext(2) [of ?n ?t] 3 d unfolding e len_ext_def by auto
    then show ?thesis using 3 l c d len_code_cases [of ?n] sint_length [of 10 ?n] sint_length [of 14 ?n]
      by (simp add: ws_get_package_length_def Let_def ws_prefix_length)
  qed
qed


lemma xor_key_Nil [simp]: "xor_key key [] = []"
  by (simp add: xor_key_def)

lemma ws_decode_frame:
  assumes h: "header_ok h" and k: "length key = 4" and d: "length d + 14 < 2 ^ 63"
  shows "\<exists>fr. ws_decode (frame_bytes h key d @ r) = Some (fr, frame_head h key (length d) @ d @ r) \<and>
    fr_header fr = h\<lparr>h_LENGTH := len_code (length d)\<rparr> \<and> fr_payload_length fr = length d \<and>
    fr_payload fr = (if d = [] then None else Some (length (frame_head h key (length d))))"
proof -
  let ?b = "frame_bytes h key d @ r" and ?n = "length d" and ?t = "(if h_MASK h then key @ xor_key key d else d) @ r"
  let ?h = "h\<lparr>h_LENGTH := len_code ?n\<rparr>" and ?hl = "length (ws_prefix h ?n)"
  note c = frame_length_code [OF h, of key d r] and e = frame_ext_drop [of h key d r]
  have sz: "(if h_LENGTH ?h = 126 then map_option (\<lambda>x. (unat (ntohs x), 4)) (load16 (drop 2 ?b))
      else if h_LENGTH ?h > 126 then map_option (\<lambda>x. (unat (openswoole_ntoh64 x), 10)) (load64 (drop 2 ?b))
      else Some (unat (h_LENGTH ?h), 2)) = Some (?n, ?hl)"
  proof -
    consider "?n < 126" | "126 \<le> ?n" "?n < 65536" | "65536 \<le> ?n" by linarith
    then show ?thesis
    proof cases
      case 1
      then show ?thesis using len_code_cases [of ?n] len_code_unat [of ?n] by (simp add: ws_prefix_length)
    next
      case 2
      obtain x where "load16 (drop 2 ?b) = Some x" "ntohs x = word_of_nat ?n" using load_ext(1) [of ?n ?t] 2 unfolding e len_ext_def by auto
      then show ?thesis using 2 len_code_cases [of ?n] by (simp add: ws_prefix_length unat_of_nat take_bit_nat_eq_self)
    next
      case 3
      obtain x where "load64 (drop 2 ?b) = Some x" "openswoole_ntoh64 x = word_of_nat ?n" using load_ext(2) [of ?n ?t] 3 d unfolding e len_ext_def by auto
      then show ?thesis using 3 d len_code_cases [of ?n] by (simp add: ws_prefix_length unat_of_nat take_bit_nat_eq_self)
    qed
  qed
  show ?thesis
  proof (cases "d = [] \<or> \<not> h_MASK h")
    case True
    then have "?b = frame_head h key ?n @ d @ r" by (auto simp: frame_bytes_def frame_head_def)
    then show ?thesis using True unfolding ws_decode_def c(3) Option.bind.simps sz by (auto simp: frame_head_def)
  next
    case False
    have b: "?b = ws_prefix h ?n @ key @ xor_key key d @ r" using False by (simp add: frame_bytes_def)
    have rd: "mem_read ?hl 4 ?b = Some key" using k unfolding b by (simp add: mem_read_def)
    have "ws_mask (?hl + 4) ?n key ?b = Some (ws_prefix h ?n @ key @ d @ r)"
      using ws_mask_spec [OF k, of "?hl + 4" ?n ?b] k unfolding b by (simp add: xor_key_twice)
    then show ?thesis using False rd k unfolding ws_decode_def c(3) Option.bind.simps sz by (simp add: frame_head_def)
  qed
qed

text \<open>Encoding appends the frame with the key that the server uses.\<close>

definition encode_header :: "u8 \<Rightarrow> u8 \<Rightarrow> ws_header" where
  "encode_header opcode flags =
     \<lparr>h_OPCODE = opcode AND 15, h_RSV3 = False, h_RSV2 = False, h_RSV1 = (flags AND 4 \<noteq> 0), h_FIN = (flags AND 1 \<noteq> 0), h_LENGTH = 0, h_MASK = (flags AND 32 \<noteq> 0)\<rparr>"

lemma encode_header_ok: "header_ok (encode_header opcode flags)"
  by (simp add: header_ok_def encode_header_def and.assoc)

lemma htons_store: "n < 65536 \<Longrightarrow> le_bytes 2 (unat (ntohs (word_of_nat n))) = be_bytes 2 n"
proof -
  assume n: "n < 65536"
  have l: "length (be_bytes 2 n) = 2" by (simp add: be_bytes_def)
  have "ntohs (word_of_nat n) = word_of_nat (le_value (be_bytes 2 n))"
    using ntohs_bytes [of "rev (be_bytes 2 n)"] l n be_value_bytes [of 2 n] by (simp add: be_value_def)
  then show ?thesis using le_bytes_value [of "be_bytes 2 n"] l le_value_less [of "be_bytes 2 n"] by (simp add: unat_of_nat take_bit_eq_mod)
qed

lemma ws_encode_spec:
  assumes al: "allocator_ok al" and inv: "string_inv b" and d: "length d + 14 < 2 ^ 63"
  shows "\<exists>b'. ws_encode al d opcode flags b = Some (flags AND 32 = 0 \<or> flags AND 64 = 0, b') \<and> string_inv b' \<and>
     string_value b' = string_value b @
       (if flags AND 64 = 0 then frame_bytes (encode_header opcode flags) OSW_WEBSOCKET_MASK_DATA d
        else frame_head (encode_header opcode flags) OSW_WEBSOCKET_MASK_DATA (length d))"
proof -
  let ?h = "encode_header opcode flags" and ?n = "length d" and ?k = "OSW_WEBSOCKET_MASK_DATA"
  let ?hd = "header_bytes \<lparr>h_OPCODE = opcode AND 15, h_RSV3 = False, h_RSV2 = False, h_RSV1 = (flags AND 4 \<noteq> 0), h_FIN = (flags AND 1 \<noteq> 0),
      h_LENGTH = (if ?n < 126 then word_of_nat ?n else if ?n < 65536 then 126 else 127), h_MASK = (flags AND 32 \<noteq> 0)\<rparr> @
    (if ?n < 126 then [] else if ?n < 65536 then le_bytes 2 (unat (ntohs (word_of_nat ?n))) else le_bytes 8 (unat (openswoole_hton64 (word_of_nat ?n))))"
  have hd: "?hd = ws_prefix ?h ?n"
    using d htons_store [of ?n] hton64_store [of ?n] by (simp add: ws_prefix_def encode_header_def len_code_def len_ext_def)
  have kl: "length ?k = 4" by (simp add: OSW_WEBSOCKET_MASK_DATA_def)
  obtain b1 where b1: "string_append al (ws_prefix ?h ?n) b = Some b1" "string_inv b1" "string_value b1 = string_value b @ ws_prefix ?h ?n"
    by (rule string_append_spec [OF al inv])
  obtain b2 where b2: "string_append al ?k b1 = Some b2" "string_inv b2" "string_value b2 = string_value b1 @ ?k" by (rule string_append_spec [OF al b1(2)])
  obtain b3 where b3: "string_append al d b2 = Some b3" "string_inv b3" "string_value b3 = string_value b2 @ d" "st_length b3 = st_length b2 + ?n"
    by (rule string_append_spec [OF al b2(2)])
  obtain b4 where b4: "string_append al d b1 = Some b4" "string_inv b4" "string_value b4 = string_value b1 @ d" by (rule string_append_spec [OF al b1(2)])
  define m where "m = take (st_length b2) (st_mem b3) @ xor_key ?k (take ?n (drop (st_length b2) (st_mem b3))) @ drop (st_length b2 + ?n) (st_mem b3)"
  have le: "st_length b2 + ?n \<le> length (st_mem b3)" using b3(2,4) by (simp add: string_inv_def)
  have mk: "ws_mask (st_length b2) ?n ?k (st_mem b3) = Some m" unfolding m_def by (rule ws_mask_spec [OF kl le])
  have v: "string_value (b3\<lparr>st_mem := m\<rparr>) = string_value b2 @ xor_key ?k d" "string_inv (b3\<lparr>st_mem := m\<rparr>)"
  proof -
    have e: "take (st_length b2 + ?n) (st_mem b3) = string_value b2 @ d" using b3(3,4) by (simp add: string_value_def)
    have l: "length (string_value b2) = st_length b2" by (rule string_value_length [OF b2(2)])
    have "take (st_length b2) (take (st_length b2 + ?n) (st_mem b3)) = string_value b2" "drop (st_length b2) (take (st_length b2 + ?n) (st_mem b3)) = d"
      unfolding e using l by simp_all
    then have "take (st_length b2) (st_mem b3) = string_value b2" "take ?n (drop (st_length b2) (st_mem b3)) = d"
      by (simp_all add: take_drop min_def add.commute)
    then have "m = string_value b2 @ xor_key ?k d @ drop (st_length b2 + ?n) (st_mem b3)" by (simp add: m_def)
    then show "string_value (b3\<lparr>st_mem := m\<rparr>) = string_value b2 @ xor_key ?k d" "string_inv (b3\<lparr>st_mem := m\<rparr>)"
      using b3(4) le l unfolding string_value_def [of "b3\<lparr>st_mem := m\<rparr>"] by (simp_all add: string_inv_def)
  qed
  have mm: "h_MASK ?h \<longleftrightarrow> flags AND 32 \<noteq> 0" by (simp add: encode_header_def)
  have enc: "ws_encode al d opcode flags b =
      (if flags AND 32 \<noteq> 0
       then (if flags AND 64 \<noteq> 0 then Some (False, b2) else if d \<noteq> [] then Some (True, b3\<lparr>st_mem := m\<rparr>) else Some (True, b2))
       else if d \<noteq> [] \<and> flags AND 64 = 0 then Some (True, b4) else Some (True, b1))"
    unfolding ws_encode_def Let_def hd using b1(1) b2(1) b3(1) b4(1) mk by simp
  consider "flags AND 32 \<noteq> 0" "flags AND 64 = 0" "d \<noteq> []" | "flags AND 32 \<noteq> 0" "flags AND 64 \<noteq> 0 \<or> d = []" | "flags AND 32 = 0" "flags AND 64 = 0" "d \<noteq> []"
    | "flags AND 32 = 0" "flags AND 64 \<noteq> 0 \<or> d = []" by blast
  then show ?thesis
    by cases (use b1(2,3) b2(2,3) b4(2,3) v mm in \<open>auto simp: enc frame_bytes_def frame_head_def\<close>)
qed


subsection \<open>Dispatch of frames\<close>

lemma ws_offset_frame:
  assumes "fr_payload_length ws = n" and "n \<le> len" and "len < 2 ^ 32"
  shows "unat (ws_offset len ws) = len - n" "word_of_nat len - ws_offset len ws = word_of_nat n"
proof -
  have o: "ws_offset len ws = word_of_nat (len - n)" using assms(1,2) by (simp add: ws_offset_def)
  show "unat (ws_offset len ws) = len - n" using assms(2,3) by (simp add: o unat_of_nat take_bit_nat_eq_self del: of_nat_diff)
  show "word_of_nat len - ws_offset len ws = word_of_nat n" using assms(2) by (simp add: o)
qed

lemma word_length_casts:
  assumes "n < 2 ^ 31"
  shows "unat (word_of_nat n :: u64) = n" "unat (ucast (word_of_nat n :: u64) :: u32) = n" "sint (ucast (word_of_nat n :: u64) :: u32) = int n"
proof -
  show u: "unat (word_of_nat n :: u64) = n" using assms by (simp add: unat_of_nat take_bit_nat_eq_self)
  have c: "ucast (word_of_nat n :: u64) = (word_of_nat n :: u32)" using u by (simp only: ucast_nat)
  show "unat (ucast (word_of_nat n :: u64) :: u32) = n" unfolding c using assms by (simp add: unat_of_nat take_bit_nat_eq_self)
  show "sint (ucast (word_of_nat n :: u64) :: u32) = int n" unfolding c using assms signed_take_bit_int_eq_self [of 31 "int n"] by (simp add: signed_of_nat)
qed

text \<open>A frame decoded at the front of the received data: the header, the payload length, and the payload where the
  dispatcher looks for it.\<close>

lemma ws_frame_payload:
  assumes h: "header_ok h" and k: "length key = 4" and d: "length (frame_bytes h key d) < 2 ^ 31"
  defines "len \<equiv> length (frame_bytes h key d)"
  obtains fr m where "ws_decode (frame_bytes h key d) = Some (fr, m)" "fr_header fr = h\<lparr>h_LENGTH := len_code (length d)\<rparr>"
    "fr_payload_length fr = length d" "mem_read (unat (ws_offset len fr)) (length d) m = Some d"
    "word_of_nat len - ws_offset len fr = word_of_nat (length d)" "length d < 2 ^ 31"
proof -
  let ?n = "length d" and ?hd = "frame_head h key (length d)"
  have l: "len = length ?hd + ?n" unfolding len_def using k by (simp add: frame_bytes_def frame_head_def)
  then have n: "?n < 2 ^ 31" "len < 2 ^ 31" using d by (simp_all add: len_def)
  obtain fr where fr: "ws_decode (frame_bytes h key d) = Some (fr, ?hd @ d)" "fr_header fr = h\<lparr>h_LENGTH := len_code ?n\<rparr>" "fr_payload_length fr = ?n"
    using ws_decode_frame [OF h k, of d "[]"] n(1) by auto
  have "unat (ws_offset len fr) = length ?hd" "word_of_nat len - ws_offset len fr = word_of_nat ?n"
    using ws_offset_frame [OF fr(3), of len] l n(2) by simp_all
  then show thesis using that [OF fr] n(1) by (simp add: mem_read_def)
qed

definition message_flags :: "ws_header \<Rightarrow> u16" where
  "message_flags h = get_ext_flags (h_OPCODE h) (get_flags h)"

lemma get_flags_length [simp]: "get_flags (h\<lparr>h_LENGTH := n\<rparr>) = get_flags h"
  by (simp add: get_flags_def)

lemma string_of_bytes_spec:
  assumes "allocator_ok al"
  obtains s where "string_of_bytes al bs = Some s" "string_inv s" "string_value s = bs" "st_size s = 0 \<longleftrightarrow> bs = []"
proof -
  obtain s where s: "string_alloc al (length bs) = Some s" "st_size s = mem_aligned_size (length bs)" by (rule string_alloc_spec [OF assms])
  have le: "length bs \<le> st_size s" "st_size s = 0 \<longleftrightarrow> bs = []" unfolding s(2) using mem_aligned_size_ge [of "length bs"] by (auto simp: mem_aligned_size_def mem_aligned_size_ex_def)
  then have "string_of_bytes al bs = Some (s\<lparr>st_mem := bs @ drop (length bs) (st_mem s), st_length := length bs\<rparr>)"
    using s(1) by (simp add: string_of_bytes_def mem_write_def)
  then show thesis by (rule that) (use le in \<open>auto simp: string_inv_def string_value_def\<close>)
qed

lemma string_append_block:
  assumes al: "allocator_ok al" and inv: "string_inv s"
  obtains s' where "string_append al bs s = Some s'" "string_inv s'" "string_value s' = string_value s @ bs"
    "st_offset s' = (if st_size s = 0 \<and> bs \<noteq> [] then 0 else st_offset s)" "st_size s' = 0 \<longleftrightarrow> st_size s = 0 \<and> bs = []"
proof -
  obtain s' where s': "string_append al bs s = Some s'" "string_inv s'" "string_value s' = string_value s @ bs"
      "st_length s' = st_length s + length bs" "st_size s \<noteq> 0 \<longrightarrow> st_offset s' = st_offset s"
    by (rule string_append_spec [OF al inv])
  have e: "s' = s" if "bs = []" using that inv s'(1) by (simp add: string_append_def mem_write_def string_inv_def)
  have o: "st_offset s' = 0" if z: "st_size s = 0" "bs \<noteq> []"
  proof -
    obtain t where "string_alloc al (st_length s + length bs) = Some t" "st_offset t = 0" by (rule string_alloc_spec [OF al])
    then show ?thesis using s'(1) z inv by (auto simp: string_append_def string_reserve_def bind_eq_Some_conv)
  qed
  have "st_size s' \<noteq> 0" if "bs \<noteq> []" using that s'(2,4) by (auto simp: string_inv_def)
  then have "st_offset s' = (if st_size s = 0 \<and> bs \<noteq> [] then 0 else st_offset s)" "st_size s' = 0 \<longleftrightarrow> st_size s = 0 \<and> bs = []"
    using e o s'(5) by auto
  then show thesis by (rule that [OF s'(1-3)])
qed


text \<open>One frame after the other, as the receive loop hands them over; an error closes the connection.\<close>

fun ws_run :: "allocator \<Rightarrow> nat \<Rightarrow> bytes list \<Rightarrow> ws_conn \<Rightarrow> (int \<times> ws_conn) option" where
  "ws_run al mx [] c = Some (0, c)"
| "ws_run al mx (f # fs) c = do {
     (r, c1) \<leftarrow> ws_dispatch_frame al mx f (length f) c;
     if r < 0 then Some (r, c1) else ws_run al mx fs c1
   }"

text \<open>The frames of a fragmented message: every fragment has a key and a payload.\<close>

fun cont_frames :: "ws_header \<Rightarrow> (bytes \<times> bytes) list \<Rightarrow> bytes list" where
  "cont_frames h [] = []"
| "cont_frames h ((key, d) # ps) = frame_bytes (h\<lparr>h_OPCODE := 0, h_FIN := (ps = [])\<rparr>) key d # cont_frames h ps"

fun message_frames :: "ws_header \<Rightarrow> (bytes \<times> bytes) list \<Rightarrow> bytes list" where
  "message_frames h [] = []"
| "message_frames h ((key, d) # ps) = frame_bytes (h\<lparr>h_FIN := (ps = [])\<rparr>) key d # cont_frames h ps"

definition payloads :: "(bytes \<times> bytes) list \<Rightarrow> bytes" where
  "payloads ps = concat (map snd ps)"

lemma payloads_simps [simp]: "payloads [] = []" "payloads ((key, d) # ps) = d @ payloads ps"
  by (simp_all add: payloads_def)

lemma header_ok_upd: "header_ok h \<Longrightarrow> header_ok (h\<lparr>h_OPCODE := 0, h_FIN := b\<rparr>)" "header_ok h \<Longrightarrow> header_ok (h\<lparr>h_FIN := b\<rparr>)"
  by (simp_all add: header_ok_def)

lemma ws_continuation_frame:
  assumes h: "header_ok h" "h_OPCODE h = 0" and k: "length key = 4" and len: "length (frame_bytes h key d) < 2 ^ 31"
    and al: "allocator_ok al" and b: "websocket_buffer c = Some b" "string_inv b" and mx: "st_length b + length d \<le> mx" "mx < 2 ^ 32"
  shows "\<exists>b'. ws_dispatch_frame al mx (frame_bytes h key d) (length (frame_bytes h key d)) c =
      Some (0, if h_FIN h then c\<lparr>tasks := tasks c @ [(word_of_int (st_offset b') OR 1, string_value b @ d)], ext_flags := 0, websocket_buffer := None\<rparr>
               else c\<lparr>websocket_buffer := Some b'\<rparr>) \<and>
      string_inv b' \<and> string_value b' = string_value b @ d \<and>
      st_offset b' = (if st_size b = 0 \<and> d \<noteq> [] then 0 else st_offset b) \<and> (st_size b' = 0 \<longleftrightarrow> st_size b = 0 \<and> d = [])"
proof -
  let ?f = "frame_bytes h key d"
  obtain fr m where fr: "ws_decode ?f = Some (fr, m)" "fr_header fr = h\<lparr>h_LENGTH := len_code (length d)\<rparr>"
    "fr_payload_length fr = length d" "mem_read (unat (ws_offset (length ?f) fr)) (length d) m = Some d"
    "word_of_nat (length ?f) - ws_offset (length ?f) fr = word_of_nat (length d)" "length d < 2 ^ 31"
    by (rule ws_frame_payload [OF h(1) k len])
  obtain b' where b': "string_append al d b = Some b'" "string_inv b'" "string_value b' = string_value b @ d"
    "st_offset b' = (if st_size b = 0 \<and> d \<noteq> [] then 0 else st_offset b)" "st_size b' = 0 \<longleftrightarrow> st_size b = 0 \<and> d = []"
    by (rule string_append_block [OF al b(2)])
  have rd: "mem_read 0 (st_length b') (st_mem b') = Some (string_value b @ d)"
    using string_read_front [OF b'(2), of "st_length b'"] string_value_length [OF b'(2)] b'(3) by simp
  have "\<not> nat ((int (st_length b) + int (length d)) mod 2 ^ 64) > mx" using mx by simp
  moreover have "nat (int (length d) mod 2 ^ 64) = length d" using fr(6) by simp
  ultimately have "ws_continuation al mx fr m (length ?f) c =
      Some (0, if h_FIN h then c\<lparr>tasks := tasks c @ [(word_of_int (st_offset b') OR 1, string_value b @ d)], ext_flags := 0, websocket_buffer := None\<rparr>
               else c\<lparr>websocket_buffer := Some b'\<rparr>)"
    unfolding ws_continuation_def Let_def fr(5) word_length_casts(3) [OF fr(6)]
    using b(1) fr(2,4) b'(1) rd by (simp add: ws_dispatch_task_def)
  then have "ws_dispatch_frame al mx ?f (length ?f) c =
      Some (0, if h_FIN h then c\<lparr>tasks := tasks c @ [(word_of_int (st_offset b') OR 1, string_value b @ d)], ext_flags := 0, websocket_buffer := None\<rparr>
               else c\<lparr>websocket_buffer := Some b'\<rparr>)"
    using h(2) fr(1,2) by (simp add: ws_dispatch_frame_def)
  then show ?thesis using b'(2-5) by blast
qed

lemma ws_message_frame:
  assumes h: "header_ok h" "h_OPCODE h = 1 \<or> h_OPCODE h = 2" and k: "length key = 4" and len: "length (frame_bytes h key d) < 2 ^ 31"
    and al: "allocator_ok al" and b: "websocket_buffer c = None"
  shows "\<exists>b'. ws_dispatch_frame al mx (frame_bytes h key d) (length (frame_bytes h key d)) c =
      Some (0, if h_FIN h then c\<lparr>tasks := tasks c @ [(message_flags h, d)], ext_flags := 0\<rparr>
               else c\<lparr>ext_flags := message_flags h, websocket_buffer := Some b'\<rparr>) \<and>
      string_inv b' \<and> string_value b' = d \<and> st_offset b' = uint (message_flags h) \<and> (st_size b' = 0 \<longleftrightarrow> d = [])"
proof -
  let ?f = "frame_bytes h key d"
  obtain fr m where fr: "ws_decode ?f = Some (fr, m)" "fr_header fr = h\<lparr>h_LENGTH := len_code (length d)\<rparr>"
    "fr_payload_length fr = length d" "mem_read (unat (ws_offset (length ?f) fr)) (length d) m = Some d"
    "word_of_nat (length ?f) - ws_offset (length ?f) fr = word_of_nat (length d)" "length d < 2 ^ 31"
    by (rule ws_frame_payload [OF h(1) k len])
  obtain b1 where b1: "string_of_bytes al d = Some b1" "string_inv b1" "string_value b1 = d" "st_size b1 = 0 \<longleftrightarrow> d = []"
    by (rule string_of_bytes_spec [OF al])
  define b' where "b' = b1\<lparr>st_offset := uint (message_flags h)\<rparr>"
  have "ws_message al fr m (length ?f) c =
      Some (0, if h_FIN h then c\<lparr>tasks := tasks c @ [(message_flags h, d)], ext_flags := 0\<rparr>
               else c\<lparr>ext_flags := message_flags h, websocket_buffer := Some b'\<rparr>)"
    unfolding ws_message_def Let_def fr(5) word_length_casts(1,2) [OF fr(6)]
    using b fr(2,4) b1(1) by (simp add: ws_dispatch_task_def message_flags_def b'_def)
  then have "ws_dispatch_frame al mx ?f (length ?f) c =
      Some (0, if h_FIN h then c\<lparr>tasks := tasks c @ [(message_flags h, d)], ext_flags := 0\<rparr>
               else c\<lparr>ext_flags := message_flags h, websocket_buffer := Some b'\<rparr>)"
    using h(2) fr(1,2) by (auto simp: ws_dispatch_frame_def)
  moreover have "string_inv b'" "string_value b' = d" "st_offset b' = uint (message_flags h)" "st_size b' = 0 \<longleftrightarrow> d = []"
    using b1(2-4) by (simp_all add: b'_def string_inv_def string_value_def)
  ultimately show ?thesis by blast
qed


lemma message_flags_fin: "message_flags (h\<lparr>h_FIN := False\<rparr>) OR 1 = message_flags (h\<lparr>h_FIN := True\<rparr>)"
proof -
  have e: "get_ext_flags a b = push_bit 8 (ucast a) OR ucast b" for a b
    unfolding get_ext_flags_def by (rule disjunctive_add) (auto simp: bit_push_bit_iff bit_unsigned_iff dest: bit_imp_le_length)
  have u: "ucast (a OR 1 :: u8) = (ucast a OR 1 :: u16)" for a
    by (rule bit_word_eqI) (auto simp: bit_or_iff bit_unsigned_iff bit_1_iff)
  have "get_flags (h\<lparr>h_FIN := True\<rparr>) = get_flags (h\<lparr>h_FIN := False\<rparr>) OR 1"
    by (simp add: get_flags_def or.assoc or.commute or.left_commute)
  then show ?thesis by (simp add: message_flags_def e u or.assoc)
qed

lemma cont_frames_run:
  assumes h: "header_ok h" and al: "allocator_ok al" and "mx < 2 ^ 32" and "websocket_buffer c = Some b" and "string_inv b" and "ps \<noteq> []"
    and "st_length b + length (payloads ps) \<le> mx" and "\<forall>(key, d)\<in>set ps. length key = 4" and "\<forall>f\<in>set (cont_frames h ps). length f < 2 ^ 31"
  shows "ws_run al mx (cont_frames h ps) c = Some (0, c\<lparr>tasks := tasks c @
      [(word_of_int (if st_size b = 0 \<and> payloads ps \<noteq> [] then 0 else st_offset b) OR 1, string_value b @ payloads ps)], ext_flags := 0, websocket_buffer := None\<rparr>)"
  using assms(4-)
proof (induction ps arbitrary: b c)
  case (Cons p ps)
  obtain key d where p: "p = (key, d)" by fastforce
  let ?h = "h\<lparr>h_OPCODE := 0, h_FIN := (ps = [])\<rparr>"
  have pr: "length key = 4" "length (frame_bytes ?h key d) < 2 ^ 31" "st_length b + length d \<le> mx" using Cons.prems p by auto
  obtain b' where b': "ws_dispatch_frame al mx (frame_bytes ?h key d) (length (frame_bytes ?h key d)) c =
      Some (0, if ps = [] then c\<lparr>tasks := tasks c @ [(word_of_int (st_offset b') OR 1, string_value b @ d)], ext_flags := 0, websocket_buffer := None\<rparr>
               else c\<lparr>websocket_buffer := Some b'\<rparr>)"
      "string_inv b'" "string_value b' = string_value b @ d" "st_offset b' = (if st_size b = 0 \<and> d \<noteq> [] then 0 else st_offset b)"
      "st_size b' = 0 \<longleftrightarrow> st_size b = 0 \<and> d = []"
    using ws_continuation_frame [OF header_ok_upd(1) [OF h] _ pr(1,2) al Cons.prems(1,2) pr(3) assms(3)] by auto
  show ?case
  proof (cases "ps = []")
    case True
    then show ?thesis using b'(1,4) by (simp add: p)
  next
    case False
    have "st_length b' = st_length b + length d" using b'(2,3) Cons.prems(2) by (metis length_append string_value_length)
    then have "ws_run al mx (cont_frames h ps) (c\<lparr>websocket_buffer := Some b'\<rparr>) =
       Some (0, c\<lparr>tasks := tasks c @ [(word_of_int (if st_size b' = 0 \<and> payloads ps \<noteq> [] then 0 else st_offset b') OR 1, string_value b' @ payloads ps)],
                 ext_flags := 0, websocket_buffer := None\<rparr>)"
      using Cons.IH [of "c\<lparr>websocket_buffer := Some b'\<rparr>" b'] Cons.prems b'(2) False p by simp
    moreover have "(if st_size b' = 0 \<and> payloads ps \<noteq> [] then 0 else st_offset b') = (if st_size b = 0 \<and> payloads (p # ps) \<noteq> [] then 0 else st_offset b)"
      using b'(4,5) p by auto
    ultimately show ?thesis using False b'(1,3) by (simp add: p)
  qed
qed simp

subsection \<open>Properties\<close>

text \<open>
  C10. Reassembly of fragmented messages: the frames of a message of opcode 1 or 2, with any masking keys, are accepted,
  and exactly one task leaves with the concatenated payloads, when the message is within the maximum package length. Its flags are
  those of the first frame with FIN set, except when the first fragment is empty and a later one is not: then the
  buffer is allocated anew and the flags, with the opcode, are lost.\<close>

theorem websocket_fragments:
  assumes h: "header_ok h" "h_OPCODE h = 1 \<or> h_OPCODE h = 2" and al: "allocator_ok al" and mx: "mx < 2 ^ 32" "length (payloads ps) \<le> mx"
    and c: "websocket_buffer c = None" and ps: "ps \<noteq> []" and k: "\<forall>(key, d)\<in>set ps. length key = 4"
    and len: "\<forall>f\<in>set (message_frames h ps). length f < 2 ^ 31"
  shows "ws_run al mx (message_frames h ps) c = Some (0, c\<lparr>tasks := tasks c @
      [(if snd (hd ps) = [] \<and> payloads ps \<noteq> [] then 1 else message_flags (h\<lparr>h_FIN := True\<rparr>), payloads ps)], ext_flags := 0\<rparr>)"
proof -
  obtain key d qs where p: "ps = (key, d) # qs" using ps by (cases ps) auto
  let ?h = "h\<lparr>h_FIN := (qs = [])\<rparr>"
  have pr: "length key = 4" "length (frame_bytes ?h key d) < 2 ^ 31" using k len p by auto
  obtain b where b: "ws_dispatch_frame al mx (frame_bytes ?h key d) (length (frame_bytes ?h key d)) c =
      Some (0, if qs = [] then c\<lparr>tasks := tasks c @ [(message_flags ?h, d)], ext_flags := 0\<rparr> else c\<lparr>ext_flags := message_flags ?h, websocket_buffer := Some b\<rparr>)"
      "string_inv b" "string_value b = d" "st_offset b = uint (message_flags ?h)" "st_size b = 0 \<longleftrightarrow> d = []"
    using ws_message_frame [OF header_ok_upd(2) [OF h(1)] _ pr al c, of mx] h(2) by auto
  show ?thesis
  proof (cases "qs = []")
    case True
    then show ?thesis using b(1) by (simp add: p)
  next
    case False
    have l: "st_length b = length d" using string_value_length [OF b(2)] b(3) by simp
    have "ws_run al mx (cont_frames h qs) (c\<lparr>ext_flags := message_flags ?h, websocket_buffer := Some b\<rparr>) =
        Some (0, c\<lparr>tasks := tasks c @ [(word_of_int (if d = [] \<and> payloads qs \<noteq> [] then 0 else st_offset b) OR 1, d @ payloads qs)], ext_flags := 0\<rparr>)"
      using cont_frames_run [OF h(1) al mx(1) _ b(2) False, of "c\<lparr>ext_flags := message_flags ?h, websocket_buffer := Some b\<rparr>"] mx(2) k len c b(3,5) l p
      by simp
    then show ?thesis using False b(1,4) message_flags_fin [of h] by (auto simp: p)
  qed
qed

definition client_text :: ws_header where
  "client_text = \<lparr>h_OPCODE = 1, h_RSV3 = False, h_RSV2 = False, h_RSV1 = False, h_FIN = True, h_LENGTH = 0, h_MASK = True\<rparr>"

theorem websocket_fragments_witness:
  "ws_run (\<lambda>n. Some (replicate n 0)) 100 (message_frames client_text [([1, 2, 3, 4], [72]), ([5, 6, 7, 8], [105])])
     \<lparr>websocket_buffer = None, websocket_status = 3, ext_flags = 0, tasks = [], sent = []\<rparr> =
   Some (0, \<lparr>websocket_buffer = None, websocket_status = 3, ext_flags = 0, tasks = [(289, [72, 105])], sent = []\<rparr>)"
proof -
  have "header_ok client_text" "allocator_ok (\<lambda>n. Some (replicate n 0))" by (simp_all add: header_ok_def client_text_def allocator_ok_def)
  moreover have "message_flags (client_text\<lparr>h_FIN := True\<rparr>) = 289" by (simp add: message_flags_def get_ext_flags_def get_flags_def client_text_def)
  ultimately show ?thesis
    using websocket_fragments [of client_text "\<lambda>n. Some (replicate n 0)" 100 "[([1, 2, 3, 4], [72]), ([5, 6, 7, 8], [105])]"
        "\<lparr>websocket_buffer = None, websocket_status = 3, ext_flags = 0, tasks = [], sent = []\<rparr>"]
    by (simp add: frame_bytes_length ws_prefix_length) (simp add: client_text_def)
qed

text \<open>
  C37. The masking loops, eight bytes at a time and then bytewise, compute exactly the masking of the protocol (byte \<open>i\<close>
  combined with byte \<open>i mod 4\<close> of the key) on the range, leave every other byte alone and stay inside the memory; masking twice is the identity.\<close>

theorem mask_bytewise:
  assumes "length key = 4" and "p + len \<le> length m"
  shows "ws_mask p len key m = Some (take p m @ xor_key key (take len (drop p m)) @ drop (p + len) m) \<and>
     Option.bind (ws_mask p len key m) (ws_mask p len key) = Some m"
proof -
  have "Option.bind (ws_mask p len key m) (ws_mask p len key) = Some (take p m @ take len (drop p m) @ drop (p + len) m)"
    using ws_mask_spec [OF assms] ws_mask_spec [OF assms(1), of p len "take p m @ xor_key key (take len (drop p m)) @ drop (p + len) m"] assms(2)
    by (simp add: xor_key_twice)
  moreover have "take p m @ take len (drop p m) @ drop (p + len) m = m" by (metis append_take_drop_id drop_drop add.commute)
  ultimately show ?thesis using ws_mask_spec [OF assms] by simp
qed

theorem mask_bytewise_witness:
  "ws_mask 1 9 [1, 2, 3, 4] [0, 0, 0, 0, 0, 0, 0, 0, 0, 0, 0] = Some [0, 1, 2, 3, 4, 1, 2, 3, 4, 1, 0]"
  using mask_bytewise [of "[1, 2, 3, 4]" 1 9 "[0, 0, 0, 0, 0, 0, 0, 0, 0, 0, 0]"] by (simp add: xor_key_def upt_rec)

text \<open>
  C26. Encoding and decoding: a frame that \<^verbatim>\<open>encode\<close> appends, followed by anything, has its own length as package
  length, and \<^verbatim>\<open>decode\<close> finds in it the opcode, the FIN, RSV1 and MASK flags, and the payload, unmasked in place at the offset
  where the dispatcher looks for it.\<close>

theorem websocket_roundtrip:
  assumes al: "allocator_ok al" and inv: "string_inv b" and d: "length d + 14 < 2 ^ 63" and f: "flags AND 64 = 0"
  shows "\<exists>b' f. ws_encode al d opcode flags b = Some (True, b') \<and> string_inv b' \<and> string_value b' = string_value b @ f \<and>
     (\<forall>r. ws_get_package_length (f @ r) = Some (int (length f), None) \<and>
       (\<exists>fr m. ws_decode (f @ r) = Some (fr, m) \<and> fr_payload_length fr = length d \<and> mem_read (length f - length d) (length d) m = Some d \<and>
         h_OPCODE (fr_header fr) = opcode AND 15 \<and> h_FIN (fr_header fr) = (flags AND 1 \<noteq> 0) \<and> h_RSV1 (fr_header fr) = (flags AND 4 \<noteq> 0) \<and>
         h_MASK (fr_header fr) = (flags AND 32 \<noteq> 0)))"
proof -
  let ?h = "encode_header opcode flags" and ?k = OSW_WEBSOCKET_MASK_DATA
  let ?f = "frame_bytes ?h ?k d"
  have k: "length ?k = 4" by (simp add: OSW_WEBSOCKET_MASK_DATA_def)
  obtain b' where b': "ws_encode al d opcode flags b = Some (True, b')" "string_inv b'" "string_value b' = string_value b @ ?f"
    using ws_encode_spec [OF al inv d, of opcode flags] f by auto
  have "\<exists>fr m. ws_decode (?f @ r) = Some (fr, m) \<and> fr_payload_length fr = length d \<and> mem_read (length ?f - length d) (length d) m = Some d \<and>
      fr_header fr = ?h\<lparr>h_LENGTH := len_code (length d)\<rparr>" for r
  proof -
    have "length ?f - length d = length (frame_head ?h ?k (length d))" by (simp add: frame_bytes_def frame_head_def)
    then have "mem_read (length ?f - length d) (length d) (frame_head ?h ?k (length d) @ d @ r) = Some d" by (simp add: mem_read_def)
    then show ?thesis using ws_decode_frame [OF encode_header_ok k d, of opcode flags r] by blast
  qed
  then have "\<exists>fr m. ws_decode (?f @ r) = Some (fr, m) \<and> fr_payload_length fr = length d \<and> mem_read (length ?f - length d) (length d) m = Some d \<and>
      h_OPCODE (fr_header fr) = opcode AND 15 \<and> h_FIN (fr_header fr) = (flags AND 1 \<noteq> 0) \<and> h_RSV1 (fr_header fr) = (flags AND 4 \<noteq> 0) \<and>
      h_MASK (fr_header fr) = (flags AND 32 \<noteq> 0)" for r
    by (fastforce simp: encode_header_def)
  moreover have "ws_get_package_length (?f @ r) = Some (int (length ?f), None)" for r by (rule ws_length_frame [OF encode_header_ok k d])
  ultimately show ?thesis using b' by blast
qed


theorem websocket_roundtrip_witness:
  "\<exists>b' f. ws_encode (\<lambda>n. Some (replicate n 0)) [104, 105] 1 33 string_empty_new = Some (True, b') \<and> string_value b' = f \<and>
     ws_get_package_length f = Some (int (length f), None)"
proof -
  have "allocator_ok (\<lambda>n. Some (replicate n 0))" "string_inv string_empty_new" "string_value string_empty_new = []"
    by (simp_all add: allocator_ok_def string_inv_def string_empty_new_def string_value_def)
  then obtain b' f where "ws_encode (\<lambda>n. Some (replicate n 0)) [104, 105] 1 33 string_empty_new = Some (True, b')" "string_value b' = f"
      "\<forall>r. ws_get_package_length (f @ r) = Some (int (length f), None)"
    using websocket_roundtrip [of "\<lambda>n. Some (replicate n 0)" string_empty_new "[104, 105]" 33 1] by auto
  then show ?thesis by (metis append_Nil2)
qed

text \<open>
  C38. The package length wraps: a header of ten bytes that announces a payload of 2^64 - 9 bytes has the package length 1, and
  dispatching that package reads outside the received data; with 2^64 - 10 the package length is 0 however much
  has arrived, which the receive loop takes for a missing header.\<close>

theorem websocket_length_wraps:
  assumes "length r < 2 ^ 31"
  shows "ws_get_package_length ([0x82, 0x7F] @ be_bytes 8 (2 ^ 64 - 9) @ r) = Some (1, None) \<and>
    ws_dispatch_frame al mx ([0x82, 0x7F] @ be_bytes 8 (2 ^ 64 - 9) @ r) 1 c = None \<and>
    ws_get_package_length ([0x82, 0x7F] @ be_bytes 8 (2 ^ 64 - 10) @ r) = Some (0, None)"
proof (intro conjI)
  have l: "length (be_bytes 8 n) = 8" for n by (simp add: be_bytes_def)
  have b: "(0x7F :: u8) AND 127 = 127" "\<not> bit (0x7F :: u8) 7" "(0x82 :: u8) AND 15 = 2" "bit (0x82 :: u8) 7"
    by (simp_all add: bit_simps)
  obtain x where x: "load64 (be_bytes 8 (2 ^ 64 - 9) @ r) = Some x" "openswoole_ntoh64 x = word_of_nat (2 ^ 64 - 9)"
    using load_ext(2) [of "2 ^ 64 - 9" r] by auto
  obtain y where y: "load64 (be_bytes 8 (2 ^ 64 - 10) @ r) = Some y" "openswoole_ntoh64 y = word_of_nat (2 ^ 64 - 10)"
    using load_ext(2) [of "2 ^ 64 - 10" r] by auto
  show "ws_get_package_length ([0x82, 0x7F] @ be_bytes 8 (2 ^ 64 - 9) @ r) = Some (1, None)"
    using x b l by (simp add: ws_get_package_length_def)
  show "ws_get_package_length ([0x82, 0x7F] @ be_bytes 8 (2 ^ 64 - 10) @ r) = Some (0, None)"
    using y b l by (simp add: ws_get_package_length_def)
  have "unat (ucast (9 * (- 1) :: u64) :: u32) = 2 ^ 32 - 9" by simp
  then show "ws_dispatch_frame al mx ([0x82, 0x7F] @ be_bytes 8 (2 ^ 64 - 9) @ r) 1 c = None"
    using x b l assms by (simp add: ws_dispatch_frame_def ws_decode_def load_header_def mem_read_def ws_message_def ws_offset_def)
qed

theorem websocket_length_wraps_witness:
  "ws_dispatch_frame (\<lambda>n. Some (replicate n 0)) 100 ([0x82, 0x7F] @ be_bytes 8 (2 ^ 64 - 9) @ [7]) 1
     \<lparr>websocket_buffer = None, websocket_status = 3, ext_flags = 0, tasks = [], sent = []\<rparr> = None"
  using websocket_length_wraps [of "[7]"] by (simp del: append.simps)

end
