(* ===== verification/Osw_Eof_Protocol.thy ===== *)
theory Osw_Eof_Protocol
  imports Osw_Length_Protocol
begin

text \<open>
  Receiving packages that end in a delimiter: \<^verbatim>\<open>Protocol::recv_with_eof_protocol\<close> and
  \<^verbatim>\<open>Protocol::recv_split_by_eof\<close> of \<^verbatim>\<open>src/protocol/base.cc\<close>. The socket and the callback are as for the length
  protocol. \<open>None\<close> is a fault: bytes written outside the receive buffer, a failed assertion, an
  uninitialised result, or \<^verbatim>\<open>std::bad_alloc\<close>.
\<close>

subsection \<open>Definitions\<close>

record 'w eof_env =
  ee_eof :: bytes
  ee_max :: nat
  ee_split :: bool
  ee_pagesize :: nat
  ee_alloc :: allocator
  ee_package :: "bytes \<Rightarrow> 'w \<Rightarrow> int \<times> 'w"
  ee_removed :: "'w \<Rightarrow> bool"
  ee_ssl :: bool
  ee_pending :: "recv_event list \<Rightarrow> bool"

datatype split_ret = Split_ok | Split_continue | Split_close

text \<open>The callback of \<^verbatim>\<open>split\<close>; its state is whether \<^verbatim>\<open>retval\<close> is set, and the world.\<close>

definition eof_handler :: "'w eof_env \<Rightarrow> bytes \<Rightarrow> bool \<times> 'w \<Rightarrow> bool \<times> (bool \<times> 'w)" where
  "eof_handler e data st =
     (let (r, w) = ee_package e data (snd st) in
      if r < 0 then (False, (True, w)) else (\<not> ee_removed e w, (fst st, w)))"

definition recv_split_by_eof :: "'w eof_env \<Rightarrow> ostring \<Rightarrow> 'w \<Rightarrow> (split_ret \<times> ostring \<times> 'w) option" where
  "recv_split_by_eof e b w =
     (if st_length b < length (ee_eof e) then Some (Split_continue, b, w)
      else do {
        (n, b1, (retval, w1)) \<leftarrow> string_split (eof_handler e) (ee_eof e) b (False, w);
        if ee_removed e w1 then Some (Split_close, b1, w1)
        else if n < 0 then (if retval then Some (Split_close, b1, w1) else None)
        else if n = 0 then Some (Split_continue, b1, w1)
        else do {
          b2 \<leftarrow> (if n < int (st_length b1)
            then map_option (\<lambda>b. b\<lparr>st_offset := max 0 (int (st_length b) - int (length (ee_eof e)))\<rparr>) (string_reduce n b1)
            else Some (string_clear b1));
          Some (if ee_ssl e then Split_continue else Split_ok, b2, w1)
        }
      })"

record 'w eof_state =
  es_buffer :: ostring
  es_events :: "recv_event list"
  es_world :: 'w

definition OSW_BUFFER_SIZE_STD :: nat where
  "OSW_BUFFER_SIZE_STD = 8192"

text \<open>\<^verbatim>\<open>buf_size\<close> is a signed 32-bit number, and the size argument of \<^verbatim>\<open>recv\<close> an unsigned 64-bit one.\<close>

definition eof_buf_size :: "ostring \<Rightarrow> nat" where
  "eof_buf_size b =
     nat (min (sint (word_of_nat (st_size b) - word_of_nat (st_length b) :: u32)) (int OSW_BUFFER_SIZE_STD) mod 2 ^ 64)"

text \<open>Behind the search: the limit on the length, and more room when the buffer is full. The flag is \<^verbatim>\<open>recv_again\<close>;
  the result \<open>None\<close> is the jump back to \<^verbatim>\<open>_recv_data\<close>.\<close>

definition eof_no_package :: "'w eof_env \<Rightarrow> bool \<Rightarrow> 'w eof_state \<Rightarrow> (int option \<times> bool \<times> 'w eof_state) option" where
  "eof_no_package e again s =
     (let b = es_buffer s; again' = (again \<or> st_length b = st_size b) in
      if st_length b = ee_max e then Some (Some (- 1), again, s)
      else do {
        b1 \<leftarrow> (if st_length b = st_size b \<and> st_size b < ee_max e
             then string_extend (ee_alloc e) (min (openswoole_size_align (st_size b * 2) (ee_pagesize e) mod 2 ^ 32) (ee_max e)) b
             else Some b);
        Some (if again' then None else Some 0, again', s\<lparr>es_buffer := b1\<rparr>)
      })"

text \<open>After bytes have arrived.\<close>

definition eof_received :: "'w eof_env \<Rightarrow> bool \<Rightarrow> 'w eof_state \<Rightarrow> (int option \<times> bool \<times> 'w eof_state) option" where
  "eof_received e again s =
     (let b = es_buffer s; d = ee_eof e in
      if st_length b < length d then Some (Some 0, again, s)
      else if ee_split e then do {
        (r, b1, w) \<leftarrow> recv_split_by_eof e b (es_world s);
        let s1 = s\<lparr>es_buffer := b1, es_world := w\<rparr>;
        if r = Split_continue then eof_no_package e True s1
        else Some (Some (if r = Split_close then - 1 else 0), again, s1)
      }
      else do {
        t \<leftarrow> mem_read (st_length b - length d) (length d) (st_mem b);
        if t = d then do {
          v \<leftarrow> mem_read 0 (st_length b) (st_mem b);
          let (r, w) = ee_package e v (es_world s);
          let s1 = s\<lparr>es_buffer := b\<lparr>st_offset := int (st_length b)\<rparr>, es_world := w\<rparr>;
          if r < 0 then Some (Some (- 1), again, s1)
          else if ee_removed e w then Some (Some 0, again, s1)
          else Some (if ee_ssl e \<and> ee_pending e (es_events s) then None else Some 0, again, s1\<lparr>es_buffer := string_clear b\<rparr>)
        }
        else eof_no_package e again s
      })"

definition eof_step :: "'w eof_env \<Rightarrow> bool \<Rightarrow> 'w eof_state \<Rightarrow> (int option \<times> bool \<times> 'w eof_state) option" where
  "eof_step e again s =
     (case sock_recv (eof_buf_size (es_buffer s)) (es_events s) of
        (Failed E_CLOSE, es) \<Rightarrow> Some (Some (- 1), again, s\<lparr>es_events := es\<rparr>)
      | (Failed _, es) \<Rightarrow> Some (Some 0, again, s\<lparr>es_events := es\<rparr>)
      | (Got bs, es) \<Rightarrow>
          if bs = [] then Some (Some (- 1), again, s\<lparr>es_events := es\<rparr>)
          else do {
            m \<leftarrow> mem_write (st_length (es_buffer s)) bs (st_mem (es_buffer s));
            eof_received e again (s\<lparr>es_events := es,
              es_buffer := (es_buffer s)\<lparr>st_mem := m, st_length := st_length (es_buffer s) + length bs\<rparr>\<rparr>)
          })"

partial_function (option) eof_loop :: "'w eof_env \<Rightarrow> bool \<Rightarrow> 'w eof_state \<Rightarrow> (int \<times> 'w eof_state) option" where
  "eof_loop e again s = do {
     (x, again', s1) \<leftarrow> eof_step e again s;
     case x of None \<Rightarrow> eof_loop e again' s1 | Some r \<Rightarrow> Some (r, s1)
   }"

definition recv_with_eof_protocol :: "'w eof_env \<Rightarrow> 'w eof_state \<Rightarrow> (int \<times> 'w eof_state) option" where
  "recv_with_eof_protocol e s = eof_loop e False s"

text \<open>The reactor calls it as long as something has arrived and the connection is open.\<close>

partial_function (option) eof_drive :: "'w eof_env \<Rightarrow> 'w eof_state \<Rightarrow> (int \<times> 'w eof_state) option" where
  "eof_drive e s =
     (if es_events s = [] then Some (0, s)
      else do {
        (r, s1) \<leftarrow> recv_with_eof_protocol e s;
        if r < 0 then Some (r, s1) else eof_drive e s1
      })"

subsection \<open>Framing\<close>

definition eof_deliver :: "'w eof_env \<Rightarrow> bytes list \<Rightarrow> 'w \<Rightarrow> 'w" where
  "eof_deliver e fs w = foldl (\<lambda>w f. snd (ee_package e f w)) w fs"

lemma eof_deliver_simps [simp]:
  "eof_deliver e [] w = w" "eof_deliver e (f # fs) w = eof_deliver e fs (snd (ee_package e f w))" "eof_deliver e (fs @ gs) w = eof_deliver e gs (eof_deliver e fs w)"
  by (simp_all add: eof_deliver_def)

definition eof_wf :: "'w eof_env \<Rightarrow> bool" where
  "eof_wf e \<longleftrightarrow> ee_eof e \<noteq> [] \<and> ee_split e \<and> \<not> ee_ssl e \<and> allocator_ok (ee_alloc e) \<and> (\<forall>bs w. 0 \<le> fst (ee_package e bs w)) \<and>
     (\<forall>w. \<not> ee_removed e w) \<and> 2 * ee_max e + ee_pagesize e + 16 < 2 ^ 32"

text \<open>Between two calls: the buffer has room, and holds no delimiter; nothing before \<^verbatim>\<open>offset\<close> has to be searched again.\<close>

definition eof_ok :: "'w eof_env \<Rightarrow> ostring \<Rightarrow> bool" where
  "eof_ok e b \<longleftrightarrow> string_inv b \<and> st_length b < st_size b \<and> length (ee_eof e) \<le> st_size b \<and> st_size b < 2 ^ 31 \<and>
     0 \<le> st_offset b \<and> st_offset b \<le> max 0 (int (st_length b) - int (length (ee_eof e))) \<and> (\<forall>i. \<not> occurs (ee_eof e) i (string_value b))"

lemma eof_feed:
  assumes "eof_wf e"
  shows "feed (eof_handler e) fs (False, w) = (True, (False, eof_deliver e fs w))"
proof (induction fs arbitrary: w)
  case (Cons f fs)
  obtain r w' where "ee_package e f w = (r, w')" by fastforce
  moreover have "0 \<le> fst (ee_package e f w)" "\<not> ee_removed e w'" using assms by (simp_all add: eof_wf_def)
  ultimately show ?case using Cons by (simp add: eof_handler_def)
qed simp

text \<open>Bytes without a delimiter at the front of a stream are a proper part of its first frame, or of the rest.\<close>

lemma pending_bound:
  assumes d: "d \<noteq> []" and v: "\<forall>i. \<not> occurs d i v" and b: "\<forall>f\<in>set (fst (frames d (v @ ys))). length f \<le> mx" "length (snd (frames d (v @ ys))) < mx"
  shows "length v < mx"
  using d
proof (cases rule: strnstr_cases [of d "v @ ys"])
  case none
  then show ?thesis using b(2) frames_none [OF d, of "v @ ys"] by simp
next
  case (first i)
  have "\<not> i + length d \<le> length v" using first(2) v occurs_append [of i d v ys] by auto
  moreover have "i + length d \<le> length (v @ ys)" by (rule occurs_le [OF first(2) d])
  moreover have "take (i + length d) (v @ ys) \<in> set (fst (frames d (v @ ys)))" using frames_first [OF d first(2,3)] by simp
  ultimately show ?thesis using b(1) by fastforce
qed

lemma eof_buf_size_ok:
  assumes "eof_ok e b"
  shows "0 < eof_buf_size b" "st_length b + eof_buf_size b \<le> st_size b"
proof -
  have l: "st_length b < st_size b" "st_size b < 2 ^ 31" using assms by (simp_all add: eof_ok_def)
  have w: "word_of_nat (st_size b) - word_of_nat (st_length b) = (word_of_nat (st_size b - st_length b) :: u32)" using l(1) by simp
  have "sint (word_of_nat (st_size b) - word_of_nat (st_length b) :: u32) = int (st_size b - st_length b)"
    unfolding w using l signed_take_bit_int_eq_self [of 31 "int (st_size b - st_length b)"] by (simp add: signed_of_nat del: of_nat_diff)
  then have "eof_buf_size b = min (st_size b - st_length b) 8192" using l unfolding eof_buf_size_def OSW_BUFFER_SIZE_STD_def by (auto simp: min_def)
  then show "0 < eof_buf_size b" "st_length b + eof_buf_size b \<le> st_size b" using l by simp_all
qed

text \<open>Splitting: the frames are delivered, and the rest stays.\<close>

lemma recv_split_by_eof_spec:
  assumes wf: "eof_wf e" and inv: "string_inv b" and len: "length (ee_eof e) \<le> st_length b" and off: "0 \<le> st_offset b" "st_offset b \<le> int (st_length b)"
    and no: "\<forall>j<nat (st_offset b). \<not> occurs (ee_eof e) j (string_value b)"
  defines "fs \<equiv> fst (frames (ee_eof e) (string_value b))"
  shows "\<exists>b'. recv_split_by_eof e b w = Some (if fs = [] then Split_continue else Split_ok, b', eof_deliver e fs w) \<and> string_inv b' \<and>
    string_value b' = snd (frames (ee_eof e) (string_value b)) \<and> st_size b' = st_size b \<and> 0 \<le> st_offset b' \<and> st_offset b' \<le> max 0 (int (st_length b') - int (length (ee_eof e)))"
proof -
  let ?d = "ee_eof e" and ?v = "string_value b"
  have d: "?d \<noteq> []" and rm: "\<And>w. \<not> ee_removed e w" and ssl: "\<not> ee_ssl e" using wf by (auto simp: eof_wf_def)
  note sound = frames_sound [OF d, of ?v]
  obtain n off' where sp: "string_split (eof_handler e) ?d b (False, w) = Some (int n, b\<lparr>st_offset := off'\<rparr>, (False, eof_deliver e fs w))"
      "n = length (concat fs)" "fs = [] \<longrightarrow> off' = int (st_length b) - int (length ?d)"
    using string_split_spec [OF inv d off no, of "eof_handler e" "(False, w)"] eof_feed [OF wf, of fs w] unfolding fs_def by auto
  let ?b1 = "b\<lparr>st_offset := off'\<rparr>"
  have v1: "string_inv ?b1" "string_value ?b1 = ?v" "st_length ?b1 = length ?v" using inv string_value_length [OF inv] by (simp_all add: string_inv_def string_value_def)
  have cat: "concat fs @ snd (frames ?d ?v) = ?v" using sound by (simp add: fs_def)
  then have nl: "n \<le> length ?v" "drop n ?v = snd (frames ?d ?v)" unfolding sp(2) by (metis length_append le_add1, metis append_eq_conv_conj)
  have lv: "length ?d \<le> length ?v" using len v1(3) by simp
  show ?thesis
  proof (cases "fs = []")
    case True
    have "recv_split_by_eof e b w = Some (Split_continue, ?b1, eof_deliver e fs w)"
      using len sp(1,2) True rm by (simp add: recv_split_by_eof_def)
    then show ?thesis using True v1(1,2) sp(3) len cat by auto
  next
    case False
    then obtain g gs where "fs = g # gs" by (cases fs) auto
    then have n0: "0 < n" using sound d unfolding sp(2) fs_def [symmetric] by fastforce
    show ?thesis
    proof (cases "n < length ?v")
      case True
      obtain b2 where b2: "string_reduce (int n) ?b1 = Some b2" "string_inv b2" "string_value b2 = drop n ?v" "st_size b2 = st_size b"
        by (rule string_reduce_spec [OF v1(1), of n]) (use v1(2,3) nl(1) in auto)
      define b3 where "b3 = b2\<lparr>st_offset := max 0 (int (st_length b2) - int (length ?d))\<rparr>"
      have "recv_split_by_eof e b w = Some (Split_ok, b3, eof_deliver e fs w)"
        using len sp(1) True n0 rm b2(1) ssl v1(3) by (simp add: recv_split_by_eof_def b3_def)
      moreover have "string_inv b3" "string_value b3 = drop n ?v" "st_size b3 = st_size b" "0 \<le> st_offset b3" "st_offset b3 \<le> max 0 (int (st_length b3) - int (length ?d))"
        using b2 by (auto simp: b3_def string_inv_def string_value_def)
      ultimately show ?thesis using False nl(2) by auto
    next
      case full: False
      have "recv_split_by_eof e b w = Some (Split_ok, string_clear ?b1, eof_deliver e fs w)"
        using len sp(1) full n0 rm ssl v1(3) by (simp add: recv_split_by_eof_def)
      moreover have "snd (frames ?d ?v) = []" using full nl by simp
      ultimately show ?thesis using False by (simp add: string_clear_def string_inv_def string_value_def)
    qed
  qed
qed


text \<open>Without a package, the buffer gets room when it is full.\<close>

lemma eof_no_package_spec:
  assumes wf: "eof_wf e" and s: "es_buffer s = b" and inv: "string_inv b" and lt: "st_length b < ee_max e"
    and len: "length (ee_eof e) \<le> st_length b" and sz: "st_size b < 2 ^ 31"
    and off: "0 \<le> st_offset b" "st_offset b \<le> max 0 (int (st_length b) - int (length (ee_eof e)))"
    and no: "\<forall>i. \<not> occurs (ee_eof e) i (string_value b)"
  shows "\<exists>b' again'. eof_no_package e True s = Some (None, again', s\<lparr>es_buffer := b'\<rparr>) \<and> eof_ok e b' \<and> string_value b' = string_value b"
proof (cases "st_length b = st_size b")
  case False
  then have "eof_ok e b" using inv len sz off no by (simp add: eof_ok_def string_inv_def)
  moreover have "eof_no_package e True s = Some (None, True, s\<lparr>es_buffer := b\<rparr>)" using False lt s by (simp add: eof_no_package_def Let_def)
  ultimately show ?thesis by blast
next
  case True
  let ?n = "min (openswoole_size_align (st_size b * 2) (ee_pagesize e) mod 2 ^ 32) (ee_max e)"
  have al: "allocator_ok (ee_alloc e)" and d: "ee_eof e \<noteq> []" and mx: "2 * ee_max e + ee_pagesize e + 16 < 2 ^ 32" using wf by (auto simp: eof_wf_def)
  have pos: "0 < st_size b" using len d True by (cases "ee_eof e") auto
  have "openswoole_size_align (st_size b * 2) (ee_pagesize e) < 2 ^ 32" "st_size b < openswoole_size_align (st_size b * 2) (ee_pagesize e)"
    using mx lt True pos unfolding openswoole_size_align_def by linarith+
  then have n: "st_size b < ?n" "?n \<le> ee_max e" using lt True by simp_all
  obtain b' where b': "string_reserve (ee_alloc e) ?n b = Some b'" "string_inv b'" "string_value b' = string_value b"
      "st_size b' = mem_aligned_size ?n" "st_length b' = st_length b" "st_size b \<noteq> 0 \<longrightarrow> st_offset b' = st_offset b"
    by (rule string_reserve_spec [OF al inv, of ?n]) (use n True in auto)
  have "st_size b < st_size b'" unfolding b'(4) by (rule less_le_trans [OF n(1) mem_aligned_size_ge])
  moreover have "st_size b' < 2 ^ 31" using mem_aligned_size_less [of ?n] n(2) mx unfolding b'(4) by simp
  ultimately have "eof_ok e b'" using b'(2,3,5,6) len True off no pos by (auto simp: eof_ok_def)
  moreover have "string_extend (ee_alloc e) ?n b = Some b'" using n(1) b'(1) by (simp add: string_extend_def)
  then have "eof_no_package e True s = Some (None, True, s\<lparr>es_buffer := b'\<rparr>)" using True lt s by (simp add: eof_no_package_def Let_def)
  ultimately show ?thesis using b'(3) by blast
qed

text \<open>One round: some bytes arrive, the frames that are complete are delivered, and the rest stays.\<close>

lemma eof_received_spec:
  assumes wf: "eof_wf e" and inv: "string_inv b" and sz: "length (ee_eof e) \<le> st_size b" "st_size b < 2 ^ 31"
    and off: "0 \<le> st_offset b" "st_offset b \<le> max 0 (int (st_length b) - int (length (ee_eof e)))"
    and no: "\<forall>j<nat (st_offset b). \<not> occurs (ee_eof e) j (string_value b)"
    and bd: "fst (frames (ee_eof e) (string_value b)) = [] \<longrightarrow> st_length b < ee_max e" and ne: "0 < st_length b"
    and s: "es_buffer s = b"
  shows "\<exists>x again' b'. eof_received e again s = Some (x, again', s\<lparr>es_buffer := b', es_world := eof_deliver e (fst (frames (ee_eof e) (string_value b))) (es_world s)\<rparr>) \<and>
     (x = None \<or> x = Some 0) \<and> eof_ok e b' \<and> string_value b' = snd (frames (ee_eof e) (string_value b))"
proof (cases "st_length b < length (ee_eof e)")
  case True
  let ?d = "ee_eof e"
  have d: "?d \<noteq> []" using wf by (simp add: eof_wf_def)
  have n: "\<forall>i. \<not> occurs ?d i (string_value b)" using occurs_le [of ?d _ "string_value b"] d True string_value_length [OF inv] by fastforce
  then have "frames ?d (string_value b) = ([], string_value b)" by (rule frames_none [OF d])
  moreover have "eof_ok e b" using inv sz off n True by (simp add: eof_ok_def)
  moreover have "eof_received e again s = Some (Some 0, again, s\<lparr>es_buffer := b, es_world := es_world s\<rparr>)" using True s by (simp add: eof_received_def)
  ultimately show ?thesis by (metis eof_deliver_simps(1) fst_conv snd_conv)
next
  case False
  let ?d = "ee_eof e" and ?fs = "fst (frames (ee_eof e) (string_value b))"
  have d: "?d \<noteq> []" and sp: "ee_split e" using wf by (auto simp: eof_wf_def)
  obtain b1 where b1: "recv_split_by_eof e b (es_world s) = Some (if ?fs = [] then Split_continue else Split_ok, b1, eof_deliver e ?fs (es_world s))"
      "string_inv b1" "string_value b1 = snd (frames ?d (string_value b))" "st_size b1 = st_size b" "0 \<le> st_offset b1" "st_offset b1 \<le> max 0 (int (st_length b1) - int (length ?d))"
    using recv_split_by_eof_spec [OF wf inv _ off(1) _ no, of "es_world s"] False off(2) by auto
  have no1: "\<forall>i. \<not> occurs ?d i (string_value b1)" using frames_sound [OF d, of "string_value b"] b1(3) by simp
  have cat: "concat ?fs @ string_value b1 = string_value b" using frames_sound [OF d, of "string_value b"] b1(3) by simp
  let ?s1 = "s\<lparr>es_buffer := b1, es_world := eof_deliver e ?fs (es_world s)\<rparr>"
  show ?thesis
  proof (cases "?fs = []")
    case True
    have l: "st_length b1 = st_length b" using cat True string_value_length [OF inv] string_value_length [OF b1(2)] by simp
    obtain b' again' where "eof_no_package e True ?s1 = Some (None, again', ?s1\<lparr>es_buffer := b'\<rparr>)" "eof_ok e b'" "string_value b' = string_value b1"
      using eof_no_package_spec [OF wf _ b1(2), of ?s1] l bd True False sz b1(4-6) no1 by auto
    moreover from this have "eof_received e again s = Some (None, again', s\<lparr>es_buffer := b', es_world := eof_deliver e ?fs (es_world s)\<rparr>)"
      using False s sp b1(1) True by (simp add: eof_received_def)
    ultimately show ?thesis using b1(3) by auto
  next
    case ne: False
    have "0 < length (concat ?fs)"
    proof -
      obtain g gs where g: "?fs = g # gs" using ne by (cases ?fs) auto
      then have "length ?d \<le> length g" using frames_sound [OF d, of "string_value b"] by simp
      moreover have "0 < length ?d" using d by simp
      ultimately have "0 < length g" by linarith
      then show ?thesis unfolding g concat.simps length_append by linarith
    qed
    moreover have "length (concat ?fs) + st_length b1 = st_length b"
      using arg_cong [OF cat, of length] string_value_length [OF inv] string_value_length [OF b1(2)] by simp
    ultimately have "st_length b1 < st_size b1" using inv unfolding string_inv_def b1(4) by linarith
    then have "eof_ok e b1" using b1(2-6) sz no1 by (simp add: eof_ok_def)
    moreover have "eof_received e again s = Some (Some 0, again, ?s1)" using False s sp b1(1) ne by (simp add: eof_received_def)
    ultimately show ?thesis using b1(3) by blast
  qed
qed


definition stream_ok :: "'w eof_env \<Rightarrow> bytes \<Rightarrow> bool" where
  "stream_ok e bs \<longleftrightarrow> (\<forall>f\<in>set (fst (frames (ee_eof e) bs)). length f \<le> ee_max e) \<and> length (snd (frames (ee_eof e) bs)) < ee_max e"

text \<open>What is left of the stream after some frames have been delivered.\<close>

definition progress :: "'w eof_env \<Rightarrow> 'w eof_state \<Rightarrow> 'w eof_state \<Rightarrow> bool" where
  "progress e s s' \<longleftrightarrow> eof_ok e (es_buffer s') \<and> segments (es_events s') \<and>
     (let T = string_value (es_buffer s) @ stream (es_events s); T' = string_value (es_buffer s') @ stream (es_events s') in
      \<exists>gs. es_world s' = eof_deliver e gs (es_world s) \<and> frames (ee_eof e) T = (gs @ fst (frames (ee_eof e) T'), snd (frames (ee_eof e) T')))"

lemma progress_refl: "eof_ok e (es_buffer s) \<Longrightarrow> segments (es_events s) \<Longrightarrow> progress e s s"
  unfolding progress_def Let_def by (auto intro!: exI [where x = "[]"])

lemma progress_trans: "progress e s t \<Longrightarrow> progress e t u \<Longrightarrow> progress e s u"
  unfolding progress_def Let_def by (elim conjE exE) (auto intro!: exI [where x = "_ @ _"])

lemma progress_ok: "progress e s t \<Longrightarrow> stream_ok e (string_value (es_buffer s) @ stream (es_events s)) \<Longrightarrow> stream_ok e (string_value (es_buffer t) @ stream (es_events t))"
  unfolding progress_def stream_ok_def Let_def by auto

lemma eof_step_spec:
  assumes wf: "eof_wf e" and ok: "eof_ok e (es_buffer s)" and seg: "segments (es_events s)" and ne: "es_events s \<noteq> []"
    and st: "stream_ok e (string_value (es_buffer s) @ stream (es_events s))"
  shows "\<exists>x again' s'. eof_step e again s = Some (x, again', s') \<and> (x = None \<or> x = Some 0) \<and> progress e s s' \<and>
    length (stream (es_events s')) < length (stream (es_events s))"
proof -
  let ?b = "es_buffer s" and ?d = "ee_eof e"
  have d: "?d \<noteq> []" using wf by (simp add: eof_wf_def)
  have inv: "string_inv ?b" and o: "length ?d \<le> st_size ?b" "st_size ?b < 2 ^ 31" "0 \<le> st_offset ?b" "st_offset ?b \<le> max 0 (int (st_length ?b) - int (length ?d))"
    and no: "\<forall>i. \<not> occurs ?d i (string_value ?b)" using ok by (auto simp: eof_ok_def)
  obtain c es where c: "sock_recv (eof_buf_size ?b) (es_events s) = (Got c, es)" "c \<noteq> []" "length c \<le> eof_buf_size ?b"
      "stream (es_events s) = c @ stream es" "segments es"
    by (rule sock_recv_segments [OF seg ne eof_buf_size_ok(1) [OF ok]])
  have fit: "st_length ?b + length c \<le> st_size ?b" using c(3) eof_buf_size_ok(2) [OF ok] by linarith
  define m where "m = take (st_length ?b) (st_mem ?b) @ c @ drop (st_length ?b + length c) (st_mem ?b)"
  define b where "b = ?b\<lparr>st_mem := m, st_length := st_length ?b + length c\<rparr>"
  have wr: "mem_write (st_length ?b) c (st_mem ?b) = Some m" using fit by (simp add: mem_write_def m_def)
  have b: "string_inv b" "string_value b = string_value ?b @ c" "st_size b = st_size ?b" "st_offset b = st_offset ?b" "st_length b = st_length ?b + length c"
    using fit by (auto simp: b_def m_def string_inv_def string_value_def)
  have lv: "length (string_value ?b) = st_length ?b" by (rule string_value_length [OF inv])
  have nb: "\<forall>j<nat (st_offset b). \<not> occurs ?d j (string_value b)"
  proof (intro allI impI notI)
    fix j assume j: "j < nat (st_offset b)" and oc: "occurs ?d j (string_value b)"
    have "j + length ?d \<le> length (string_value ?b)" using j o(4) unfolding b(4) lv by (simp add: max_def split: if_splits)
    then show False using oc no occurs_append [of j ?d "string_value ?b" c] unfolding b(2) by simp
  qed
  have split: "frames ?d (string_value ?b @ stream (es_events s)) =
      (fst (frames ?d (string_value b)) @ fst (frames ?d (snd (frames ?d (string_value b)) @ stream es)), snd (frames ?d (snd (frames ?d (string_value b)) @ stream es)))"
    unfolding c(4) append_assoc [symmetric] b(2) [symmetric] by (rule frames_append [OF d])
  have bd: "st_length b < ee_max e" if z: "fst (frames ?d (string_value b)) = []"
  proof -
    have "snd (frames ?d (string_value b)) = string_value b" using frames_sound [OF d, of "string_value b"] z by simp
    then have "\<forall>i. \<not> occurs ?d i (string_value b)" using frames_sound [OF d, of "string_value b"] by simp
    from pending_bound [OF d this, of "stream es" "ee_max e"] st show ?thesis
      using string_value_length [OF b(1)] unfolding stream_ok_def c(4) append_assoc [symmetric] b(2) [symmetric] by simp
  qed
  have ob: "st_offset b \<le> max 0 (int (st_length b) - int (length ?d))" using o(4) unfolding b(4,5) by linarith
  let ?s1 = "s\<lparr>es_events := es, es_buffer := b\<rparr>"
  obtain x again' b' where r: "eof_received e again ?s1 =
      Some (x, again', ?s1\<lparr>es_buffer := b', es_world := eof_deliver e (fst (frames ?d (string_value b))) (es_world ?s1)\<rparr>)"
      "x = None \<or> x = Some 0" "eof_ok e b'" "string_value b' = snd (frames ?d (string_value b))"
    using eof_received_spec [OF wf b(1) _ _ _ ob nb, of ?s1 again] b(3-5) o bd c(2) by auto
  let ?s' = "?s1\<lparr>es_buffer := b', es_world := eof_deliver e (fst (frames ?d (string_value b))) (es_world ?s1)\<rparr>"
  have "eof_step e again s = Some (x, again', ?s')" using c(1,2) wr r(1) by (simp add: eof_step_def b_def)
  moreover have "progress e s ?s'" unfolding progress_def Let_def split using r(3,4) c(5) by auto
  moreover have "length (stream (es_events ?s')) < length (stream (es_events s))" using c(2,4) by simp
  ultimately show ?thesis using r(2) by blast
qed

lemma eof_loop_spec:
  assumes "eof_wf e" and "eof_ok e (es_buffer s)" and "segments (es_events s)"
    and "stream_ok e (string_value (es_buffer s) @ stream (es_events s))"
  shows "\<exists>s'. eof_loop e again s = Some (0, s') \<and> progress e s s' \<and> length (stream (es_events s')) \<le> length (stream (es_events s)) \<and>
     (es_events s \<noteq> [] \<longrightarrow> length (stream (es_events s')) < length (stream (es_events s)))"
  using assms(2-4)
proof (induction "length (stream (es_events s))" arbitrary: s again rule: less_induct)
  case less
  show ?case
  proof (cases "es_events s = []")
    case True
    then have "eof_step e again s = Some (Some 0, again, s)" by (simp add: eof_step_def)
    then show ?thesis using True progress_refl [OF less.prems(1,2)] by (subst eof_loop.simps) simp
  next
    case False
    obtain x again' t where t: "eof_step e again s = Some (x, again', t)" "x = None \<or> x = Some 0" "progress e s t"
        "length (stream (es_events t)) < length (stream (es_events s))"
      using eof_step_spec [OF assms(1) less.prems(1,2) False less.prems(3)] by blast
    show ?thesis
    proof (cases x)
      case None
      have "eof_ok e (es_buffer t)" "segments (es_events t)" using t(3) by (simp_all add: progress_def Let_def)
      from less.hyps [OF t(4) this progress_ok [OF t(3) less.prems(3)], of again'] obtain u where
        u: "eof_loop e again' t = Some (0, u)" "progress e t u" "length (stream (es_events u)) \<le> length (stream (es_events t))" by blast
      show ?thesis using t u None progress_trans [OF t(3) u(2)] by (subst eof_loop.simps) auto
    qed (use t in \<open>subst eof_loop.simps, auto\<close>)
  qed
qed


lemma eof_drive_spec:
  assumes wf: "eof_wf e" and "eof_ok e (es_buffer s)" and "segments (es_events s)"
    and "stream_ok e (string_value (es_buffer s) @ stream (es_events s))"
  shows "\<exists>s'. eof_drive e s = Some (0, s') \<and> progress e s s' \<and> es_events s' = []"
  using assms(2-4)
proof (induction "length (stream (es_events s))" arbitrary: s rule: less_induct)
  case less
  show ?case
  proof (cases "es_events s = []")
    case True
    then show ?thesis using progress_refl [OF less.prems(1,2)] by (subst eof_drive.simps) simp
  next
    case False
    obtain t where t: "eof_loop e False s = Some (0, t)" "progress e s t" "length (stream (es_events t)) < length (stream (es_events s))"
      using eof_loop_spec [OF wf less.prems] False by blast
    have "eof_ok e (es_buffer t)" "segments (es_events t)" using t(2) by (simp_all add: progress_def Let_def)
    from less.hyps [OF t(3) this progress_ok [OF t(2) less.prems(3)]] obtain u where
      u: "eof_drive e t = Some (0, u)" "progress e t u" "es_events u = []" by blast
    then show ?thesis using False t(1) progress_trans [OF t(2) u(2)] by (subst eof_drive.simps) (simp add: recv_with_eof_protocol_def)
  qed
qed

subsection \<open>Properties\<close>


definition sample_eof :: "bytes list eof_env" where
  "sample_eof = \<lparr>ee_eof = [13, 10], ee_max = 100, ee_split = True, ee_pagesize = 4096, ee_alloc = (\<lambda>n. Some (replicate n 0)),
     ee_package = (\<lambda>bs w. (0, w @ [bs])), ee_removed = (\<lambda>_. False), ee_ssl = False, ee_pending = (\<lambda>_. False)\<rparr>"


end
