(* ===== verification/Osw_Base64.thy ===== *)
theory Osw_Base64
  imports Osw_Bytes
begin

text \<open>
  Base64 (\<^verbatim>\<open>src/protocol/base64.cc\<close>): the two tables, the encoder and the decoder with their loops over the input index.
  \<open>None\<close> is a read outside the input or of an output byte that was never written.
\<close>

subsection \<open>Definitions\<close>

definition base64en :: bytes where
  "base64en = map of_char ''ABCDEFGHIJKLMNOPQRSTUVWXYZabcdefghijklmnopqrstuvwxyz0123456789+/''"

definition BASE64_PAD :: u8 where
  "BASE64_PAD = 61"

definition base64de :: "int list" where
  "base64de =
     [62, -1, -1, -1, 63, 52, 53, 54,
      55, 56, 57, 58, 59, 60, 61, -1,
      -1, -1, -1, -1, -1, -1, 0, 1,
      2, 3, 4, 5, 6, 7, 8, 9,
      10, 11, 12, 13, 14, 15, 16, 17,
      18, 19, 20, 21, 22, 23, 24, 25,
      -1, -1, -1, -1, -1, -1, 26, 27,
      28, 29, 30, 31, 32, 33, 34, 35,
      36, 37, 38, 39, 40, 41, 42, 43,
      44, 45, 46, 47, 48, 49, 50, 51]"

definition en :: "u8 \<Rightarrow> u8" where
  "en x = base64en ! unat x"

definition encode_step :: "bytes \<Rightarrow> nat \<Rightarrow> bytes" where
  "encode_step inp i =
     (let a = inp ! (i - 1); b = inp ! i in
      if i mod 3 = 0 then [en (drop_bit 2 b AND 0x3F)]
      else if i mod 3 = 1 then [en (push_bit 4 (a AND 3) + (drop_bit 4 b AND 0xF))]
      else [en (push_bit 2 (a AND 0xF) + (drop_bit 6 b AND 3)), en (b AND 0x3F)])"

primrec encode_loop :: "nat \<Rightarrow> bytes \<Rightarrow> nat \<Rightarrow> bytes \<Rightarrow> bytes" where
  "encode_loop 0 inp i out = out"
| "encode_loop (Suc n) inp i out = encode_loop n inp (Suc i) (out @ encode_step inp i)"

text \<open>After the loop the index moves back by one, as a 64-bit number.\<close>

definition base64_encode :: "bytes \<Rightarrow> bytes option" where
  "base64_encode inp =
     (let out = encode_loop (length inp) inp 0 [];
          i = nat ((int (length inp) - 1) mod 2 ^ 64)
      in
       if i mod 3 = 0 then
         (if i < length inp then Some (out @ [en (push_bit 4 (inp ! i AND 3)), BASE64_PAD, BASE64_PAD]) else None)
       else if i mod 3 = 1 then
         (if i < length inp then Some (out @ [en (push_bit 2 (inp ! i AND 0xF)), BASE64_PAD]) else None)
       else Some out)"

text \<open>The decoder: the output before \<open>j\<close>, and the byte at \<open>j\<close> when it has been written. The characters are signed, so
  those from 128 on are below \<^verbatim>\<open>BASE64DE_FIRST\<close>.\<close>

definition de :: "u8 \<Rightarrow> int option" where
  "de ch =
     (if ch < 43 \<or> ch > 122 then None
      else (let c = base64de ! (unat ch - 43) in if c = - 1 then None else Some c))"

definition decode_char :: "bytes \<Rightarrow> nat \<Rightarrow> int \<Rightarrow> bytes \<times> u8 option \<Rightarrow> (bytes \<times> u8 option) option" where
  "decode_char inp i c st =
     (let inlen = length inp; (out, cur) = st in
      if i mod 4 = 0 then Some (out, Some (word_of_int (push_bit 2 c)))
      else Option.bind cur (\<lambda>x.
        if i mod 4 = 1 then
          Some (out @ [x + word_of_int (drop_bit 4 c AND 3)],
            if int i < (int inlen - 3) mod 2 ^ 64 \<or> inp ! (inlen - 2) \<noteq> 61 then Some (word_of_int (push_bit 4 (c AND 0xF))) else None)
        else if i mod 4 = 2 then
          Some (out @ [x + word_of_int (drop_bit 2 c AND 0xF)],
            if int i < (int inlen - 2) mod 2 ^ 64 \<or> inp ! (inlen - 1) \<noteq> 61 then Some (word_of_int (push_bit 6 (c AND 3))) else None)
        else Some (out @ [x + word_of_int c], None)))"

text \<open>The result is the length returned and the bytes written. A character outside the alphabet gives 0.\<close>

primrec decode_loop :: "nat \<Rightarrow> bytes \<Rightarrow> nat \<Rightarrow> bytes \<times> u8 option \<Rightarrow> (nat \<times> bytes) option" where
  "decode_loop 0 inp i st = Some (length (fst st), fst st)"
| "decode_loop (Suc n) inp i st =
     (if inp ! i = 61 then Some (length (fst st), fst st)
      else (case de (inp ! i) of
          None \<Rightarrow> Some (0, fst st)
        | Some c \<Rightarrow> Option.bind (decode_char inp i c st) (decode_loop n inp (Suc i))))"

definition base64_decode :: "bytes \<Rightarrow> (nat \<times> bytes) option" where
  "base64_decode inp = decode_loop (length inp) inp 0 ([], None)"

subsection \<open>Groups of three bytes\<close>

text \<open>The encoding as RFC 4648 describes it.\<close>

fun b64 :: "bytes \<Rightarrow> bytes" where
  "b64 [] = []"
| "b64 [a] = [en (drop_bit 2 a), en (push_bit 4 (a AND 3)), 61, 61]"
| "b64 [a, b] = [en (drop_bit 2 a), en (push_bit 4 (a AND 3) + drop_bit 4 b), en (push_bit 2 (b AND 15)), 61]"
| "b64 (a # b # c # r) =
     [en (drop_bit 2 a), en (push_bit 4 (a AND 3) + drop_bit 4 b), en (push_bit 2 (b AND 15) + drop_bit 6 c), en (c AND 63)] @ b64 r"

lemma u8_high: "drop_bit 2 (a :: u8) AND 63 = drop_bit 2 a" "drop_bit 4 a AND 15 = drop_bit 4 a" "drop_bit 6 a AND 3 = drop_bit 6 a"
proof -
  have m: "(63 :: u8) = mask 6" "(15 :: u8) = mask 4" "(3 :: u8) = mask 2" by (simp_all add: mask_eq_exp_minus_1)
  show "drop_bit 2 (a :: u8) AND 63 = drop_bit 2 a" "drop_bit 4 a AND 15 = drop_bit 4 a" "drop_bit 6 a AND 3 = drop_bit 6 a"
    unfolding m by (rule bit_word_eqI; auto simp: bit_simps dest: bit_imp_le_length)+
qed

text \<open>The loop encodes the rest of the input, up to the padding.\<close>

definition padding :: "bytes \<Rightarrow> nat \<Rightarrow> bytes" where
  "padding inp i =
     (if i mod 3 = 0 then [en (push_bit 4 (inp ! i AND 3)), 61, 61] else if i mod 3 = 1 then [en (push_bit 2 (inp ! i AND 15)), 61] else [])"

lemma encode_loop_b64:
  "xs \<noteq> [] \<Longrightarrow> length pre mod 3 = 0 \<Longrightarrow>
     encode_loop (length xs) (pre @ xs) (length pre) out @ padding (pre @ xs) (length (pre @ xs) - 1) = out @ b64 xs"
proof (induction xs arbitrary: pre out rule: b64.induct)
  case (2 a)
  then show ?case by (simp add: encode_step_def padding_def u8_high)
next
  case (3 a b)
  then have "Suc (length pre) mod 3 = 1" by (simp add: mod_Suc)
  then show ?case using 3 by (simp add: encode_step_def padding_def u8_high nth_append)
next
  case (4 a b c r)
  have m: "Suc (length pre) mod 3 = 1" "Suc (Suc (length pre)) mod 3 = 2" "Suc (Suc (Suc (length pre))) mod 3 = 0" using 4(3) by (simp_all add: mod_Suc)
  define out' where "out' = out @ [en (drop_bit 2 a), en (push_bit 4 (a AND 3) + drop_bit 4 b), en (push_bit 2 (b AND 15) + drop_bit 6 c), en (c AND 63)]"
  have st: "encode_loop (length (a # b # c # r)) (pre @ a # b # c # r) (length pre) out =
      encode_loop (length r) (pre @ a # b # c # r) (Suc (Suc (Suc (length pre)))) out'"
    using 4(3) m(1,2) by (simp add: encode_step_def u8_high nth_append out'_def)
  show ?case
  proof (cases "r = []")
    case True
    have "(length (pre @ [a, b, c]) - 1) mod 3 = 2" using m(2) by simp
    then show ?thesis using st True by (simp add: padding_def out'_def)
  next
    case False
    then show ?thesis using 4(1) [of "pre @ [a, b, c]" out'] m(3) st by (simp add: out'_def)
  qed
qed simp

lemma base64_encode_spec:
  assumes "inp \<noteq> []" and "length inp < 2 ^ 64"
  shows "base64_encode inp = Some (b64 inp)"
proof -
  have i: "nat ((int (length inp) - 1) mod 2 ^ 64) = length inp - 1" "length inp - 1 < length inp"
    using assms by (cases inp; simp)+
  have "encode_loop (length inp) inp 0 [] @ padding inp (length inp - 1) = b64 inp" using encode_loop_b64 [OF assms(1), of "[]" "[]"] by simp
  then show ?thesis unfolding base64_encode_def Let_def i(1) padding_def using i(2) by (auto simp: BASE64_PAD_def)
qed

subsection \<open>Decoding groups of four\<close>

lemma base64en_bytes:
  "base64en =
     [65, 66, 67, 68, 69, 70, 71, 72, 73, 74, 75, 76, 77, 78, 79, 80, 81, 82, 83, 84, 85, 86, 87, 88, 89, 90,
      97, 98, 99, 100, 101, 102, 103, 104, 105, 106, 107, 108, 109, 110, 111, 112, 113, 114, 115, 116, 117, 118, 119, 120, 121, 122,
      48, 49, 50, 51, 52, 53, 54, 55, 56, 57, 43, 47]"
  by (simp add: base64en_def)

lemma base64_tables: "\<forall>k\<in>set [0..<64]. de (base64en ! k) = Some (int k) \<and> base64en ! k \<noteq> 61"
  unfolding base64en_bytes by (simp add: upt_rec de_def base64de_def Let_def)

lemma de_en: "unat x < 64 \<Longrightarrow> de (en x) = Some (int (unat x)) \<and> en x \<noteq> 61"
  using base64_tables by (simp add: en_def)


lemma int_masks: "(x :: int) AND 3 = x mod 4" "x AND 15 = x mod 16"
  using take_bit_eq_mask [of 2 x] take_bit_eq_mask [of 4 x] by (simp_all add: take_bit_eq_mod mask_eq_exp_minus_1)

lemma u8_sextets:
  "unat (drop_bit 2 (a :: u8)) = unat a div 4" "unat (push_bit 4 (a AND 3)) = unat a mod 4 * 16" "unat (push_bit 2 (a AND 15)) = unat a mod 16 * 4" "unat (a AND 63) = unat a mod 64"
  "unat (drop_bit 4 a) = unat a div 16" "unat (drop_bit 6 a) = unat a div 64"
proof -
  have m: "(63 :: u8) = mask 6" "(15 :: u8) = mask 4" "(3 :: u8) = mask 2" by (simp_all add: mask_eq_exp_minus_1)
  have l: "unat a < 256" using u8_less by blast
  show "unat (drop_bit 2 a) = unat a div 4" "unat (drop_bit 4 a) = unat a div 16" "unat (drop_bit 6 a) = unat a div 64"
    by (simp_all add: unat_drop_bit_eq drop_bit_eq_div [where 'a = nat])
  have t: "unat (a AND 63) = unat a mod 64" "unat (a AND 15) = unat a mod 16" "unat (a AND 3) = unat a mod 4"
    unfolding m take_bit_eq_mask [symmetric] by (simp_all add: unsigned_take_bit_eq take_bit_eq_mod [where 'a = nat])
  show "unat (a AND 63) = unat a mod 64" by (rule t)
  have "unat a mod 4 * 16 < 256" "unat a mod 16 * 4 < 256" by simp_all
  then show "unat (push_bit 4 (a AND 3)) = unat a mod 4 * 16" "unat (push_bit 2 (a AND 15)) = unat a mod 16 * 4"
    by (simp_all add: push_bit_eq_mult unat_word_ariths t mult.commute)
qed

lemma u8_sums:
  "unat (push_bit 4 (a AND 3) + drop_bit 4 (b :: u8)) = unat a mod 4 * 16 + unat b div 16"
  "unat (push_bit 2 (a AND 15) + drop_bit 6 b) = unat a mod 16 * 4 + unat b div 64"
proof -
  have l: "unat b < 256" using u8_less by blast
  have "unat a mod 4 < 4" "unat a mod 16 < 16" by simp_all
  then have "unat a mod 4 * 16 + unat b div 16 < 256" "unat a mod 16 * 4 + unat b div 64 < 256" using l by linarith+
  then show "unat (push_bit 4 (a AND 3) + drop_bit 4 b) = unat a mod 4 * 16 + unat b div 16"
    "unat (push_bit 2 (a AND 15) + drop_bit 6 b) = unat a mod 16 * 4 + unat b div 64"
    unfolding unat_word_ariths u8_sextets by simp_all
qed

lemma int_sextets:
  "push_bit 2 (int k) = int (k * 4)" "drop_bit 4 (int k) AND 3 = int (k div 16 mod 4)" "push_bit 4 (int k AND 15) = int (k mod 16 * 16)"
  "drop_bit 2 (int k) AND 15 = int (k div 4 mod 16)" "push_bit 6 (int k AND 3) = int (k mod 4 * 64)"
  unfolding int_masks by (simp_all add: push_bit_eq_mult drop_bit_eq_div zdiv_int zmod_int)

lemma nat_join:
  fixes n :: nat
  assumes "n < 256" and "y < 16" and "z < 4"
  shows "n div 4 * 4 + (n mod 4 * 16 + y) div 16 mod 4 = n"
    "(x * 16 + n div 16) mod 16 * 16 + (n mod 16 * 4 + z) div 4 mod 16 = n"
    "(x * 4 + n div 64) mod 4 * 64 + n mod 64 = n"
proof -
  have "(n mod 4 * 16 + y) div 16 = n mod 4" "(n mod 16 * 4 + z) div 4 = n mod 16" using assms(2,3) by simp_all
  then show "n div 4 * 4 + (n mod 4 * 16 + y) div 16 mod 4 = n" by simp
  have "(x * 16 + n div 16) mod 16 = n div 16" "(x * 4 + n div 64) mod 4 = n div 64" using assms(1) by (simp_all add: less_mult_imp_div_less)
  then show "(x * 16 + n div 16) mod 16 * 16 + (n mod 16 * 4 + z) div 4 mod 16 = n" "(x * 4 + n div 64) mod 4 * 64 + n mod 64 = n"
    using \<open>(n mod 16 * 4 + z) div 4 = n mod 16\<close> by simp_all
qed

lemma u8_join: "i + j = unat a \<Longrightarrow> word_of_int (int i) + word_of_int (int j) = (a :: u8)"
proof -
  assume "i + j = unat a"
  moreover have "word_of_int (int i) + word_of_int (int j) = (word_of_nat (i + j) :: u8)" by simp
  ultimately show ?thesis by simp
qed


text \<open>The four steps of a group: the sextets of three bytes give the bytes back.\<close>

lemma sextet_less:
  "unat (drop_bit 2 (a :: u8)) < 64" "unat (push_bit 4 (a AND 3) + drop_bit 4 (b :: u8)) < 64" "unat (push_bit 4 (a AND 3)) < 64"
  "unat (push_bit 2 (a AND 15) + drop_bit 6 b) < 64" "unat (push_bit 2 (a AND 15)) < 64" "unat (a AND 63) < 64"
proof -
  have "unat a < 256" "unat b < 256" "unat a mod 4 < 4" "unat a mod 16 < 16" using u8_less by simp_all
  then show "unat (drop_bit 2 a) < 64" "unat (push_bit 4 (a AND 3) + drop_bit 4 b) < 64" "unat (push_bit 4 (a AND 3)) < 64"
    "unat (push_bit 2 (a AND 15) + drop_bit 6 b) < 64" "unat (push_bit 2 (a AND 15)) < 64" "unat (a AND 63) < 64"
    unfolding u8_sums u8_sextets by (linarith | simp)+
qed

lemma decode_step:
  "unat x < 64 \<Longrightarrow> inp ! i = en x \<Longrightarrow>
     decode_loop (Suc n) inp i st = Option.bind (decode_char inp i (int (unat x)) st) (decode_loop n inp (Suc i))"
  using de_en [of x] by simp

lemma decode_char_0: "i mod 4 = 0 \<Longrightarrow> decode_char inp i c (out, cur) = Some (out, Some (word_of_int (push_bit 2 c)))"
  by (simp add: decode_char_def)

lemma decode_char_1:
  assumes "Suc i mod 4 = 2 \<or> i mod 4 = 1" and "length inp < 2 ^ 63" and "3 \<le> length inp"
  shows "decode_char inp i c (out, Some x) = Some (out @ [x + word_of_int (drop_bit 4 c AND 3)],
     if i + 3 < length inp \<or> inp ! (length inp - 2) \<noteq> 61 then Some (word_of_int (push_bit 4 (c AND 15))) else None)"
proof -
  have "i mod 4 = 1" using assms(1) by (auto simp: mod_Suc split: if_splits)
  moreover have "(int (length inp) - 3) mod 2 ^ 64 = int (length inp - 3)" using assms(2,3) by simp
  ultimately show ?thesis using assms(3) by (auto simp: decode_char_def)
qed

lemma decode_char_2:
  assumes "i mod 4 = 2" and "length inp < 2 ^ 63" and "2 \<le> length inp"
  shows "decode_char inp i c (out, Some x) = Some (out @ [x + word_of_int (drop_bit 2 c AND 15)],
     if i + 2 < length inp \<or> inp ! (length inp - 1) \<noteq> 61 then Some (word_of_int (push_bit 6 (c AND 3))) else None)"
proof -
  have "(int (length inp) - 2) mod 2 ^ 64 = int (length inp - 2)" using assms(2,3) by simp
  then show ?thesis using assms(1,3) by (auto simp: decode_char_def)
qed

lemma decode_char_3: "i mod 4 = 3 \<Longrightarrow> decode_char inp i c (out, Some x) = Some (out @ [x + word_of_int c], None)"
  by (simp add: decode_char_def)

text \<open>The bytes that the decoder puts together from two sextets each.\<close>

definition join1 :: "u8 \<Rightarrow> u8 \<Rightarrow> u8" where
  "join1 x y = word_of_int (int (unat x * 4)) + word_of_int (int (unat y div 16 mod 4))"

definition join2 :: "u8 \<Rightarrow> u8 \<Rightarrow> u8" where
  "join2 x y = word_of_int (int (unat x mod 16 * 16)) + word_of_int (int (unat y div 4 mod 16))"

definition join3 :: "u8 \<Rightarrow> u8 \<Rightarrow> u8" where
  "join3 x y = word_of_int (int (unat x mod 4 * 64)) + word_of_int (int (unat y))"

lemma decode_first:
  assumes "i mod 4 = 0" and "unat x < 64" and "unat y < 64" and "inp ! i = en x" and "inp ! Suc i = en y" and "i + 4 \<le> length inp" and "length inp < 2 ^ 63"
  shows "decode_loop (Suc (Suc n)) inp i (out, cur) = decode_loop n inp (Suc (Suc i))
     (out @ [join1 x y],
      if i + 4 < length inp \<or> inp ! (length inp - 2) \<noteq> 61 then Some (word_of_int (int (unat y mod 16 * 16))) else None)"
proof -
  have m: "Suc i mod 4 = 1" "Suc i + 3 = i + 4" using assms(1) by (simp_all add: mod_Suc)
  show ?thesis
    using decode_char_1 [of "Suc i" inp "int (unat y)" out "word_of_int (int (unat x * 4))"] m assms(6,7)
    unfolding decode_step [OF assms(2,4)] decode_char_0 [OF assms(1)] Option.bind.simps decode_step [OF assms(3,5)] int_sextets join1_def by simp
qed

lemma decode_second:
  assumes "i mod 4 = 0" and "unat x < 64" and "inp ! Suc (Suc i) = en x" and "i + 4 \<le> length inp" and "length inp < 2 ^ 63"
  shows "decode_loop (Suc n) inp (Suc (Suc i)) (out, Some z) = decode_loop n inp (Suc (Suc (Suc i)))
     (out @ [z + word_of_int (int (unat x div 4 mod 16))], if i + 4 < length inp \<or> inp ! (length inp - 1) \<noteq> 61 then Some (word_of_int (int (unat x mod 4 * 64))) else None)"
proof -
  have m: "Suc (Suc i) mod 4 = 2" "Suc (Suc i) + 2 = i + 4" using assms(1) by (simp_all add: mod_Suc)
  show ?thesis
    using decode_char_2 [OF m(1), of inp "int (unat x)" out z] m(2) assms(4,5) unfolding decode_step [OF assms(2,3)] int_sextets by simp
qed

lemma decode_third:
  assumes "i mod 4 = 0" and "unat x < 64" and "inp ! Suc (Suc (Suc i)) = en x"
  shows "decode_loop (Suc n) inp (Suc (Suc (Suc i))) (out, Some z) = decode_loop n inp (Suc (Suc (Suc (Suc i)))) (out @ [z + word_of_int (int (unat x))], None)"
proof -
  have m: "Suc (Suc (Suc i)) mod 4 = 3" using assms(1) by (simp add: mod_Suc)
  show ?thesis unfolding decode_step [OF assms(2,3)] decode_char_3 [OF m] by simp
qed

lemma sextets_join:
  "join1 (drop_bit 2 a) (push_bit 4 (a AND 3) + drop_bit 4 b) = a" "join1 (drop_bit 2 a) (push_bit 4 (a AND 3)) = a"
  "join2 (push_bit 4 (c AND 3) + drop_bit 4 a) (push_bit 2 (a AND 15) + drop_bit 6 b) = a"
  "join2 (push_bit 4 (c AND 3) + drop_bit 4 a) (push_bit 2 (a AND 15)) = a"
  "join3 (push_bit 2 (c AND 15) + drop_bit 6 a) (a AND 63) = a"
proof -
  have l: "unat a < 256" "unat b div 16 < 16" "unat b div 64 < 4" using u8_less [of a] u8_less [of b] by (simp_all add: less_mult_imp_div_less)
  show "join1 (drop_bit 2 a) (push_bit 4 (a AND 3) + drop_bit 4 b) = a" unfolding join1_def u8_sums u8_sextets by (rule u8_join, rule nat_join(1) [OF l])
  show "join1 (drop_bit 2 a) (push_bit 4 (a AND 3)) = a" unfolding join1_def u8_sextets using nat_join(1) [OF l(1), of 0 0] by (intro u8_join) simp
  show "join2 (push_bit 4 (c AND 3) + drop_bit 4 a) (push_bit 2 (a AND 15) + drop_bit 6 b) = a"
    unfolding join2_def u8_sums u8_sextets by (rule u8_join, rule nat_join(2) [OF l])
  show "join2 (push_bit 4 (c AND 3) + drop_bit 4 a) (push_bit 2 (a AND 15)) = a"
    unfolding join2_def u8_sums u8_sextets using nat_join(2) [OF l(1), of 0 0 "unat c mod 4"] by (intro u8_join) simp
  show "join3 (push_bit 2 (c AND 15) + drop_bit 6 a) (a AND 63) = a" unfolding join3_def u8_sums u8_sextets by (rule u8_join, rule nat_join(3) [OF l])
qed

text \<open>The three shapes of a group.\<close>

lemma decode_group_1:
  assumes pre: "length pre mod 4 = 0" and len: "length inp < 2 ^ 63" and small: "unat w < 64" "unat x < 64" and inp: "inp = pre @ [en w, en x, 61, 61]"
  shows "decode_loop (Suc (Suc (Suc n))) inp (length pre) (out, cur) = Some (Suc (length out), out @ [join1 w x])"
  using decode_first [OF pre small(1,2), of inp "Suc n" out cur] len unfolding inp by (simp add: nth_append)

lemma decode_group_2:
  assumes pre: "length pre mod 4 = 0" and len: "length inp < 2 ^ 63" and small: "unat w < 64" "unat x < 64" "unat y < 64"
    and inp: "inp = pre @ [en w, en x, en y, 61]"
  shows "decode_loop (Suc (Suc (Suc (Suc n)))) inp (length pre) (out, cur) = Some (length out + 2, out @ [join1 w x, join2 x y])"
proof -
  have "decode_loop (Suc (Suc (Suc (Suc n)))) inp (length pre) (out, cur) = decode_loop (Suc n) inp (Suc (Suc (Suc (length pre)))) (out @ [join1 w x, join2 x y], None)"
    using decode_first [OF pre small(1,2), of inp "Suc (Suc n)" out cur] decode_second [OF pre small(3), of inp "Suc n"] de_en [OF small(3)] len
    unfolding inp by (simp add: nth_append join2_def del: decode_loop.simps)
  also have "\<dots> = Some (length out + 2, out @ [join1 w x, join2 x y])" unfolding inp by (simp add: nth_append)
  finally show ?thesis .
qed

lemma decode_group_3:
  assumes pre: "length pre mod 4 = 0" and len: "length inp < 2 ^ 63" and small: "unat w < 64" "unat x < 64" "unat y < 64" "unat z < 64"
    and i: "inp = pre @ [en w, en x, en y, en z] @ rest" and r: "rest = [] \<or> 4 \<le> length rest"
  shows "decode_loop (Suc (Suc (Suc (Suc n)))) inp (length pre) (out, cur) =
    decode_loop n inp (length (pre @ [en w, en x, en y, en z])) (out @ [join1 w x, join2 x y, join3 y z], None)"
proof -
  have "length pre + 4 < length inp \<or> inp ! (length inp - 2) \<noteq> 61" "length pre + 4 < length inp \<or> inp ! (length inp - 1) \<noteq> 61"
    using r de_en [OF small(3)] de_en [OF small(4)] unfolding i by (auto simp: nth_append)
  then show ?thesis
    using decode_first [OF pre small(1,2), of inp "Suc (Suc n)" out cur] decode_second [OF pre small(3), of inp "Suc n"] decode_third [OF pre small(4), of inp n] len
    unfolding i by (simp add: nth_append join2_def join3_def del: decode_loop.simps)
qed

lemma b64_length: "xs \<noteq> [] \<Longrightarrow> 4 \<le> length (b64 xs)"
  by (induction xs rule: b64.induct) auto

lemma decode_loop_pad: "inp ! i = 61 \<Longrightarrow> decode_loop (Suc n) inp i (out, cur) = Some (length out, out)"
  by simp

lemma decode_loop_b64:
  "length pre mod 4 = 0 \<Longrightarrow> length (pre @ b64 xs) < 2 ^ 63 \<Longrightarrow>
     decode_loop (length (b64 xs)) (pre @ b64 xs) (length pre) (out, cur) = Some (length out + length xs, out @ xs)"
proof (induction xs arbitrary: pre out cur rule: b64.induct)
  case (2 a)
  have l: "length (b64 [a]) = Suc (Suc (Suc 1))" by simp
  show ?case unfolding l using decode_group_1 [OF 2 sextet_less(1) [of a] sextet_less(3) [of a], of 1 out cur] by (simp only: b64.simps sextets_join) simp
next
  case (3 a b)
  have l: "length (b64 [a, b]) = Suc (Suc (Suc (Suc 0)))" by simp
  show ?case unfolding l using decode_group_2 [OF 3 sextet_less(1) [of a] sextet_less(2) [of a b] sextet_less(5) [of b], of 0 out cur]
    by (simp only: b64.simps sextets_join) simp
next
  case (4 a b c r)
  let ?g = "[en (drop_bit 2 a), en (push_bit 4 (a AND 3) + drop_bit 4 b), en (push_bit 2 (b AND 15) + drop_bit 6 c), en (c AND 63)]"
  have l: "length (b64 (a # b # c # r)) = Suc (Suc (Suc (Suc (length (b64 r)))))" by simp
  have "decode_loop (length (b64 (a # b # c # r))) (pre @ ?g @ b64 r) (length pre) (out, cur) =
      decode_loop (length (b64 r)) (pre @ ?g @ b64 r) (length (pre @ ?g)) (out @ [a, b, c], None)"
    unfolding l using decode_group_3 [OF 4(2) 4(3) sextet_less(1) [of a] sextet_less(2) [of a b] sextet_less(4) [of b c] sextet_less(6) [of c],
        of "b64 r" "length (b64 r)" out cur] b64_length [of r] by (cases "r = []") (simp_all only: b64.simps sextets_join, simp_all)
  moreover have "length (pre @ ?g) mod 4 = 0" using 4(2) by simp
  ultimately show ?case using 4(1) [of "pre @ ?g" "out @ [a, b, c]" None] 4(3) by (simp only: b64.simps append_assoc) simp
qed simp

subsection \<open>Properties\<close>

text \<open>
  C39. Base64 round trip: the encoder computes the encoding of RFC 4648 in groups of three bytes with padding, the decoder returns the length of
  the original input and gives it back, and neither reads outside its input. An empty input makes the encoder read
  in front of it.\<close>

theorem base64_roundtrip:
  assumes "length inp < 2 ^ 61"
  shows "if inp = [] then base64_encode inp = None
     else base64_encode inp = Some (b64 inp) \<and> base64_decode (b64 inp) = Some (length inp, inp)"
proof (cases "inp = []")
  case True
  then show ?thesis by (simp add: base64_encode_def)
next
  case False
  have "length (b64 inp) \<le> 4 * length inp" by (induction inp rule: b64.induct) auto
  then have "length (b64 inp) < 2 ^ 63" using assms by simp
  then have "base64_decode (b64 inp) = Some (length inp, inp)" using decode_loop_b64 [of "[]" inp "[]" None] by (simp add: base64_decode_def)
  then show ?thesis using False base64_encode_spec [OF False] assms by simp
qed

theorem base64_roundtrip_witness: "base64_encode [102, 111] = Some [90, 109, 56, 61] \<and> base64_decode [90, 109, 56, 61] = Some (2, [102, 111])"
proof -
  have "b64 [102, 111] = [90, 109, 56, 61]" by (simp add: en_def base64en_bytes)
  then show ?thesis using base64_roundtrip [of "[102, 111]"] by simp
qed

end
