(* ===== verification/Osw_Coroutine.thy ===== *)
theory Osw_Coroutine
  imports Osw_Prelude "HOL-Library.AList" "HOL-Library.Monad_Syntax"
begin

text \<open>
  The coroutine scheduler (\<^verbatim>\<open>src/coroutine/base.cc\<close>, \<^verbatim>\<open>include/openswoole_coroutine.h\<close>): creation, yielding,
  resuming, cancelling and closing of coroutines, with the table of coroutines, the running one and the
  coroutine that each has been resumed from. A swap of the machine context is the change of the running
  coroutine. \<open>None\<close> is a failed assertion or the use of a coroutine that has been deleted.
\<close>

subsection \<open>Definitions\<close>

datatype co_state = STATE_INIT | STATE_WAITING | STATE_RUNNING | STATE_END

datatype resume_code = RC_OK | RC_TIMEDOUT | RC_CANCELED

text \<open>The type of the cancel functions is a parameter: a function is named by what it has captured.\<close>

record 'f coroutine =
  co_state :: co_state
  resume_code :: resume_code
  origin :: "nat option"
  cancel_fn :: "'f option"

record 'f sched =
  coroutines :: "(nat \<times> 'f coroutine) list"
  current :: "nat option"
  last_cid :: nat
  peak_num :: nat
  on_bailout :: bool

definition get_by_cid :: "'f sched \<Rightarrow> nat \<Rightarrow> 'f coroutine option" where
  "get_by_cid s = map_of (coroutines s)"

definition co_count :: "'f sched \<Rightarrow> nat" where
  "co_count s = length (coroutines s)"

definition set_co :: "nat \<Rightarrow> 'f coroutine \<Rightarrow> 'f sched \<Rightarrow> 'f sched" where
  "set_co cid x s = s\<lparr>coroutines := AList.update cid x (coroutines s)\<rparr>"

definition is_canceled :: "'f coroutine \<Rightarrow> bool" where
  "is_canceled x \<longleftrightarrow> resume_code x = RC_CANCELED"

definition is_timedout :: "'f coroutine \<Rightarrow> bool" where
  "is_timedout x \<longleftrightarrow> resume_code x = RC_TIMEDOUT"

definition is_suspending :: "'f coroutine \<Rightarrow> bool" where
  "is_suspending x \<longleftrightarrow> co_state x = STATE_WAITING"

definition get_current_cid :: "'f sched \<Rightarrow> int" where
  "get_current_cid s = (case current s of None \<Rightarrow> - 1 | Some c \<Rightarrow> int c)"

definition get_origin_cid :: "'f coroutine \<Rightarrow> int" where
  "get_origin_cid x = (case origin x of None \<Rightarrow> - 1 | Some c \<Rightarrow> int c)"

text \<open>The constructor, and \<^verbatim>\<open>create\<close>, which runs the coroutine at once; its state stays \<^verbatim>\<open>STATE_INIT\<close> until it yields.\<close>

definition co_new :: "'f sched \<Rightarrow> nat \<times> 'f sched" where
  "co_new s =
     (let cid = last_cid s + 1;
          s1 = set_co cid \<lparr>co_state = STATE_INIT, resume_code = RC_OK, origin = None, cancel_fn = None\<rparr> (s\<lparr>last_cid := cid\<rparr>)
      in (cid, if co_count s1 > peak_num s then s1\<lparr>peak_num := co_count s1\<rparr> else s1))"

definition co_run :: "nat \<Rightarrow> 'f sched \<Rightarrow> 'f sched option" where
  "co_run cid s = do {
     x \<leftarrow> get_by_cid s cid;
     Some (set_co cid (x\<lparr>origin := current s\<rparr>) (s\<lparr>current := Some cid\<rparr>))
   }"

definition co_create :: "'f sched \<Rightarrow> (nat \<times> 'f sched) option" where
  "co_create s = (let (cid, s1) = co_new s in map_option (Pair cid) (co_run cid s1))"

definition set_cancel_fn :: "nat \<Rightarrow> 'f option \<Rightarrow> 'f sched \<Rightarrow> 'f sched option" where
  "set_cancel_fn cid f s = do {
     x \<leftarrow> get_by_cid s cid;
     Some (set_co cid (x\<lparr>cancel_fn := f\<rparr>) s)
   }"

definition co_yield :: "nat \<Rightarrow> 'f sched \<Rightarrow> 'f sched option" where
  "co_yield cid s = do {
     x \<leftarrow> get_by_cid s cid;
     if current s = Some cid \<or> on_bailout s
     then Some (set_co cid (x\<lparr>co_state := STATE_WAITING, resume_code := RC_OK\<rparr>) (s\<lparr>current := origin x\<rparr>))
     else None
   }"

text \<open>\<^verbatim>\<open>yield(cancel_fn)\<close> up to the swap; behind it, the coroutine clears the cancel function (\<open>co_yield_return\<close>).\<close>

definition co_yield_cancel :: "nat \<Rightarrow> 'f \<Rightarrow> 'f sched \<Rightarrow> 'f sched option" where
  "co_yield_cancel cid f s = do { s1 \<leftarrow> set_cancel_fn cid (Some f) s; co_yield cid s1 }"

definition co_yield_return :: "nat \<Rightarrow> 'f sched \<Rightarrow> 'f sched option" where
  "co_yield_return cid s = set_cancel_fn cid None s"

definition co_resume :: "nat \<Rightarrow> 'f sched \<Rightarrow> 'f sched option" where
  "co_resume cid s = do {
     x \<leftarrow> get_by_cid s cid;
     if current s = Some cid then None
     else if on_bailout s then Some s
     else Some (set_co cid (x\<lparr>co_state := STATE_RUNNING, origin := current s\<rparr>) (s\<lparr>current := Some cid\<rparr>))
   }"

text \<open>\<^verbatim>\<open>cancel\<close> up to the call of the cancel function; \<open>None\<close> is the refusal.\<close>

definition co_cancel :: "nat \<Rightarrow> 'f sched \<Rightarrow> ('f option \<times> 'f sched) option" where
  "co_cancel cid s = do {
     x \<leftarrow> get_by_cid s cid;
     case cancel_fn x of
       None \<Rightarrow> Some (None, s)
     | Some f \<Rightarrow> Some (Some f, set_co cid (x\<lparr>cancel_fn := None, resume_code := RC_CANCELED\<rparr>) s)
   }"

text \<open>The function of a coroutine returns: the context is at its end, and \<^verbatim>\<open>check_end\<close> in the coroutine that resumed it
  closes it.\<close>

definition co_close :: "nat \<Rightarrow> 'f sched \<Rightarrow> 'f sched option" where
  "co_close cid s = do {
     x \<leftarrow> get_by_cid s cid;
     if current s = Some cid then Some (s\<lparr>current := origin x, coroutines := AList.delete cid (coroutines s)\<rparr>) else None
   }"

text \<open>\<^verbatim>\<open>yield_ex\<close>: the part in front of the swap, the timer callback, and the part behind it. The result of the last is the
  returned value.\<close>

definition co_yield_ex :: "nat \<Rightarrow> 'f \<Rightarrow> 'f sched \<Rightarrow> 'f sched option" where
  "co_yield_ex cid f s = co_yield_cancel cid f s"

definition co_yield_ex_timeout :: "nat \<Rightarrow> 'f sched \<Rightarrow> 'f sched option" where
  "co_yield_ex_timeout cid s = do {
     x \<leftarrow> get_by_cid s cid;
     co_resume cid (set_co cid (x\<lparr>resume_code := RC_TIMEDOUT\<rparr>) s)
   }"

definition co_yield_ex_return :: "nat \<Rightarrow> 'f sched \<Rightarrow> (bool \<times> 'f sched) option" where
  "co_yield_ex_return cid s = do {
     s1 \<leftarrow> co_yield_return cid s;
     x \<leftarrow> get_by_cid s1 cid;
     Some (\<not> is_timedout x \<and> \<not> is_canceled x, s1)
   }"

definition set_stack_size :: "nat \<Rightarrow> nat" where
  "set_stack_size n = mem_aligned_size_ex (max (64 * 1024) (min n (16 * 1024 * 1024))) (4 * 1024)"

definition co_init :: "'f sched" where
  "co_init = \<lparr>coroutines = [], current = None, last_cid = 0, peak_num = 0, on_bailout = False\<rparr>"

subsection \<open>The stack of resumed coroutines\<close>

text \<open>Each coroutine of the stack has been resumed from the next one, and the last from the main context.\<close>

primrec origins :: "(nat \<Rightarrow> 'f coroutine option) \<Rightarrow> nat list \<Rightarrow> bool" where
  "origins m [] = True"
| "origins m (c # st) = (map_option origin (m c) = Some (if st = [] then None else Some (hd st)) \<and> origins m st)"

definition sched_inv :: "'f sched \<Rightarrow> nat list \<Rightarrow> bool" where
  "sched_inv s st \<longleftrightarrow> distinct (map fst (coroutines s)) \<and> current s = (if st = [] then None else Some (hd st)) \<and> distinct st \<and>
     origins (get_by_cid s) st \<and>
     (\<forall>c x. get_by_cid s c = Some x \<longrightarrow> (c \<in> set st \<longleftrightarrow> \<not> is_suspending x) \<and> co_state x \<noteq> STATE_END \<and> 0 < c \<and> c \<le> last_cid s) \<and>
     co_count s \<le> peak_num s \<and> \<not> on_bailout s"

definition suspended :: "'f sched \<Rightarrow> nat set" where
  "suspended s = {c. \<exists>x. get_by_cid s c = Some x \<and> is_suspending x}"

lemma suspended_code [code_unfold]: "c \<in> suspended s \<longleftrightarrow> (case get_by_cid s c of None \<Rightarrow> False | Some x \<Rightarrow> is_suspending x)"
  by (auto simp: suspended_def split: option.splits)

lemma origins_cong: "(\<And>c. c \<in> set st \<Longrightarrow> map_option origin (m c) = map_option origin (m' c)) \<Longrightarrow> origins m st = origins m' st"
  by (induction st) auto

lemma origins_dom: "origins m st \<Longrightarrow> c \<in> set st \<Longrightarrow> \<exists>x. m c = Some x"
  by (induction st) auto

lemma get_by_cid_set_co [simp]: "get_by_cid (set_co cid x s) = (get_by_cid s)(cid \<mapsto> x)"
  by (simp add: get_by_cid_def set_co_def update_conv')

lemma set_co_fields [simp]:
  "current (set_co cid x s) = current s" "last_cid (set_co cid x s) = last_cid s" "peak_num (set_co cid x s) = peak_num s"
  "on_bailout (set_co cid x s) = on_bailout s"
  by (simp_all add: set_co_def)

lemma get_by_cid_fields [simp]: "get_by_cid (s\<lparr>current := v\<rparr>) = get_by_cid s" "get_by_cid (s\<lparr>last_cid := n\<rparr>) = get_by_cid s" "get_by_cid (s\<lparr>peak_num := n\<rparr>) = get_by_cid s"
  by (simp_all add: get_by_cid_def)

lemma length_update_old: "map_of al k \<noteq> None \<Longrightarrow> length (AList.update k v al) = length al"
  by (induction al) auto

lemma length_update_new: "map_of al k = None \<Longrightarrow> length (AList.update k v al) = Suc (length al)"
  by (induction al) (auto split: if_splits)

lemma set_co_table:
  "distinct (map fst (coroutines s)) \<Longrightarrow> distinct (map fst (coroutines (set_co cid x s)))"
  "get_by_cid s cid \<noteq> None \<Longrightarrow> co_count (set_co cid x s) = co_count s"
  using length_update_old [of "coroutines s" cid x] by (simp_all add: get_by_cid_def co_count_def set_co_def distinct_update)

lemma co_fields [simp]: "co_count (s\<lparr>current := v\<rparr>) = co_count s" "coroutines (set_co c x (s\<lparr>current := v\<rparr>)) = coroutines (set_co c x s)"
  by (simp_all add: co_count_def set_co_def)

lemma sched_invD:
  assumes "sched_inv s st"
  shows "distinct (map fst (coroutines s))" "current s = (if st = [] then None else Some (hd st))" "distinct st" "origins (get_by_cid s) st"
    "\<not> on_bailout s" "co_count s \<le> peak_num s"
    "get_by_cid s c = Some x \<Longrightarrow> (c \<in> set st \<longleftrightarrow> \<not> is_suspending x) \<and> co_state x \<noteq> STATE_END \<and> 0 < c \<and> c \<le> last_cid s"
  using assms by (auto simp: sched_inv_def)

lemma sched_on_stack: "sched_inv s st \<Longrightarrow> c \<in> set st \<Longrightarrow> \<exists>x. get_by_cid s c = Some x"
  using origins_dom sched_invD(4) by fastforce

text \<open>Replacing a coroutine and the running one.\<close>

lemma sched_inv_upd:
  assumes inv: "sched_inv s st" and x: "get_by_cid s c = Some x" and v: "v = (if st' = [] then None else Some (hd st'))" and d: "distinct st'"
    and o: "origins ((get_by_cid s)(c \<mapsto> y)) st'" and mem: "\<forall>d. d \<noteq> c \<longrightarrow> (d \<in> set st' \<longleftrightarrow> d \<in> set st)"
    and y: "c \<in> set st' \<longleftrightarrow> \<not> is_suspending y" "co_state y \<noteq> STATE_END"
  shows "sched_inv (set_co c y (s\<lparr>current := v\<rparr>)) st'"
proof -
  note i = sched_invD [OF inv]
  have "co_count (set_co c y (s\<lparr>current := v\<rparr>)) = co_count s" using set_co_table(2) [of "s\<lparr>current := v\<rparr>" c y] x by simp
  moreover have "(e \<in> set st' \<longleftrightarrow> \<not> is_suspending z) \<and> co_state z \<noteq> STATE_END \<and> 0 < e \<and> e \<le> last_cid s"
    if "((get_by_cid s)(c \<mapsto> y)) e = Some z" for e z
    using that i(7) [of e z] i(7) [OF x] mem y by (cases "e = c") auto
  ultimately show ?thesis using i(1,5,6) v d o set_co_table(1) [of s c y] unfolding sched_inv_def by (simp split del: if_split)
qed

lemma origins_other: "c \<notin> set st \<Longrightarrow> origins (m(c \<mapsto> y)) st = origins m st"
  by (rule origins_cong) auto

lemma sched_inv_set:
  assumes inv: "sched_inv s st" and x: "get_by_cid s cid = Some x" and y: "co_state y = co_state x" "origin y = origin x"
  shows "sched_inv (set_co cid y s) st"
proof -
  have "origins ((get_by_cid s)(cid \<mapsto> y)) st = origins (get_by_cid s) st" by (rule origins_cong) (use x y(2) in auto)
  then have "sched_inv (set_co cid y (s\<lparr>current := current s\<rparr>)) st"
    using sched_inv_upd [OF inv x sched_invD(2) [OF inv]] sched_invD(3,4) [OF inv] sched_invD(7) [OF inv x] y(1) by (simp add: is_suspending_def)
  then show ?thesis by simp
qed

lemma set_cancel_fn_spec:
  assumes "sched_inv s st" and "get_by_cid s cid = Some x"
  shows "\<exists>s'. set_cancel_fn cid f s = Some s' \<and> sched_inv s' st \<and> get_by_cid s' = (get_by_cid s)(cid \<mapsto> x\<lparr>cancel_fn := f\<rparr>)"
  using sched_inv_set [OF assms, of "x\<lparr>cancel_fn := f\<rparr>"] assms(2) by (simp add: set_cancel_fn_def)

text \<open>Yielding pops the stack, resuming a suspended coroutine and creating one push it, and closing pops it.\<close>

lemma co_yield_spec:
  assumes inv: "sched_inv s (c # st)" and x: "get_by_cid s c = Some x"
  shows "\<exists>s'. co_yield c s = Some s' \<and> sched_inv s' st \<and> get_by_cid s' = (get_by_cid s)(c \<mapsto> x\<lparr>co_state := STATE_WAITING, resume_code := RC_OK\<rparr>)"
proof -
  let ?y = "x\<lparr>co_state := STATE_WAITING, resume_code := RC_OK\<rparr>"
  note i = sched_invD [OF inv]
  have o: "origin x = (if st = [] then None else Some (hd st))" "origins (get_by_cid s) st" "c \<notin> set st" "distinct st" using i(3,4) x by auto
  have "sched_inv (set_co c ?y (s\<lparr>current := origin x\<rparr>)) st"
    using sched_inv_upd [OF inv x o(1) o(4), of ?y] o(2,3) by (simp add: origins_other is_suspending_def)
  then show ?thesis using i(2) x by (simp add: co_yield_def)
qed

lemma co_yield_cancel_spec:
  assumes inv: "sched_inv s (c # st)" and x: "get_by_cid s c = Some x"
  shows "\<exists>s'. co_yield_cancel c f s = Some s' \<and> sched_inv s' st \<and>
     get_by_cid s' = (get_by_cid s)(c \<mapsto> x\<lparr>cancel_fn := Some f, co_state := STATE_WAITING, resume_code := RC_OK\<rparr>)"
proof -
  obtain t where t: "set_cancel_fn c (Some f) s = Some t" "sched_inv t (c # st)" "get_by_cid t = (get_by_cid s)(c \<mapsto> x\<lparr>cancel_fn := Some f\<rparr>)"
    using set_cancel_fn_spec [OF inv x, of "Some f"] by blast
  from co_yield_spec [OF t(2), of "x\<lparr>cancel_fn := Some f\<rparr>"] t(1,3) show ?thesis by (auto simp: co_yield_cancel_def)
qed

lemma co_resume_spec:
  assumes inv: "sched_inv s st" and x: "get_by_cid s c = Some x" "is_suspending x"
  shows "\<exists>s'. co_resume c s = Some s' \<and> sched_inv s' (c # st) \<and> get_by_cid s' = (get_by_cid s)(c \<mapsto> x\<lparr>co_state := STATE_RUNNING, origin := current s\<rparr>)"
proof -
  let ?y = "x\<lparr>co_state := STATE_RUNNING, origin := current s\<rparr>"
  note i = sched_invD [OF inv]
  have c: "c \<notin> set st" using i(7) [OF x(1)] x(2) by simp
  then have "current s \<noteq> Some c" using i(2) by (cases st) auto
  moreover have "sched_inv (set_co c ?y (s\<lparr>current := Some c\<rparr>)) (c # st)"
    using sched_inv_upd [OF inv x(1), of "Some c" "c # st" ?y] c i(2-4) by (simp add: origins_other is_suspending_def)
  ultimately show ?thesis using i(5) x(1) by (simp add: co_resume_def)
qed

lemma co_cancel_spec:
  assumes inv: "sched_inv s st" and x: "get_by_cid s c = Some x" "cancel_fn x = Some f"
  shows "\<exists>s'. co_cancel c s = Some (Some f, s') \<and> sched_inv s' st \<and> get_by_cid s' = (get_by_cid s)(c \<mapsto> x\<lparr>cancel_fn := None, resume_code := RC_CANCELED\<rparr>) \<and>
     current s' = current s"
  using sched_inv_set [OF inv x(1), of "x\<lparr>cancel_fn := None, resume_code := RC_CANCELED\<rparr>"] x by (simp add: co_cancel_def)

lemma co_create_spec:
  assumes inv: "sched_inv s st"
  defines "c \<equiv> last_cid s + 1"
  shows "\<exists>s'. co_create s = Some (c, s') \<and> sched_inv s' (c # st) \<and> get_by_cid s c = None \<and>
     get_by_cid s' = (get_by_cid s)(c \<mapsto> \<lparr>co_state = STATE_INIT, resume_code = RC_OK, origin = current s, cancel_fn = None\<rparr>)"
proof -
  note i = sched_invD [OF inv]
  let ?x = "\<lparr>co_state = STATE_INIT, resume_code = RC_OK, origin = None, cancel_fn = None\<rparr>"
  have n: "get_by_cid s c = None" using i(7) [of c] by (fastforce simp: c_def)
  have cs: "c \<notin> set st" using sched_on_stack [OF inv, of c] n by auto
  define s1 where "s1 = snd (co_new s)"
  have g: "get_by_cid s1 = (get_by_cid s)(c \<mapsto> ?x)" "current s1 = current s" "last_cid s1 = c" "on_bailout s1 = on_bailout s" "fst (co_new s) = c"
    by (simp_all add: s1_def co_new_def Let_def c_def)
  have tab: "distinct (map fst (coroutines s1))" "co_count s1 \<le> peak_num s1"
    using i(1,6) by (simp_all add: s1_def co_new_def Let_def set_co_def distinct_update co_count_def)
  define t where "t = set_co c (?x\<lparr>origin := current s\<rparr>) (s1\<lparr>current := Some c\<rparr>)"
  have r: "co_create s = Some (c, t)" using g unfolding co_create_def t_def by (simp add: co_run_def s1_def case_prod_beta)
  have gt: "get_by_cid t = (get_by_cid s)(c \<mapsto> ?x\<lparr>origin := current s\<rparr>)" "current t = Some c" "last_cid t = c" "\<not> on_bailout t" "peak_num t = peak_num s1"
    using g i(5) by (simp_all add: t_def)
  have "(e \<in> set (c # st) \<longleftrightarrow> \<not> is_suspending z) \<and> co_state z \<noteq> STATE_END \<and> 0 < e \<and> e \<le> c" if "get_by_cid t e = Some z" for e z
    using that i(7) [of e z] n unfolding gt(1) by (cases "e = c") (auto simp: is_suspending_def c_def)
  moreover have "origins (get_by_cid t) (c # st)" using cs i(2,4) unfolding gt(1) by (simp add: origins_other)
  moreover have "co_count t = co_count s1" using set_co_table(2) [of "s1\<lparr>current := Some c\<rparr>" c] g(1) by (simp add: t_def)
  moreover have "distinct (map fst (coroutines t))" using set_co_table(1) [OF tab(1)] by (simp add: t_def)
  ultimately have "sched_inv t (c # st)" using tab(2) gt(2-5) i(3) cs unfolding sched_inv_def by simp
  then show ?thesis using r n gt(1) by simp
qed

lemma co_close_spec:
  assumes inv: "sched_inv s (c # st)"
  shows "\<exists>s'. co_close c s = Some s' \<and> sched_inv s' st \<and> get_by_cid s' = (get_by_cid s)(c := None)"
proof -
  note i = sched_invD [OF inv]
  obtain x where x: "get_by_cid s c = Some x" using sched_on_stack [OF inv, of c] by auto
  let ?t = "s\<lparr>current := origin x, coroutines := AList.delete c (coroutines s)\<rparr>"
  have g: "get_by_cid ?t = (get_by_cid s)(c := None)" by (simp add: get_by_cid_def delete_conv')
  have o: "origin x = (if st = [] then None else Some (hd st))" "origins (get_by_cid s) st" "c \<notin> set st" "distinct st" using i(3,4) x by auto
  have "origins (get_by_cid ?t) st = origins (get_by_cid s) st" by (rule origins_cong) (use o(3) g in auto)
  moreover have "co_count ?t \<le> co_count s" by (simp add: co_count_def length_delete_le)
  moreover have "(e \<in> set st \<longleftrightarrow> \<not> is_suspending z) \<and> co_state z \<noteq> STATE_END \<and> 0 < e \<and> e \<le> last_cid s" if "get_by_cid ?t e = Some z" for e z
    using that i(7) [of e z] unfolding g by (cases "e = c") auto
  ultimately have "sched_inv ?t st" using i o unfolding sched_inv_def by (auto simp: distinct_delete)
  then show ?thesis using g x i(2) by (auto simp: co_close_def)
qed


subsection \<open>The interface\<close>

text \<open>
  What code running in coroutines relies on: \<open>rel s st ws\<close> says that the stack of running coroutines is \<open>st\<close>, the
  running one first, and that the coroutines of \<open>ws\<close> are suspended.
\<close>

locale coroutine_stack =
  fixes rel :: "'s \<Rightarrow> nat list \<Rightarrow> nat set \<Rightarrow> bool"
    and create :: "'s \<Rightarrow> (nat \<times> 's) option"
    and yield_op resume close_op :: "nat \<Rightarrow> 's \<Rightarrow> 's option"
  assumes create_law: "rel s st ws \<Longrightarrow> \<exists>c s'. create s = Some (c, s') \<and> rel s' (c # st) ws \<and> c \<notin> set st \<union> ws"
    and yield_law: "rel s (c # st) ws \<Longrightarrow> \<exists>s'. yield_op c s = Some s' \<and> rel s' st (insert c ws)"
    and resume_law: "rel s st ws \<Longrightarrow> c \<in> ws \<Longrightarrow> \<exists>s'. resume c s = Some s' \<and> rel s' (c # st) (ws - {c})"
    and close_law: "rel s (c # st) ws \<Longrightarrow> \<exists>s'. close_op c s = Some s' \<and> rel s' st ws"
begin

text \<open>A coroutine that is resumed gives control back to the one that resumed it, whether it yields or returns.\<close>

lemma resume_yield:
  assumes "rel s st ws" and "c \<in> ws"
  shows "\<exists>s1 s2. resume c s = Some s1 \<and> yield_op c s1 = Some s2 \<and> rel s2 st ws"
  using resume_law [OF assms] yield_law [of _ c st "ws - {c}"] assms(2) by (metis insert_Diff)

lemma resume_close:
  assumes "rel s st ws" and "c \<in> ws"
  shows "\<exists>s1 s2. resume c s = Some s1 \<and> close_op c s1 = Some s2 \<and> rel s2 st (ws - {c})"
  using resume_law [OF assms] close_law [of _ c st "ws - {c}"] by metis

end

definition co_rel :: "'f sched \<Rightarrow> nat list \<Rightarrow> nat set \<Rightarrow> bool" where
  "co_rel s st ws \<longleftrightarrow> sched_inv s st \<and> ws = suspended s"

lemma suspended_upd: "get_by_cid s' = (get_by_cid s)(c \<mapsto> y) \<Longrightarrow> suspended s' = (if is_suspending y then insert c (suspended s) else suspended s - {c})"
  by (auto simp: suspended_def)

interpretation co: coroutine_stack co_rel co_create co_yield co_resume co_close
proof
  fix s :: "'f sched" and st ws c
  show "\<exists>c s'. co_create s = Some (c, s') \<and> co_rel s' (c # st) ws \<and> c \<notin> set st \<union> ws" if "co_rel s st ws"
  proof -
    from that have inv: "sched_inv s st" and ws: "ws = suspended s" by (simp_all add: co_rel_def)
    obtain c s' where c: "co_create s = Some (c, s')" "sched_inv s' (c # st)" "get_by_cid s c = None"
        "get_by_cid s' = (get_by_cid s)(c \<mapsto> \<lparr>co_state = STATE_INIT, resume_code = RC_OK, origin = current s, cancel_fn = None\<rparr>)"
      using co_create_spec [OF inv] by blast
    have "c \<notin> set st \<union> ws" using sched_on_stack [OF inv, of c] c(3) ws by (auto simp: suspended_def)
    then show ?thesis using c(1,2) suspended_upd [OF c(4)] ws by (auto simp: co_rel_def is_suspending_def)
  qed
  show "\<exists>s'. co_yield c s = Some s' \<and> co_rel s' st (insert c ws)" if "co_rel s (c # st) ws"
    using that sched_on_stack [of s "c # st" c] co_yield_spec [of s c st] suspended_upd by (fastforce simp: co_rel_def is_suspending_def)
  show "\<exists>s'. co_resume c s = Some s' \<and> co_rel s' (c # st) (ws - {c})" if "co_rel s st ws" "c \<in> ws"
    using that co_resume_spec [of s st c] suspended_upd by (fastforce simp: co_rel_def is_suspending_def suspended_def)
  show "\<exists>s'. co_close c s = Some s' \<and> co_rel s' st ws" if r: "co_rel s (c # st) ws"
  proof -
    obtain s' where s': "co_close c s = Some s'" "sched_inv s' st" "get_by_cid s' = (get_by_cid s)(c := None)"
      using co_close_spec [of s c st] r by (auto simp: co_rel_def)
    have "c \<notin> suspended s" using r sched_invD(7) [of s "c # st" c] by (auto simp: co_rel_def suspended_def)
    then show ?thesis using s' r by (auto simp: co_rel_def suspended_def)
  qed
qed


subsection \<open>Properties\<close>

text \<open>What running code and the event loop can do: create a coroutine, yield or return from the running one, and resume a suspended one.\<close>

datatype co_op = Op_create | Op_yield | Op_resume nat | Op_return

definition co_exec :: "co_op \<Rightarrow> 'f sched \<Rightarrow> 'f sched option" where
  "co_exec op s =
     (case op of
        Op_create \<Rightarrow> map_option snd (co_create s)
      | Op_yield \<Rightarrow> Option.bind (current s) (\<lambda>c. co_yield c s)
      | Op_resume c \<Rightarrow> co_resume c s
      | Op_return \<Rightarrow> Option.bind (current s) (\<lambda>c. co_close c s))"

definition co_enabled :: "co_op \<Rightarrow> 'f sched \<Rightarrow> bool" where
  "co_enabled op s \<longleftrightarrow> (case op of Op_create \<Rightarrow> True | Op_resume c \<Rightarrow> c \<in> suspended s | _ \<Rightarrow> current s \<noteq> None)"

inductive co_reach :: "'f sched \<Rightarrow> bool" where
  co_reach_init: "co_reach co_init"
| co_reach_step: "co_reach s \<Longrightarrow> co_enabled op s \<Longrightarrow> co_exec op s = Some s' \<Longrightarrow> co_reach s'"

lemma co_init_inv: "sched_inv co_init []"
  by (simp add: sched_inv_def co_init_def get_by_cid_def co_count_def)

lemma co_exec_spec:
  assumes r: "co_rel s st ws" and en: "co_enabled op s"
  shows "\<exists>s' st' ws'. co_exec op s = Some s' \<and> co_rel s' st' ws'"
proof (cases op)
  case Op_create
  then show ?thesis using co.create_law [OF r] by (auto simp: co_exec_def)
next
  case (Op_resume c)
  then show ?thesis using co.resume_law [OF r, of c] r en by (auto simp: co_exec_def co_enabled_def co_rel_def)
next
  case Op_yield
  then obtain c st' where "st = c # st'" "current s = Some c" using r en by (cases st) (auto simp: co_enabled_def co_rel_def sched_inv_def)
  then show ?thesis using co.yield_law [of s c st' ws] r Op_yield by (auto simp: co_exec_def)
next
  case Op_return
  then obtain c st' where "st = c # st'" "current s = Some c" using r en by (cases st) (auto simp: co_enabled_def co_rel_def sched_inv_def)
  then show ?thesis using co.close_law [of s c st' ws] r Op_return by (auto simp: co_exec_def)
qed

text \<open>
  C22. The coroutine scheduler: in every state that is reached by creating, yielding, resuming suspended coroutines and returning, the
  chain of origins from the running coroutine is finite, has no cycle, and consists of exactly the coroutines that are not
  suspended; identifiers are never used twice; and no assertion fails: each of these operations succeeds.\<close>

theorem coroutine_stack_discipline:
  assumes "co_reach s"
  shows "(\<exists>st. sched_inv s st) \<and> (co_enabled op s \<longrightarrow> co_exec op s \<noteq> None)"
proof -
  have "\<exists>st ws. co_rel s st ws" using assms
  proof induction
    case co_reach_init
    show ?case using co_init_inv by (auto simp: co_rel_def)
  next
    case (co_reach_step s op s')
    then show ?case using co_exec_spec by (metis option.sel)
  qed
  then show ?thesis using co_exec_spec by (fastforce simp: co_rel_def)
qed

theorem coroutine_stack_discipline_witness:
  "co_reach (co_init :: nat sched) \<and> co_enabled Op_create (co_init :: nat sched) \<and> co_exec Op_create (co_init :: nat sched) \<noteq> None"
  using coroutine_stack_discipline [OF co_reach_init, of Op_create, where 'a = nat] by (auto simp: co_enabled_def intro: co_reach_init)

end
