(* ===== verification/Osw_Co_Channel.thy ===== *)
theory Osw_Co_Channel
  imports Osw_Coroutine
begin

text \<open>
  The coroutine channel (\<^verbatim>\<open>src/coroutine/channel.cc\<close>, \<^verbatim>\<open>include/openswoole_coroutine_channel.h\<close>): a bounded queue
  on which coroutines wait to push and to pop. Its operations are cut where control goes to another coroutine
  (\<^verbatim>\<open>yield\<close> and \<^verbatim>\<open>resume\<close>); \<open>frame\<close> records where a coroutine stands in them. \<open>None\<close> is a fault: the front of an empty queue,
  a failed assertion of the scheduler, or the use of a deleted coroutine.
\<close>

subsection \<open>Data\<close>

datatype opcode = PRODUCER | CONSUMER

datatype cochan_error = ERROR_OK | ERROR_TIMEOUT | ERROR_CLOSED | ERROR_CANCELED

record 'a cchan =
  ch_data :: "'a list"
  ch_capacity :: nat
  ch_closed :: bool
  ch_producers :: "nat list"
  ch_consumers :: "nat list"
  ch_error :: cochan_error

text \<open>
  Where a coroutine stands: in its own code; behind the \<^verbatim>\<open>yield\<close> of \<^verbatim>\<open>pop\<close> or \<^verbatim>\<open>push\<close>, with the fields \<^verbatim>\<open>timer\<close> (is there one) and \<^verbatim>\<open>error\<close> of its
  \<^verbatim>\<open>TimeoutMessage\<close>; behind the \<^verbatim>\<open>resume\<close> in \<^verbatim>\<open>pop\<close>, \<^verbatim>\<open>push\<close> or one of the loops of \<^verbatim>\<open>close\<close>; or behind a \<^verbatim>\<open>yield\<close> or
  \<^verbatim>\<open>resume\<close> of its own code.
\<close>

datatype 'a frame =
    Own_code
  | Pop_yield bool bool
  | Push_yield 'a bool bool
  | Pop_resume 'a
  | Push_resume
  | Close_producers
  | Close_consumers
  | Own_yield
  | Own_resume

text \<open>The system: the scheduler, the channel, the frames, and the values that have been put into the queue and taken out of it.\<close>

record 'a cochan_sys =
  sched :: "opcode sched"
  chan :: "'a cchan"
  frames_of :: "nat \<Rightarrow> 'a frame"
  pushed :: "'a list"
  popped :: "'a list"

definition is_empty :: "'a cchan \<Rightarrow> bool" where
  "is_empty ch \<longleftrightarrow> length (ch_data ch) = 0"

definition is_full :: "'a cchan \<Rightarrow> bool" where
  "is_full ch \<longleftrightarrow> length (ch_data ch) = ch_capacity ch"

definition at :: "nat \<Rightarrow> 'a frame \<Rightarrow> 'a cochan_sys \<Rightarrow> 'a cochan_sys" where
  "at c f s = s\<lparr>frames_of := (frames_of s)(c := f)\<rparr>"

definition upd_chan :: "('a cchan \<Rightarrow> 'a cchan) \<Rightarrow> 'a cochan_sys \<Rightarrow> 'a cochan_sys" where
  "upd_chan f s = s\<lparr>chan := f (chan s)\<rparr>"

definition fail_with :: "cochan_error \<Rightarrow> nat \<Rightarrow> 'a cochan_sys \<Rightarrow> 'a cochan_sys" where
  "fail_with e c s = at c Own_code (upd_chan (\<lambda>ch. ch\<lparr>ch_error := e\<rparr>) s)"

definition sys_resume :: "nat \<Rightarrow> 'a cochan_sys \<Rightarrow> 'a cochan_sys option" where
  "sys_resume c s = map_option (\<lambda>t. s\<lparr>sched := t\<rparr>) (co_resume c (sched s))"

subsection \<open>Operations\<close>

definition cochan_remove :: "opcode \<Rightarrow> nat \<Rightarrow> 'a cochan_sys \<Rightarrow> 'a cochan_sys" where
  "cochan_remove op c s =
     (case op of
        CONSUMER \<Rightarrow> upd_chan (\<lambda>ch. ch\<lparr>ch_consumers := removeAll c (ch_consumers ch)\<rparr>) s
      | PRODUCER \<Rightarrow> upd_chan (\<lambda>ch. ch\<lparr>ch_producers := removeAll c (ch_producers ch)\<rparr>) s)"

definition pop_coroutine :: "opcode \<Rightarrow> 'a cochan_sys \<Rightarrow> (nat \<times> 'a cochan_sys) option" where
  "pop_coroutine op s =
     (case op of
        PRODUCER \<Rightarrow> (case ch_producers (chan s) of [] \<Rightarrow> None | c # cs \<Rightarrow> Some (c, upd_chan (\<lambda>ch. ch\<lparr>ch_producers := cs\<rparr>) s))
      | CONSUMER \<Rightarrow> (case ch_consumers (chan s) of [] \<Rightarrow> None | c # cs \<Rightarrow> Some (c, upd_chan (\<lambda>ch. ch\<lparr>ch_consumers := cs\<rparr>) s)))"

text \<open>\<^verbatim>\<open>co = pop_coroutine(type); co->resume();\<close> with the place where control comes back.\<close>

definition notify :: "opcode \<Rightarrow> nat \<Rightarrow> 'a frame \<Rightarrow> 'a cochan_sys \<Rightarrow> 'a cochan_sys option" where
  "notify op c f s = do { (d, s1) \<leftarrow> pop_coroutine op s; sys_resume d (at c f s1) }"

definition cochan_yield :: "opcode \<Rightarrow> nat \<Rightarrow> 'a frame \<Rightarrow> 'a cochan_sys \<Rightarrow> 'a cochan_sys option" where
  "cochan_yield op c f s =
     (let s1 = (case op of
          PRODUCER \<Rightarrow> upd_chan (\<lambda>ch. ch\<lparr>ch_producers := ch_producers ch @ [c]\<rparr>) s
        | CONSUMER \<Rightarrow> upd_chan (\<lambda>ch. ch\<lparr>ch_consumers := ch_consumers ch @ [c]\<rparr>) s)
      in map_option (\<lambda>t. at c f (s1\<lparr>sched := t\<rparr>)) (co_yield_cancel c op (sched s)))"

definition pop_data :: "nat \<Rightarrow> 'a cochan_sys \<Rightarrow> 'a cochan_sys option" where
  "pop_data c s =
     (case ch_data (chan s) of
        [] \<Rightarrow> None
      | x # xs \<Rightarrow>
          (let s1 = (upd_chan (\<lambda>ch. ch\<lparr>ch_data := xs\<rparr>) s)\<lparr>popped := popped s @ [x]\<rparr> in
           if ch_producers (chan s) \<noteq> [] then notify PRODUCER c (Pop_resume x) s1 else Some (at c Own_code s1)))"

definition cochan_pop :: "nat \<Rightarrow> bool \<Rightarrow> 'a cochan_sys \<Rightarrow> 'a cochan_sys option" where
  "cochan_pop c timed s =
     (let ch = chan s in
      if ch_closed ch \<and> is_empty ch then Some (fail_with ERROR_CLOSED c s)
      else if is_empty ch \<or> ch_consumers ch \<noteq> [] then cochan_yield CONSUMER c (Pop_yield timed False) s
      else pop_data c s)"

definition cochan_pop_woken :: "nat \<Rightarrow> bool \<Rightarrow> 'a cochan_sys \<Rightarrow> 'a cochan_sys option" where
  "cochan_pop_woken c err s = do {
     t \<leftarrow> co_yield_return c (sched s);
     x \<leftarrow> get_by_cid t c;
     let s1 = s\<lparr>sched := t\<rparr>;
     if is_canceled x then Some (fail_with ERROR_CANCELED c s1)
     else if err then Some (fail_with ERROR_TIMEOUT c s1)
     else if ch_closed (chan s) \<and> is_empty (chan s) then Some (fail_with ERROR_CLOSED c s1)
     else pop_data c s1
   }"

definition push_data :: "nat \<Rightarrow> 'a \<Rightarrow> 'a cochan_sys \<Rightarrow> 'a cochan_sys option" where
  "push_data c v s =
     (let s1 = (upd_chan (\<lambda>ch. ch\<lparr>ch_data := ch_data ch @ [v]\<rparr>) s)\<lparr>pushed := pushed s @ [v]\<rparr> in
      if ch_consumers (chan s) \<noteq> [] then notify CONSUMER c Push_resume s1 else Some (at c Own_code s1))"

definition cochan_push :: "nat \<Rightarrow> 'a \<Rightarrow> bool \<Rightarrow> 'a cochan_sys \<Rightarrow> 'a cochan_sys option" where
  "cochan_push c v timed s =
     (let ch = chan s in
      if ch_closed ch then Some (fail_with ERROR_CLOSED c s)
      else if is_full ch \<or> ch_producers ch \<noteq> [] then cochan_yield PRODUCER c (Push_yield v timed False) s
      else push_data c v s)"

definition cochan_push_woken :: "nat \<Rightarrow> 'a \<Rightarrow> bool \<Rightarrow> 'a cochan_sys \<Rightarrow> 'a cochan_sys option" where
  "cochan_push_woken c v err s = do {
     t \<leftarrow> co_yield_return c (sched s);
     x \<leftarrow> get_by_cid t c;
     let s1 = s\<lparr>sched := t\<rparr>;
     if is_canceled x then Some (fail_with ERROR_CANCELED c s1)
     else if err then Some (fail_with ERROR_TIMEOUT c s1)
     else if ch_closed (chan s) then Some (fail_with ERROR_CLOSED c s1)
     else push_data c v s1
   }"

definition close_consumers :: "nat \<Rightarrow> 'a cochan_sys \<Rightarrow> 'a cochan_sys option" where
  "close_consumers c s =
     (if ch_consumers (chan s) \<noteq> [] then notify CONSUMER c Close_consumers s else Some (at c Own_code s))"

definition close_producers :: "nat \<Rightarrow> 'a cochan_sys \<Rightarrow> 'a cochan_sys option" where
  "close_producers c s =
     (if ch_producers (chan s) \<noteq> [] then notify PRODUCER c Close_producers s else close_consumers c s)"

definition cochan_close :: "nat \<Rightarrow> 'a cochan_sys \<Rightarrow> 'a cochan_sys option" where
  "cochan_close c s =
     (if ch_closed (chan s) then Some s else close_producers c (upd_chan (\<lambda>ch. ch\<lparr>ch_closed := True\<rparr>) s))"

text \<open>The timer callback: a coroutine that waits with a timer is told so, leaves its queue and is resumed.\<close>

definition timer_callback :: "nat \<Rightarrow> 'a cochan_sys \<Rightarrow> 'a cochan_sys option" where
  "timer_callback c s =
     (case frames_of s c of
        Pop_yield timed err \<Rightarrow> sys_resume c (cochan_remove CONSUMER c (at c (Pop_yield False True) s))
      | Push_yield v timed err \<Rightarrow> sys_resume c (cochan_remove PRODUCER c (at c (Push_yield v False True) s))
      | _ \<Rightarrow> None)"

text \<open>\<^verbatim>\<open>Coroutine::cancel\<close> on a coroutine; the cancel function that \<^verbatim>\<open>yield\<close> has installed removes it from its queue and resumes it.\<close>

definition cochan_cancel :: "nat \<Rightarrow> 'a cochan_sys \<Rightarrow> 'a cochan_sys option" where
  "cochan_cancel c s = do {
     (f, t) \<leftarrow> co_cancel c (sched s);
     case f of
       None \<Rightarrow> Some s
     | Some op \<Rightarrow> sys_resume c (cochan_remove op c ((case current (sched s) of None \<Rightarrow> s | Some d \<Rightarrow> at d Own_resume s)\<lparr>sched := t\<rparr>))
   }"

subsection \<open>Steps\<close>

text \<open>
  What can happen: the running coroutine calls an operation of the channel, goes on where it has yielded or resumed, creates,
  yields, resumes or cancels a coroutine, or returns; the event loop does the like, or a timer fires there.
\<close>

datatype 'a act = Pop bool | Push 'a bool | Close | Go_on | Create | Yield | Resume nat | Cancel nat | Return | Timeout nat

definition idle :: "'a cochan_sys \<Rightarrow> bool" where
  "idle s \<longleftrightarrow> (case current (sched s) of None \<Rightarrow> True | Some c \<Rightarrow> frames_of s c = Own_code)"

fun enabled :: "'a act \<Rightarrow> 'a cochan_sys \<Rightarrow> bool" where
  "enabled (Pop _) s = (current (sched s) \<noteq> None \<and> idle s)"
| "enabled (Push _ _) s = (current (sched s) \<noteq> None \<and> idle s)"
| "enabled Close s = (current (sched s) \<noteq> None \<and> idle s)"
| "enabled Go_on s = (\<not> idle s)"
| "enabled Create s = idle s"
| "enabled Yield s = (current (sched s) \<noteq> None \<and> idle s)"
| "enabled (Resume c) s = (idle s \<and> c \<in> suspended (sched s) \<and> frames_of s c = Own_yield)"
| "enabled (Cancel c) s = (idle s \<and> get_by_cid (sched s) c \<noteq> None)"
| "enabled Return s = (current (sched s) \<noteq> None \<and> idle s)"
| "enabled (Timeout c) s = (current (sched s) = None \<and> c \<in> suspended (sched s) \<and>
     (case frames_of s c of Pop_yield timed _ \<Rightarrow> timed | Push_yield _ timed _ \<Rightarrow> timed | _ \<Rightarrow> False))"

definition go_on :: "nat \<Rightarrow> 'a cochan_sys \<Rightarrow> 'a cochan_sys option" where
  "go_on c s =
     (case frames_of s c of
        Pop_yield _ err \<Rightarrow> cochan_pop_woken c err s
      | Push_yield v _ err \<Rightarrow> cochan_push_woken c v err s
      | Close_producers \<Rightarrow> close_producers c s
      | Close_consumers \<Rightarrow> close_consumers c s
      | _ \<Rightarrow> Some (at c Own_code s))"

definition leave :: "'a frame \<Rightarrow> 'a cochan_sys \<Rightarrow> 'a cochan_sys" where
  "leave f s = (case current (sched s) of None \<Rightarrow> s | Some c \<Rightarrow> at c f s)"

fun cochan_exec :: "'a act \<Rightarrow> 'a cochan_sys \<Rightarrow> 'a cochan_sys option" where
  "cochan_exec (Pop timed) s = Option.bind (current (sched s)) (\<lambda>c. cochan_pop c timed s)"
| "cochan_exec (Push v timed) s = Option.bind (current (sched s)) (\<lambda>c. cochan_push c v timed s)"
| "cochan_exec Close s = Option.bind (current (sched s)) (\<lambda>c. cochan_close c s)"
| "cochan_exec Go_on s = Option.bind (current (sched s)) (\<lambda>c. go_on c s)"
| "cochan_exec Create s = map_option (\<lambda>(c, t). at c Own_code ((leave Own_resume s)\<lparr>sched := t\<rparr>)) (co_create (sched s))"
| "cochan_exec Yield s = Option.bind (current (sched s)) (\<lambda>c. map_option (\<lambda>t. at c Own_yield (s\<lparr>sched := t\<rparr>)) (co_yield c (sched s)))"
| "cochan_exec (Resume c) s = sys_resume c (leave Own_resume s)"
| "cochan_exec (Cancel c) s = cochan_cancel c s"
| "cochan_exec Return s = Option.bind (current (sched s)) (\<lambda>c. map_option (\<lambda>t. s\<lparr>sched := t\<rparr>) (co_close c (sched s)))"
| "cochan_exec (Timeout c) s = timer_callback c s"

definition cochan_init :: "nat \<Rightarrow> 'a cochan_sys" where
  "cochan_init cap = \<lparr>sched = co_init, chan = \<lparr>ch_data = [], ch_capacity = cap, ch_closed = False, ch_producers = [], ch_consumers = [], ch_error = ERROR_OK\<rparr>,
     frames_of = (\<lambda>_. Own_code), pushed = [], popped = []\<rparr>"

inductive cochan_reach :: "nat \<Rightarrow> 'a cochan_sys \<Rightarrow> bool" for cap where
  cochan_reach_init: "cochan_reach cap (cochan_init cap)"
| cochan_reach_step: "cochan_reach cap s \<Longrightarrow> enabled a s \<Longrightarrow> cochan_exec a s = Some s' \<Longrightarrow> cochan_reach cap s'"

subsection \<open>Frames and queues\<close>

fun waits :: "opcode \<Rightarrow> 'a frame \<Rightarrow> bool" where
  "waits CONSUMER (Pop_yield _ err) = (\<not> err)"
| "waits PRODUCER (Push_yield _ _ err) = (\<not> err)"
| "waits _ _ = False"

fun yielding :: "'a frame \<Rightarrow> bool" where
  "yielding (Pop_yield _ _) = True"
| "yielding (Push_yield _ _ _) = True"
| "yielding _ = False"

fun returning :: "'a frame \<Rightarrow> bool" where
  "returning (Pop_resume _) = True"
| "returning Push_resume = True"
| "returning Close_producers = True"
| "returning Close_consumers = True"
| "returning Own_resume = True"
| "returning _ = False"

lemma waits_yielding: "waits op f \<Longrightarrow> yielding f"
  by (cases f; cases op) auto

lemma waits_inj: "waits op f \<Longrightarrow> waits op' f \<longleftrightarrow> op' = op"
  by (cases f; cases op; cases op') auto

lemma not_waits [simp]: "\<not> waits op Own_yield" "\<not> waits op Own_code" "\<not> yielding Own_code" "\<not> yielding Own_yield"
  by (cases op; simp)+

lemma returning_not_yielding: "returning f \<Longrightarrow> \<not> yielding f"
  by (cases f) auto

definition queue :: "'a cchan \<Rightarrow> opcode \<Rightarrow> nat list" where
  "queue ch op = (case op of PRODUCER \<Rightarrow> ch_producers ch | CONSUMER \<Rightarrow> ch_consumers ch)"

text \<open>
  The queues hold exactly the suspended coroutines that wait in them, each of which can be cancelled; the coroutines below
  the top of the stack stand behind a \<^verbatim>\<open>resume\<close>.
\<close>

definition wf_on :: "opcode sched \<Rightarrow> (nat \<Rightarrow> 'a frame) \<Rightarrow> (opcode \<Rightarrow> nat list) \<Rightarrow> nat list \<Rightarrow> bool" where
  "wf_on t fr q st \<longleftrightarrow> sched_inv t st \<and>
     (\<forall>op. distinct (q op) \<and> set (q op) = {c \<in> suspended t. waits op (fr c)}) \<and>
     (\<forall>c x. get_by_cid t c = Some x \<longrightarrow> is_suspending x \<longrightarrow>
        fr c = Own_yield \<and> cancel_fn x = None \<or> (\<exists>op. waits op (fr c) \<and> cancel_fn x = Some op \<and> resume_code x = RC_OK)) \<and>
     (\<forall>c x. get_by_cid t c = Some x \<longrightarrow> c \<in> set st \<longrightarrow> \<not> yielding (fr c) \<longrightarrow> cancel_fn x = None) \<and>
     (\<forall>c\<in>set (tl st). returning (fr c))"

lemma wf_onD:
  assumes "wf_on t fr q st"
  shows "sched_inv t st" "distinct (q op)" "c \<in> set (q op) \<longleftrightarrow> c \<in> suspended t \<and> waits op (fr c)"
    "get_by_cid t c = Some x \<Longrightarrow> is_suspending x \<Longrightarrow>
       fr c = Own_yield \<and> cancel_fn x = None \<or> (\<exists>op. waits op (fr c) \<and> cancel_fn x = Some op \<and> resume_code x = RC_OK)"
    "get_by_cid t c = Some x \<Longrightarrow> c \<in> set st \<Longrightarrow> \<not> yielding (fr c) \<Longrightarrow> cancel_fn x = None"
    "c \<in> set (tl st) \<Longrightarrow> returning (fr c)"
  using assms by (auto simp: wf_on_def)

lemma wf_onI:
  assumes "sched_inv t st" and "\<And>op. distinct (q op)" and "\<And>op c. c \<in> set (q op) \<longleftrightarrow> c \<in> suspended t \<and> waits op (fr c)"
    and "\<And>c x. get_by_cid t c = Some x \<Longrightarrow> is_suspending x \<Longrightarrow>
       fr c = Own_yield \<and> cancel_fn x = None \<or> (\<exists>op. waits op (fr c) \<and> cancel_fn x = Some op \<and> resume_code x = RC_OK)"
    and "\<And>c x. get_by_cid t c = Some x \<Longrightarrow> c \<in> set st \<Longrightarrow> \<not> yielding (fr c) \<Longrightarrow> cancel_fn x = None"
    and "\<And>c. c \<in> set (tl st) \<Longrightarrow> returning (fr c)"
  shows "wf_on t fr q st"
  unfolding wf_on_def using assms by blast

lemma suspendedD: "c \<in> suspended t \<longleftrightarrow> (\<exists>x. get_by_cid t c = Some x \<and> is_suspending x)"
  by (simp add: suspended_def)

lemma suspended_off_stack: "sched_inv t st \<Longrightarrow> c \<in> suspended t \<Longrightarrow> c \<notin> set st"
  using sched_invD(7) by (fastforce simp: suspendedD)

text \<open>The running coroutine moves to another place.\<close>

lemma wf_top:
  assumes wf: "wf_on t fr q (c # st)" and x: "get_by_cid t c = Some x" and f: "yielding f \<or> cancel_fn x = None"
  shows "wf_on t (fr(c := f)) q (c # st)"
proof -
  note w = wf_onD [OF wf]
  have c: "c \<notin> suspended t" "c \<notin> set st" using suspended_off_stack [OF w(1), of c] sched_invD(3) [OF w(1)] by auto
  show ?thesis
  proof (rule wf_onI)
    show "\<And>d. d \<in> set (tl (c # st)) \<Longrightarrow> returning ((fr(c := f)) d)" using w(6) c(2) by auto
    show "\<And>d y. get_by_cid t d = Some y \<Longrightarrow> d \<in> set (c # st) \<Longrightarrow> \<not> yielding ((fr(c := f)) d) \<Longrightarrow> cancel_fn y = None"
      using w(5) x f by (metis fun_upd_apply option.inject)
    show "\<And>op d. d \<in> set (q op) \<longleftrightarrow> d \<in> suspended t \<and> waits op ((fr(c := f)) d)" using w(3) c(1) by auto
    fix d y assume d: "get_by_cid t d = Some y" "is_suspending y"
    then have "d \<noteq> c" using c(1) by (auto simp: suspendedD)
    then show "(fr(c := f)) d = Own_yield \<and> cancel_fn y = None \<or> (\<exists>op. waits op ((fr(c := f)) d) \<and> cancel_fn y = Some op \<and> resume_code y = RC_OK)"
      using w(4) [OF d] by simp
  qed (rule w)+
qed

text \<open>A suspended coroutine is resumed; before that its cancel function, its resume code and its frame may change.\<close>

lemma wf_resume:
  assumes wf: "wf_on t fr q st" and x: "get_by_cid t d = Some x" "is_suspending x"
    and t1: "sched_inv t1 st" "get_by_cid t1 = (get_by_cid t)(d \<mapsto> y)" and y: "is_suspending y" "yielding f \<or> cancel_fn y = None"
    and top: "st = [] \<or> returning (fr (hd st))"
  shows "\<exists>t'. co_resume d t1 = Some t' \<and> wf_on t' (fr(d := f)) (\<lambda>op. removeAll d (q op)) (d # st) \<and>
     get_by_cid t' = (get_by_cid t)(d \<mapsto> y\<lparr>co_state := STATE_RUNNING, origin := current t1\<rparr>)"
proof -
  note w = wf_onD [OF wf]
  let ?z = "y\<lparr>co_state := STATE_RUNNING, origin := current t1\<rparr>"
  obtain t' where t': "co_resume d t1 = Some t'" "sched_inv t' (d # st)" "get_by_cid t' = (get_by_cid t1)(d \<mapsto> ?z)"
    using co_resume_spec [OF t1(1), of d y] t1(2) y(1) by auto
  have g: "get_by_cid t' = (get_by_cid t)(d \<mapsto> ?z)" using t'(3) t1(2) by simp
  have sus: "suspended t' = suspended t - {d}" using suspended_upd [OF g] by (simp add: is_suspending_def)
  have nd: "d \<notin> set st" using suspended_off_stack [OF w(1)] x by (auto simp: suspendedD)
  have "wf_on t' (fr(d := f)) (\<lambda>op. removeAll d (q op)) (d # st)"
  proof (rule wf_onI)
    show "sched_inv t' (d # st)" by (rule t'(2))
    show "\<And>op. distinct (removeAll d (q op))" using w(2) by (simp add: distinct_removeAll)
    show "\<And>op c. c \<in> set (removeAll d (q op)) \<longleftrightarrow> c \<in> suspended t' \<and> waits op ((fr(d := f)) c)" using w(3) by (auto simp: sus)
    show "\<And>c. c \<in> set (tl (d # st)) \<Longrightarrow> returning ((fr(d := f)) c)" using w(6) top nd by (cases st) auto
    show "cancel_fn z = None" if "get_by_cid t' c = Some z" "c \<in> set (d # st)" "\<not> yielding ((fr(d := f)) c)" for c z
      using that w(5) [of c z] y(2) unfolding g by (cases "c = d") auto
    fix c z assume c: "get_by_cid t' c = Some z" "is_suspending z"
    then have "c \<noteq> d" unfolding g by (auto simp: is_suspending_def)
    then show "(fr(d := f)) c = Own_yield \<and> cancel_fn z = None \<or> (\<exists>op. waits op ((fr(d := f)) c) \<and> cancel_fn z = Some op \<and> resume_code z = RC_OK)"
      using w(4) [of c z] c unfolding g by simp
  qed
  then show ?thesis using t'(1) g by blast
qed


text \<open>The running coroutine yields: into a queue, or in its own code.\<close>

lemma wf_suspend:
  assumes wf: "wf_on t fr q (c # st)" and t': "sched_inv t' st" "get_by_cid t' = (get_by_cid t)(c \<mapsto> y)"
    and y: "is_suspending y" "f = Own_yield \<and> cancel_fn y = None \<and> (\<forall>op. q' op = q op) \<or>
      (\<exists>op. waits op f \<and> cancel_fn y = Some op \<and> resume_code y = RC_OK \<and> q' = q(op := q op @ [c]))"
  shows "wf_on t' (fr(c := f)) q' st"
proof -
  note w = wf_onD [OF wf]
  have c: "c \<notin> suspended t" "c \<notin> set st" using suspended_off_stack [OF w(1), of c] sched_invD(3) [OF w(1)] by auto
  have cq: "c \<notin> set (q op)" for op using w(3) c(1) by blast
  have sus: "suspended t' = insert c (suspended t)" using suspended_upd [OF t'(2)] y(1) by simp
  show ?thesis
  proof (rule wf_onI)
    show "sched_inv t' st" by (rule t'(1))
    show "\<And>op. distinct (q' op)" using y(2) w(2) cq by auto
    show "\<And>d. d \<in> set (tl st) \<Longrightarrow> returning ((fr(c := f)) d)" using w(6) c(2) by (cases st) auto
    show "cancel_fn z = None" if "get_by_cid t' d = Some z" "d \<in> set st" "\<not> yielding ((fr(c := f)) d)" for d z
      using that w(5) [of d z] c(2) unfolding t'(2) by (cases "d = c") auto
    show "d \<in> set (q' op) \<longleftrightarrow> d \<in> suspended t' \<and> waits op ((fr(c := f)) d)" for op d
    proof (cases "d = c")
      case True
      from y(2) show ?thesis
      proof (elim disjE exE conjE)
        fix op' assume "waits op' f" "q' = q(op' := q op' @ [c])"
        then show ?thesis using True cq [of op] waits_inj [of op' f op] by (simp add: sus)
      qed (use True cq [of op] in \<open>simp add: sus\<close>)
    next
      case False
      have "d \<in> set (q' op) \<longleftrightarrow> d \<in> set (q op)" using y(2) False by (elim disjE exE conjE) simp_all
      then show ?thesis using False w(3) [of d op] by (simp add: sus)
    qed
    fix d z assume d: "get_by_cid t' d = Some z" "is_suspending z"
    show "(fr(c := f)) d = Own_yield \<and> cancel_fn z = None \<or> (\<exists>op. waits op ((fr(c := f)) d) \<and> cancel_fn z = Some op \<and> resume_code z = RC_OK)"
    proof (cases "d = c")
      case True
      then show ?thesis using d y(2) unfolding t'(2) by auto
    next
      case False
      then show ?thesis using d w(4) [of d z] unfolding t'(2) by simp
    qed
  qed
qed

lemma wf_yield:
  assumes wf: "wf_on t fr q (c # st)" and f: "waits op f"
  shows "\<exists>t'. co_yield_cancel c op t = Some t' \<and> wf_on t' (fr(c := f)) (q(op := q op @ [c])) st"
proof -
  obtain x where x: "get_by_cid t c = Some x" using sched_on_stack [OF wf_onD(1) [OF wf], of c] by auto
  let ?y = "x\<lparr>cancel_fn := Some op, co_state := STATE_WAITING, resume_code := RC_OK\<rparr>"
  obtain t' where t': "co_yield_cancel c op t = Some t'" "sched_inv t' st" "get_by_cid t' = (get_by_cid t)(c \<mapsto> ?y)"
    using co_yield_cancel_spec [OF wf_onD(1) [OF wf] x] by blast
  have "wf_on t' (fr(c := f)) (q(op := q op @ [c])) st"
    by (rule wf_suspend [OF wf t'(2,3)]) (use f in \<open>auto simp: is_suspending_def\<close>)
  then show ?thesis using t'(1) by blast
qed

lemma wf_own_yield:
  assumes wf: "wf_on t fr q (c # st)" and f: "\<not> yielding (fr c)"
  shows "\<exists>t'. co_yield c t = Some t' \<and> wf_on t' (fr(c := Own_yield)) q st"
proof -
  obtain x where x: "get_by_cid t c = Some x" using sched_on_stack [OF wf_onD(1) [OF wf], of c] by auto
  let ?y = "x\<lparr>co_state := STATE_WAITING, resume_code := RC_OK\<rparr>"
  obtain t' where t': "co_yield c t = Some t'" "sched_inv t' st" "get_by_cid t' = (get_by_cid t)(c \<mapsto> ?y)"
    using co_yield_spec [OF wf_onD(1) [OF wf] x] by blast
  have "wf_on t' (fr(c := Own_yield)) q st"
    by (rule wf_suspend [OF wf t'(2,3)]) (use wf_onD(5) [OF wf x] f in \<open>auto simp: is_suspending_def\<close>)
  then show ?thesis using t'(1) by blast
qed

text \<open>Behind a \<^verbatim>\<open>yield\<close> the running coroutine clears its cancel function.\<close>

lemma wf_clear:
  assumes wf: "wf_on t fr q (c # st)" and f: "\<not> yielding f" and x: "get_by_cid t c = Some x"
  shows "\<exists>t'. co_yield_return c t = Some t' \<and> wf_on t' (fr(c := f)) q (c # st) \<and> get_by_cid t' = (get_by_cid t)(c \<mapsto> x\<lparr>cancel_fn := None\<rparr>)"
proof -
  note w = wf_onD [OF wf]
  obtain t' where t': "co_yield_return c t = Some t'" "sched_inv t' (c # st)" "get_by_cid t' = (get_by_cid t)(c \<mapsto> x\<lparr>cancel_fn := None\<rparr>)"
    using set_cancel_fn_spec [OF w(1) x, of None] by (auto simp: co_yield_return_def)
  have nx: "\<not> is_suspending x" using sched_invD(7) [OF w(1) x] by simp
  then have sus: "suspended t' = suspended t" using suspended_upd [OF t'(3)] x by (auto simp: is_suspending_def suspendedD)
  have c: "c \<notin> suspended t" "c \<notin> set st" using suspended_off_stack [OF w(1), of c] sched_invD(3) [OF w(1)] by auto
  have "wf_on t' (fr(c := f)) q (c # st)"
  proof (rule wf_onI)
    show "sched_inv t' (c # st)" by (rule t'(2))
    show "\<And>op. distinct (q op)" by (rule w(2))
    show "\<And>op d. d \<in> set (q op) \<longleftrightarrow> d \<in> suspended t' \<and> waits op ((fr(c := f)) d)" using w(3) c(1) by (auto simp: sus)
    show "\<And>d. d \<in> set (tl (c # st)) \<Longrightarrow> returning ((fr(c := f)) d)" using w(6) c(2) by auto
    show "cancel_fn z = None" if "get_by_cid t' d = Some z" "d \<in> set (c # st)" "\<not> yielding ((fr(c := f)) d)" for d z
      using that w(5) [of d z] unfolding t'(3) by (cases "d = c") auto
    fix d z assume d: "get_by_cid t' d = Some z" "is_suspending z"
    then have "d \<noteq> c" using nx unfolding t'(3) by (auto simp: is_suspending_def)
    then show "(fr(c := f)) d = Own_yield \<and> cancel_fn z = None \<or> (\<exists>op. waits op ((fr(c := f)) d) \<and> cancel_fn z = Some op \<and> resume_code z = RC_OK)"
      using w(4) [of d z] d unfolding t'(3) by simp
  qed
  then show ?thesis using t' by blast
qed

text \<open>Creation and return.\<close>

lemma wf_create:
  assumes wf: "wf_on t fr q st" and top: "st = [] \<or> returning (fr (hd st))"
  shows "\<exists>c t'. co_create t = Some (c, t') \<and> wf_on t' (fr(c := Own_code)) q (c # st) \<and> c \<notin> set st"
proof -
  note w = wf_onD [OF wf]
  obtain c t' where t': "co_create t = Some (c, t')" "sched_inv t' (c # st)" "get_by_cid t c = None"
      "get_by_cid t' = (get_by_cid t)(c \<mapsto> \<lparr>co_state = STATE_INIT, resume_code = RC_OK, origin = current t, cancel_fn = None\<rparr>)"
    using co_create_spec [OF w(1)] by blast
  have sus: "suspended t' = suspended t" "c \<notin> suspended t" using suspended_upd [OF t'(4)] t'(3) by (auto simp: is_suspending_def suspendedD)
  have ns: "c \<notin> set st" using sched_invD(3) [OF t'(2)] by simp
  have "wf_on t' (fr(c := Own_code)) q (c # st)"
  proof (rule wf_onI)
    show "sched_inv t' (c # st)" by (rule t'(2))
    show "\<And>op. distinct (q op)" by (rule w(2))
    show "\<And>op d. d \<in> set (q op) \<longleftrightarrow> d \<in> suspended t' \<and> waits op ((fr(c := Own_code)) d)" using w(3) sus by auto
    show "\<And>d. d \<in> set (tl (c # st)) \<Longrightarrow> returning ((fr(c := Own_code)) d)" using w(6) top ns by (cases st) auto
    show "cancel_fn z = None" if "get_by_cid t' d = Some z" "d \<in> set (c # st)" "\<not> yielding ((fr(c := Own_code)) d)" for d z
      using that w(5) [of d z] unfolding t'(4) by (cases "d = c") auto
    fix d z assume d: "get_by_cid t' d = Some z" "is_suspending z"
    then have "d \<noteq> c" unfolding t'(4) by (auto simp: is_suspending_def)
    then show "(fr(c := Own_code)) d = Own_yield \<and> cancel_fn z = None \<or>
        (\<exists>op. waits op ((fr(c := Own_code)) d) \<and> cancel_fn z = Some op \<and> resume_code z = RC_OK)"
      using w(4) [of d z] d unfolding t'(4) by simp
  qed
  then show ?thesis using t'(1) ns by blast
qed

lemma wf_return:
  assumes wf: "wf_on t fr q (c # st)"
  shows "\<exists>t'. co_close c t = Some t' \<and> wf_on t' fr q st"
proof -
  note w = wf_onD [OF wf]
  obtain t' where t': "co_close c t = Some t'" "sched_inv t' st" "get_by_cid t' = (get_by_cid t)(c := None)" using co_close_spec [OF w(1)] by blast
  have "c \<notin> suspended t" using suspended_off_stack [OF w(1), of c] by auto
  then have sus: "suspended t' = suspended t" unfolding suspended_def t'(3) by auto
  have "wf_on t' fr q st"
  proof (rule wf_onI)
    show "sched_inv t' st" by (rule t'(2))
    show "\<And>op. distinct (q op)" by (rule w(2))
    show "\<And>op d. d \<in> set (q op) \<longleftrightarrow> d \<in> suspended t' \<and> waits op (fr d)" unfolding sus by (rule w(3))
    show "\<And>d. d \<in> set (tl st) \<Longrightarrow> returning (fr d)" using w(6) by (cases st) auto
    show "cancel_fn z = None" if "get_by_cid t' d = Some z" "d \<in> set st" "\<not> yielding (fr d)" for d z
      using that w(5) [of d z] unfolding t'(3) by (cases "d = c") auto
    show "fr d = Own_yield \<and> cancel_fn z = None \<or> (\<exists>op. waits op (fr d) \<and> cancel_fn z = Some op \<and> resume_code z = RC_OK)"
      if "get_by_cid t' d = Some z" "is_suspending z" for d z
      using that w(4) [of d z] unfolding t'(3) by (cases "d = c") auto
  qed
  then show ?thesis using t'(1) by blast
qed


subsection \<open>The channel\<close>

abbreviation sys_wf :: "'a cochan_sys \<Rightarrow> nat list \<Rightarrow> bool" where
  "sys_wf s st \<equiv> wf_on (sched s) (frames_of s) (queue (chan s)) st"

text \<open>Whether the running coroutine has just been let through by a push, a pop or by closing.\<close>

definition grant :: "'a cochan_sys \<Rightarrow> nat list \<Rightarrow> opcode option" where
  "grant s st =
     (case st of [] \<Rightarrow> None
      | c # _ \<Rightarrow>
          if (case get_by_cid (sched s) c of None \<Rightarrow> True | Some x \<Rightarrow> is_canceled x) then None
          else if waits CONSUMER (frames_of s c) then Some CONSUMER
          else if waits PRODUCER (frames_of s c) then Some PRODUCER else None)"

definition queue_inv :: "nat \<Rightarrow> 'a cchan \<Rightarrow> opcode option \<Rightarrow> bool" where
  "queue_inv cap ch g \<longleftrightarrow> 0 < cap \<and> ch_capacity ch = cap \<and> length (ch_data ch) \<le> cap \<and>
     (\<not> ch_closed ch \<longrightarrow> ch_consumers ch = [] \<or> ch_producers ch = []) \<and>
     (case g of
        None \<Rightarrow> (ch_consumers ch \<noteq> [] \<longrightarrow> ch_data ch = []) \<and> (\<not> ch_closed ch \<longrightarrow> ch_producers ch \<noteq> [] \<longrightarrow> length (ch_data ch) = cap)
      | Some CONSUMER \<Rightarrow>
          if ch_closed ch then ch_consumers ch \<noteq> [] \<longrightarrow> ch_data ch = []
          else ch_data ch \<noteq> [] \<and> ch_producers ch = [] \<and> (ch_consumers ch \<noteq> [] \<longrightarrow> length (ch_data ch) = 1)
      | Some PRODUCER \<Rightarrow>
          if ch_closed ch then ch_consumers ch \<noteq> [] \<longrightarrow> ch_data ch = []
          else length (ch_data ch) < cap \<and> ch_consumers ch = [] \<and> (ch_producers ch \<noteq> [] \<longrightarrow> Suc (length (ch_data ch)) = cap))"

definition cochan_inv :: "nat \<Rightarrow> 'a cochan_sys \<Rightarrow> nat list \<Rightarrow> bool" where
  "cochan_inv cap s st \<longleftrightarrow> sys_wf s st \<and> queue_inv cap (chan s) (grant s st) \<and> popped s @ ch_data (chan s) = pushed s \<and>
     (\<forall>c. frames_of s c = Close_producers \<or> frames_of s c = Close_consumers \<longrightarrow> ch_closed (chan s))"

definition set_queue :: "opcode \<Rightarrow> nat list \<Rightarrow> 'a cchan \<Rightarrow> 'a cchan" where
  "set_queue op cs ch = (case op of PRODUCER \<Rightarrow> ch\<lparr>ch_producers := cs\<rparr> | CONSUMER \<Rightarrow> ch\<lparr>ch_consumers := cs\<rparr>)"

lemma queue_set_queue [simp]: "queue (set_queue op cs ch) = (queue ch)(op := cs)"
  by (rule ext) (auto simp: queue_def set_queue_def split: opcode.splits)

lemma queue_fields [simp]:
  "queue (ch\<lparr>ch_data := d\<rparr>) = queue ch" "queue (ch\<lparr>ch_error := e\<rparr>) = queue ch" "queue (ch\<lparr>ch_closed := b\<rparr>) = queue ch"
  by (rule ext, auto simp: queue_def split: opcode.splits)+

lemma pop_coroutine_queue: "pop_coroutine op s = (case queue (chan s) op of [] \<Rightarrow> None | c # cs \<Rightarrow> Some (c, upd_chan (set_queue op cs) s))"
  by (cases op) (auto simp: pop_coroutine_def queue_def set_queue_def [abs_def] split: list.splits)

lemma cochan_remove_queue: "cochan_remove op c s = upd_chan (\<lambda>ch. set_queue op (removeAll c (queue ch op)) ch) s"
  by (cases op) (simp_all add: cochan_remove_def queue_def set_queue_def)

lemma sys_simps [simp]:
  "sched (at c f s) = sched s" "frames_of (at c f s) = (frames_of s)(c := f)" "chan (at c f s) = chan s" "pushed (at c f s) = pushed s" "popped (at c f s) = popped s"
  "sched (upd_chan g s) = sched s" "frames_of (upd_chan g s) = frames_of s" "chan (upd_chan g s) = g (chan s)" "pushed (upd_chan g s) = pushed s" "popped (upd_chan g s) = popped s"
  by (simp_all add: at_def upd_chan_def)

text \<open>The first coroutine of a queue is let through.\<close>

lemma notify_spec:
  assumes wf: "sys_wf s (c # st)" and x: "get_by_cid (sched s) c = Some x" "cancel_fn x = None" and f: "returning f" and q: "queue (chan s) op = d # ds"
  shows "\<exists>s'. notify op c f s = Some s' \<and> sys_wf s' (d # c # st) \<and> grant s' (d # c # st) = Some op \<and> chan s' = set_queue op ds (chan s) \<and>
     pushed s' = pushed s \<and> popped s' = popped s \<and> frames_of s' = (frames_of s)(c := f)"
proof -
  note w = wf_onD [OF wf]
  let ?fr = "(frames_of s)(c := f)"
  have wf1: "wf_on (sched s) ?fr (queue (chan s)) (c # st)" by (rule wf_top [OF wf x(1)]) (use x(2) in simp)
  have d: "d \<in> suspended (sched s)" "waits op (frames_of s d)" using w(3) [of d op] q by simp_all
  then obtain y where y: "get_by_cid (sched s) d = Some y" "is_suspending y" by (auto simp: suspendedD)
  have ok: "resume_code y = RC_OK" using w(4) [OF y] d(2) by auto
  have dc: "d \<noteq> c" using suspended_off_stack [OF w(1) d(1)] by auto
  have fr: "?fr(d := frames_of s d) = ?fr" using dc by auto
  have rm: "(\<lambda>op'. removeAll d (queue (chan s) op')) = (queue (chan s))(op := ds)"
  proof
    fix op'
    have "d \<notin> set (queue (chan s) op')" if "op' \<noteq> op" using w(3) [of d op'] waits_inj [OF d(2), of op'] that by auto
    moreover have "d \<notin> set ds" using w(2) [of op] q by simp
    ultimately show "removeAll d (queue (chan s) op') = ((queue (chan s))(op := ds)) op'" using q by (simp add: removeAll_id)
  qed
  have "get_by_cid (sched s) = (get_by_cid (sched s))(d \<mapsto> y)" using y(1) by auto
  from wf_resume [OF wf1 y w(1) this y(2), of "frames_of s d"] obtain t' where
    t': "co_resume d (sched s) = Some t'" "wf_on t' ?fr ((queue (chan s))(op := ds)) (d # c # st)"
      "get_by_cid t' = (get_by_cid (sched s))(d \<mapsto> y\<lparr>co_state := STATE_RUNNING, origin := current (sched s)\<rparr>)"
    using waits_yielding [OF d(2)] f unfolding fr rm by auto
  let ?s' = "(at c f (upd_chan (set_queue op ds) s))\<lparr>sched := t'\<rparr>"
  have "notify op c f s = Some ?s'" using q t'(1) by (simp add: notify_def pop_coroutine_queue sys_resume_def)
  moreover have "sys_wf ?s' (d # c # st)" using t'(2) by (simp add: at_def upd_chan_def)
  moreover have "grant ?s' (d # c # st) = Some op"
    using t'(3) ok dc d(2) waits_inj [OF d(2)] by (cases op) (auto simp: grant_def is_canceled_def at_def upd_chan_def)
  ultimately show ?thesis by (auto simp: at_def upd_chan_def)
qed


lemma cochan_invD:
  assumes "cochan_inv cap s st"
  shows "sys_wf s st" "queue_inv cap (chan s) (grant s st)" "popped s @ ch_data (chan s) = pushed s"
    "frames_of s c = Close_producers \<or> frames_of s c = Close_consumers \<Longrightarrow> ch_closed (chan s)"
  using assms by (auto simp: cochan_inv_def)

lemma grant_none: "\<not> yielding (frames_of s c) \<Longrightarrow> grant s (c # st) = None"
  using waits_yielding [of _ "frames_of s c"] by (auto simp: grant_def)

lemma grant_below: "st = [] \<or> returning (frames_of s (hd st)) \<Longrightarrow> grant s st = None"
  by (cases st) (auto simp: grant_none returning_not_yielding grant_def [of _ "[]"])

text \<open>A coroutine that goes on in its own code without a change of the queues.\<close>

lemma own_code_inv:
  assumes wf: "sys_wf s (c # st)" and x: "get_by_cid (sched s) c = Some x" "cancel_fn x = None" and q: "queue_inv cap (chan s) None"
    and l: "popped s @ ch_data (chan s) = pushed s" "\<forall>c. frames_of s c = Close_producers \<or> frames_of s c = Close_consumers \<longrightarrow> ch_closed (chan s)"
  shows "cochan_inv cap (at c Own_code s) (c # st)"
  using wf_top [OF wf x(1), of Own_code] x(2) q l by (auto simp: cochan_inv_def grant_none)

lemma fail_inv:
  assumes wf: "sys_wf s (c # st)" and x: "get_by_cid (sched s) c = Some x" "cancel_fn x = None" and q: "queue_inv cap (chan s) None"
    and l: "popped s @ ch_data (chan s) = pushed s" "\<forall>c. frames_of s c = Close_producers \<or> frames_of s c = Close_consumers \<longrightarrow> ch_closed (chan s)"
  shows "cochan_inv cap (fail_with e c s) (c # st)"
  unfolding fail_with_def by (rule own_code_inv [where x = x]) (use assms in \<open>auto simp: queue_inv_def\<close>)

lemma pop_data_inv:
  assumes wf: "sys_wf s (c # st)" and x: "get_by_cid (sched s) c = Some x" "cancel_fn x = None" and cap: "0 < cap" "ch_capacity (chan s) = cap"
    and d: "ch_data (chan s) \<noteq> []" "length (ch_data (chan s)) \<le> cap"
    and q: "\<not> ch_closed (chan s) \<longrightarrow> (ch_consumers (chan s) = [] \<or> ch_producers (chan s) = []) \<and> (ch_producers (chan s) \<noteq> [] \<longrightarrow> length (ch_data (chan s)) = cap)"
      "ch_consumers (chan s) \<noteq> [] \<longrightarrow> length (ch_data (chan s)) = 1"
    and l: "popped s @ ch_data (chan s) = pushed s" "\<forall>c. frames_of s c = Close_producers \<or> frames_of s c = Close_consumers \<longrightarrow> ch_closed (chan s)"
  shows "\<exists>s' st'. pop_data c s = Some s' \<and> cochan_inv cap s' st'"
proof -
  obtain v vs where v: "ch_data (chan s) = v # vs" using d(1) by (cases "ch_data (chan s)") auto
  let ?s1 = "(upd_chan (\<lambda>ch. ch\<lparr>ch_data := vs\<rparr>) s)\<lparr>popped := popped s @ [v]\<rparr>"
  have wf1: "sys_wf ?s1 (c # st)" using wf by simp
  show ?thesis
  proof (cases "ch_producers (chan s)")
    case Nil
    have "cochan_inv cap (at c Own_code ?s1) (c # st)"
      by (rule own_code_inv [OF wf1, where x = x]) (use x cap d q l v Nil in \<open>auto simp: queue_inv_def\<close>)
    then show ?thesis using v Nil by (auto simp: pop_data_def)
  next
    case (Cons p ps)
    have "\<exists>s'. notify PRODUCER c (Pop_resume v) ?s1 = Some s' \<and> sys_wf s' (p # c # st) \<and> grant s' (p # c # st) = Some PRODUCER \<and>
        chan s' = set_queue PRODUCER ps (chan ?s1) \<and> pushed s' = pushed ?s1 \<and> popped s' = popped ?s1 \<and> frames_of s' = (frames_of ?s1)(c := Pop_resume v)"
      by (rule notify_spec [OF wf1, where x = x]) (use x Cons in \<open>auto simp: queue_def\<close>)
    then obtain s' where s': "notify PRODUCER c (Pop_resume v) ?s1 = Some s'" "sys_wf s' (p # c # st)" "grant s' (p # c # st) = Some PRODUCER"
        "chan s' = (chan s)\<lparr>ch_data := vs, ch_producers := ps\<rparr>" "pushed s' = pushed s" "popped s' = popped s @ [v]"
        "frames_of s' = (frames_of s)(c := Pop_resume v)"
      by (auto simp: set_queue_def)
    have "cochan_inv cap s' (p # c # st)"
      using s'(2-) cap d(2) q l v Cons by (auto simp: cochan_inv_def queue_inv_def)
    then show ?thesis using s'(1) v Cons by (auto simp: pop_data_def)
  qed
qed

lemma push_data_inv:
  assumes wf: "sys_wf s (c # st)" and x: "get_by_cid (sched s) c = Some x" "cancel_fn x = None" and cap: "ch_capacity (chan s) = cap"
    and d: "length (ch_data (chan s)) < cap" "\<not> ch_closed (chan s)"
    and q: "ch_consumers (chan s) = [] \<or> ch_producers (chan s) = []" "ch_producers (chan s) \<noteq> [] \<longrightarrow> Suc (length (ch_data (chan s))) = cap"
      "ch_consumers (chan s) \<noteq> [] \<longrightarrow> ch_data (chan s) = []"
    and l: "popped s @ ch_data (chan s) = pushed s" "\<forall>c. frames_of s c = Close_producers \<or> frames_of s c = Close_consumers \<longrightarrow> ch_closed (chan s)"
  shows "\<exists>s' st'. push_data c v s = Some s' \<and> cochan_inv cap s' st'"
proof -
  let ?s1 = "(upd_chan (\<lambda>ch. ch\<lparr>ch_data := ch_data ch @ [v]\<rparr>) s)\<lparr>pushed := pushed s @ [v]\<rparr>"
  have wf1: "sys_wf ?s1 (c # st)" using wf by simp
  show ?thesis
  proof (cases "ch_consumers (chan s)")
    case Nil
    have "cochan_inv cap (at c Own_code ?s1) (c # st)"
      by (rule own_code_inv [OF wf1, where x = x]) (use x cap d q l Nil in \<open>auto simp: queue_inv_def simp flip: append_assoc\<close>)
    then show ?thesis using Nil by (auto simp: push_data_def)
  next
    case (Cons p ps)
    have "\<exists>s'. notify CONSUMER c Push_resume ?s1 = Some s' \<and> sys_wf s' (p # c # st) \<and> grant s' (p # c # st) = Some CONSUMER \<and>
        chan s' = set_queue CONSUMER ps (chan ?s1) \<and> pushed s' = pushed ?s1 \<and> popped s' = popped ?s1 \<and> frames_of s' = (frames_of ?s1)(c := Push_resume)"
      by (rule notify_spec [OF wf1, where x = x]) (use x Cons in \<open>auto simp: queue_def\<close>)
    then obtain s' where s': "notify CONSUMER c Push_resume ?s1 = Some s'" "sys_wf s' (p # c # st)" "grant s' (p # c # st) = Some CONSUMER"
        "chan s' = (chan s)\<lparr>ch_data := ch_data (chan s) @ [v], ch_consumers := ps\<rparr>" "pushed s' = pushed s @ [v]" "popped s' = popped s"
        "frames_of s' = (frames_of s)(c := Push_resume)"
      by (auto simp: set_queue_def)
    have "cochan_inv cap s' (p # c # st)"
      using s'(2-) cap d q l Cons by (auto simp: cochan_inv_def queue_inv_def)
    then show ?thesis using s'(1) Cons by (auto simp: push_data_def)
  qed
qed


lemma cochan_yield_inv:
  assumes inv: "cochan_inv cap s (c # st)" and g: "grant s (c # st) = None" and open': "\<not> ch_closed (chan s)" and f: "waits op f"
    and d: "length (ch_data (chan s)) = (case op of CONSUMER \<Rightarrow> 0 | PRODUCER \<Rightarrow> cap)"
  shows "\<exists>s' st'. cochan_yield op c f s = Some s' \<and> cochan_inv cap s' st'"
proof -
  note i = cochan_invD [OF inv]
  obtain t' where t': "co_yield_cancel c op (sched s) = Some t'"
      "wf_on t' ((frames_of s)(c := f)) ((queue (chan s))(op := queue (chan s) op @ [c])) st" using wf_yield [OF i(1) f] by blast
  let ?s' = "at c f ((upd_chan (\<lambda>ch. set_queue op (queue ch op @ [c]) ch) s)\<lparr>sched := t'\<rparr>)"
  have e: "cochan_yield op c f s = Some ?s'" using t'(1) by (cases op) (simp_all add: cochan_yield_def set_queue_def queue_def)
  have wf: "sys_wf ?s' st" using t'(2) by simp
  have "returning (frames_of ?s' (hd st))" if "st \<noteq> []"
    using that wf_onD(6) [OF i(1), of "hd st"] sched_invD(3) [OF wf_onD(1) [OF i(1)]] by auto
  then have "grant ?s' st = None" by (intro grant_below) blast
  moreover have "queue_inv cap (chan ?s') None"
    using i(2) g open' d by (cases op) (auto simp: queue_inv_def set_queue_def queue_def)
  moreover have "chan ?s' = set_queue op (queue (chan s) op @ [c]) (chan s)" by simp
  then have "ch_data (chan ?s') = ch_data (chan s)" "ch_closed (chan ?s') = ch_closed (chan s)" by (cases op; simp add: set_queue_def)+
  moreover have "\<not> (f = Close_producers \<or> f = Close_consumers)" using f by (cases op; cases f) auto
  ultimately have "cochan_inv cap ?s' st" using wf i(3,4) by (auto simp: cochan_inv_def)
  then show ?thesis using e by blast
qed

lemma close_consumers_inv:
  assumes wf: "sys_wf s (c # st)" and x: "get_by_cid (sched s) c = Some x" "cancel_fn x = None" and q: "queue_inv cap (chan s) None" "ch_closed (chan s)"
    and l: "popped s @ ch_data (chan s) = pushed s"
  shows "\<exists>s' st'. close_consumers c s = Some s' \<and> cochan_inv cap s' st'"
proof (cases "ch_consumers (chan s)")
  case Nil
  have "cochan_inv cap (at c Own_code s) (c # st)" by (rule own_code_inv [OF wf x]) (use q l in auto)
  then show ?thesis using Nil by (auto simp: close_consumers_def)
next
  case (Cons p ps)
  then have "queue (chan s) CONSUMER = p # ps" by (simp add: queue_def)
  then obtain s' where s': "notify CONSUMER c Close_consumers s = Some s'" "sys_wf s' (p # c # st)" "grant s' (p # c # st) = Some CONSUMER"
      "chan s' = set_queue CONSUMER ps (chan s)" "pushed s' = pushed s" "popped s' = popped s"
    using notify_spec [OF wf x, of Close_consumers CONSUMER] by auto
  have "cochan_inv cap s' (p # c # st)" using s'(2-) q l Cons by (auto simp: cochan_inv_def queue_inv_def set_queue_def)
  then show ?thesis using s'(1) Cons by (auto simp: close_consumers_def)
qed

lemma close_producers_inv:
  assumes wf: "sys_wf s (c # st)" and x: "get_by_cid (sched s) c = Some x" "cancel_fn x = None" and q: "queue_inv cap (chan s) None" "ch_closed (chan s)"
    and l: "popped s @ ch_data (chan s) = pushed s"
  shows "\<exists>s' st'. close_producers c s = Some s' \<and> cochan_inv cap s' st'"
proof (cases "ch_producers (chan s)")
  case Nil
  then show ?thesis using close_consumers_inv [OF wf x q l] by (simp add: close_producers_def)
next
  case (Cons p ps)
  then have "queue (chan s) PRODUCER = p # ps" by (simp add: queue_def)
  then obtain s' where s': "notify PRODUCER c Close_producers s = Some s'" "sys_wf s' (p # c # st)" "grant s' (p # c # st) = Some PRODUCER"
      "chan s' = set_queue PRODUCER ps (chan s)" "pushed s' = pushed s" "popped s' = popped s"
    using notify_spec [OF wf x, of Close_producers PRODUCER] by auto
  have "cochan_inv cap s' (p # c # st)" using s'(2-) q l Cons by (auto simp: cochan_inv_def queue_inv_def set_queue_def)
  then show ?thesis using s'(1) Cons by (auto simp: close_producers_def)
qed

text \<open>What a coroutine does in its own code.\<close>

lemma own_code:
  assumes inv: "cochan_inv cap s (c # st)" and f: "\<not> yielding (frames_of s c)"
  obtains x where "sys_wf s (c # st)" "get_by_cid (sched s) c = Some x" "cancel_fn x = None" "queue_inv cap (chan s) None"
    "popped s @ ch_data (chan s) = pushed s" "\<forall>c. frames_of s c = Close_producers \<or> frames_of s c = Close_consumers \<longrightarrow> ch_closed (chan s)"
proof -
  note i = cochan_invD [OF inv]
  obtain x where x: "get_by_cid (sched s) c = Some x" using sched_on_stack [OF wf_onD(1) [OF i(1)], of c] by auto
  then have "cancel_fn x = None" using wf_onD(5) [OF i(1) x] f by simp
  then show thesis using that x i grant_none [OF f, of st] by auto
qed

lemma cochan_pop_inv:
  assumes inv: "cochan_inv cap s (c # st)" and f: "frames_of s c = Own_code"
  shows "\<exists>s' st'. cochan_pop c timed s = Some s' \<and> cochan_inv cap s' st'"
proof -
  have ny: "\<not> yielding (frames_of s c)" using f by simp
  obtain x where o: "sys_wf s (c # st)" "get_by_cid (sched s) c = Some x" "cancel_fn x = None" and q: "queue_inv cap (chan s) None"
    and l: "popped s @ ch_data (chan s) = pushed s" "\<forall>c. frames_of s c = Close_producers \<or> frames_of s c = Close_consumers \<longrightarrow> ch_closed (chan s)"
    by (rule own_code [OF inv ny])
  consider (closed) "ch_closed (chan s)" "is_empty (chan s)" | (wait) "\<not> ch_closed (chan s)" "is_empty (chan s)" |
      (data) "ch_data (chan s) \<noteq> []" "ch_consumers (chan s) = []"
    using q by (auto simp: is_empty_def queue_inv_def)
  then show ?thesis
  proof cases
    case closed
    then show ?thesis using fail_inv [OF o q l] by (auto simp: cochan_pop_def)
  next
    case wait
    then show ?thesis using cochan_yield_inv [OF inv grant_none [OF ny], of CONSUMER "Pop_yield timed False"] by (simp add: cochan_pop_def is_empty_def)
  next
    case data
    have "\<exists>s' st'. pop_data c s = Some s' \<and> cochan_inv cap s' st'"
      by (rule pop_data_inv [OF o]) (use q l data in \<open>auto simp: queue_inv_def\<close>)
    then show ?thesis using data by (simp add: cochan_pop_def is_empty_def)
  qed
qed

lemma cochan_push_inv:
  assumes inv: "cochan_inv cap s (c # st)" and f: "frames_of s c = Own_code"
  shows "\<exists>s' st'. cochan_push c v timed s = Some s' \<and> cochan_inv cap s' st'"
proof -
  have ny: "\<not> yielding (frames_of s c)" using f by simp
  obtain x where o: "sys_wf s (c # st)" "get_by_cid (sched s) c = Some x" "cancel_fn x = None" and q: "queue_inv cap (chan s) None"
    and l: "popped s @ ch_data (chan s) = pushed s" "\<forall>c. frames_of s c = Close_producers \<or> frames_of s c = Close_consumers \<longrightarrow> ch_closed (chan s)"
    by (rule own_code [OF inv ny])
  consider (closed) "ch_closed (chan s)" | (wait) "\<not> ch_closed (chan s)" "length (ch_data (chan s)) = cap" "is_full (chan s)" |
      (data) "\<not> ch_closed (chan s)" "length (ch_data (chan s)) < cap" "ch_producers (chan s) = []"
    using q by (fastforce simp: is_full_def queue_inv_def)
  then show ?thesis
  proof cases
    case closed
    then show ?thesis using fail_inv [OF o q l] by (auto simp: cochan_push_def)
  next
    case wait
    then show ?thesis using cochan_yield_inv [OF inv grant_none [OF ny], of PRODUCER "Push_yield v timed False"] by (simp add: cochan_push_def)
  next
    case data
    have "\<exists>s' st'. push_data c v s = Some s' \<and> cochan_inv cap s' st'"
      by (rule push_data_inv [OF o]) (use q l data in \<open>auto simp: queue_inv_def\<close>)
    then show ?thesis using data q by (simp add: cochan_push_def is_full_def queue_inv_def)
  qed
qed


lemma cochan_close_inv:
  assumes inv: "cochan_inv cap s (c # st)" and f: "frames_of s c = Own_code"
  shows "\<exists>s' st'. cochan_close c s = Some s' \<and> cochan_inv cap s' st'"
proof (cases "ch_closed (chan s)")
  case True
  then show ?thesis using inv by (auto simp: cochan_close_def)
next
  case False
  have ny: "\<not> yielding (frames_of s c)" using f by simp
  obtain x where o: "sys_wf s (c # st)" "get_by_cid (sched s) c = Some x" "cancel_fn x = None" and q: "queue_inv cap (chan s) None"
    and l: "popped s @ ch_data (chan s) = pushed s"
    by (rule own_code [OF inv ny])
  have "\<exists>s' st'. close_producers c (upd_chan (\<lambda>ch. ch\<lparr>ch_closed := True\<rparr>) s) = Some s' \<and> cochan_inv cap s' st'"
    by (rule close_producers_inv [where x = x]) (use o q l in \<open>auto simp: queue_inv_def\<close>)
  then show ?thesis using False by (simp add: cochan_close_def)
qed

text \<open>A coroutine goes on behind the \<^verbatim>\<open>yield\<close> of an operation.\<close>

lemma woken:
  assumes inv: "cochan_inv cap s (c # st)"
  obtains x t where "co_yield_return c (sched s) = Some t" "get_by_cid t c = Some (x\<lparr>cancel_fn := None\<rparr>)" "get_by_cid (sched s) c = Some x"
    "wf_on t ((frames_of s)(c := Own_code)) (queue (chan s)) (c # st)"
  using sched_on_stack [OF wf_onD(1) [OF cochan_invD(1) [OF inv]], of c] wf_clear [OF cochan_invD(1) [OF inv], of Own_code] that by fastforce

lemma notify_at: "notify op c f (at c g s) = notify op c f s"
  by (auto simp: notify_def pop_coroutine_queue at_def upd_chan_def split: list.splits)

lemma at_absorb:
  "fail_with e c (at c g s) = fail_with e c s" "pop_data c (at c g s) = pop_data c s" "push_data c v (at c g s) = push_data c v s"
proof -
  have m: "upd_chan h (at c g s) = at c g (upd_chan h s)" "(at c g s)\<lparr>popped := xs\<rparr> = at c g (s\<lparr>popped := xs\<rparr>)"
    "(at c g s)\<lparr>pushed := xs\<rparr> = at c g (s\<lparr>pushed := xs\<rparr>)" "at c f (at c g s) = at c f s" for s :: "'a cochan_sys" and h xs f
    by (simp_all add: upd_chan_def at_def)
  show "fail_with e c (at c g s) = fail_with e c s" "pop_data c (at c g s) = pop_data c s" "push_data c v (at c g s) = push_data c v s"
    by (simp_all add: fail_with_def pop_data_def push_data_def Let_def m notify_at split: list.splits)
qed

lemma pop_woken_inv:
  assumes inv: "cochan_inv cap s (c # st)" and f: "frames_of s c = Pop_yield timed err"
  shows "\<exists>s' st'. cochan_pop_woken c err s = Some s' \<and> cochan_inv cap s' st'"
proof -
  note i = cochan_invD [OF inv]
  obtain x t where t: "co_yield_return c (sched s) = Some t" "get_by_cid t c = Some (x\<lparr>cancel_fn := None\<rparr>)" and x: "get_by_cid (sched s) c = Some x"
    and wf: "wf_on t ((frames_of s)(c := Own_code)) (queue (chan s)) (c # st)" by (rule woken [OF inv])
  let ?s = "at c Own_code (s\<lparr>sched := t\<rparr>)"
  have l: "popped ?s @ ch_data (chan ?s) = pushed ?s" "\<forall>c. frames_of ?s c = Close_producers \<or> frames_of ?s c = Close_consumers \<longrightarrow> ch_closed (chan ?s)"
    using i(3,4) by (auto simp: at_def)
  have o: "sys_wf ?s (c # st)" "get_by_cid (sched ?s) c = Some (x\<lparr>cancel_fn := None\<rparr>)" "cancel_fn (x\<lparr>cancel_fn := None\<rparr>) = None"
    using wf t(2) by (auto simp: at_def)
  have g: "grant s (c # st) = (if is_canceled x \<or> err then None else Some CONSUMER)" using x f by (auto simp: grant_def)
  consider (fail) "is_canceled x \<or> err \<or> ch_closed (chan s) \<and> is_empty (chan s)" |
      (data) "\<not> is_canceled x" "\<not> err" "ch_data (chan s) \<noteq> []" "\<not> (ch_closed (chan s) \<and> is_empty (chan s))"
    using i(2) g by (auto simp: is_empty_def queue_inv_def split: if_splits)
  then show ?thesis
  proof cases
    case fail
    have "queue_inv cap (chan ?s) None" using i(2) g fail by (auto simp: queue_inv_def is_empty_def split: if_splits)
    then have "cochan_inv cap (fail_with e c (s\<lparr>sched := t\<rparr>)) (c # st)" for e using fail_inv [OF o _ l] by (simp add: at_absorb)
    moreover have "\<exists>e. cochan_pop_woken c err s = Some (fail_with e c (s\<lparr>sched := t\<rparr>))" using fail t by (auto simp: cochan_pop_woken_def is_canceled_def Let_def)
    ultimately show ?thesis by blast
  next
    case data
    have "\<exists>s' st'. pop_data c ?s = Some s' \<and> cochan_inv cap s' st'"
      by (rule pop_data_inv [OF o _ _ _ _ _ _ l]) (use i(2) g data in \<open>auto simp: queue_inv_def split: if_splits\<close>)
    then show ?thesis using data t by (simp add: cochan_pop_woken_def is_canceled_def at_absorb Let_def is_empty_def)
  qed
qed

lemma push_woken_inv:
  assumes inv: "cochan_inv cap s (c # st)" and f: "frames_of s c = Push_yield v timed err"
  shows "\<exists>s' st'. cochan_push_woken c v err s = Some s' \<and> cochan_inv cap s' st'"
proof -
  note i = cochan_invD [OF inv]
  obtain x t where t: "co_yield_return c (sched s) = Some t" "get_by_cid t c = Some (x\<lparr>cancel_fn := None\<rparr>)" and x: "get_by_cid (sched s) c = Some x"
    and wf: "wf_on t ((frames_of s)(c := Own_code)) (queue (chan s)) (c # st)" by (rule woken [OF inv])
  let ?s = "at c Own_code (s\<lparr>sched := t\<rparr>)"
  have l: "popped ?s @ ch_data (chan ?s) = pushed ?s" "\<forall>c. frames_of ?s c = Close_producers \<or> frames_of ?s c = Close_consumers \<longrightarrow> ch_closed (chan ?s)"
    using i(3,4) by (auto simp: at_def)
  have o: "sys_wf ?s (c # st)" "get_by_cid (sched ?s) c = Some (x\<lparr>cancel_fn := None\<rparr>)" "cancel_fn (x\<lparr>cancel_fn := None\<rparr>) = None"
    using wf t(2) by (auto simp: at_def)
  have g: "grant s (c # st) = (if is_canceled x \<or> err then None else Some PRODUCER)" using x f by (auto simp: grant_def)
  consider (fail) "is_canceled x \<or> err \<or> ch_closed (chan s)" | (data) "\<not> is_canceled x" "\<not> err" "\<not> ch_closed (chan s)" by blast
  then show ?thesis
  proof cases
    case fail
    have "queue_inv cap (chan ?s) None" using i(2) g fail by (auto simp: queue_inv_def split: if_splits)
    then have "cochan_inv cap (fail_with e c (s\<lparr>sched := t\<rparr>)) (c # st)" for e using fail_inv [OF o _ l] by (simp add: at_absorb)
    moreover have "\<exists>e. cochan_push_woken c v err s = Some (fail_with e c (s\<lparr>sched := t\<rparr>))" using fail t by (auto simp: cochan_push_woken_def is_canceled_def Let_def)
    ultimately show ?thesis by blast
  next
    case data
    have "\<exists>s' st'. push_data c v ?s = Some s' \<and> cochan_inv cap s' st'"
      by (rule push_data_inv [OF o _ _ _ _ _ _ l]) (use i(2) g data in \<open>auto simp: queue_inv_def split: if_splits\<close>)
    then show ?thesis using data t by (simp add: cochan_push_woken_def is_canceled_def at_absorb)
  qed
qed

lemma go_on_inv:
  assumes inv: "cochan_inv cap s (c # st)"
  shows "\<exists>s' st'. go_on c s = Some s' \<and> cochan_inv cap s' st'"
proof (cases "yielding (frames_of s c)")
  case True
  then show ?thesis using pop_woken_inv [OF inv] push_woken_inv [OF inv] by (cases "frames_of s c") (auto simp: go_on_def)
next
  case False
  obtain x where o: "sys_wf s (c # st)" "get_by_cid (sched s) c = Some x" "cancel_fn x = None" and q: "queue_inv cap (chan s) None"
    and l: "popped s @ ch_data (chan s) = pushed s" "\<forall>c. frames_of s c = Close_producers \<or> frames_of s c = Close_consumers \<longrightarrow> ch_closed (chan s)"
    by (rule own_code [OF inv False])
  have cl: "ch_closed (chan s)" if "frames_of s c = Close_producers \<or> frames_of s c = Close_consumers" using l(2) that by blast
  show ?thesis
    using False own_code_inv [OF o q l] close_producers_inv [OF o q _ l(1)] close_consumers_inv [OF o q _ l(1)] cl
    by (cases "frames_of s c") (auto simp: go_on_def)
qed


text \<open>Control leaves the running coroutine, or the event loop, for another coroutine.\<close>

lemma current_stack: "sys_wf s st \<Longrightarrow> current (sched s) = (if st = [] then None else Some (hd st))"
  using sched_invD(2) wf_onD(1) by blast

lemma leave_inv:
  assumes inv: "cochan_inv cap s st" and idle: "idle s"
  defines "s1 \<equiv> leave Own_resume s"
  shows "sys_wf s1 st" "st = [] \<or> returning (frames_of s1 (hd st))" "queue_inv cap (chan s1) None" "sched s1 = sched s" "chan s1 = chan s"
    "popped s1 @ ch_data (chan s1) = pushed s1" "\<forall>c. frames_of s1 c = Close_producers \<or> frames_of s1 c = Close_consumers \<longrightarrow> ch_closed (chan s1)"
    "d \<notin> set st \<Longrightarrow> frames_of s1 d = frames_of s d"
proof -
  note i = cochan_invD [OF inv]
  have cur: "current (sched s) = (if st = [] then None else Some (hd st))" by (rule current_stack [OF i(1)])
  have "sys_wf s1 st \<and> (st = [] \<or> returning (frames_of s1 (hd st))) \<and> queue_inv cap (chan s1) None \<and> (d \<notin> set st \<longrightarrow> frames_of s1 d = frames_of s d)"
  proof (cases st)
    case Nil
    then show ?thesis using i cur by (simp add: s1_def leave_def grant_def)
  next
    case (Cons c cs)
    have f: "frames_of s c = Own_code" using idle cur Cons by (simp add: idle_def)
    then have ny: "\<not> yielding (frames_of s c)" by simp
    obtain x where o: "sys_wf s (c # cs)" "get_by_cid (sched s) c = Some x" "cancel_fn x = None" and q: "queue_inv cap (chan s) None"
      by (rule own_code [OF inv [unfolded Cons] ny])
    then show ?thesis using wf_top [OF o(1,2), of Own_resume] cur Cons by (simp add: s1_def leave_def)
  qed
  then show "sys_wf s1 st" "st = [] \<or> returning (frames_of s1 (hd st))" "queue_inv cap (chan s1) None" "d \<notin> set st \<Longrightarrow> frames_of s1 d = frames_of s d"
    by auto
  show "sched s1 = sched s" "chan s1 = chan s" by (simp_all add: s1_def leave_def split: option.splits)
  show "popped s1 @ ch_data (chan s1) = pushed s1" "\<forall>c. frames_of s1 c = Close_producers \<or> frames_of s1 c = Close_consumers \<longrightarrow> ch_closed (chan s1)"
    using i(3,4) by (auto simp: s1_def leave_def split: option.splits)
qed

lemma create_inv:
  assumes inv: "cochan_inv cap s st" and idle: "idle s"
  shows "\<exists>s' st'. cochan_exec Create s = Some s' \<and> cochan_inv cap s' st'"
proof -
  note l = leave_inv [OF inv idle]
  obtain c t' where t': "co_create (sched s) = Some (c, t')" "wf_on t' ((frames_of (leave Own_resume s))(c := Own_code)) (queue (chan s)) (c # st)"
    using wf_create [OF l(1,2)] l(4,5) by auto
  let ?s' = "at c Own_code ((leave Own_resume s)\<lparr>sched := t'\<rparr>)"
  have "cochan_inv cap ?s' (c # st)" using t'(2) l(3,5,6,7) by (auto simp: cochan_inv_def grant_none)
  then show ?thesis using t'(1) by auto
qed

text \<open>A suspended coroutine is taken from the queue it may wait in, and resumed; what has waited there is not let through by that.\<close>

lemma wake_inv:
  assumes l: "sys_wf s st" "st = [] \<or> returning (frames_of s (hd st))" "queue_inv cap (chan s) None" "popped s @ ch_data (chan s) = pushed s"
      "\<forall>c. frames_of s c = Close_producers \<or> frames_of s c = Close_consumers \<longrightarrow> ch_closed (chan s)"
    and x: "get_by_cid (sched s) d = Some x" "is_suspending x" and t: "sched_inv t st" "get_by_cid t = (get_by_cid (sched s))(d \<mapsto> y)"
    and y: "is_suspending y" "yielding f \<or> f = Own_yield \<and> cancel_fn y = None" "is_canceled y \<or> (\<forall>op. \<not> waits op f)"
    and s1: "sched s1 = t" "frames_of s1 = (frames_of s)(d := f)" "pushed s1 = pushed s" "popped s1 = popped s"
      "chan s1 = (case cancel_fn x of None \<Rightarrow> chan s | Some op \<Rightarrow> set_queue op (removeAll d (queue (chan s) op)) (chan s))"
  shows "\<exists>s' st'. sys_resume d s1 = Some s' \<and> cochan_inv cap s' st'"
proof -
  note w = wf_onD [OF l(1)]
  obtain t' where t': "co_resume d t = Some t'" "wf_on t' ((frames_of s)(d := f)) (\<lambda>op. removeAll d (queue (chan s) op)) (d # st)"
      "get_by_cid t' = (get_by_cid (sched s))(d \<mapsto> y\<lparr>co_state := STATE_RUNNING, origin := current t\<rparr>)"
    using wf_resume [OF l(1) x t y(1) _ l(2), of f] y(2) by auto
  let ?s' = "s1\<lparr>sched := t'\<rparr>"
  have rm: "removeAll d (queue (chan s) op) = queue (chan s) op" if "\<not> waits op (frames_of s d)" for op using w(3) [of d op] that by (simp add: removeAll_id)
  have "queue (chan s1) = (\<lambda>op. removeAll d (queue (chan s) op))"
  proof (rule ext, cases "cancel_fn x")
    fix op assume "cancel_fn x = None"
    then show "queue (chan s1) op = removeAll d (queue (chan s) op)" using w(4) [OF x] rm [of op] by (simp add: s1(5))
  next
    fix op op' assume op': "cancel_fn x = Some op'"
    then have "waits op' (frames_of s d)" using w(4) [OF x] by auto
    then show "queue (chan s1) op = removeAll d (queue (chan s) op)" using op' rm [of op] waits_inj [of op' "frames_of s d" op] by (simp add: s1(5))
  qed
  then have "sys_wf ?s' (d # st)" using t'(2) s1(2) by simp
  moreover have "grant ?s' (d # st) = None" using t'(3) y(3) s1(2) by (auto simp: grant_def is_canceled_def)
  moreover have "queue_inv cap (chan s1) None"
    using l(3) by (auto simp: s1 queue_inv_def set_queue_def queue_def split: option.splits opcode.splits)
  moreover have "ch_data (chan s1) = ch_data (chan s)" "ch_closed (chan s1) = ch_closed (chan s)"
    by (auto simp: s1 set_queue_def split: option.splits opcode.splits)
  ultimately have "cochan_inv cap ?s' (d # st)" using l(4,5) s1 y(2) by (auto simp: cochan_inv_def)
  then show ?thesis using t'(1) s1(1) by (auto simp: sys_resume_def)
qed


lemma resume_inv:
  assumes inv: "cochan_inv cap s st" and idle: "idle s" and d: "d \<in> suspended (sched s)" "frames_of s d = Own_yield"
  shows "\<exists>s' st'. cochan_exec (Resume d) s = Some s' \<and> cochan_inv cap s' st'"
proof -
  note l = leave_inv [OF inv idle]
  obtain x where x: "get_by_cid (sched s) d = Some x" "is_suspending x" using d(1) by (auto simp: suspendedD)
  have f: "frames_of (leave Own_resume s) d = Own_yield" "cancel_fn x = None"
    using l(8) [OF suspended_off_stack [OF wf_onD(1) [OF cochan_invD(1) [OF inv]] d(1)]] wf_onD(4) [OF cochan_invD(1) [OF inv] x] d(2) by auto
  show ?thesis unfolding cochan_exec.simps
    by (rule wake_inv [OF l(1,2,3,6,7), where y = x and x = x and t = "sched s" and f = Own_yield]) (use x f l(4,5) wf_onD(1) [OF l(1)] in auto)
qed

lemma cancel_inv:
  assumes inv: "cochan_inv cap s st" and idle: "idle s" and d: "get_by_cid (sched s) d = Some x"
  shows "\<exists>s' st'. cochan_exec (Cancel d) s = Some s' \<and> cochan_inv cap s' st'"
proof (cases "cancel_fn x")
  case None
  then show ?thesis using inv d by (auto simp: cochan_cancel_def co_cancel_def)
next
  case (Some op)
  note i = cochan_invD [OF inv] and l = leave_inv [OF inv idle]
  have "d \<notin> set st"
  proof
    assume mem: "d \<in> set st"
    moreover have "\<not> yielding (frames_of s d)"
      using mem idle current_stack [OF i(1)] wf_onD(6) [OF i(1), of d] returning_not_yielding by (cases st) (auto simp: idle_def)
    ultimately show False using wf_onD(5) [OF i(1) d] Some by simp
  qed
  then have x: "is_suspending x" and f: "frames_of (leave Own_resume s) d = frames_of s d" using sched_invD(7) [OF wf_onD(1) [OF i(1)] d] l(8) by auto
  then have y: "yielding (frames_of s d)" using wf_onD(4) [OF i(1) d] Some waits_yielding by auto
  obtain t where t: "co_cancel d (sched s) = Some (Some op, t)" "sched_inv t st"
      "get_by_cid t = (get_by_cid (sched s))(d \<mapsto> x\<lparr>cancel_fn := None, resume_code := RC_CANCELED\<rparr>)"
    using co_cancel_spec [OF wf_onD(1) [OF i(1)] d Some] by blast
  have "cochan_exec (Cancel d) s = sys_resume d (cochan_remove op d ((leave Own_resume s)\<lparr>sched := t\<rparr>))" using t(1) by (simp add: cochan_cancel_def leave_def)
  moreover have "\<exists>s' st'. sys_resume d (cochan_remove op d ((leave Own_resume s)\<lparr>sched := t\<rparr>)) = Some s' \<and> cochan_inv cap s' st'"
    by (rule wake_inv [OF l(1,2,3,6,7), where f = "frames_of s d" and x = x and t = t and y = "x\<lparr>cancel_fn := None, resume_code := RC_CANCELED\<rparr>"])
      (use d x f y t Some l(4) in \<open>auto simp: is_suspending_def is_canceled_def cochan_remove_queue\<close>)
  ultimately show ?thesis by simp
qed

lemma timeout_inv:
  assumes inv: "cochan_inv cap s []" and d: "d \<in> suspended (sched s)" "yielding (frames_of s d)"
  shows "\<exists>s' st'. cochan_exec (Timeout d) s = Some s' \<and> cochan_inv cap s' st'"
proof -
  note i = cochan_invD [OF inv]
  obtain x where x: "get_by_cid (sched s) d = Some x" "is_suspending x" using d(1) by (auto simp: suspendedD)
  obtain op where op: "waits op (frames_of s d)" "cancel_fn x = Some op" using wf_onD(4) [OF i(1) x] d(2) by auto
  obtain f where f: "yielding f" "\<forall>op. \<not> waits op f" "cochan_exec (Timeout d) s = sys_resume d (cochan_remove op d (at d f s))"
  proof (cases "frames_of s d")
    case (Pop_yield timed err)
    moreover have "\<not> waits op (Pop_yield False True)" for op by (cases op) auto
    ultimately show thesis using that [of "Pop_yield False True"] op(1) by (cases op) (auto simp: timer_callback_def)
  next
    case (Push_yield v timed err)
    moreover have "\<not> waits op (Push_yield v False True)" for op by (cases op) auto
    ultimately show thesis using that [of "Push_yield v False True"] op(1) by (cases op) (auto simp: timer_callback_def)
  qed (use d(2) in auto)
  have q: "queue_inv cap (chan s) None" using i(2) by (simp add: grant_def)
  have cl: "\<forall>c. frames_of s c = Close_producers \<or> frames_of s c = Close_consumers \<longrightarrow> ch_closed (chan s)" using i(4) by blast
  show ?thesis unfolding f(3)
    by (rule wake_inv [OF i(1) _ q i(3) cl x, where f = f and y = x and t = "sched s"])
      (use x op f wf_onD(1) [OF i(1)] in \<open>auto simp: cochan_remove_queue\<close>)
qed

lemma yield_inv:
  assumes inv: "cochan_inv cap s (c # st)" and f: "frames_of s c = Own_code"
  shows "\<exists>t'. co_yield c (sched s) = Some t' \<and> cochan_inv cap (at c Own_yield (s\<lparr>sched := t'\<rparr>)) st"
proof -
  note i = cochan_invD [OF inv]
  obtain t' where t': "co_yield c (sched s) = Some t'" "wf_on t' ((frames_of s)(c := Own_yield)) (queue (chan s)) st"
    using wf_own_yield [OF i(1)] f by auto
  have "st = [] \<or> returning (frames_of (at c Own_yield (s\<lparr>sched := t'\<rparr>)) (hd st))"
    using wf_onD(6) [OF i(1), of "hd st"] sched_invD(3) [OF wf_onD(1) [OF i(1)]] by (cases st) auto
  then have "cochan_inv cap (at c Own_yield (s\<lparr>sched := t'\<rparr>)) st"
    using t'(2) i(2-4) grant_none [of s c st] f by (auto simp: cochan_inv_def grant_below)
  then show ?thesis using t'(1) by blast
qed

lemma return_inv:
  assumes inv: "cochan_inv cap s (c # st)" and f: "frames_of s c = Own_code"
  shows "\<exists>t'. co_close c (sched s) = Some t' \<and> cochan_inv cap (s\<lparr>sched := t'\<rparr>) st"
proof -
  note i = cochan_invD [OF inv]
  obtain t' where t': "co_close c (sched s) = Some t'" "wf_on t' (frames_of s) (queue (chan s)) st"
    using wf_return [OF i(1)] by auto
  have "st = [] \<or> returning (frames_of (s\<lparr>sched := t'\<rparr>) (hd st))" using wf_onD(6) [OF i(1), of "hd st"] by (cases st) auto
  then have "cochan_inv cap (s\<lparr>sched := t'\<rparr>) st"
    using t'(2) i(2-4) grant_none [of s c st] f by (auto simp: cochan_inv_def grant_below)
  then show ?thesis using t'(1) by blast
qed

lemma cochan_step_inv:
  assumes inv: "cochan_inv cap s st" and en: "enabled a s"
  shows "\<exists>s' st'. cochan_exec a s = Some s' \<and> cochan_inv cap s' st'"
proof (cases "idle s \<and> current (sched s) \<noteq> None")
  case True
  then obtain c cs where c: "st = c # cs" "current (sched s) = Some c" "frames_of s c = Own_code"
    using current_stack [OF cochan_invD(1) [OF inv]] by (cases st) (auto simp: idle_def)
  note inv' = inv [unfolded c(1)]
  show ?thesis
    using cochan_pop_inv [OF inv' c(3)] cochan_push_inv [OF inv' c(3)] cochan_close_inv [OF inv' c(3)] create_inv [OF inv] yield_inv [OF inv' c(3)]
      return_inv [OF inv' c(3)] resume_inv [OF inv] cancel_inv [OF inv] en c(2) True
    by (cases a) auto
next
  case False
  show ?thesis
  proof (cases "current (sched s)")
    case None
    then have st: "st = []" using current_stack [OF cochan_invD(1) [OF inv]] by (auto split: if_splits)
    have idle: "idle s" using None by (simp add: idle_def)
    show ?thesis using create_inv [OF inv idle] resume_inv [OF inv idle] cancel_inv [OF inv idle] timeout_inv [OF inv [unfolded st]] en None idle
      by (cases a) (auto split: frame.splits)
  next
    case (Some c)
    then obtain cs where "st = c # cs" using current_stack [OF cochan_invD(1) [OF inv]] by (cases st) auto
    then show ?thesis using go_on_inv [of cap s c cs] inv Some False en by (cases a) auto
  qed
qed


subsection \<open>Reachable states\<close>

lemma cochan_init_inv: "0 < cap \<Longrightarrow> cochan_inv cap (cochan_init cap) []"
  by (auto simp: cochan_inv_def cochan_init_def wf_on_def queue_inv_def grant_def queue_def co_init_inv [unfolded co_init_def] suspended_def co_init_def get_by_cid_def split: opcode.splits)

lemma cochan_reach_inv: "cochan_reach cap s \<Longrightarrow> 0 < cap \<Longrightarrow> \<exists>st. cochan_inv cap s st"
proof (induction rule: cochan_reach.induct)
  case cochan_reach_init
  then show ?case using cochan_init_inv by blast
next
  case (cochan_reach_step s a s')
  then obtain st where "cochan_inv cap s st" by blast
  then show ?case using cochan_step_inv [of cap s st a] cochan_reach_step.hyps(2,3) by auto
qed

fun cochan_run :: "'a act list \<Rightarrow> 'a cochan_sys \<Rightarrow> 'a cochan_sys option" where
  "cochan_run [] s = Some s"
| "cochan_run (a # as) s = (if enabled a s then Option.bind (cochan_exec a s) (cochan_run as) else None)"

lemma cochan_run_reach: "cochan_reach cap s \<Longrightarrow> cochan_run as s = Some s' \<Longrightarrow> cochan_reach cap s'"
  by (induction as arbitrary: s) (auto simp: bind_eq_Some_conv split: if_splits intro: cochan_reach_step)

text \<open>
  C14. A channel is safe. In every state that coroutines can bring a channel of positive capacity to, by pushing, popping, closing,
  creating, yielding, resuming, cancelling, returning and timing out in any order, everything that can happen next succeeds: no front of an empty
  queue is taken, no assertion of the scheduler fails and no deleted coroutine is resumed. The queue never holds more than
  its capacity, and what has been popped followed by what is in the queue is what has been pushed, in that order.
\<close>

theorem co_channel_safe:
  assumes "0 < cap" and "cochan_reach cap s" and "enabled a s"
  shows "\<exists>s'. cochan_exec a s = Some s' \<and> length (ch_data (chan s')) \<le> cap \<and> popped s' @ ch_data (chan s') = pushed s'"
proof -
  obtain st where "cochan_inv cap s st" using cochan_reach_inv assms by blast
  then obtain s' st' where s': "cochan_exec a s = Some s'" "cochan_inv cap s' st'" using cochan_step_inv assms(3) by blast
  show ?thesis using s'(1) cochan_invD(2,3) [OF s'(2)] by (auto simp: queue_inv_def)
qed

theorem co_channel_safe_witness:
  "\<exists>s s'. cochan_run [Create, Pop True, Create, Push (7 :: nat) False] (cochan_init 1) = Some s \<and> cochan_exec Go_on s = Some s' \<and> popped s' = [7]"
proof -
  let ?r = "cochan_run [Create, Pop True, Create, Push (7 :: nat) False] (cochan_init 1)"
  have e: "?r \<noteq> None" "enabled Go_on (the ?r)" "popped (the (cochan_exec Go_on (the ?r))) = [7]" by code_simp+
  obtain s where s: "?r = Some s" using e(1) unfolding not_None_eq by (elim exE)
  note e' = e(2,3) [unfolded s option.sel]
  obtain s' where s': "cochan_exec Go_on s = Some s'" using co_channel_safe [OF zero_less_one cochan_run_reach [OF cochan_reach_init s] e'(1)] by blast
  show ?thesis using s s' e'(2) [unfolded s' option.sel] by (intro exI conjI)
qed

text \<open>
  C15. No wake-up is lost. Whenever a coroutine runs its own code, or none runs, in a state reachable on an open channel of
  positive capacity, coroutines that wait to pop do so because the queue is empty and coroutines that wait to push because it is full; both never wait at once.
  Also on a closed channel no coroutine waits to pop while there is data.
\<close>

theorem co_channel_no_lost_wakeup:
  assumes "0 < cap" and "cochan_reach cap s" and "idle s"
  shows "(ch_consumers (chan s) \<noteq> [] \<longrightarrow> ch_data (chan s) = []) \<and>
    (\<not> ch_closed (chan s) \<longrightarrow> (ch_producers (chan s) \<noteq> [] \<longrightarrow> length (ch_data (chan s)) = cap) \<and> (ch_consumers (chan s) = [] \<or> ch_producers (chan s) = []))"
proof -
  obtain st where inv: "cochan_inv cap s st" using cochan_reach_inv assms(1,2) by blast
  have "queue_inv cap (chan s) None" using leave_inv(3,5) [OF inv assms(3)] by simp
  then show ?thesis by (auto simp: queue_inv_def)
qed

theorem co_channel_no_lost_wakeup_witness:
  "\<exists>s. cochan_run [Create, Push (7 :: nat) False, Push 8 True] (cochan_init 1) = Some s \<and> ch_producers (chan s) = [1] \<and> length (ch_data (chan s)) = 1"
proof -
  let ?r = "cochan_run [Create, Push (7 :: nat) False, Push 8 True] (cochan_init 1)"
  have e: "?r \<noteq> None" "idle (the ?r)" "ch_producers (chan (the ?r)) = [1]" "\<not> ch_closed (chan (the ?r))" by code_simp+
  obtain s where s: "?r = Some s" using e(1) unfolding not_None_eq by (elim exE)
  note e' = e(2-4) [unfolded s option.sel]
  have "length (ch_data (chan s)) = 1" using co_channel_no_lost_wakeup [OF zero_less_one cochan_run_reach [OF cochan_reach_init s] e'(1)] e'(2,3) by simp
  then show ?thesis using s e'(2) by (intro exI conjI)
qed

end
