(* ===== verification/Osw_Http.thy ===== *)
theory Osw_Http
  imports Osw_Frames Osw_Websocket "HOL-Library.Monad_Syntax"
begin

text \<open>
  HTTP/1 requests (\<^verbatim>\<open>src/protocol/http.cc\<close>, \<^verbatim>\<open>include/openswoole_http.h\<close>, \<^verbatim>\<open>openswoole_hex2dec\<close> of \<^verbatim>\<open>src/core/base.cc\<close>): the request line, the end of the header, the fields that
  give the length of the body, chunked bodies, and the encoding of URLs. A request works on the receive buffer of its
  socket, which is passed beside it. \<open>None\<close> is a fault: a read or a write outside of the memory.
\<close>

subsection \<open>Characters and memory\<close>

definition ascii :: "string \<Rightarrow> bytes" where
  "ascii s = map of_char s"

definition isspace :: "u8 \<Rightarrow> bool" where
  "isspace c \<longleftrightarrow> c = 32 \<or> 9 \<le> c \<and> c \<le> 13"

definition isdigit :: "u8 \<Rightarrow> bool" where
  "isdigit c \<longleftrightarrow> 48 \<le> c \<and> c \<le> 57"

definition isupper :: "u8 \<Rightarrow> bool" where
  "isupper c \<longleftrightarrow> 65 \<le> c \<and> c \<le> 90"

definition tolower :: "u8 \<Rightarrow> u8" where
  "tolower c = (if isupper c then c + 32 else c)"

definition toupper :: "u8 \<Rightarrow> u8" where
  "toupper c = (if 97 \<le> c \<and> c \<le> 122 then c - 32 else c)"

definition isxdigit :: "u8 \<Rightarrow> bool" where
  "isxdigit c \<longleftrightarrow> isdigit c \<or> 65 \<le> c \<and> c \<le> 70 \<or> 97 \<le> c \<and> c \<le> 102"

definition mem_at :: "bytes \<Rightarrow> nat \<Rightarrow> u8 option" where
  "mem_at m i = (if i < length m then Some (m ! i) else None)"

definition memcmp_eq :: "bytes \<Rightarrow> nat \<Rightarrow> bytes \<Rightarrow> bool option" where
  "memcmp_eq m p s = map_option (\<lambda>b. b = s) (mem_read p (length s) m)"

text \<open>Whether \<^verbatim>\<open>strncasecmp\<close> finds the bytes at \<open>p\<close> equal to the string; it reads up to the first difference.\<close>

fun strncasecmp_eq :: "bytes \<Rightarrow> nat \<Rightarrow> bytes \<Rightarrow> bool option" where
  "strncasecmp_eq m p [] = Some True"
| "strncasecmp_eq m p (c # s) =
     Option.bind (mem_at m p) (\<lambda>a. if tolower a = tolower c then strncasecmp_eq m (p + 1) s else Some False)"

text \<open>\<^verbatim>\<open>OSW_STRCASECT(p, pe - p, s)\<close>: the length is unsigned, and large when \<open>p\<close> is behind \<open>pe\<close>.\<close>

definition strcasect :: "bytes \<Rightarrow> nat \<Rightarrow> nat \<Rightarrow> bytes \<Rightarrow> bool option" where
  "strcasect m p pe s = (if p > pe \<or> length s \<le> pe - p then strncasecmp_eq m p s else Some False)"

definition openswoole_strcaseeq :: "bytes \<Rightarrow> bytes \<Rightarrow> bool" where
  "openswoole_strcaseeq s1 s2 \<longleftrightarrow> length s1 = length s2 \<and> map tolower s1 = map tolower s2"

subsection \<open>Methods and status\<close>

definition method_strings :: "bytes list" where
  "method_strings = map ascii
    [''DELETE'', ''GET'', ''HEAD'', ''POST'', ''PUT'', ''PATCH'', ''CONNECT'', ''OPTIONS'', ''TRACE'', ''COPY'', ''LOCK'', ''MKCOL'', ''MOVE'',
     ''PROPFIND'', ''PROPPATCH'', ''UNLOCK'', ''REPORT'', ''MKACTIVITY'', ''CHECKOUT'', ''MERGE'', ''M-SEARCH'', ''NOTIFY'',
     ''SUBSCRIBE'', ''UNSUBSCRIBE'', ''PURGE'', ''PRI'']"

definition OSW_HTTP_PRI :: nat where
  "OSW_HTTP_PRI = 26"

fun get_method_from :: "nat \<Rightarrow> bytes list \<Rightarrow> bytes \<Rightarrow> int" where
  "get_method_from i [] s = - 1"
| "get_method_from i (x # xs) s = (if openswoole_strcaseeq x s then int i + 1 else get_method_from (i + 1) xs s)"

definition get_method :: "bytes \<Rightarrow> int" where
  "get_method s = get_method_from 0 (take OSW_HTTP_PRI method_strings) s"

text \<open>The inner \<open>None\<close> is the null pointer.\<close>

definition get_method_string :: "int \<Rightarrow> bytes option option" where
  "get_method_string k =
     (if k < 0 \<or> k > int OSW_HTTP_PRI then Some None
      else if k = 0 then None
      else Some (Some (method_strings ! nat (k - 1))))"

definition status_messages :: "(int \<times> string) list" where
  "status_messages =
    [(100, ''100 Continue''), (101, ''101 Switching Protocols''), (201, ''201 Created''), (202, ''202 Accepted''),
     (203, ''203 Non-Authoritative Information''), (204, ''204 No Content''), (205, ''205 Reset Content''),
     (206, ''206 Partial Content''), (207, ''207 Multi-Status''), (208, ''208 Already Reported''), (226, ''226 IM Used''),
     (300, ''300 Multiple Choices''), (301, ''301 Moved Permanently''), (302, ''302 Found''), (303, ''303 See Other''),
     (304, ''304 Not Modified''), (305, ''305 Use Proxy''), (307, ''307 Temporary Redirect''), (400, ''400 Bad Request''),
     (401, ''401 Unauthorized''), (402, ''402 Payment Required''), (403, ''403 Forbidden''), (404, ''404 Not Found''),
     (405, ''405 Method Not Allowed''), (406, ''406 Not Acceptable''), (407, ''407 Proxy Authentication Required''),
     (408, ''408 Request Timeout''), (409, ''409 Conflict''), (410, ''410 Gone''), (411, ''411 Length Required''),
     (412, ''412 Precondition Failed''), (413, ''413 Request Entity Too Large''), (414, ''414 Request URI Too Long''),
     (415, ''415 Unsupported Media Type''), (416, ''416 Requested Range Not Satisfiable''), (417, ''417 Expectation Failed''),
     (418, ''418 I'' @ [CHR 0x27] @ ''m a teapot''), (421, ''421 Misdirected Request''), (422, ''422 Unprocessable Entity''), (423, ''423 Locked''),
     (424, ''424 Failed Dependency''), (426, ''426 Upgrade Required''), (428, ''428 Precondition Required''),
     (429, ''429 Too Many Requests''), (431, ''431 Request Header Fields Too Large''), (500, ''500 Internal Server Error''),
     (501, ''501 Method Not Implemented''), (502, ''502 Bad Gateway''), (503, ''503 Service Unavailable''),
     (504, ''504 Gateway Timeout''), (505, ''505 HTTP Version Not Supported''), (506, ''506 Variant Also Negotiates''),
     (507, ''507 Insufficient Storage''), (508, ''508 Loop Detected''), (510, ''510 Not Extended''),
     (511, ''511 Network Authentication Required'')]"

definition get_status_message :: "int \<Rightarrow> string" where
  "get_status_message code = (case map_of status_messages code of None \<Rightarrow> ''200 OK'' | Some s \<Rightarrow> s)"

subsection \<open>URL encoding\<close>

definition url_htoi_digit :: "u8 \<Rightarrow> int" where
  "url_htoi_digit c0 = (let c = tolower c0 in if isdigit c then uint c - 48 else uint c - 97 + 10)"

definition url_htoi :: "u8 \<Rightarrow> u8 \<Rightarrow> int" where
  "url_htoi a b = url_htoi_digit a * 16 + url_htoi_digit b"

text \<open>The loop decodes in place: it reads at \<open>data\<close>, with \<open>len\<close> bytes left, and writes at \<open>dest\<close>.\<close>

fun url_decode_loop :: "nat \<Rightarrow> nat \<Rightarrow> nat \<Rightarrow> bytes \<Rightarrow> (nat \<times> bytes) option" where
  "url_decode_loop 0 data dest m = Some (dest, m)"
| "url_decode_loop (Suc len) data dest m = do {
     c \<leftarrow> mem_at m data;
     if c = 43 then do { m1 \<leftarrow> mem_write dest [32] m; url_decode_loop len (data + 1) (dest + 1) m1 }
     else do {
       hex \<leftarrow> (if c = 37 \<and> len \<ge> 2 then do { a \<leftarrow> mem_at m (data + 1); b \<leftarrow> mem_at m (data + 2); Some (if isxdigit a \<and> isxdigit b then Some (url_htoi a b) else None) }
              else Some None);
       case hex of
         Some v \<Rightarrow> do { m1 \<leftarrow> mem_write dest [word_of_int v] m; url_decode_loop (len - 2) (data + 3) (dest + 1) m1 }
       | None \<Rightarrow> do { m1 \<leftarrow> mem_write dest [c] m; url_decode_loop len (data + 1) (dest + 1) m1 }
     }
   }"

definition url_decode :: "nat \<Rightarrow> bytes \<Rightarrow> (nat \<times> bytes) option" where
  "url_decode len m = do {
     (dest, m1) \<leftarrow> url_decode_loop len 0 0 m;
     m2 \<leftarrow> mem_write dest [0] m1;
     Some (dest, m2)
   }"

definition hexchars :: bytes where
  "hexchars = ascii ''0123456789ABCDEF''"

text \<open>The comparisons are those of signed characters.\<close>

definition url_escaped :: "u8 \<Rightarrow> bool" where
  "url_escaped c \<longleftrightarrow> (sint c < 48 \<and> c \<noteq> 45 \<and> c \<noteq> 46) \<or> (sint c < 65 \<and> sint c > 57) \<or> (sint c > 90 \<and> sint c < 97 \<and> c \<noteq> 95) \<or>
     (sint c > 122 \<and> c \<noteq> 126)"

fun url_encode_loop :: "bytes \<Rightarrow> nat \<Rightarrow> bytes \<Rightarrow> (nat \<times> bytes) option" where
  "url_encode_loop [] y ret = Some (y, ret)"
| "url_encode_loop (c # str) y ret = do {
     ret \<leftarrow> mem_write y [c] ret;
     if url_escaped c then do {
       ret \<leftarrow> mem_write y [37] ret;
       ret \<leftarrow> mem_write (y + 1) [hexchars ! unat (drop_bit 4 c)] ret;
       ret \<leftarrow> mem_write (y + 2) [hexchars ! unat (c AND 15)] ret;
       url_encode_loop str (y + 3) ret
     }
     else url_encode_loop str (y + 1) ret
   }"

text \<open>\<open>ret\<close> is the block that \<^verbatim>\<open>osw_malloc(len * 3)\<close> returns; the result is the copy of the string with its terminator.\<close>

definition url_encode :: "bytes \<Rightarrow> bytes \<Rightarrow> bytes option" where
  "url_encode ret str = do {
     (y, ret1) \<leftarrow> url_encode_loop str 0 ret;
     ret2 \<leftarrow> mem_write y [0] ret1;
     mem_read 0 (y + 1) ret2
   }"


subsection \<open>The request\<close>

record request =
  rq_method :: nat
  rq_version :: nat
  excepted :: bool
  header_parsed :: bool
  tried_to_dispatch :: bool
  known_length :: bool
  keep_alive :: bool
  chunked :: bool
  nobody_chunked :: bool
  url_offset :: nat
  url_length :: nat
  request_line_length :: nat
  header_length :: nat
  content_length :: nat

definition request_clean :: request where
  "request_clean = \<lparr>rq_method = 0, rq_version = 0, excepted = False, header_parsed = False, tried_to_dispatch = False, known_length = False,
     keep_alive = False, chunked = False, nobody_chunked = False, url_offset = 0, url_length = 0, request_line_length = 0,
     header_length = 0, content_length = 0\<rparr>"

text \<open>The chain of comparisons in \<^verbatim>\<open>get_protocol\<close>, in its order.\<close>

definition tried_methods :: "(bytes \<times> nat) list" where
  "tried_methods = map (apfst ascii)
    [(''GET'', 2), (''POST'', 4), (''PUT'', 5), (''PATCH'', 6), (''DELETE'', 1), (''HEAD'', 3), (''OPTIONS'', 8), (''COPY'', 10), (''LOCK'', 11),
     (''MKCOL'', 12), (''MOVE'', 13), (''PROPFIND'', 14), (''PROPPATCH'', 15), (''UNLOCK'', 16), (''REPORT'', 17), (''PURGE'', 25)]"

fun match_method :: "bytes \<Rightarrow> (bytes \<times> nat) list \<Rightarrow> (bytes \<times> nat) option option" where
  "match_method m [] = Some None"
| "match_method m ((s, k) # xs) = Option.bind (memcmp_eq m 0 s) (\<lambda>e. if e then Some (Some (s, k)) else match_method m xs)"

datatype line_result = L_error | L_excepted | L_end nat

text \<open>The loop over the URL and the version.\<close>

function version_loop :: "bytes \<Rightarrow> nat \<Rightarrow> nat \<Rightarrow> nat \<Rightarrow> request \<Rightarrow> (line_result \<times> request) option" where
  "version_loop m pe state p r =
     (if p < pe then
        Option.bind (mem_at m p) (\<lambda>c.
          if state = 0 then
            (if isspace c then version_loop m pe 0 (p + 1) r
             else version_loop m pe 1 (p + 1) (r\<lparr>url_offset := wrap32 p\<rparr>))
          else if state = 1 then
            (if isspace c then version_loop m pe 2 (p + 1) (r\<lparr>url_length := wrap32 (p - url_offset r)\<rparr>)
             else version_loop m pe 1 (p + 1) r)
          else
            (if isspace c then version_loop m pe 2 (p + 1) r
             else if pe - p < 8 then Some (L_error, r)
             else Option.bind (memcmp_eq m p (ascii ''HTTP/1.1'')) (\<lambda>v11.
               if v11 then Some (L_end p, r\<lparr>rq_version := 2\<rparr>)
               else Option.bind (memcmp_eq m p (ascii ''HTTP/1.0'')) (\<lambda>v10.
                 if v10 then Some (L_end p, r\<lparr>rq_version := 1\<rparr>) else Some (L_excepted, r)))))
      else Some (L_end p, r))"
  by pat_completeness auto
termination
  by (relation "measure (\<lambda>(m, pe, state, p, r). pe - p)") auto

declare version_loop.simps [simp del]

definition OSW_HTTP2_PRI_STRING :: bytes where
  "OSW_HTTP2_PRI_STRING = ascii ''PRI * HTTP/2.0'' @ [13, 10, 13, 10] @ ascii ''SM'' @ [13, 10, 13, 10]"

definition get_protocol :: "ostring \<Rightarrow> request \<Rightarrow> (int \<times> ostring \<times> request) option" where
  "get_protocol b r =
     (if st_length b < 16 then Some (- 1, b, r)
      else do {
        mm \<leftarrow> match_method (st_mem b) tried_methods;
        case mm of
          Some (s, k) \<Rightarrow> do {
            (x, r1) \<leftarrow> version_loop (st_mem b) (st_length b) 0 (length s) (r\<lparr>rq_method := k\<rparr>);
            Some (case x of
              L_error \<Rightarrow> (- 1, b, r1)
            | L_excepted \<Rightarrow> (- 1, b, r1\<lparr>excepted := True\<rparr>)
            | L_end p \<Rightarrow> (0, b\<lparr>st_offset := int (p + 8)\<rparr>, r1\<lparr>request_line_length := wrap32 (p + 8)\<rparr>))
          }
        | None \<Rightarrow> do {
            pri \<leftarrow> memcmp_eq (st_mem b) 0 (ascii ''PRI'');
            if pri then
              (let r1 = r\<lparr>rq_method := OSW_HTTP_PRI\<rparr> in
               if st_length b \<ge> length OSW_HTTP2_PRI_STRING then do {
                 e \<leftarrow> memcmp_eq (st_mem b) 0 OSW_HTTP2_PRI_STRING;
                 Some (if e then (0, b\<lparr>st_offset := int (length OSW_HTTP2_PRI_STRING)\<rparr>, r1) else (- 1, b, r1\<lparr>excepted := True\<rparr>))
               }
               else Some (- 1, b, r1\<lparr>excepted := True\<rparr>))
            else Some (- 1, b, r\<lparr>excepted := True\<rparr>)
          }
      })"

definition CRLF :: bytes where
  "CRLF = [13, 10]"

function header_scan :: "bytes \<Rightarrow> nat \<Rightarrow> nat \<Rightarrow> (bool \<times> nat) option" where
  "header_scan m len p =
     (if p + 4 \<le> len then Option.bind (memcmp_eq m p (CRLF @ CRLF)) (\<lambda>e. if e then Some (True, p) else header_scan m len (p + 1))
      else Some (False, p))"
  by pat_completeness auto
termination
  by (relation "measure (\<lambda>(m, len, p). len - p)") auto

declare header_scan.simps [simp del]

definition get_header_length :: "ostring \<Rightarrow> request \<Rightarrow> (int \<times> ostring \<times> request) option" where
  "get_header_length b r = do {
     (found, p) \<leftarrow> header_scan (st_mem b) (st_length b) (nat (st_offset b));
     Some (if found then (0, b\<lparr>st_offset := int (p + 4)\<rparr>, r\<lparr>header_length := wrap32 (p + 4)\<rparr>)
           else (- 1, b\<lparr>st_offset := int p\<rparr>, r))
   }"

subsection \<open>Header fields\<close>

function skip_spaces :: "bytes \<Rightarrow> nat \<Rightarrow> nat option" where
  "skip_spaces m p = (if p < length m then (if m ! p = 32 then skip_spaces m (p + 1) else Some p) else None)"
  by pat_completeness auto
termination
  by (relation "measure (\<lambda>(m, p). length m - p)") auto

declare skip_spaces.simps [simp del]

text \<open>\<^verbatim>\<open>strtoull\<close> in base 10: white space, a sign, digits; it saturates.\<close>

function skip_isspace :: "bytes \<Rightarrow> nat \<Rightarrow> nat option" where
  "skip_isspace m p = (if p < length m then (if isspace (m ! p) then skip_isspace m (p + 1) else Some p) else None)"
  by pat_completeness auto
termination
  by (relation "measure (\<lambda>(m, p). length m - p)") auto

declare skip_isspace.simps [simp del]

function dec_digits :: "bytes \<Rightarrow> nat \<Rightarrow> nat \<Rightarrow> nat option" where
  "dec_digits m p v = (if p < length m then (if isdigit (m ! p) then dec_digits m (p + 1) (v * 10 + (unat (m ! p) - 48)) else Some v) else None)"
  by pat_completeness auto
termination
  by (relation "measure (\<lambda>(m, p, v). length m - p)") auto

declare dec_digits.simps [simp del]

definition strtoull :: "bytes \<Rightarrow> nat \<Rightarrow> nat option" where
  "strtoull m p = do {
     q \<leftarrow> skip_isspace m p;
     c \<leftarrow> mem_at m q;
     v \<leftarrow> dec_digits m (if c = 43 \<or> c = 45 then q + 1 else q) 0;
     Some (if v > 2 ^ 64 - 1 then 2 ^ 64 - 1 else if c = 45 then (2 ^ 64 - v) mod 2 ^ 64 else v)
   }"

lemma skip_spaces_ge: "skip_spaces m p = Some q \<Longrightarrow> p \<le> q"
  by (induction m p rule: skip_spaces.induct) (auto simp: skip_spaces.simps split: if_splits)

function header_loop :: "bytes \<Rightarrow> nat \<Rightarrow> nat \<Rightarrow> request \<Rightarrow> request option" where
  "header_loop m pe p r =
     (if p < pe then do {
        c1 \<leftarrow> mem_at m (p - 1);
        c2 \<leftarrow> mem_at m (p - 2);
        if c1 = 10 \<and> c2 = 13 then do {
          is_length \<leftarrow> strcasect m p pe (ascii ''Content-Length:'');
          if is_length then do {
            q \<leftarrow> skip_spaces m (p + 15);
            n \<leftarrow> strtoull m q;
            header_loop m pe (q + 1) (r\<lparr>content_length := min n (2 ^ 32 - 1), known_length := True\<rparr>)
          }
          else do {
            is_connection \<leftarrow> strcasect m p pe (ascii ''Connection:'');
            if is_connection then do {
              q \<leftarrow> skip_spaces m (p + 11);
              ka \<leftarrow> strcasect m q pe (ascii ''keep-alive'');
              header_loop m pe (q + 1) (if ka then r\<lparr>keep_alive := True\<rparr> else r)
            }
            else do {
              is_encoding \<leftarrow> strcasect m p pe (ascii ''Transfer-Encoding:'');
              if is_encoding then do {
                q \<leftarrow> skip_spaces m (p + 18);
                ch \<leftarrow> strcasect m q pe (ascii ''chunked'');
                header_loop m pe (q + 1) (if ch then r\<lparr>chunked := True\<rparr> else r)
              }
              else header_loop m pe (p + 1) r
            }
          }
        }
        else header_loop m pe (p + 1) r
      }
      else Some r)"
  by pat_completeness auto
termination
  by (relation "measure (\<lambda>(m, pe, p, r). pe - p)") (fastforce dest: skip_spaces_ge)+

declare header_loop.simps [simp del]

definition parse_header_info :: "ostring \<Rightarrow> request \<Rightarrow> request option" where
  "parse_header_info b r = do {
     r1 \<leftarrow> header_loop (st_mem b) (header_length r - 4) (request_line_length r + 2) r;
     let r2 = r1\<lparr>header_parsed := True\<rparr>;
     Some (if chunked r2 \<and> known_length r2 \<and> content_length r2 = 0 then r2\<lparr>nobody_chunked := True\<rparr> else r2)
   }"


subsection \<open>Chunked bodies\<close>

text \<open>\<^verbatim>\<open>openswoole_hex2dec\<close>: the value and the number of bytes read. Every letter is a digit, and the value wraps.\<close>

function hex_loop :: "bytes \<Rightarrow> nat \<Rightarrow> u64 \<Rightarrow> (u64 \<times> nat) option" where
  "hex_loop m p v =
     (if p < length m then
        (let c = m ! p; u = toupper c in
         if isdigit c then hex_loop m (p + 1) (v * 16 + ucast (c - 48))
         else if 65 \<le> u \<and> u \<le> 90 then hex_loop m (p + 1) (v * 16 + ucast (u - 65) + 10)
         else Some (v, p))
      else None)"
  by pat_completeness auto
termination
  by (relation "measure (\<lambda>(m, p, v). length m - p)") auto

declare hex_loop.simps [simp del]

definition openswoole_hex2dec :: "bytes \<Rightarrow> nat \<Rightarrow> (u64 \<times> nat) option" where
  "openswoole_hex2dec m p = do {
     x \<leftarrow> strncasecmp_eq m p (ascii ''0x'');
     (v, q) \<leftarrow> hex_loop m (if x then p + 2 else p) 0;
     Some (v, q - p)
   }"

datatype chunk_next = Chunk_return int | Chunk_next u64

text \<open>One round of the loop. The pointers are 64-bit addresses; \<open>base\<close> is that of the buffer.\<close>

definition chunk_step :: "u64 \<Rightarrow> u64 \<Rightarrow> ostring \<Rightarrow> request \<Rightarrow> (chunk_next \<times> ostring \<times> request) option" where
  "chunk_step base p b r =
     (let pe = base + word_of_nat (st_length b) in
      if pe - p < 3 then Some (Chunk_return (- 1), b, r)
      else do {
        let i = unat (p - base);
        (chunk_length, n_parsed) \<leftarrow> openswoole_hex2dec (st_mem b) i;
        c \<leftarrow> mem_at (st_mem b) (i + n_parsed);
        if c \<noteq> 13 then Some (Chunk_return (- 1), b, r\<lparr>excepted := True\<rparr>)
        else
          (let p1 = p + word_of_nat n_parsed + 2 + chunk_length + 2;
               r1 = r\<lparr>content_length := unat (ucast (p1 - (base + word_of_nat (header_length r))) :: u32)\<rparr>
           in if p1 > pe then Some (Chunk_return (- 1), b, r1)
              else
                (let b1 = b\<lparr>st_offset := sint (p1 - base)\<rparr> in
                 if chunk_length = 0 then Some (Chunk_return 0, b1, r1\<lparr>known_length := True\<rparr>) else Some (Chunk_next p1, b1, r1)))
      })"

partial_function (option) chunk_loop :: "u64 \<Rightarrow> u64 \<Rightarrow> ostring \<Rightarrow> request \<Rightarrow> (int \<times> ostring \<times> request) option" where
  "chunk_loop base p b r = do {
     (x, b1, r1) \<leftarrow> chunk_step base p b r;
     case x of Chunk_return k \<Rightarrow> Some (k, b1, r1) | Chunk_next p1 \<Rightarrow> chunk_loop base p1 b1 r1
   }"

definition get_chunked_body_length :: "u64 \<Rightarrow> ostring \<Rightarrow> request \<Rightarrow> (int \<times> ostring \<times> request) option" where
  "get_chunked_body_length base b r = chunk_loop base (base + word_of_int (st_offset b)) b r"

subsection \<open>If-Modified-Since\<close>

text \<open>\<open>sizeof\<close> counts the terminator of the string.\<close>

function modified_loop :: "bytes \<Rightarrow> nat \<Rightarrow> nat \<Rightarrow> nat \<Rightarrow> nat \<Rightarrow> bytes option" where
  "modified_loop m pe state date p =
     (if p < pe then do {
        if state = 0 then do {
          e \<leftarrow> strcasect m p pe (ascii ''If-Modified-Since'');
          if e then modified_loop m pe 1 date (p + 18 + 1) else modified_loop m pe 0 date (p + 1)
        }
        else if state = 1 then do {
          c \<leftarrow> mem_at m p;
          if isspace c then modified_loop m pe 1 date (p + 1) else modified_loop m pe 2 p (p + 1)
        }
        else do {
          e \<leftarrow> strcasect m p pe CRLF;
          if e then mem_read date (p - date) m else modified_loop m pe 2 date (p + 1)
        }
      }
      else Some [])"
  by pat_completeness auto
termination
  by (relation "measure (\<lambda>(m, pe, state, date, p). pe - p)") auto

declare modified_loop.simps [simp del]

definition get_date_if_modified_since :: "ostring \<Rightarrow> request \<Rightarrow> bytes option" where
  "get_date_if_modified_since b r = modified_loop (st_mem b) (header_length r) 0 0 (url_offset r + url_length r + 10)"

subsection \<open>Upgraded connections\<close>

text \<open>Behind the handshake of a WebSocket, or in HTTP/2, packages are frames with a length in their header.\<close>

definition STATUS_HANDSHAKE :: nat where
  "STATUS_HANDSHAKE = 2"

definition http_get_package_length :: "nat \<Rightarrow> bool \<Rightarrow> bytes \<Rightarrow> int option" where
  "http_get_package_length status http2_stream data =
     (if status \<ge> STATUS_HANDSHAKE then map_option fst (ws_get_package_length data)
      else if http2_stream then http2_get_frame_length data
      else Some (- 1))"

definition http_get_package_length_size :: "nat \<Rightarrow> bool \<Rightarrow> nat" where
  "http_get_package_length_size status http2_stream =
     (if status \<ge> STATUS_HANDSHAKE then 2 + 4 + 8 else if http2_stream then 9 else 0)"


definition http_dispatch_frame :: "allocator \<Rightarrow> nat \<Rightarrow> bool \<Rightarrow> bytes \<Rightarrow> ws_conn \<Rightarrow> (int \<times> ws_conn) option" where
  "http_dispatch_frame al max_length http2_stream data c =
     (if websocket_status c \<ge> STATUS_HANDSHAKE then ws_dispatch_frame al max_length data (length data) c
      else if http2_stream then Some (0, ws_dispatch_task data c)
      else Some (- 1, c))"

subsection \<open>URL encoding: what it computes\<close>

function url_decoded :: "bytes \<Rightarrow> bytes" where
  "url_decoded [] = []"
| "url_decoded (c # cs) =
     (if c = 43 then 32 # url_decoded cs
      else if c = 37 \<and> 2 \<le> length cs \<and> isxdigit (cs ! 0) \<and> isxdigit (cs ! 1)
      then word_of_int (url_htoi (cs ! 0) (cs ! 1)) # url_decoded (drop 2 cs)
      else c # url_decoded cs)"
  by pat_completeness auto
termination
  by (relation "measure length") auto

definition url_encoded_char :: "u8 \<Rightarrow> bytes" where
  "url_encoded_char c = (if url_escaped c then [37, hexchars ! unat (drop_bit 4 c), hexchars ! unat (c AND 15)] else [c])"

definition url_encoded :: "bytes \<Rightarrow> bytes" where
  "url_encoded cs = concat (map url_encoded_char cs)"

lemma mem_write_front:
  assumes "mem_write p bs m = Some m'"
  shows "take (p + length bs) m' = take p m @ bs" "drop (p + length bs) m' = drop (p + length bs) m" "length m' = length m"
  using assms by (auto simp: mem_write_def split: if_splits)

lemma drop_ahead: "drop p m = drop p m' \<Longrightarrow> p \<le> q \<Longrightarrow> drop q m = drop q m'"
proof -
  assume e: "drop p m = drop p m'" and l: "p \<le> q"
  have "drop q x = drop (q - p) (drop p x)" for x :: "'a list" using l by simp
  then show ?thesis by (simp only: e)
qed

lemma mem_at_drop: "p < length m \<Longrightarrow> mem_at m p = Some (hd (drop p m))"
  by (simp add: mem_at_def hd_drop_conv_nth)

text \<open>A step of the decoder that reads \<open>k\<close> bytes and writes one.\<close>

lemma url_decode_write:
  assumes w: "mem_write dest [v] m = Some m1" and d: "dest \<le> data" "1 \<le> k"
    and rest: "url_decode_loop len (data + k) (dest + 1) m1 = Some (dest + 1 + length D, m')" "take (dest + 1 + length D) m' = take (dest + 1) m1 @ D" "length m' = length m1"
  shows "url_decode_loop len (data + k) (dest + 1) m1 = Some (dest + length (v # D), m') \<and> take (dest + length (v # D)) m' = take dest m @ v # D \<and> length m' = length m"
  using rest mem_write_front [OF w] by simp

lemma url_decode_loop_spec:
  assumes "dest \<le> data" and "data + len \<le> length m"
  shows "\<exists>m'. url_decode_loop len data dest m = Some (dest + length (url_decoded (take len (drop data m))), m') \<and>
     take (dest + length (url_decoded (take len (drop data m)))) m' = take dest m @ url_decoded (take len (drop data m)) \<and> length m' = length m"
  using assms
proof (induction len arbitrary: data dest m rule: less_induct)
  case (less n)
  show ?case
  proof (cases n)
    case 0
    then show ?thesis by simp
  next
    case (Suc len)
    let ?c = "m ! data"
    have cs: "take n (drop data m) = ?c # take len (drop (data + 1) m)"
      using less.prems Suc by (simp add: Cons_nth_drop_Suc [symmetric])
    have step: "\<exists>m1. mem_write dest [v] m = Some m1 \<and>
        (\<exists>m'. url_decode_loop l (data + k) (dest + 1) m1 = Some (dest + length (v # url_decoded (take l (drop (data + k) m))), m') \<and>
          take (dest + length (v # url_decoded (take l (drop (data + k) m)))) m' = take dest m @ v # url_decoded (take l (drop (data + k) m)) \<and> length m' = length m)"
      if l: "l < n" "k + l = n" for v k l
    proof -
      have b: "dest + length [v] \<le> length m" using less.prems Suc by simp
      then obtain m1 where m1: "mem_write dest [v] m = Some m1" using mem_write_Some by blast
      have e: "drop (data + k) m1 = drop (data + k) m" by (rule drop_ahead [OF mem_write_front(2) [OF m1]]) (use less.prems(1) l in simp)
      have "dest + 1 \<le> data + k" "data + k + l \<le> length m1" using less.prems l mem_write_front(3) [OF m1] by auto
      from less.IH [OF l(1) this] obtain m' where "url_decode_loop l (data + k) (dest + 1) m1 = Some (dest + 1 + length (url_decoded (take l (drop (data + k) m))), m')"
          "take (dest + 1 + length (url_decoded (take l (drop (data + k) m)))) m' = take (dest + 1) m1 @ url_decoded (take l (drop (data + k) m))" "length m' = length m1"
        unfolding e by blast
      from url_decode_write [OF m1 less.prems(1) _ this] l m1 show ?thesis by auto
    qed
    have at: "mem_at m data = Some ?c" "2 \<le> len \<Longrightarrow> mem_at m (data + 1) = Some (m ! (data + 1))" "2 \<le> len \<Longrightarrow> mem_at m (data + 2) = Some (m ! (data + 2))"
      using less.prems Suc by (auto simp: mem_at_def)
    have nth: "2 \<le> len \<Longrightarrow> take len (drop (data + 1) m) ! 0 = m ! (data + 1)" "2 \<le> len \<Longrightarrow> take len (drop (data + 1) m) ! 1 = m ! (data + 2)"
        "2 \<le> len \<Longrightarrow> drop 2 (take len (drop (data + 1) m)) = take (len - 2) (drop (data + 3) m)" "length (take len (drop (data + 1) m)) = len"
      using less.prems Suc by (auto simp: drop_take numeral_3_eq_3)
    define hex where "hex \<longleftrightarrow> ?c = 37 \<and> 2 \<le> len \<and> isxdigit (m ! (data + 1)) \<and> isxdigit (m ! (data + 2))"
    define v where "v = (if ?c = 43 then 32 else if hex then word_of_int (url_htoi (m ! (data + 1)) (m ! (data + 2))) else ?c)"
    define k where "k = (if ?c \<noteq> 43 \<and> hex then 3 else 1 :: nat)"
    have kl: "n - k < n" "k + (n - k) = n" using Suc by (auto simp: k_def hex_def)
    have "url_decoded (take n (drop data m)) = v # url_decoded (take (n - k) (drop (data + k) m))"
      unfolding cs v_def k_def using nth Suc by (cases "2 \<le> len") (simp_all add: hex_def del: One_nat_def add_Suc_right)
    moreover have "url_decode_loop n data dest m = Option.bind (mem_write dest [v] m) (url_decode_loop (n - k) (data + k) (dest + 1))"
      unfolding Suc v_def k_def using at by (cases "2 \<le> len") (simp_all add: hex_def del: One_nat_def add_Suc_right)
    ultimately show ?thesis using step [OF kl, of v] by auto
  qed
qed


lemma mem_write_twice:
  "mem_write p (v # vs) m = Some m' \<Longrightarrow> mem_write p [v] m = Some (take p m @ v # drop (p + 1) m) \<and>
     mem_write (p + 1) vs (take p m @ v # drop (p + 1) m) = Some m'"
  by (auto simp: mem_write_def min_def add.commute split: if_splits)

lemma url_encode_loop_spec:
  assumes "y + length (url_encoded str) \<le> length ret"
  shows "\<exists>ret'. url_encode_loop str y ret = Some (y + length (url_encoded str), ret') \<and>
    take (y + length (url_encoded str)) ret' = take y ret @ url_encoded str \<and> length ret' = length ret"
  using assms
proof (induction str arbitrary: y ret)
  case Nil
  then show ?case by (simp add: url_encoded_def)
next
  case (Cons c str)
  let ?e = "url_encoded_char c"
  have l: "length (url_encoded (c # str)) = length ?e + length (url_encoded str)" "url_encoded (c # str) = ?e @ url_encoded str"
    by (simp_all add: url_encoded_def)
  then obtain ret1 where r1: "mem_write y ?e ret = Some ret1" using mem_write_Some [of y ?e ret] Cons.prems by auto
  note f = mem_write_front [OF r1]
  have "url_encode_loop (c # str) y ret = url_encode_loop str (y + length ?e) ret1"
  proof (cases "url_escaped c")
    case True
    then have e: "?e = [37, hexchars ! unat (drop_bit 4 c), hexchars ! unat (c AND 15)]" by (simp add: url_encoded_char_def)
    let ?r = "take y ret @ 37 # drop (y + 1) ret"
    have n: "y + 3 \<le> length ret" using r1 e by (auto simp: mem_write_def split: if_splits)
    have w0: "mem_write y [c] ret = Some (take y ret @ c # drop (y + 1) ret)" "mem_write y [37] (take y ret @ c # drop (y + 1) ret) = Some ?r"
      using n by (simp_all add: mem_write_def)
    have w1: "mem_write (y + 1) [hexchars ! unat (drop_bit 4 c), hexchars ! unat (c AND 15)] ?r = Some ret1"
      using mem_write_twice [OF r1 [unfolded e]] by simp
    show ?thesis using True w0 mem_write_twice [OF w1] e by (simp add: numeral_3_eq_3)
  next
    case False
    then show ?thesis using r1 by (simp add: url_encoded_char_def)
  qed
  moreover have "y + length ?e + length (url_encoded str) \<le> length ret1" using Cons.prems l f(3) by simp
  ultimately show ?case using Cons.IH [of "y + length ?e" ret1] f l by (auto simp: add.assoc)
qed

lemma url_encoded_length: "length (url_encoded cs) \<le> 3 * length cs" "length (url_encoded cs) = 3 * length cs \<longleftrightarrow> (\<forall>c\<in>set cs. url_escaped c)"
proof -
  have "length (url_encoded cs) \<le> 3 * length cs \<and> (length (url_encoded cs) = 3 * length cs \<longleftrightarrow> (\<forall>c\<in>set cs. url_escaped c))"
    by (induction cs) (auto simp: url_encoded_def url_encoded_char_def)
  then show "length (url_encoded cs) \<le> 3 * length cs" "length (url_encoded cs) = 3 * length cs \<longleftrightarrow> (\<forall>c\<in>set cs. url_escaped c)" by simp_all
qed

text \<open>The decoder on what the encoder writes for a byte.\<close>

lemma hexchars_digit: "n < 16 \<Longrightarrow> isxdigit (hexchars ! n) \<and> url_htoi_digit (hexchars ! n) = int n"
proof -
  have "\<forall>n\<in>set [0..<16]. isxdigit (hexchars ! n) \<and> url_htoi_digit (hexchars ! n) = int n" by code_simp
  then show "n < 16 \<Longrightarrow> ?thesis" by simp
qed

lemma url_decoded_char: "url_decoded (url_encoded_char c @ cs) = c # url_decoded cs"
proof -
  let ?h = "unat (drop_bit 4 c)" and ?l = "unat (c AND 15)"
  have h: "?h = unat c div 16" by (simp add: unsigned_drop_bit_eq drop_bit_eq_div [where 'a = nat] take_bit_nat_eq_self u8_less)
  have "c AND 15 = take_bit 4 c" by (simp add: take_bit_eq_mask mask_eq_exp_minus_1)
  then have l: "?l = unat c mod 16" by (simp add: unsigned_take_bit_eq take_bit_eq_mod [where 'a = nat])
  have "isxdigit (hexchars ! ?h)" "isxdigit (hexchars ! ?l)" "url_htoi_digit (hexchars ! ?h) = int ?h" "url_htoi_digit (hexchars ! ?l) = int ?l"
    using hexchars_digit [of ?h] hexchars_digit [of ?l] u8_less [of c] unfolding h l by auto
  moreover have "?h * 16 + ?l = unat c" unfolding h l by simp
  then have "int ?h * 16 + int ?l = int (unat c)" by linarith
  moreover have "url_escaped 43" "url_escaped 37" by code_simp+
  ultimately show ?thesis by (auto simp: url_encoded_char_def url_htoi_def)
qed

lemma url_decoded_encoded: "url_decoded (url_encoded cs) = cs"
  by (induction cs) (simp_all add: url_encoded_def url_decoded_char del: url_decoded.simps(2))


lemma url_decoded_length: "length (url_decoded cs) \<le> length cs"
  by (induction cs rule: url_decoded.induct) auto

lemma url_decode_spec:
  assumes "len < length m"
  shows "\<exists>m'. url_decode len m = Some (length (url_decoded (take len m)), m') \<and>
    take (length (url_decoded (take len m)) + 1) m' = url_decoded (take len m) @ [0]"
proof -
  let ?D = "url_decoded (take len m)"
  obtain m1 where m1: "url_decode_loop len 0 0 m = Some (length ?D, m1)" "take (length ?D) m1 = ?D" "length m1 = length m"
    using url_decode_loop_spec [of 0 0 len m] assms by auto
  have "length ?D \<le> len" using url_decoded_length [of "take len m"] by simp
  then obtain m2 where m2: "mem_write (length ?D) [0] m1 = Some m2" using mem_write_Some [of "length ?D" "[0]" m1] m1(3) assms by auto
  show ?thesis using m1 m2 mem_write_front(1) [OF m2] by (auto simp: url_decode_def)
qed

text \<open>
  C28. URL encoding is inverted by decoding: with the block of \<open>3 * len\<close> bytes that it allocates, the encoder gives the
  percent encoding of the string, and the in-place decoder turns that back into the string; except that when every byte has to
  be escaped, and also for the empty string, the encoder writes its terminator behind the end of the block.
\<close>

theorem url_roundtrip:
  assumes "length ret = 3 * length str"
  shows "if \<forall>c\<in>set str. url_escaped c then url_encode ret str = None
    else \<exists>m. url_encode ret str = Some (url_encoded str @ [0]) \<and>
      url_decode (length (url_encoded str)) (url_encoded str @ [0]) = Some (length str, m) \<and> take (length str + 1) m = str @ [0]"
proof -
  obtain ret1 where r: "url_encode_loop str 0 ret = Some (length (url_encoded str), ret1)" "take (length (url_encoded str)) ret1 = url_encoded str" "length ret1 = length ret"
    using url_encode_loop_spec [of 0 str ret] url_encoded_length(1) [of str] assms by auto
  show ?thesis
  proof (cases "\<forall>c\<in>set str. url_escaped c")
    case True
    then have "mem_write (length (url_encoded str)) [0] ret1 = None" using url_encoded_length(2) [of str] r(3) assms by (simp add: mem_write_def)
    then show ?thesis using r True by (simp add: url_encode_def)
  next
    case False
    then have n: "length (url_encoded str) < length ret1" using url_encoded_length [of str] r(3) assms by linarith
    then obtain ret2 where r2: "mem_write (length (url_encoded str)) [0] ret1 = Some ret2" using mem_write_Some [of "length (url_encoded str)" "[0]" ret1] by auto
    have "mem_read 0 (length (url_encoded str) + 1) ret2 = Some (url_encoded str @ [0])"
      using mem_write_front(1,3) [OF r2] r(2) n by (simp add: mem_read_def)
    then have "url_encode ret str = Some (url_encoded str @ [0])" using r(1) r2 by (simp add: url_encode_def)
    then show ?thesis using url_decode_spec [of "length (url_encoded str)" "url_encoded str @ [0]"] False by (auto simp: url_decoded_encoded)
  qed
qed

theorem url_roundtrip_witness:
  "url_encode (replicate 9 0) (ascii ''a b'') = Some (ascii ''a%20b'' @ [0]) \<and> url_encode (replicate 3 0) (ascii ''/'') = None"
proof -
  have "url_encode (replicate 3 0) (ascii ''/'') = None" using url_roundtrip [of "replicate 3 0" "ascii ''/''"] by (auto simp: ascii_def url_escaped_def)
  moreover have "url_encode (replicate 9 0) (ascii ''a b'') = Some (url_encoded (ascii ''a b'') @ [0])"
    using url_roundtrip [of "replicate 9 0" "ascii ''a b''"] by (auto simp: ascii_def url_escaped_def split: if_splits)
  moreover have "url_encoded (ascii ''a b'') = ascii ''a%20b''" by code_simp
  ultimately show ?thesis by simp
qed


subsection \<open>The end of the header\<close>

abbreviation HEADER_END :: bytes where
  "HEADER_END \<equiv> CRLF @ CRLF"

lemma memcmp_occurs: "p + length s \<le> len \<Longrightarrow> len \<le> length m \<Longrightarrow> memcmp_eq m p s = Some (occurs s p (take len m))"
  by (simp add: memcmp_eq_def mem_read_def occurs_def drop_take min_def)

lemma not_occurs_end: "s \<noteq> [] \<Longrightarrow> len < p + length s \<Longrightarrow> \<not> occurs s p (take len m)"
  using occurs_le [of s p "take len m"] by auto

lemma CRLF_simps: "length CRLF = 2" "CRLF \<noteq> []"
  by (simp_all add: CRLF_def)

lemma header_scan_found:
  assumes "len \<le> length m" and "occurs HEADER_END q (take len m)" and "p \<le> q" and "\<forall>i. p \<le> i \<and> i < q \<longrightarrow> \<not> occurs HEADER_END i (take len m)"
  shows "header_scan m len p = Some (True, q)"
  using assms
proof (induction "q - p" arbitrary: p)
  case 0
  then have "q + 4 \<le> len" using occurs_le [of HEADER_END q "take len m"] by (simp add: CRLF_simps)
  then show ?case using 0 memcmp_occurs [of q HEADER_END len m] by (simp add: header_scan.simps CRLF_simps)
next
  case (Suc n)
  then have le: "q + 4 \<le> len" "p < q" using occurs_le [of HEADER_END q "take len m"] by (simp_all add: CRLF_simps)
  then have "memcmp_eq m p HEADER_END = Some False" using Suc.prems memcmp_occurs [of p HEADER_END len m] by (simp add: CRLF_simps)
  then show ?case using Suc.hyps(1) [of "p + 1"] Suc.hyps(2) Suc.prems le by (subst header_scan.simps) simp
qed

lemma header_scan_none:
  assumes "len \<le> length m" and "\<forall>i\<ge>p. \<not> occurs HEADER_END i (take len m)"
  shows "header_scan m len p = Some (False, max p (len - 3))"
  using assms
proof (induction "len - p" arbitrary: p)
  case 0
  then show ?case by (subst header_scan.simps) simp
next
  case (Suc n)
  show ?case
  proof (cases "p + 4 \<le> len")
    case True
    then have "memcmp_eq m p HEADER_END = Some False" using Suc.prems memcmp_occurs [of p HEADER_END len m] by (simp add: CRLF_simps)
    then show ?thesis using Suc.hyps(1) [of "p + 1"] Suc.hyps(2) Suc.prems True by (subst header_scan.simps) simp
  next
    case False
    then show ?thesis using Suc.hyps(2) by (subst header_scan.simps) auto
  qed
qed

subsection \<open>Well-formed requests without a body\<close>

text \<open>
  A request: one of the methods, a URL without white space, the version and the end of the line, separated by single spaces;
  then header fields, among them none that announces a body, and the empty line.
\<close>

definition request_line :: "bytes \<Rightarrow> bytes \<Rightarrow> bytes \<Rightarrow> bytes" where
  "request_line s url ver = s @ [32] @ url @ [32] @ ver"

definition names_field :: "bytes \<Rightarrow> nat \<Rightarrow> bytes \<Rightarrow> bool" where
  "names_field h i s \<longleftrightarrow> 2 \<le> i \<and> occurs CRLF (i - 2) h \<and> map tolower (take (length s) (drop i h)) = map tolower s"

definition bodyless :: "bytes \<Rightarrow> bool" where
  "bodyless h \<longleftrightarrow> (\<forall>i<length h. \<not> names_field h i (ascii ''Content-Length:'') \<and> \<not> names_field h i (ascii ''Transfer-Encoding:''))"

definition plain_request :: "bytes \<Rightarrow> bool" where
  "plain_request h \<longleftrightarrow>
     (\<exists>s k url ver fields. (s, k) \<in> set tried_methods \<and> url \<noteq> [] \<and> list_all (\<lambda>c. \<not> isspace c) url \<and> ver \<in> {ascii ''HTTP/1.1'', ascii ''HTTP/1.0''} \<and>
        h = request_line s url ver @ fields) \<and>
     (\<forall>i. occurs HEADER_END i h \<longleftrightarrow> i + 4 = length h) \<and> bodyless h"


lemma tried_methods_eval:
  "tried_methods =
    [([71, 69, 84], 2), ([80, 79, 83, 84], 4), ([80, 85, 84], 5), ([80, 65, 84, 67, 72], 6), ([68, 69, 76, 69, 84, 69], 1), ([72, 69, 65, 68], 3),
     ([79, 80, 84, 73, 79, 78, 83], 8), ([67, 79, 80, 89], 10), ([76, 79, 67, 75], 11), ([77, 75, 67, 79, 76], 12), ([77, 79, 86, 69], 13),
     ([80, 82, 79, 80, 70, 73, 78, 68], 14), ([80, 82, 79, 80, 80, 65, 84, 67, 72], 15), ([85, 78, 76, 79, 67, 75], 16),
     ([82, 69, 80, 79, 82, 84], 17), ([80, 85, 82, 71, 69], 25)]"
  by code_simp

lemma version_eval: "ascii ''HTTP/1.1'' = [72, 84, 84, 80, 47, 49, 46, 49]" "ascii ''HTTP/1.0'' = [72, 84, 84, 80, 47, 49, 46, 48]"
  by code_simp+

lemma tried_methods_facts:
  assumes "(s, k) \<in> set tried_methods"
  shows "s \<noteq> []" "length s \<le> 9" "0 < k" "k < OSW_HTTP_PRI" "13 \<notin> set s"
  using assms by (auto simp: tried_methods_eval OSW_HTTP_PRI_def)

text \<open>No method is the beginning of another one.\<close>

lemma match_method_of:
  assumes "(s, k) \<in> set tried_methods" and "take (length s) m = s" and "9 \<le> length m"
  shows "match_method m tried_methods = Some (Some (s, k))"
proof -
  have d: "match_method m xs = Some (Some (s, k))"
    if "(s, k) \<in> set xs" "\<forall>(s', k')\<in>set xs. length s' \<le> 9 \<and> ((s', k') \<noteq> (s, k) \<longrightarrow> take (length s') m \<noteq> s')" for xs
    using that assms(2,3) by (induction xs) (auto simp: memcmp_eq_def mem_read_def)
  have "\<forall>(s', k')\<in>set tried_methods. length s' \<le> 9 \<and> ((s', k') \<noteq> (s, k) \<longrightarrow> take (length s') m \<noteq> s')"
  proof -
    have pre: "list_all (\<lambda>(s, k). list_all (\<lambda>(s', k'). length s' \<le> 9 \<and> ((s', k') \<noteq> (s, k) \<longrightarrow>
        take (min (length s) (length s')) s \<noteq> take (min (length s) (length s')) s')) tried_methods) tried_methods" by code_simp
    have "take (length s') m \<noteq> s'" if n: "take (min (length s) (length s')) s \<noteq> take (min (length s) (length s')) s'" for s'
    proof
      assume "take (length s') m = s'"
      from arg_cong [OF this, of "take (min (length s) (length s'))"] arg_cong [OF assms(2), of "take (min (length s) (length s'))"]
      show False using n by (simp add: min_absorb1)
    qed
    moreover have "\<forall>(s', k')\<in>set tried_methods. length s' \<le> 9 \<and> ((s', k') \<noteq> (s, k) \<longrightarrow>
        take (min (length s) (length s')) s \<noteq> take (min (length s) (length s')) s')"
      using bspec [OF pre [unfolded list_all_iff] assms(1)] by simp
    ultimately show ?thesis by auto
  qed
  then show ?thesis by (rule d [OF assms(1)])
qed

lemma version_loop_url:
  assumes "pe \<le> length m" and "p \<le> e" and "\<forall>i. p \<le> i \<and> i < e \<and> i < pe \<longrightarrow> \<not> isspace (m ! i)"
  shows "version_loop m pe 1 p r = (if pe \<le> e then Some (L_end (max p pe), r) else version_loop m pe 1 e r)"
  using assms
proof (induction "e - p" arbitrary: p)
  case 0
  then show ?case by (auto simp: version_loop.simps [of m pe "Suc 0" p])
next
  case (Suc n)
  then have IH: "version_loop m pe 1 (p + 1) r = (if pe \<le> e then Some (L_end (max (p + 1) pe), r) else version_loop m pe 1 e r)" by simp
  show ?case
  proof (cases "p < pe")
    case True
    then have "\<not> isspace (m ! p)" using Suc.prems(3) Suc.hyps(2) by simp
    then show ?thesis using IH True Suc.prems(1) by (subst version_loop.simps) (auto simp: mem_at_def max_def)
  next
    case False
    then show ?thesis using Suc.prems(2) by (subst version_loop.simps) (auto simp: max_def)
  qed
qed


text \<open>A request of which at most the request line is known.\<close>

definition fresh :: "request \<Rightarrow> bool" where
  "fresh r \<longleftrightarrow> r\<lparr>rq_method := 0, rq_version := 0, url_offset := 0, url_length := 0, request_line_length := 0\<rparr> = request_clean"

lemma wrap32_less: "n < 2 ^ 32 \<Longrightarrow> wrap32 n = n"
  by (simp add: wrap32_def)

lemma version_loop_version:
  assumes "p < pe" and "pe \<le> length m" and "ver \<in> {ascii ''HTTP/1.1'', ascii ''HTTP/1.0''}" and "\<forall>i<8. p + i < pe \<longrightarrow> m ! (p + i) = ver ! i"
  shows "\<exists>v. version_loop m pe 2 p r = Some (if pe - p < 8 then (L_error, r) else (L_end p, r\<lparr>rq_version := v\<rparr>))"
proof -
  have h: "m ! p = 72" using assms(1,3,4) by (auto simp: version_eval dest: spec [of _ 0])
  show ?thesis
  proof (cases "pe - p < 8")
    case True
    then show ?thesis using h assms(1,2) by (subst version_loop.simps) (simp add: mem_at_def isspace_def)
  next
    case False
    have "length ver = 8" using assms(3) by (auto simp: version_eval)
    then have "mem_read p 8 m = Some ver" using assms(2,4) False by (auto simp: mem_read_nth)
    then have "memcmp_eq m p ver' = Some (ver = ver')" if "length ver' = 8" for ver' using that by (simp add: memcmp_eq_def)
    then show ?thesis using False h assms(1-3) by (subst version_loop.simps) (auto simp: mem_at_def isspace_def version_eval)
  qed
qed

lemma request_line_nth:
  assumes "h = request_line s url ver @ hs" and "length ver = 8"
  shows "h ! length s = 32" "j < length url \<Longrightarrow> h ! (length s + 1 + j) = url ! j" "h ! (length s + 1 + length url) = 32"
    "j < 8 \<Longrightarrow> h ! (length s + length url + 2 + j) = ver ! j" "length (request_line s url ver) = length s + length url + 10" "i < length s \<Longrightarrow> h ! i = s ! i"
  using assms by (auto simp: request_line_def nth_append)

lemma version_loop_line:
  assumes m: "(s, k) \<in> set tried_methods" and url: "url \<noteq> []" "list_all (\<lambda>c. \<not> isspace c) url" and ver: "ver \<in> {ascii ''HTTP/1.1'', ascii ''HTTP/1.0''}"
    and h: "h = request_line s url ver @ hs" "length h < 2 ^ 32"
    and b: "16 \<le> pe" "pe \<le> length m" "\<forall>i<pe. i < length h \<longrightarrow> m ! i = h ! i"
  shows "\<exists>x r'. version_loop m pe 0 (length s) (request_clean\<lparr>rq_method := k\<rparr>) = Some (x, r') \<and> fresh r' \<and> rq_method r' = k \<and> request_line_length r' = 0 \<and>
    (x = L_error \<and> pe < length (request_line s url ver) \<or> (\<exists>p. x = L_end p \<and> p + 8 \<le> length (request_line s url ver)))"
proof -
  let ?a = "length s" and ?u = "length url" and ?r = "request_clean\<lparr>rq_method := k\<rparr>" and ?L = "length (request_line s url ver)"
  have "length ver = 8" using ver by (auto simp: version_eval)
  note nth = request_line_nth [OF h(1) this]
  have a: "?a \<le> 9" using tried_methods_facts(2) [OF m] .
  have L: "?L = ?a + ?u + 10" "?L \<le> length h" using nth(5) h(1) by auto
  have at: "m ! i = h ! i" "mem_at m i = Some (h ! i)" if "i < pe" "i < ?L" for i using that b L by (auto simp: mem_at_def)
  have u0: "\<not> isspace (h ! (?a + 1 + j))" if "j < ?u" for j using nth(2) [OF that] url(2) that by (simp add: list_all_length)
  let ?r1 = "?r\<lparr>url_offset := ?a + 1\<rparr>"
  have "version_loop m pe 0 ?a ?r = version_loop m pe 0 (?a + 1) ?r"
    using at [of ?a] a L b(1) nth(1) by (subst version_loop.simps) (simp add: isspace_def)
  also have "\<dots> = version_loop m pe 1 (?a + 2) ?r1"
    using at [of "?a + 1"] a L b(1) u0 [of 0] url(1) h(2) by (subst version_loop.simps) (simp add: wrap32_less)
  also have "\<dots> = (if pe \<le> ?a + 1 + ?u then Some (L_end (max (?a + 2) pe), ?r1) else version_loop m pe 1 (?a + 1 + ?u) ?r1)"
  proof (rule version_loop_url [OF b(2)])
    show "?a + 2 \<le> ?a + 1 + ?u" using url(1) by (cases url) auto
    show "\<forall>i. ?a + 2 \<le> i \<and> i < ?a + 1 + ?u \<and> i < pe \<longrightarrow> \<not> isspace (m ! i)"
    proof (intro allI impI)
      fix i assume i: "?a + 2 \<le> i \<and> i < ?a + 1 + ?u \<and> i < pe"
      then have "\<not> isspace (h ! (?a + 1 + (i - (?a + 1))))" by (intro u0) arith
      then show "\<not> isspace (m ! i)" using at(1) [of i] i L(1) by simp
    qed
  qed
  finally have e1: "version_loop m pe 0 ?a ?r = (if pe \<le> ?a + 1 + ?u then Some (L_end (max (?a + 2) pe), ?r1) else version_loop m pe 1 (?a + 1 + ?u) ?r1)" .
  show ?thesis
  proof (cases "pe \<le> ?a + 1 + ?u")
    case True
    then show ?thesis using e1 a b(1) L by (auto simp: fresh_def request_clean_def)
  next
    case False
    let ?r2 = "?r1\<lparr>url_length := ?u\<rparr>"
    have e2: "version_loop m pe 1 (?a + 1 + ?u) ?r1 = version_loop m pe 2 (?a + ?u + 2) ?r2"
      using at [of "?a + 1 + ?u"] False L nth(3) h(2) by (subst version_loop.simps) (simp add: isspace_def wrap32_less)
    show ?thesis
    proof (cases "pe = ?a + ?u + 2")
      case True
      then show ?thesis using e1 e2 False L by (subst (asm) version_loop.simps [of m pe 2]) (simp add: fresh_def request_clean_def)
    next
      case ne: False
      have "\<exists>v. version_loop m pe 2 (?a + ?u + 2) ?r2 = Some (if pe - (?a + ?u + 2) < 8 then (L_error, ?r2) else (L_end (?a + ?u + 2), ?r2\<lparr>rq_version := v\<rparr>))"
        by (rule version_loop_version [OF _ b(2) ver]) (use ne False at(1) L nth(4) in auto)
      then show ?thesis using e1 e2 False L by (auto simp: fresh_def request_clean_def)
    qed
  qed
qed


lemma get_protocol_line:
  assumes m: "(s, k) \<in> set tried_methods" and url: "url \<noteq> []" "list_all (\<lambda>c. \<not> isspace c) url" and ver: "ver \<in> {ascii ''HTTP/1.1'', ascii ''HTTP/1.0''}"
    and h: "h = request_line s url ver @ hs" "length h < 2 ^ 32"
    and b: "16 \<le> st_length b" "st_length b \<le> st_size b" "\<forall>i. i < st_length b \<longrightarrow> i < length h \<longrightarrow> st_mem b ! i = h ! i"
  shows "\<exists>x off r'. get_protocol b request_clean = Some (x, b\<lparr>st_offset := off\<rparr>, r') \<and> fresh r' \<and> rq_method r' = k \<and>
    (x = 0 \<and> 0 \<le> off \<and> off \<le> int (length (request_line s url ver)) \<or> x = - 1 \<and> off = st_offset b \<and> st_length b < length (request_line s url ver))"
proof -
  have ver8: "length ver = 8" using ver by (auto simp: version_eval)
  note nth = request_line_nth [OF h(1) ver8] and f = tried_methods_facts [OF m]
  have L: "length (request_line s url ver) \<le> length h" using h(1) by simp
  have "take (length s) (st_mem b) = s" using b f(2) nth(5,6) L by (intro nth_equalityI) auto
  then have mm: "match_method (st_mem b) tried_methods = Some (Some (s, k))" using match_method_of [OF m] b by simp
  obtain x r' where x: "version_loop (st_mem b) (st_length b) 0 (length s) (request_clean\<lparr>rq_method := k\<rparr>) = Some (x, r')" "fresh r'" "rq_method r' = k" "request_line_length r' = 0"
      "x = L_error \<and> st_length b < length (request_line s url ver) \<or> (\<exists>p. x = L_end p \<and> p + 8 \<le> length (request_line s url ver))"
    using version_loop_line [OF m url ver h b] by blast
  from x(5) show ?thesis
  proof (elim disjE exE conjE)
    assume "x = L_error" "st_length b < length (request_line s url ver)"
    then show ?thesis using x mm b(1) by (intro exI [of _ "- 1"] exI [of _ "st_offset b"]) (simp add: get_protocol_def)
  next
    fix p assume p: "x = L_end p" "p + 8 \<le> length (request_line s url ver)"
    then show ?thesis using x mm b(1) by (intro exI [of _ 0] exI [of _ "int (p + 8)"]) (simp add: get_protocol_def fresh_def)
  qed
qed

text \<open>The search for the fields.\<close>

lemma strncasecmp_spec: "p + length s \<le> length m \<Longrightarrow> strncasecmp_eq m p s = Some (map tolower (take (length s) (drop p m)) = map tolower s)"
  by (induction s arbitrary: p) (auto simp: mem_at_def Cons_nth_drop_Suc [symmetric])

lemma skip_spaces_stop: "p \<le> e \<Longrightarrow> e < length m \<Longrightarrow> m ! e \<noteq> 32 \<Longrightarrow> \<exists>q. skip_spaces m p = Some q \<and> p \<le> q \<and> q \<le> e"
proof (induction "e - p" arbitrary: p)
  case 0
  then show ?case by (subst skip_spaces.simps) auto
next
  case (Suc n)
  then have "\<exists>q. skip_spaces m (p + 1) = Some q \<and> p + 1 \<le> q \<and> q \<le> e" by (intro Suc.hyps(1)) auto
  then show ?case using Suc.prems by (subst skip_spaces.simps) auto
qed

lemma strcasect_field:
  assumes m: "\<forall>i<length h. m ! i = h ! i" "length h \<le> length m" and p: "2 \<le> p" "p < pe" "pe \<le> length h" "occurs CRLF (p - 2) h" and s: "s \<noteq> []"
  shows "strcasect m p pe s = Some (p + length s \<le> pe \<and> names_field h p s)"
proof (cases "p + length s \<le> pe")
  case True
  then have "take (length s) (drop p m) = take (length s) (drop p h)" using m p by (intro nth_equalityI) auto
  then show ?thesis using True p m s strncasecmp_spec [of p s m] by (simp add: strcasect_def names_field_def le_diff_conv2)
qed (use p in \<open>simp add: strcasect_def le_diff_conv2\<close>)

lemma header_loop_plain:
  assumes m: "\<forall>i<length h. m ! i = h ! i" "length h \<le> length m" and pe: "pe + 4 = length h" "occurs HEADER_END pe h" and h: "bodyless h" and p: "2 \<le> p"
  shows "\<exists>ka. header_loop m pe p r = Some (r\<lparr>keep_alive := ka\<rparr>)"
  using p
proof (induction "pe - p" arbitrary: p r rule: less_induct)
  case less
  show ?case
  proof (cases "p < pe")
    case False
    then have "header_loop m pe p r = Some (r\<lparr>keep_alive := keep_alive r\<rparr>)" by (subst header_loop.simps) simp
    then show ?thesis by blast
  next
    case True
    have IH: "\<exists>ka. header_loop m pe q r' = Some (r\<lparr>keep_alive := ka\<rparr>)" if "p < q" "r' = r\<lparr>keep_alive := v\<rparr>" for q r' v
      using less.hyps [of q "r\<lparr>keep_alive := v\<rparr>"] that True less.prems by auto
    have at: "mem_at m (p - 1) = Some (h ! (p - 1))" "mem_at m (p - 2) = Some (h ! (p - 2))" using m pe(1) True by (auto simp: mem_at_def)
    show ?thesis
    proof (cases "h ! (p - 1) = 10 \<and> h ! (p - 2) = 13")
      case False
      then show ?thesis using at True IH [of "p + 1" r "keep_alive r"] by (subst header_loop.simps) auto
    next
      case crlf: True
      have pl: "p < length h" using True pe(1) by simp
      obtain n where n: "p = Suc (Suc n)" using less.prems by (auto simp: le_iff_add numeral_2_eq_2)
      have "occurs CRLF (p - 2) h" using crlf n pl by (simp add: occurs_def CRLF_def Cons_nth_drop_Suc [symmetric])
      then have f: "strcasect m p pe s = Some (p + length s \<le> pe \<and> names_field h p s)" if "s \<noteq> []" for s
        using strcasect_field [OF m less.prems True] pe(1) that by simp
      have no: "strcasect m p pe (ascii ''Content-Length:'') = Some False" "strcasect m p pe (ascii ''Transfer-Encoding:'') = Some False"
        using f h pl by (auto simp: bodyless_def ascii_def)
      have l11: "length (ascii ''Connection:'') = 11" by (simp add: ascii_def)
      then have c: "strcasect m p pe (ascii ''Connection:'') = Some (p + 11 \<le> pe \<and> names_field h p (ascii ''Connection:''))" using f [of "ascii ''Connection:''"] by (simp only: l11) (simp add: ascii_def)
      show ?thesis
      proof (cases "p + 11 \<le> pe \<and> names_field h p (ascii ''Connection:'')")
        case False
        then show ?thesis using at crlf no c True IH [of "p + 1" r "keep_alive r"] by (subst header_loop.simps) auto
      next
        case con: True
        have "m ! pe = 13" using pe m arg_cong [OF pe(2) [unfolded occurs_def], of hd] by (simp add: CRLF_def hd_drop_conv_nth)
        then obtain q where q: "skip_spaces m (p + 11) = Some q" "p + 11 \<le> q" "q \<le> pe" using skip_spaces_stop [of "p + 11" pe m] con pe(1) m(2) by auto
        obtain ka where "strcasect m q pe (ascii ''keep-alive'') = Some ka"
          using strncasecmp_spec [of q "ascii ''keep-alive''" m] q(3) pe(1) m(2)
          by (cases "length (ascii ''keep-alive'') \<le> pe - q") (simp_all add: strcasect_def)
        then show ?thesis using at crlf no c con True q IH [of "q + 1" "if ka then r\<lparr>keep_alive := True\<rparr> else r" "ka \<or> keep_alive r"]
          by (subst header_loop.simps) auto
      qed
    qed
  qed
qed


subsection \<open>The widths of the fields\<close>

definition request_wf :: "request \<Rightarrow> bool" where
  "request_wf r \<longleftrightarrow> rq_method r \<le> OSW_HTTP_PRI \<and> rq_version r \<le> 2 \<and> url_offset r < 2 ^ 32 \<and> url_length r < 2 ^ 32 \<and>
     request_line_length r < 2 ^ 32 \<and> header_length r < 2 ^ 32 \<and> content_length r < 2 ^ 32"

lemma wrap32_bound: "wrap32 n < 2 ^ 32"
  by (simp add: wrap32_def)

lemma request_wf_upd:
  assumes "request_wf r"
  shows "k \<le> OSW_HTTP_PRI \<Longrightarrow> request_wf (r\<lparr>rq_method := k\<rparr>)" "v \<le> 2 \<Longrightarrow> request_wf (r\<lparr>rq_version := v\<rparr>)" "request_wf (r\<lparr>url_offset := wrap32 n\<rparr>)"
    "request_wf (r\<lparr>url_length := wrap32 n\<rparr>)" "request_wf (r\<lparr>request_line_length := wrap32 n\<rparr>)" "request_wf (r\<lparr>header_length := wrap32 n\<rparr>)"
    "request_wf (r\<lparr>content_length := min n (2 ^ 32 - 1), known_length := True\<rparr>)" "request_wf (r\<lparr>excepted := t\<rparr>)" "request_wf (r\<lparr>keep_alive := t\<rparr>)"
    "request_wf (r\<lparr>chunked := t\<rparr>)" "request_wf (r\<lparr>nobody_chunked := t\<rparr>)" "request_wf (r\<lparr>header_parsed := t\<rparr>)" "request_wf (r\<lparr>known_length := t\<rparr>)"
    "request_wf (r\<lparr>content_length := unat (w :: u32)\<rparr>)"
  using assms wrap32_bound [of n] unsigned_less [of w, where 'a = nat] by (auto simp: request_wf_def)

lemma version_loop_wf: "version_loop m pe state p r = Some (x, r') \<Longrightarrow> request_wf r \<Longrightarrow> request_wf r'"
proof (induction m pe state p r arbitrary: x r' rule: version_loop.induct)
  case (1 m pe state p r)
  note wf = request_wf_upd [OF "1.prems"(2)]
  note e = "1.prems"(1) [unfolded version_loop.simps [of m pe state p r]]
  show ?case
  proof (cases "p < pe")
    case True
    then obtain c where c: "mem_at m p = Some c" using e by (auto simp: bind_eq_Some_conv)
    note IH = "1.IH" [OF True c]
    consider "state = 0" "isspace c" | "state = 0" "\<not> isspace c" | "state = 1" "isspace c" | "state = 1" "\<not> isspace c"
      | "state \<noteq> 0" "state \<noteq> 1" "isspace c" | "state \<noteq> 0" "state \<noteq> 1" "\<not> isspace c" by blast
    then show ?thesis
    proof cases
      case 1 then show ?thesis using e True c IH(1) "1.prems"(2) by simp
    next
      case 2 then show ?thesis using e True c IH(2) wf(3) by simp
    next
      case 3 then show ?thesis using e True c IH(3) wf(4) by simp
    next
      case 4 then show ?thesis using e True c IH(4) "1.prems"(2) by simp
    next
      case 5 then show ?thesis using e True c IH(5) "1.prems"(2) by simp
    next
      case 6
      then show ?thesis using e True c wf(2) [of 1] wf(2) [of 2] "1.prems"(2)
        by (auto simp: bind_eq_Some_conv split: if_splits)
    qed
  next
    case False
    then show ?thesis using e "1.prems"(2) by simp
  qed
qed


text \<open>A round of the loop hands over a request whose fields keep their widths.\<close>

lemma header_loop_round:
  assumes "header_loop m pe p r = Some r'" "p < pe" "request_wf r"
  obtains q r1 where "p < q" "request_wf r1" "header_loop m pe q r1 = Some r'"
proof -
  note e = assms(1) [unfolded header_loop.simps [of m pe p r]]
  note wf = request_wf_upd [OF assms(3)]
  have sk: "skip_spaces m (p + i) = Some j \<Longrightarrow> p \<le> j" for i j using skip_spaces_ge [of m "p + i" j] by linarith
  obtain c1 c2 where c: "mem_at m (p - 1) = Some c1" "mem_at m (p - 2) = Some c2" using e assms(2) by (auto simp: bind_eq_Some_conv)
  show thesis
  proof (cases "c1 = 10 \<and> c2 = 13")
    case line: True
    then obtain l where l: "strcasect m p pe (ascii ''Content-Length:'') = Some l" using e assms(2) c by (auto simp: bind_eq_Some_conv)
    show thesis
    proof (cases l)
      case True
      then obtain q n where q: "skip_spaces m (p + 15) = Some q" and
        h: "header_loop m pe (q + 1) (r\<lparr>content_length := min n (2 ^ 32 - 1), known_length := True\<rparr>) = Some r'"
        using e assms(2) c line l by (auto simp: bind_eq_Some_conv)
      have "p < q + 1" using sk [OF q] by simp
      then show thesis by (rule that [OF _ wf(7) h])
    next
      case False
      then obtain k where k: "strcasect m p pe (ascii ''Connection:'') = Some k"
        and e1: "(if k then do { q \<leftarrow> skip_spaces m (p + 11); a \<leftarrow> strcasect m q pe (ascii ''keep-alive'');
              header_loop m pe (q + 1) (if a then r\<lparr>keep_alive := True\<rparr> else r) }
            else do { t \<leftarrow> strcasect m p pe (ascii ''Transfer-Encoding:'');
              if t then do { q \<leftarrow> skip_spaces m (p + 18); a \<leftarrow> strcasect m q pe (ascii ''chunked'');
                header_loop m pe (q + 1) (if a then r\<lparr>chunked := True\<rparr> else r) }
              else header_loop m pe (p + 1) r }) = Some r'"
        using e assms(2) c line l by (auto simp: bind_eq_Some_conv)
      then obtain q r1 where "p \<le> q" "request_wf r1" "header_loop m pe (q + 1) r1 = Some r'"
        using wf(9) [of True] wf(10) [of True] assms(3) by (auto simp: bind_eq_Some_conv split: if_splits dest: sk)
      then show thesis using that [of "q + 1" r1] by simp
    qed
  next
    case False
    then show thesis using that [of "p + 1" r] e c assms(2,3) by (simp split: if_splits)
  qed
qed

lemma header_loop_wf: "header_loop m pe p r = Some r' \<Longrightarrow> request_wf r \<Longrightarrow> request_wf r'"
proof (induction "pe - p" arbitrary: p r rule: less_induct)
  case less
  show ?case
  proof (cases "p < pe")
    case True
    obtain q r1 where q: "p < q" "request_wf r1" "header_loop m pe q r1 = Some r'" by (rule header_loop_round [OF less.prems(1) True less.prems(2)])
    have "pe - q < pe - p" using q(1) True by linarith
    then show ?thesis using less.hyps q(2,3) by blast
  next
    case False
    then show ?thesis using less.prems by (simp add: header_loop.simps [of m pe p r])
  qed
qed


lemma match_method_wf: "match_method m ms = Some (Some (s, k)) \<Longrightarrow> list_all (\<lambda>(s, k). k \<le> OSW_HTTP_PRI) ms \<Longrightarrow> k \<le> OSW_HTTP_PRI"
  by (induction ms) (auto simp: bind_eq_Some_conv split: if_splits)

lemma tried_methods_wf: "list_all (\<lambda>(s, k). k \<le> OSW_HTTP_PRI) tried_methods"
  by code_simp

lemma get_protocol_wf:
  assumes "get_protocol b r = Some (x, b', r')" "request_wf r"
  shows "request_wf r'"
proof (cases "st_length b < 16")
  case True
  then show ?thesis using assms by (simp add: get_protocol_def)
next
  case False
  note wf = request_wf_upd [OF assms(2)]
  obtain mm where mm: "match_method (st_mem b) tried_methods = Some mm" using assms(1) False by (auto simp: get_protocol_def bind_eq_Some_conv)
  show ?thesis
  proof (cases mm)
    case None
    have "request_wf (r\<lparr>rq_method := OSW_HTTP_PRI\<rparr>)" by (rule wf(1)) simp
    then show ?thesis using assms(1) False mm None wf(8) [of True] request_wf_upd(8) [of "r\<lparr>rq_method := OSW_HTTP_PRI\<rparr>" True]
      by (auto simp: get_protocol_def Let_def bind_eq_Some_conv split: if_splits)
  next
    case (Some sk)
    obtain s k where sk: "sk = (s, k)" by (cases sk)
    have "k \<le> OSW_HTTP_PRI" using match_method_wf [of "st_mem b" tried_methods s k] mm Some sk tried_methods_wf by simp
    then have "request_wf (r\<lparr>rq_method := k\<rparr>)" by (rule wf(1))
    moreover obtain y r1 where v: "version_loop (st_mem b) (st_length b) 0 (length s) (r\<lparr>rq_method := k\<rparr>) = Some (y, r1)"
      using assms(1) False mm Some sk by (auto simp: get_protocol_def bind_eq_Some_conv)
    ultimately have "request_wf r1" by (intro version_loop_wf [OF v])
    then show ?thesis using assms(1) False mm Some sk v request_wf_upd [of r1] by (cases y) (auto simp: get_protocol_def)
  qed
qed

lemma get_header_length_wf: "get_header_length b r = Some (x, b', r') \<Longrightarrow> request_wf r \<Longrightarrow> request_wf r'"
  by (auto simp: get_header_length_def bind_eq_Some_conv request_wf_upd split: if_splits)

lemma parse_header_info_wf: "parse_header_info b r = Some r' \<Longrightarrow> request_wf r \<Longrightarrow> request_wf r'"
  by (auto simp: parse_header_info_def Let_def bind_eq_Some_conv request_wf_upd dest!: header_loop_wf)


lemma chunk_loop_wf:
  assumes "chunk_loop base p b r = Some (k, b', r')" "request_wf r"
  shows "request_wf r'"
proof -
  have "\<forall>k b' r'. x = (k, b', r') \<longrightarrow> request_wf r \<longrightarrow> request_wf r'" if "chunk_loop base p b r = Some x" for x
  proof (rule chunk_loop.raw_induct [where P = "\<lambda>base p b r x. \<forall>k b' r'. x = (k, b', r') \<longrightarrow> request_wf r \<longrightarrow> request_wf r'", OF _ that])
    fix f base p b r x
    assume IH: "\<And>base p b r x. f base p b r = Some x \<Longrightarrow> \<forall>k b' r'. x = (k, b', r') \<longrightarrow> request_wf r \<longrightarrow> request_wf r'"
      and e: "do { (x, b1, r1) \<leftarrow> chunk_step base p b r; case x of Chunk_return k \<Rightarrow> Some (k, b1, r1) | Chunk_next p1 \<Rightarrow> f base p1 b1 r1 } = Some x"
    obtain y b1 r1 where y: "chunk_step base p b r = Some (y, b1, r1)" using e by (auto simp: bind_eq_Some_conv)
    have "request_wf r \<longrightarrow> request_wf r1" using y by (auto simp: chunk_step_def Let_def bind_eq_Some_conv request_wf_upd split: if_splits)
    then show "\<forall>k b' r'. x = (k, b', r') \<longrightarrow> request_wf r \<longrightarrow> request_wf r'"
      using e y IH by (cases y) auto
  qed
  then show ?thesis using assms by blast
qed

text \<open>The requests that the steps of the parser reach from a clean one, in any order.\<close>

inductive parsed :: "request \<Rightarrow> bool" where
  parsed_clean: "parsed request_clean"
| parsed_line: "parsed r \<Longrightarrow> get_protocol b r = Some (x, b', r') \<Longrightarrow> parsed r'"
| parsed_length: "parsed r \<Longrightarrow> get_header_length b r = Some (x, b', r') \<Longrightarrow> parsed r'"
| parsed_header: "parsed r \<Longrightarrow> parse_header_info b r = Some r' \<Longrightarrow> parsed r'"
| parsed_chunked: "parsed r \<Longrightarrow> get_chunked_body_length base b r = Some (x, b', r') \<Longrightarrow> parsed r'"

lemma parsed_wf: "parsed r \<Longrightarrow> request_wf r"
proof (induction rule: parsed.induct)
  case parsed_clean
  then show ?case by (simp add: request_wf_def request_clean_def)
next
  case parsed_line
  then show ?case by (blast dest: get_protocol_wf)
next
  case parsed_length
  then show ?case by (blast dest: get_header_length_wf)
next
  case parsed_header
  then show ?case by (blast dest: parse_header_info_wf)
next
  case parsed_chunked
  then show ?case unfolding get_chunked_body_length_def by (blast dest: chunk_loop_wf)
qed

lemma method_names: "list_all (\<lambda>k. get_method (method_strings ! (k - 1)) = int k) [1..<27]"
  by code_simp



end
