(* ===== verification/Osw_Http_Port.thy ===== *)
theory Osw_Http_Port
  imports Osw_Http
begin

text \<open>
  Reading HTTP on a port: \<^verbatim>\<open>Port_onRead_http\<close> and \<^verbatim>\<open>Port_onRead_check_length\<close> of \<^verbatim>\<open>src/server/port.cc\<close>, with \<^verbatim>\<open>get_recv_buffer\<close> of \<^verbatim>\<open>include/openswoole_server.h\<close>. The labels
  \<^verbatim>\<open>_recv_data\<close> and \<^verbatim>\<open>_parse\<close> are steps; the dispatch to a worker, the static file handler, the test whether the connection is
  alive and the protocol of upgraded connections are parameters. \<open>None\<close> is a fault: an access outside of the memory, a failed assertion or
  \<^verbatim>\<open>std::bad_alloc\<close>.
\<close>

subsection \<open>State\<close>

record 'w http_env =
  he_alloc :: allocator
  he_base :: u64
  he_max_length :: nat
  he_open_http2 :: bool
  he_enable_static :: bool
  he_static :: "ostring \<Rightarrow> request \<Rightarrow> 'w \<Rightarrow> bool \<times> 'w"
  he_dispatch :: "bytes \<Rightarrow> 'w \<Rightarrow> 'w"
  he_alive :: "'w \<Rightarrow> bool"
  he_frames :: "nat \<Rightarrow> bool \<Rightarrow> 'w lp_env"

record 'w http_conn =
  hc_websocket_status :: nat
  hc_http_upgrade :: bool
  hc_http2_stream :: bool
  hc_request :: "request option"
  hc_buffer :: "ostring option"
  hc_recv_wait :: bool
  hc_skip_recv :: bool
  hc_events :: "recv_event list"
  hc_sent :: "bytes list"
  hc_closed :: bool
  hc_world :: 'w

definition OSW_BUFFER_SIZE_BIG :: nat where
  "OSW_BUFFER_SIZE_BIG = 65536"

definition OSW_HTTP_HEADER_MAX_SIZE :: nat where
  "OSW_HTTP_HEADER_MAX_SIZE = 65536"

definition OSW_HTTP_BAD_REQUEST_PACKET :: bytes where
  "OSW_HTTP_BAD_REQUEST_PACKET = ascii ''HTTP/1.1 400 Bad Request'' @ CRLF @ CRLF"

definition OSW_HTTP_REQUEST_ENTITY_TOO_LARGE_PACKET :: bytes where
  "OSW_HTTP_REQUEST_ENTITY_TOO_LARGE_PACKET = ascii ''HTTP/1.1 413 Request Entity Too Large'' @ CRLF @ CRLF"

subsection \<open>Reading\<close>

text \<open>The receive buffer of the socket is made on first use. The pointer is never null, since \<open>new\<close> throws: the branches for a null pointer are dead.\<close>

definition get_recv_buffer :: "'w http_env \<Rightarrow> 'w http_conn \<Rightarrow> ostring option" where
  "get_recv_buffer e s = (case hc_buffer s of Some b \<Rightarrow> Some b | None \<Rightarrow> string_alloc (he_alloc e) OSW_BUFFER_SIZE_BIG)"

definition destroy_http_request :: "'w http_conn \<Rightarrow> 'w http_conn" where
  "destroy_http_request s = s\<lparr>hc_request := None\<rparr>"

definition Port_onRead_check_length :: "'w http_env \<Rightarrow> 'w http_conn \<Rightarrow> (int \<times> 'w http_conn) option" where
  "Port_onRead_check_length e s =
     do {
       b \<leftarrow> get_recv_buffer e s;
       (ret, t) \<leftarrow> recv_with_length_protocol (he_frames e (hc_websocket_status s) (hc_http2_stream s))
            \<lparr>lp_buffer = b, lp_recv_wait = hc_recv_wait s, lp_skip_recv = hc_skip_recv s, lp_events = hc_events s, lp_world = hc_world s\<rparr>;
       let s1 = s\<lparr>hc_buffer := Some (lp_buffer t), hc_events := lp_events t, hc_recv_wait := lp_recv_wait t, hc_skip_recv := lp_skip_recv t, hc_world := lp_world t\<rparr>;
       let s2 = (if ret < 0 then s1\<lparr>hc_closed := True\<rparr> else s1);
       Some (0, if st_length (lp_buffer t) = 0 \<and> st_size (lp_buffer t) > OSW_BUFFER_SIZE_BIG * 2 then s2\<lparr>hc_buffer := None\<rparr> else s2)
     }"

datatype http_next = H_return int | H_recv | H_parse

definition http_store :: "ostring \<Rightarrow> request \<Rightarrow> 'w http_conn \<Rightarrow> 'w http_conn" where
  "http_store b r s = s\<lparr>hc_buffer := Some b, hc_request := Some r\<rparr>"

text \<open>From the labels \<^verbatim>\<open>_bad_request\<close>, \<^verbatim>\<open>_too_large\<close> and \<^verbatim>\<open>_close_fd\<close>, with what is sent.\<close>

definition http_close :: "bytes list \<Rightarrow> ostring \<Rightarrow> 'w http_conn \<Rightarrow> http_next \<times> 'w http_conn" where
  "http_close pkt b s = (H_return 0, destroy_http_request (s\<lparr>hc_buffer := Some b, hc_sent := hc_sent s @ pkt, hc_closed := True\<rparr>))"

text \<open>The whole request is there: dispatch it and drop what is behind it.\<close>

definition http_finish :: "'w http_env \<Rightarrow> nat \<Rightarrow> ostring \<Rightarrow> request \<Rightarrow> 'w http_conn \<Rightarrow> (http_next \<times> 'w http_conn) option" where
  "http_finish e request_length b r s =
     (let b1 = (if st_length b > request_length then b\<lparr>st_length := request_length\<rparr> else b)\<lparr>st_offset := int request_length\<rparr> in
      do {
        bs \<leftarrow> mem_read 0 (st_length b1) (st_mem b1);
        let w = he_dispatch e bs (hc_world s);
        let s1 = (http_store b1 r s)\<lparr>hc_world := w\<rparr>;
        Some (H_return 0,
          if he_alive e w then
            (destroy_http_request s1)\<lparr>hc_buffer := if st_size b1 > OSW_BUFFER_SIZE_BIG * 2 then None else Some (string_clear b1)\<rparr>
          else s1)
      })"

text \<open>The body. The sum of the two 32-bit lengths wraps.\<close>

definition http_body :: "'w http_env \<Rightarrow> ostring \<Rightarrow> request \<Rightarrow> 'w http_conn \<Rightarrow> (http_next \<times> 'w http_conn) option" where
  "http_body e b r s =
     (if chunked r then do {
        (x, b1, r1) \<leftarrow> get_chunked_body_length (he_base e) b r;
        let request_length = wrap32 (header_length r1 + content_length r1);
        if x < 0 then
          (if excepted r1 then Some (http_close [OSW_HTTP_BAD_REQUEST_PACKET] b1 s)
           else if request_length > he_max_length e then Some (http_close [OSW_HTTP_REQUEST_ENTITY_TOO_LARGE_PACKET] b1 s)
           else do {
             b2 \<leftarrow> (if st_length b1 = st_size b1 then string_extend_double (he_alloc e) b1 else Some b1);
             b3 \<leftarrow> (if request_length > st_size b2 then string_extend_align (he_alloc e) request_length b2 else Some b2);
             Some (H_recv, http_store b3 r1 s)
           })
        else http_finish e request_length b1 r1 s
      }
      else
        (let request_length = wrap32 (header_length r + content_length r) in
         if request_length > he_max_length e then Some (http_close [OSW_HTTP_REQUEST_ENTITY_TOO_LARGE_PACKET] b s)
         else do {
           b1 \<leftarrow> (if request_length > st_size b then string_extend (he_alloc e) request_length b else Some b);
           if st_length b1 < request_length then Some (H_recv, http_store b1 r s)
           else http_finish e request_length b1 r s
         }))"

text \<open>The header is known: a request without a body is dispatched at once, and the next one is parsed.\<close>

definition http_try :: "'w http_env \<Rightarrow> ostring \<Rightarrow> request \<Rightarrow> 'w http_conn \<Rightarrow> (http_next \<times> 'w http_conn) option" where
  "http_try e b r s =
     (if tried_to_dispatch r then http_body e b r s
      else if nobody_chunked r \<and> st_length b < header_length r + 5 then Some (H_recv, http_store b r s)
      else
        (let r1 = (if nobody_chunked r then r\<lparr>header_length := wrap32 (header_length r + 5)\<rparr> else r)\<lparr>tried_to_dispatch := True\<rparr> in
         if content_length r1 = 0 \<and> (known_length r1 \<or> \<not> chunked r1) then
           (let b1 = b\<lparr>st_offset := int (header_length r1)\<rparr>;
                (handled, w1) = (if he_enable_static e then he_static e b1 r1 (hc_world s) else (False, hc_world s))
            in do {
              w2 \<leftarrow> (if handled then Some w1 else map_option (\<lambda>bs. he_dispatch e bs w1) (mem_read 0 (header_length r1) (st_mem b1)));
              let s1 = (http_store b1 r1 s)\<lparr>hc_world := w2\<rparr>;
              if \<not> he_alive e w2 then Some (H_return 0, s1)
              else if st_length b1 > header_length r1 then do {
                b2 \<leftarrow> string_reduce (int (header_length r1)) b1;
                Some (H_parse, http_store b2 request_clean s1)
              }
              else Some (H_return 0, (destroy_http_request s1)\<lparr>hc_buffer := Some (string_clear b1)\<rparr>)
            })
         else http_body e b r1 s))"

definition http_header :: "'w http_env \<Rightarrow> ostring \<Rightarrow> request \<Rightarrow> 'w http_conn \<Rightarrow> (http_next \<times> 'w http_conn) option" where
  "http_header e b r s = do {
     (x, b1, r1) \<leftarrow> (if header_length r = 0 then get_header_length b r else Some (0, b, r));
     if x < 0 then
       (if st_size b1 = st_length b1 then Some (http_close [OSW_HTTP_BAD_REQUEST_PACKET] b1 s) else Some (H_recv, http_store b1 r1 s))
     else do {
       r2 \<leftarrow> (if header_parsed r1 then Some r1 else parse_header_info b1 r1);
       http_try e b1 r2 s
     }
   }"

text \<open>The connection preface of HTTP/2.\<close>

definition http_preface :: "'w http_env \<Rightarrow> ostring \<Rightarrow> 'w http_conn \<Rightarrow> (http_next \<times> 'w http_conn) option" where
  "http_preface e b s =
     (if \<not> he_open_http2 e then Some (http_close [OSW_HTTP_BAD_REQUEST_PACKET] b s)
      else
        (let s1 = destroy_http_request (s\<lparr>hc_http2_stream := True, hc_sent := hc_sent s @ [setting_frame]\<rparr>) in
         if st_length b = length OSW_HTTP2_PRI_STRING then Some (H_return 0, s1\<lparr>hc_buffer := Some (string_clear b)\<rparr>)
         else do {
           b1 \<leftarrow> string_reduce (st_offset b) b;
           (ret, s2) \<leftarrow> Port_onRead_check_length e (s1\<lparr>hc_buffer := Some b1, hc_skip_recv := True\<rparr>);
           Some (H_return ret, s2)
         }))"

text \<open>From the label \<^verbatim>\<open>_parse\<close>.\<close>

definition http_parse :: "'w http_env \<Rightarrow> ostring \<Rightarrow> request \<Rightarrow> 'w http_conn \<Rightarrow> (http_next \<times> 'w http_conn) option" where
  "http_parse e b r s = do {
     (x, b1, r1) \<leftarrow> (if rq_method r = 0 then get_protocol b r else Some (0, b, r));
     if x < 0 then
       (if \<not> excepted r1 \<and> st_length b1 < OSW_HTTP_HEADER_MAX_SIZE then Some (H_return 0, http_store b1 r1 s)
        else Some (http_close [OSW_HTTP_BAD_REQUEST_PACKET] b1 s))
     else if rq_method r1 > OSW_HTTP_PRI then Some (http_close [OSW_HTTP_BAD_REQUEST_PACKET] b1 s)
     else if rq_method r1 = OSW_HTTP_PRI then http_preface e b1 s
     else http_header e b1 r1 s
   }"

text \<open>From the label \<^verbatim>\<open>_recv_data\<close>.\<close>

definition http_recv :: "'w http_env \<Rightarrow> ostring \<Rightarrow> request \<Rightarrow> 'w http_conn \<Rightarrow> (http_next \<times> 'w http_conn) option" where
  "http_recv e b r s =
     (let (x, es) = sock_recv (st_size b - st_length b) (hc_events s); s1 = s\<lparr>hc_events := es\<rparr> in
      case x of
        Failed E_CLOSE \<Rightarrow> Some (http_close [] b s1)
      | Failed _ \<Rightarrow> Some (H_return 0, http_store b r s1)
      | Got bs \<Rightarrow>
          (if bs = [] then Some (http_close [] b s1)
           else do {
             m \<leftarrow> mem_write (st_length b) bs (st_mem b);
             http_parse e (b\<lparr>st_mem := m, st_length := st_length b + length bs\<rparr>) r s1
           }))"

definition http_step :: "'w http_env \<Rightarrow> http_next \<Rightarrow> 'w http_conn \<Rightarrow> (http_next \<times> 'w http_conn) option" where
  "http_step e x s = do {
     b \<leftarrow> hc_buffer s;
     r \<leftarrow> hc_request s;
     case x of H_parse \<Rightarrow> http_parse e b r s | _ \<Rightarrow> http_recv e b r s
   }"

partial_function (option) http_loop :: "'w http_env \<Rightarrow> http_next \<Rightarrow> 'w http_conn \<Rightarrow> (int \<times> 'w http_conn) option" where
  "http_loop e x s =
     (case x of H_return ret \<Rightarrow> Some (ret, s)
      | _ \<Rightarrow> Option.bind (http_step e x s) (\<lambda>(x1, s1). http_loop e x1 s1))"

definition Port_onRead_http :: "'w http_env \<Rightarrow> 'w http_conn \<Rightarrow> (int \<times> 'w http_conn) option" where
  "Port_onRead_http e s =
     (if hc_websocket_status s \<ge> STATUS_HANDSHAKE then
        Port_onRead_check_length e
          (if hc_http_upgrade s then s else (destroy_http_request s)\<lparr>hc_websocket_status := 3, hc_http_upgrade := True\<rparr>)
      else if hc_http2_stream s then Port_onRead_check_length e s
      else
        (let r = (case hc_request s of None \<Rightarrow> request_clean | Some r \<Rightarrow> r) in
         Option.bind (get_recv_buffer e s) (\<lambda>b. http_loop e H_recv (http_store b r s))))"

text \<open>The event loop calls it as long as something has arrived and the connection is open.\<close>

partial_function (option) http_drive :: "'w http_env \<Rightarrow> 'w http_conn \<Rightarrow> 'w http_conn option" where
  "http_drive e s =
     (if hc_events s = [] \<or> hc_closed s then Some s
      else Option.bind (Port_onRead_http e s) (\<lambda>(ret, s1). http_drive e s1))"


subsection \<open>One request\<close>

text \<open>The part of a request that has been looked at: the request line may have been read, and the end of the header is not in front of the offset.\<close>

definition scanned :: "bytes \<Rightarrow> ostring \<Rightarrow> request \<Rightarrow> bool" where
  "scanned h b r \<longleftrightarrow> fresh r \<and> rq_method r < OSW_HTTP_PRI \<and> (rq_method r = 0 \<longrightarrow> r = request_clean \<and> st_offset b = 0) \<and>
     0 \<le> st_offset b \<and> st_offset b + 4 \<le> int (length h)"

definition fits :: "nat \<Rightarrow> bytes \<Rightarrow> bool" where
  "fits n h \<longleftrightarrow> plain_request h \<and> length h \<le> n \<and> length h \<le> OSW_HTTP_HEADER_MAX_SIZE"

lemma fresh_simps:
  assumes "fresh r"
  shows "header_length r = 0" "\<not> excepted r" "\<not> header_parsed r" "\<not> tried_to_dispatch r" "\<not> known_length r" "\<not> chunked r" "\<not> nobody_chunked r" "content_length r = 0"
  using assms by (cases r; simp add: fresh_def request_clean_def)+

lemma plain_requestE:
  assumes "plain_request h"
  obtains s k url ver hs where "(s, k) \<in> set tried_methods" "url \<noteq> []" "list_all (\<lambda>c. \<not> isspace c) url" "ver \<in> {ascii ''HTTP/1.1'', ascii ''HTTP/1.0''}"
    "h = request_line s url ver @ hs" "length (request_line s url ver) + 4 \<le> length h" "14 \<le> length (request_line s url ver)"
proof -
  obtain s k url ver hs where l: "(s, k) \<in> set tried_methods" "url \<noteq> []" "list_all (\<lambda>c. \<not> isspace c) url" "ver \<in> {ascii ''HTTP/1.1'', ascii ''HTTP/1.0''}"
    "h = request_line s url ver @ hs" using assms unfolding plain_request_def by (elim conjE exE)
  have "3 \<le> length s" using l(1) by (auto simp: tried_methods_eval)
  moreover have "1 \<le> length url" using l(2) by (cases url) auto
  moreover have "length ver = 8" using l(4) by (auto simp: version_eval)
  ultimately have n: "14 \<le> length (request_line s url ver)" by (simp add: request_line_def)
  then obtain i where i: "i + 4 = length h" using l(5) by (intro that [of "length h - 4"]) simp
  then have o: "occurs HEADER_END i h" using assms by (simp add: plain_request_def)
  have "i < length h" using i by simp
  then have "h ! i = 13" using arg_cong [OF o [unfolded occurs_def], of hd] by (simp add: CRLF_def hd_drop_conv_nth)
  moreover have "13 \<notin> set (request_line s url ver)"
    using tried_methods_facts(5) [OF l(1)] l(3,4) by (auto simp: request_line_def version_eval list_all_iff isspace_def)
  ultimately have "\<not> i < length (request_line s url ver)" using l(5) by (metis nth_append nth_mem)
  then show thesis using that [OF l] n i by linarith
qed

lemma plain_request_end:
  assumes "plain_request h"
  shows "occurs HEADER_END (length h - 4) h" "occurs HEADER_END i h \<longleftrightarrow> i + 4 = length h" "18 \<le> length h" "bodyless h"
proof -
  show n: "18 \<le> length h" by (rule plain_requestE [OF assms]) linarith
  show o: "occurs HEADER_END i h \<longleftrightarrow> i + 4 = length h" for i using assms by (simp add: plain_request_def)
  show "occurs HEADER_END (length h - 4) h" using o n by simp
  show "bodyless h" using assms by (simp add: plain_request_def)
qed

text \<open>The request line, when at least 16 bytes are there.\<close>

lemma get_protocol_fits:
  assumes h: "fits (st_size b) h" and b: "string_inv b" "16 \<le> st_length b" "\<forall>i. i < st_length b \<longrightarrow> i < length h \<longrightarrow> st_mem b ! i = h ! i" "st_offset b = 0"
  obtains x off r where "get_protocol b request_clean = Some (x, b\<lparr>st_offset := off\<rparr>, r)" "scanned h (b\<lparr>st_offset := off\<rparr>) r" "0 < rq_method r"
    "x = 0 \<or> x = - 1 \<and> off = 0 \<and> st_length b < length h"
proof -
  have "plain_request h" using h by (simp add: fits_def)
  then obtain s k url ver hs where l: "(s, k) \<in> set tried_methods" "url \<noteq> []" "list_all (\<lambda>c. \<not> isspace c) url" "ver \<in> {ascii ''HTTP/1.1'', ascii ''HTTP/1.0''}"
    "h = request_line s url ver @ hs" and n: "length (request_line s url ver) + 4 \<le> length h" "14 \<le> length (request_line s url ver)"
    by (rule plain_requestE)
  have "length h < 2 ^ 32" "st_length b \<le> st_size b" using h b(1) by (auto simp: fits_def OSW_HTTP_HEADER_MAX_SIZE_def string_inv_def)
  from get_protocol_line [OF l this(1) b(2) this(2) b(3)] obtain x off r where
    g: "get_protocol b request_clean = Some (x, b\<lparr>st_offset := off\<rparr>, r)" "fresh r" "rq_method r = k"
      "x = 0 \<and> 0 \<le> off \<and> off \<le> int (length (request_line s url ver)) \<or> x = - 1 \<and> off = st_offset b \<and> st_length b < length (request_line s url ver)"
    by blast
  show thesis
    by (rule that [OF g(1)]) (use g n b(4) tried_methods_facts(3,4) [OF l(1)] in \<open>auto simp: scanned_def\<close>)
qed


lemma value_nth: "string_value b = take n h \<Longrightarrow> string_inv b \<Longrightarrow> i < st_length b \<Longrightarrow> i < n \<Longrightarrow> i < length h \<Longrightarrow> st_mem b ! i = h ! i"
  unfolding string_value_def by (metis nth_take)

text \<open>A beginning of a request: nothing is dispatched, and more is awaited.\<close>

lemma http_header_part:
  assumes h: "fits (st_size b) h" and b: "string_inv b" "st_length b < length h" "string_value b = take (st_length b) h" and r: "scanned h b r" "0 < rq_method r"
  shows "\<exists>off. http_header e b r s = Some (H_recv, http_store (b\<lparr>st_offset := off\<rparr>) r s) \<and> scanned h (b\<lparr>st_offset := off\<rparr>) r"
proof -
  have pr: "plain_request h" "length h \<le> st_size b" using h by (simp_all add: fits_def)
  have len: "st_length b \<le> length (st_mem b)" using b(1) by (simp add: string_inv_def)
  have "\<not> occurs HEADER_END i (take (st_length b) (st_mem b))" for i
  proof
    assume o: "occurs HEADER_END i (take (st_length b) (st_mem b))"
    have le: "i + 4 \<le> st_length b" using occurs_le [OF o] len by (simp add: CRLF_simps)
    have "occurs HEADER_END i h"
      using o occurs_append [of i HEADER_END "take (st_length b) h" "drop (st_length b) h"] le b(2,3) by (simp add: string_value_def CRLF_simps)
    then show False using plain_request_end(2) [OF pr(1), of i] le b(2) by simp
  qed
  then have "header_scan (st_mem b) (st_length b) (nat (st_offset b)) = Some (False, max (nat (st_offset b)) (st_length b - 3))"
    by (intro header_scan_none [OF len]) simp
  then have g: "get_header_length b r = Some (- 1, b\<lparr>st_offset := int (max (nat (st_offset b)) (st_length b - 3))\<rparr>, r)"
    by (simp add: get_header_length_def)
  have "fresh r" using r(1) by (simp add: scanned_def)
  then have "http_header e b r s = Some (H_recv, http_store (b\<lparr>st_offset := int (max (nat (st_offset b)) (st_length b - 3))\<rparr>) r s)"
    using g fresh_simps(1) b(2) pr(2) by (simp add: http_header_def)
  moreover have "scanned h (b\<lparr>st_offset := int (max (nat (st_offset b)) (st_length b - 3))\<rparr>) r"
    using r b(2) plain_request_end(3) [OF pr(1)] by (auto simp: scanned_def)
  ultimately show ?thesis by blast
qed

lemma http_parse_part:
  assumes h: "fits (st_size b) h" and b: "string_inv b" "st_length b < length h" "string_value b = take (st_length b) h" and r: "scanned h b r"
  shows "\<exists>x off r'. http_parse e b r s = Some (x, http_store (b\<lparr>st_offset := off\<rparr>) r' s) \<and> scanned h (b\<lparr>st_offset := off\<rparr>) r' \<and> (x = H_recv \<or> x = H_return 0)"
proof -
  have max: "st_length b < OSW_HTTP_HEADER_MAX_SIZE" using h b(2) by (simp add: fits_def)
  have m: "rq_method r < OSW_HTTP_PRI" using r by (simp add: scanned_def)
  show ?thesis
  proof (cases "rq_method r = 0")
    case False
    then have "http_parse e b r s = http_header e b r s" using m by (simp add: http_parse_def)
    moreover obtain off where "http_header e b r s = Some (H_recv, http_store (b\<lparr>st_offset := off\<rparr>) r s)" "scanned h (b\<lparr>st_offset := off\<rparr>) r"
      using http_header_part [OF h b r, of e s] False by auto
    ultimately show ?thesis by (intro exI [of _ H_recv] exI [of _ off] exI [of _ r]) simp
  next
    case True
    then have r0: "r = request_clean" "st_offset b = 0" using r by (auto simp: scanned_def)
    show ?thesis
    proof (cases "st_length b < 16")
      case short: True
      then have "http_parse e b r s = Some (H_return 0, http_store b r s)"
        using True r0 max by (simp add: http_parse_def get_protocol_def request_clean_def)
      then show ?thesis using r by (intro exI [of _ "H_return 0"] exI [of _ "st_offset b"] exI [of _ r]) simp
    next
      case False
      have "\<forall>i. i < st_length b \<longrightarrow> i < length h \<longrightarrow> st_mem b ! i = h ! i" using value_nth [OF b(3,1)] by simp
      then obtain x off r1 where g: "get_protocol b request_clean = Some (x, b\<lparr>st_offset := off\<rparr>, r1)" "scanned h (b\<lparr>st_offset := off\<rparr>) r1" "0 < rq_method r1"
          "x = 0 \<or> x = - 1 \<and> off = 0 \<and> st_length b < length h"
        using get_protocol_fits [OF h b(1) _ _ r0(2)] False by (metis not_less)
      have f: "\<not> excepted r1" "rq_method r1 < OSW_HTTP_PRI" using g(2) fresh_simps by (auto simp: scanned_def)
      show ?thesis
      proof (cases "x = 0")
        case True
        then have "http_parse e b r s = http_header e (b\<lparr>st_offset := off\<rparr>) r1 s" using r0 g f by (simp add: http_parse_def request_clean_def)
        moreover obtain off' where "http_header e (b\<lparr>st_offset := off\<rparr>) r1 s = Some (H_recv, http_store (b\<lparr>st_offset := off'\<rparr>) r1 s)" "scanned h (b\<lparr>st_offset := off'\<rparr>) r1"
          using http_header_part [of "b\<lparr>st_offset := off\<rparr>" h r1 e s] h b g(2,3) by (auto simp: string_inv_def string_value_def)
        ultimately show ?thesis by (intro exI [of _ H_recv] exI [of _ off'] exI [of _ r1]) simp
      next
        case False
        then have "http_parse e b r s = Some (H_return 0, http_store (b\<lparr>st_offset := off\<rparr>) r1 s)" using r0 g f max by (auto simp: http_parse_def request_clean_def)
        then show ?thesis using g(2) by blast
      qed
    qed
  qed
qed


text \<open>The environment of a server that takes every request: the connection stays open and the static handler declines.\<close>

definition dispatching :: "'w http_env \<Rightarrow> bool" where
  "dispatching e \<longleftrightarrow> (\<forall>w. he_alive e w) \<and> (\<forall>b r w. he_enable_static e \<longrightarrow> he_static e b r w = (False, w))"

lemma whole_mem:
  assumes "string_inv b" and "string_value b = h @ w"
  shows "i < length h \<Longrightarrow> st_mem b ! i = h ! i" "length h \<le> st_size b" "take (length h) (st_mem b) = h" "st_length b = length h + length w"
proof -
  have l: "st_length b = length h + length w" using arg_cong [OF assms(2), of length] assms(1) by (simp add: string_value_def string_inv_def)
  then show "st_length b = length h + length w" "length h \<le> st_size b" using assms(1) by (simp_all add: string_inv_def)
  show t: "take (length h) (st_mem b) = h" using arg_cong [OF assms(2), of "take (length h)"] l by (simp add: string_value_def min_def)
  show "i < length h \<Longrightarrow> st_mem b ! i = h ! i" using arg_cong [OF t, of "\<lambda>xs. xs ! i"] by simp
qed

lemma parse_header_plain:
  assumes h: "plain_request h" "length h < 2 ^ 32" and b: "string_inv b" "string_value b = h @ w" and r: "fresh r" "header_length r' = length h"
    "r' = r\<lparr>header_length := length h\<rparr>"
  shows "\<exists>ka. parse_header_info b r' = Some (r'\<lparr>keep_alive := ka, header_parsed := True\<rparr>)"
proof -
  note n = plain_request_end [OF h(1)] and wm = whole_mem [OF b]
  have "\<exists>ka. header_loop (st_mem b) (length h - 4) (request_line_length r' + 2) r' = Some (r'\<lparr>keep_alive := ka\<rparr>)"
    by (rule header_loop_plain [of h]) (use wm n in auto)
  then show ?thesis using fresh_simps [OF r(1)] r by (auto simp: parse_header_info_def)
qed

lemma http_try_plain:
  assumes e: "dispatching e" and b: "string_inv b" "string_value b = h @ w" "h \<noteq> []" and r: "\<not> tried_to_dispatch r" "\<not> nobody_chunked r" "content_length r = 0" "\<not> chunked r" "header_length r = length h"
  shows "\<exists>x rq b'. http_try e b r s = Some (x, s\<lparr>hc_buffer := Some b', hc_request := rq, hc_world := he_dispatch e h (hc_world s)\<rparr>) \<and>
    string_inv b' \<and> st_size b' = st_size b \<and> string_value b' = w \<and> st_offset b' = 0 \<and>
    (w = [] \<and> x = H_return 0 \<and> rq = None \<or> w \<noteq> [] \<and> x = H_parse \<and> rq = Some request_clean)"
proof -
  note wm = whole_mem [OF b(1,2)]
  let ?b = "b\<lparr>st_offset := int (length h)\<rparr>"
  have st: "(if he_enable_static e then he_static e ?b (r\<lparr>tried_to_dispatch := True\<rparr>) (hc_world s) else (False, hc_world s)) = (False, hc_world s)"
    using e by (simp add: dispatching_def)
  have rd: "mem_read 0 (length h) (st_mem b) = Some h" using wm(2,3) by (simp add: mem_read_def)
  have al: "he_alive e v" for v using e by (simp add: dispatching_def)
  show ?thesis
  proof (cases "w = []")
    case True
    then have "http_try e b r s = Some (H_return 0, s\<lparr>hc_buffer := Some (string_clear ?b), hc_request := None, hc_world := he_dispatch e h (hc_world s)\<rparr>)"
      using st rd al r wm(4) by (simp add: http_try_def http_store_def destroy_http_request_def Let_def)
    then show ?thesis using True by (intro exI [of _ "H_return 0"] exI [of _ None] exI [of _ "string_clear ?b"]) (simp add: string_clear_def string_inv_def string_value_def)
  next
    case False
    have reduced: "drop (length h) (string_value ?b) = w" "string_inv ?b" using b by (simp_all add: string_value_def string_inv_def)
    obtain b2 where b2: "string_reduce (int (length h)) ?b = Some b2" "string_inv b2" "st_size b2 = st_size b" "string_value b2 = w" "st_offset b2 = 0"
      using string_reduce_spec [of ?b "length h"] b wm(4) reduced by auto
    have "http_try e b r s = Some (H_parse, s\<lparr>hc_buffer := Some b2, hc_request := Some request_clean, hc_world := he_dispatch e h (hc_world s)\<rparr>)"
      using st rd al r wm(4) False b2(1) by (simp add: http_try_def http_store_def Let_def)
    then show ?thesis using False b2 by (intro exI [of _ H_parse] exI [of _ "Some request_clean"] exI [of _ b2]) simp
  qed
qed

lemma http_header_whole:
  assumes e: "dispatching e" and h: "fits (st_size b) h" and b: "string_inv b" "string_value b = h @ w" and r: "scanned h b r"
  shows "\<exists>x rq b'. http_header e b r s = Some (x, s\<lparr>hc_buffer := Some b', hc_request := rq, hc_world := he_dispatch e h (hc_world s)\<rparr>) \<and>
    string_inv b' \<and> st_size b' = st_size b \<and> string_value b' = w \<and> st_offset b' = 0 \<and>
    (w = [] \<and> x = H_return 0 \<and> rq = None \<or> w \<noteq> [] \<and> x = H_parse \<and> rq = Some request_clean)"
proof -
  have pr: "plain_request h" "length h < 2 ^ 32" using h by (simp_all add: fits_def OSW_HTTP_HEADER_MAX_SIZE_def)
  note n = plain_request_end [OF pr(1)] and wm = whole_mem [OF b]
  have fr: "fresh r" using r by (simp add: scanned_def)
  have v: "take (st_length b) (st_mem b) = h @ w" using b(2) by (simp add: string_value_def)
  have oc: "occurs HEADER_END i (h @ w) \<longleftrightarrow> i + 4 = length h" if "i + 4 \<le> length h" for i
    using occurs_append [of i HEADER_END h w] that n(2) [of i] by (simp add: CRLF_simps)
  have "header_scan (st_mem b) (st_length b) (nat (st_offset b)) = Some (True, length h - 4)"
    by (rule header_scan_found) (use v oc n(3) r b(1) in \<open>auto simp: scanned_def string_inv_def\<close>)
  then have g: "get_header_length b r = Some (0, b\<lparr>st_offset := int (length h)\<rparr>, r\<lparr>header_length := length h\<rparr>)"
    using n(3) pr(2) by (simp add: get_header_length_def wrap32_less)
  have b': "string_inv (b\<lparr>st_offset := int (length h)\<rparr>)" "string_value (b\<lparr>st_offset := int (length h)\<rparr>) = h @ w" using b by (simp_all add: string_inv_def string_value_def)
  obtain ka where p: "parse_header_info (b\<lparr>st_offset := int (length h)\<rparr>) (r\<lparr>header_length := length h\<rparr>) = Some (r\<lparr>header_length := length h, keep_alive := ka, header_parsed := True\<rparr>)"
    using parse_header_plain [OF pr b' fr, of "r\<lparr>header_length := length h\<rparr>"] by auto
  have "http_header e b r s = http_try e (b\<lparr>st_offset := int (length h)\<rparr>) (r\<lparr>header_length := length h, keep_alive := ka, header_parsed := True\<rparr>) s"
    using g p fresh_simps [OF fr] by (simp add: http_header_def)
  moreover have "h \<noteq> []" using n(3) by auto
  ultimately show ?thesis using http_try_plain [OF e b', of "r\<lparr>header_length := length h, keep_alive := ka, header_parsed := True\<rparr>" s] fresh_simps [OF fr] by simp
qed


lemma http_parse_whole:
  assumes e: "dispatching e" and h: "fits (st_size b) h" and b: "string_inv b" "string_value b = h @ w" and r: "scanned h b r"
  shows "\<exists>x rq b'. http_parse e b r s = Some (x, s\<lparr>hc_buffer := Some b', hc_request := rq, hc_world := he_dispatch e h (hc_world s)\<rparr>) \<and>
    string_inv b' \<and> st_size b' = st_size b \<and> string_value b' = w \<and> st_offset b' = 0 \<and>
    (w = [] \<and> x = H_return 0 \<and> rq = None \<or> w \<noteq> [] \<and> x = H_parse \<and> rq = Some request_clean)"
proof (cases "rq_method r = 0")
  case False
  then have "http_parse e b r s = http_header e b r s" using r by (simp add: http_parse_def scanned_def)
  then show ?thesis using http_header_whole [OF e h b r, of s] by simp
next
  case True
  then have r0: "r = request_clean" "st_offset b = 0" using r by (auto simp: scanned_def)
  note wm = whole_mem [OF b]
  have "16 \<le> st_length b" using plain_request_end(3) [of h] h wm(4) by (simp add: fits_def)
  moreover have "\<forall>i. i < st_length b \<longrightarrow> i < length h \<longrightarrow> st_mem b ! i = h ! i" using wm(1) by simp
  ultimately obtain x off r1 where g: "get_protocol b request_clean = Some (x, b\<lparr>st_offset := off\<rparr>, r1)" "scanned h (b\<lparr>st_offset := off\<rparr>) r1" "0 < rq_method r1"
      "x = 0 \<or> x = - 1 \<and> off = 0 \<and> st_length b < length h"
    using get_protocol_fits [OF h b(1) _ _ r0(2)] by metis
  then have "http_parse e b r s = http_header e (b\<lparr>st_offset := off\<rparr>) r1 s" using r0 wm(4) by (auto simp: http_parse_def request_clean_def scanned_def)
  then show ?thesis using http_header_whole [OF e _ _ _ g(2), of w s] h b by (simp add: string_inv_def string_value_def)
qed

subsection \<open>A sequence of requests\<close>

text \<open>
  The stream is the concatenation of requests and of the beginning of one more, which may be empty. The invariant between
  two steps, with the requests that have not been dispatched.
\<close>

definition http_inv :: "nat \<Rightarrow> bytes list \<Rightarrow> bytes \<Rightarrow> bytes \<Rightarrow> ostring \<Rightarrow> request \<Rightarrow> recv_event list \<Rightarrow> bool" where
  "http_inv n hs h0 rest b r es \<longleftrightarrow> string_inv b \<and> st_size b = n \<and> segments es \<and> string_value b @ stream es = concat hs @ rest \<and> scanned (hd (hs @ [h0])) b r"

definition http_deliver :: "'w http_env \<Rightarrow> bytes list \<Rightarrow> 'w \<Rightarrow> 'w" where
  "http_deliver e hs w = foldl (\<lambda>w h. he_dispatch e h w) w hs"

lemma http_deliver_simps [simp]: "http_deliver e [] w = w" "http_deliver e (h # hs) w = http_deliver e hs (he_dispatch e h w)"
  by (simp_all add: http_deliver_def)

lemma beginning_cases:
  assumes "v @ st = concat hs @ rest" and "h0 = rest @ t" and "t \<noteq> []"
  obtains (part) "length v < length (hd (hs @ [h0]))" "v = take (length v) (hd (hs @ [h0]))"
    | (whole) h hs1 w where "hs = h # hs1" "v = h @ w" "w @ st = concat hs1 @ rest"
proof (cases hs)
  case Nil
  then have "v = take (length v) rest" "length v \<le> length rest" using arg_cong [OF assms(1), of "take (length v)"] arg_cong [OF assms(1), of length] by auto
  then have "v = take (length v) h0" "length v < length h0" using assms(2,3) by (cases t; auto)+
  then show thesis using part Nil by simp
next
  case (Cons h hs1)
  show thesis
  proof (cases "length v < length h")
    case True
    then have "v = take (length v) h" using arg_cong [OF assms(1), of "take (length v)"] Cons by simp
    then show thesis using part Cons True by simp
  next
    case False
    have "v @ st = h @ (concat hs1 @ rest)" using assms(1) Cons by simp
    then obtain us where "v = h @ us \<and> us @ st = concat hs1 @ rest \<or> v @ us = h \<and> st = us @ (concat hs1 @ rest)" by (auto simp: append_eq_append_conv2)
    then show thesis using whole [OF Cons, of us] False by auto
  qed
qed

lemma scanned_clean: "fits n h \<Longrightarrow> st_offset b = 0 \<Longrightarrow> scanned h b request_clean"
  using plain_request_end(3) [of h] by (simp add: scanned_def fits_def fresh_def request_clean_def OSW_HTTP_PRI_def)

lemma http_loop_return [simp]: "http_loop e (H_return k) s = Some (k, s)"
  by (simp add: http_loop.simps)

text \<open>What a call that starts at \<^verbatim>\<open>_recv_data\<close> or at \<^verbatim>\<open>_parse\<close> comes to.\<close>

definition http_done :: "'w http_env \<Rightarrow> nat \<Rightarrow> bytes list \<Rightarrow> bytes \<Rightarrow> bytes \<Rightarrow> 'w http_conn \<Rightarrow> nat \<Rightarrow> (int \<times> 'w http_conn) option \<Rightarrow> bool" where
  "http_done e n hs h0 rest s k res \<longleftrightarrow>
     (\<exists>pre hs' b r rq es. hs = pre @ hs' \<and>
        res = Some (0, s\<lparr>hc_buffer := Some b, hc_request := rq, hc_events := es, hc_world := http_deliver e pre (hc_world s)\<rparr>) \<and>
        http_inv n hs' h0 rest b r es \<and> st_length b < length (hd (hs' @ [h0])) \<and> (rq = Some r \<or> rq = None \<and> r = request_clean) \<and>
        length (stream es) \<le> k)"


lemma http_done_mono: "http_done e n hs h0 rest s k1 res \<Longrightarrow> k1 \<le> k \<Longrightarrow> http_done e n hs h0 rest s k res"
  unfolding http_done_def by (elim exE conjE, intro exI conjI) (assumption | rule le_trans, assumption+)+

lemma http_done_later:
  assumes "http_done e n hs1 h0 rest s1 k1 res" and "hs = pre @ hs1" and "s1 = s\<lparr>hc_buffer := b, hc_request := rq, hc_events := es, hc_world := http_deliver e pre (hc_world s)\<rparr>"
    and "k1 \<le> k"
  shows "http_done e n hs h0 rest s k res"
proof -
  obtain pre' hs' b' r' rq' es' where d: "hs1 = pre' @ hs'"
      "res = Some (0, s1\<lparr>hc_buffer := Some b', hc_request := rq', hc_events := es', hc_world := http_deliver e pre' (hc_world s1)\<rparr>)"
      "http_inv n hs' h0 rest b' r' es'" "st_length b' < length (hd (hs' @ [h0]))" "rq' = Some r' \<or> rq' = None \<and> r' = request_clean"
      "length (stream es') \<le> k1" using assms(1) unfolding http_done_def by blast
  have "http_deliver e pre' (http_deliver e pre w) = http_deliver e (pre @ pre') w" for w by (simp add: http_deliver_def)
  then show ?thesis unfolding http_done_def using d assms(2-4)
    by (intro exI [of _ "pre @ pre'"] exI [of _ hs'] exI [of _ b'] exI [of _ r'] exI [of _ rq'] exI [of _ es']) simp
qed

text \<open>Behind \<^verbatim>\<open>_parse\<close>, when a beginning of a request is there, and when a whole request is there; \<open>loop\<close> is what is known of the next round.\<close>

lemma http_done_part:
  assumes h: "fits n (hd (hs @ [h0]))" and inv: "http_inv n hs h0 rest b1 r es" and s1: "s1 = s\<lparr>hc_buffer := bb, hc_request := rr, hc_events := es\<rparr>"
    and le: "length (stream es) \<le> k" and v: "st_length b1 < length (hd (hs @ [h0]))" "string_value b1 = take (st_length b1) (hd (hs @ [h0]))"
    and loop: "\<And>s2 b2 r2. hc_buffer s2 = Some b2 \<Longrightarrow> hc_request s2 = Some r2 \<Longrightarrow> hc_events s2 = es \<Longrightarrow> st_length b2 = st_length b1 \<Longrightarrow> http_inv n hs h0 rest b2 r2 es \<Longrightarrow>
      http_done e n hs h0 rest s2 (length (stream es)) (http_loop e H_recv s2)"
  shows "http_done e n hs h0 rest s k (Option.bind (http_parse e b1 r s1) (\<lambda>(x1, s2). http_loop e x1 s2))"
proof -
  note i = inv [unfolded http_inv_def]
  obtain x1 off r1 where p: "http_parse e b1 r s1 = Some (x1, http_store (b1\<lparr>st_offset := off\<rparr>) r1 s1)"
      "scanned (hd (hs @ [h0])) (b1\<lparr>st_offset := off\<rparr>) r1" "x1 = H_recv \<or> x1 = H_return 0"
    using http_parse_part [of b1 "hd (hs @ [h0])" r e s1] i h v by auto
  have inv1: "http_inv n hs h0 rest (b1\<lparr>st_offset := off\<rparr>) r1 es" using i p(2) by (simp add: http_inv_def string_inv_def string_value_def)
  let ?s2 = "http_store (b1\<lparr>st_offset := off\<rparr>) r1 s1"
  have s2: "?s2 = s\<lparr>hc_buffer := Some (b1\<lparr>st_offset := off\<rparr>), hc_request := Some r1, hc_events := es, hc_world := http_deliver e [] (hc_world s)\<rparr>"
    by (simp add: s1 http_store_def)
  show ?thesis
  proof (cases "x1 = H_recv")
    case True
    have "http_done e n hs h0 rest ?s2 (length (stream es)) (http_loop e H_recv ?s2)" by (rule loop) (use inv1 in \<open>auto simp: s2\<close>)
    from http_done_later [OF this _ s2] show ?thesis using p(1) True le by simp
  next
    case False
    then show ?thesis unfolding http_done_def using p inv1 v(1) le s2
      by (intro exI [of _ "[]"] exI [of _ hs] exI [of _ "b1\<lparr>st_offset := off\<rparr>"] exI [of _ r1] exI [of _ "Some r1"] exI [of _ es]) auto
  qed
qed

lemma http_done_whole:
  assumes e: "dispatching e" and hs: "list_all (fits n) (h # hs @ [h0])" and inv: "http_inv n (h # hs) h0 rest b1 r es" and s1: "s1 = s\<lparr>hc_buffer := bb, hc_request := rr, hc_events := es\<rparr>"
    and le: "length (stream es) \<le> k" and v: "string_value b1 = h @ w" "w @ stream es = concat hs @ rest"
    and loop: "\<And>s2 b2. hc_buffer s2 = Some b2 \<Longrightarrow> hc_request s2 = Some request_clean \<Longrightarrow> hc_events s2 = es \<Longrightarrow> st_length b2 < st_length b1 \<Longrightarrow> http_inv n hs h0 rest b2 request_clean es \<Longrightarrow>
      http_done e n hs h0 rest s2 (length (stream es)) (http_loop e H_parse s2)"
  shows "http_done e n (h # hs) h0 rest s k (Option.bind (http_parse e b1 r s1) (\<lambda>(x1, s2). http_loop e x1 s2))"
proof -
  note i = inv [unfolded http_inv_def]
  have sc: "scanned h b1 r" "fits n h" using i hs by auto
  obtain x1 rq b2 where p: "http_parse e b1 r s1 = Some (x1, s1\<lparr>hc_buffer := Some b2, hc_request := rq, hc_world := he_dispatch e h (hc_world s1)\<rparr>)"
      "string_inv b2" "st_size b2 = st_size b1" "string_value b2 = w" "st_offset b2 = 0"
      "w = [] \<and> x1 = H_return 0 \<and> rq = None \<or> w \<noteq> [] \<and> x1 = H_parse \<and> rq = Some request_clean"
    using http_parse_whole [OF e _ _ v(1) sc(1), of s1] sc(2) i by auto
  let ?s2 = "s1\<lparr>hc_buffer := Some b2, hc_request := rq, hc_world := he_dispatch e h (hc_world s1)\<rparr>"
  have s2: "?s2 = s\<lparr>hc_buffer := Some b2, hc_request := rq, hc_events := es, hc_world := http_deliver e [h] (hc_world s)\<rparr>" by (simp add: s1)
  have "fits n (hd (hs @ [h0]))" using hs by (cases hs) auto
  then have inv2: "http_inv n hs h0 rest b2 request_clean es" and n0: "hd (hs @ [h0]) \<noteq> []"
    using p i v(2) scanned_clean plain_request_end(3) [of "hd (hs @ [h0])"] by (auto simp: http_inv_def fits_def)
  have l: "st_length b2 = length w" "st_length b2 < st_length b1"
    using whole_mem(4) [of b1 h w] arg_cong [OF p(4), of length] p(2) i v(1) sc(2) plain_request_end(3) [of h] by (auto simp: string_value_def string_inv_def fits_def)
  show ?thesis
  proof (cases "w = []")
    case True
    then show ?thesis unfolding http_done_def using p inv2 le s2 l(1) n0
      by (intro exI [of _ "[h]"] exI [of _ hs] exI [of _ b2] exI [of _ request_clean] exI [of _ None] exI [of _ es]) auto
  next
    case False
    have "http_done e n hs h0 rest ?s2 (length (stream es)) (http_loop e H_parse ?s2)" by (rule loop) (use inv2 l False p(6) in \<open>auto simp: s1\<close>)
    from http_done_later [OF this _ s2] show ?thesis using p False le by simp
  qed
qed

lemma http_done_parse:
  assumes e: "dispatching e" and hs: "list_all (fits n) (hs @ [h0])" and rest: "h0 = rest @ t" "t \<noteq> []"
    and inv: "http_inv n hs h0 rest b1 r es" and s1: "s1 = s\<lparr>hc_buffer := bb, hc_request := rr, hc_events := es\<rparr>"
    and le: "length (stream es) \<le> k"
    and loop: "\<And>hs2 s2 b2 r2 x2. list_all (fits n) (hs2 @ [h0]) \<Longrightarrow> hc_buffer s2 = Some b2 \<Longrightarrow> hc_request s2 = Some r2 \<Longrightarrow> http_inv n hs2 h0 rest b2 r2 (hc_events s2) \<Longrightarrow>
      x2 = H_parse \<or> x2 = H_recv \<and> st_length b2 < length (hd (hs2 @ [h0])) \<Longrightarrow> hc_events s2 = es \<Longrightarrow> (if x2 = H_parse then st_length b2 < st_length b1 else st_length b2 = st_length b1) \<Longrightarrow>
      http_done e n hs2 h0 rest s2 (length (stream es)) (http_loop e x2 s2)"
  shows "http_done e n hs h0 rest s k (Option.bind (http_parse e b1 r s1) (\<lambda>(x1, s2). http_loop e x1 s2))"
proof -
  have i: "string_value b1 @ stream es = concat hs @ rest" "length (string_value b1) = st_length b1"
    using inv by (simp_all add: http_inv_def string_value_def string_inv_def)
  show ?thesis
  proof (cases rule: beginning_cases [OF i(1) rest])
    case 1
    have "fits n (hd (hs @ [h0]))" using hs by (cases hs) auto
    then show ?thesis by (rule http_done_part [OF _ inv s1 le]) (use 1 i(2) loop [OF hs] in auto)
  next
    case (2 h hs1 w)
    show ?thesis unfolding 2(1)
      by (rule http_done_whole [OF e _ _ s1 le 2(2,3)]) (use 2(1) hs inv loop in auto)
  qed
qed

lemma http_loop_spec:
  assumes e: "dispatching e" and hs: "list_all (fits n) (hs @ [h0])" and rest: "h0 = rest @ t" "t \<noteq> []"
    and s: "hc_buffer s = Some b" "hc_request s = Some r" "http_inv n hs h0 rest b r (hc_events s)" and x: "x = H_parse \<or> x = H_recv \<and> st_length b < length (hd (hs @ [h0]))"
  shows "http_done e n hs h0 rest s (length (stream (hc_events s)) - (if x = H_recv then 1 else 0)) (http_loop e x s)"
  using hs s x
proof (induction "2 * (2 * length (stream (hc_events s)) + st_length b) + (if x = H_parse then 1 else 0)" arbitrary: hs s b r x rule: less_induct)
  case less
  note inv = less.prems(4) [unfolded http_inv_def]
  show ?case
  proof (cases "x = H_parse")
    case True
    have s: "s = s\<lparr>hc_buffer := hc_buffer s, hc_request := hc_request s, hc_events := hc_events s\<rparr>" by simp
    have "http_loop e x s = Option.bind (http_parse e b r s) (\<lambda>(x1, s2). http_loop e x1 s2)"
      using less.prems(2,3) True by (simp add: http_loop.simps [of e H_parse] http_step_def)
    moreover have "http_done e n hs h0 rest s (length (stream (hc_events s))) (Option.bind (http_parse e b r s) (\<lambda>(x1, s2). http_loop e x1 s2))"
      by (rule http_done_parse [OF e less.prems(1) rest less.prems(4) s le_refl], rule http_done_mono [OF less.hyps]) (use True in \<open>auto split: if_splits\<close>)
    ultimately show ?thesis using True by simp
  next
    case False
    then have x: "x = H_recv" "st_length b < length (hd (hs @ [h0]))" using less.prems(5) by auto
    have step: "http_loop e x s = Option.bind (http_recv e b r s) (\<lambda>(x1, s2). http_loop e x1 s2)"
      using less.prems(2,3) x by (simp add: http_loop.simps [of e H_recv] http_step_def)
    show ?thesis
    proof (cases "hc_events s = []")
      case True
      then have "http_loop e x s = Some (0, s\<lparr>hc_buffer := Some b, hc_request := Some r, hc_events := [], hc_world := http_deliver e [] (hc_world s)\<rparr>)"
        unfolding step by (simp add: http_recv_def http_store_def)
      then show ?thesis unfolding http_done_def using less.prems(4) x(2) True
        by (intro exI [of _ "[]"] exI [of _ hs] exI [of _ b] exI [of _ r] exI [of _ "Some r"] exI [of _ "[]"]) auto
    next
      case ne: False
      have "fits n (hd (hs @ [h0]))" using less.prems(1) by (cases hs) auto
      then have room: "0 < st_size b - st_length b" using x(2) inv by (simp add: fits_def)
      obtain c es' where c: "sock_recv (st_size b - st_length b) (hc_events s) = (Got c, es')" "c \<noteq> []" "length c \<le> st_size b - st_length b"
          "stream (hc_events s) = c @ stream es'" "segments es'" using sock_recv_segments [OF _ ne room] inv by blast
      obtain m where m: "mem_write (st_length b) c (st_mem b) = Some m" using mem_write_Some [of "st_length b" c "st_mem b"] c(3) room by (auto simp: le_diff_conv2)
      let ?b1 = "b\<lparr>st_mem := m, st_length := st_length b + length c\<rparr>" and ?s1 = "s\<lparr>hc_buffer := hc_buffer s, hc_request := hc_request s, hc_events := es'\<rparr>"
      have inv1: "http_inv n hs h0 rest ?b1 r es'"
        using inv c(3-5) mem_write_front [OF m] room by (auto simp: http_inv_def string_inv_def string_value_def scanned_def)
      have "http_loop e x s = Option.bind (http_parse e ?b1 r ?s1) (\<lambda>(x1, s2). http_loop e x1 s2)"
        unfolding step using c(1,2) m by (simp add: http_recv_def)
      moreover have "http_done e n hs h0 rest s (length (stream es')) (Option.bind (http_parse e ?b1 r ?s1) (\<lambda>(x1, s2). http_loop e x1 s2))"
        by (rule http_done_parse [OF e less.prems(1) rest inv1 refl le_refl], rule http_done_mono [OF less.hyps]) (use c(2,4) x(1) in \<open>auto split: if_splits\<close>)
      then have "http_done e n hs h0 rest s (length (stream (hc_events s)) - 1) (Option.bind (http_parse e ?b1 r ?s1) (\<lambda>(x1, s2). http_loop e x1 s2))"
        by (rule http_done_mono) (use c(2,4) in \<open>cases c; simp\<close>)
      ultimately show ?thesis using x(1) by simp
    qed
  qed
qed


lemma http_drive_spec:
  assumes e: "dispatching e" and hs: "list_all (fits n) (hs @ [h0])" and rest: "h0 = rest @ t" "t \<noteq> []"
    and s: "hc_websocket_status s < STATUS_HANDSHAKE" "\<not> hc_http2_stream s" "\<not> hc_closed s" "hc_buffer s = Some b" "hc_request s = Some r \<or> hc_request s = None \<and> r = request_clean"
      "http_inv n hs h0 rest b r (hc_events s)" "st_length b < length (hd (hs @ [h0]))"
  shows "\<exists>b' rq. http_drive e s = Some (s\<lparr>hc_buffer := Some b', hc_request := rq, hc_events := [], hc_world := http_deliver e hs (hc_world s)\<rparr>) \<and> string_value b' = rest"
  using hs s
proof (induction "length (stream (hc_events s))" arbitrary: hs s b r rule: less_induct)
  case less
  note i = less.prems(7) [unfolded http_inv_def]
  show ?case
  proof (cases "hc_events s = []")
    case True
    then have v: "string_value b = concat hs @ rest" using i by simp
    have "length (string_value b) = st_length b" using i by (simp add: string_value_def string_inv_def)
    then have "hs = []" using v less.prems(8) by (cases hs) auto
    moreover have "http_drive e s = Some s" using True by (simp add: http_drive.simps)
    ultimately show ?thesis using v less.prems(5) True by (intro exI [of _ b] exI [of _ "hc_request s"]) simp
  next
    case False
    let ?s = "http_store b r s"
    have "http_done e n hs h0 rest ?s (length (stream (hc_events ?s)) - (if H_recv = H_recv then 1 else 0)) (http_loop e H_recv ?s)"
      by (rule http_loop_spec [OF e less.prems(1) rest]) (use less.prems in \<open>auto simp: http_store_def\<close>)
    then obtain pre hs' b' r' rq es where d: "hs = pre @ hs'"
        "http_loop e H_recv ?s = Some (0, ?s\<lparr>hc_buffer := Some b', hc_request := rq, hc_events := es, hc_world := http_deliver e pre (hc_world ?s)\<rparr>)"
        "http_inv n hs' h0 rest b' r' es" "st_length b' < length (hd (hs' @ [h0]))" "rq = Some r' \<or> rq = None \<and> r' = request_clean" "length (stream es) \<le> length (stream (hc_events s)) - 1"
      unfolding http_done_def by (auto simp: http_store_def)
    let ?s1 = "s\<lparr>hc_buffer := Some b', hc_request := rq, hc_events := es, hc_world := http_deliver e pre (hc_world s)\<rparr>"
    have "(case hc_request s of None \<Rightarrow> request_clean | Some r \<Rightarrow> r) = r" using less.prems(6) by auto
    then have "Port_onRead_http e s = Some (0, ?s1)" using d(2) less.prems by (simp add: Port_onRead_http_def get_recv_buffer_def http_store_def)
    then have dr: "http_drive e s = http_drive e ?s1" using False less.prems(4) by (simp add: http_drive.simps [of e s])
    have "0 < length (stream (hc_events s))" using False segments_stream [of "hc_events s"] i by simp
    then have "length (stream es) < length (stream (hc_events s))" using d(6) by linarith
    then have lt: "length (stream (hc_events ?s1)) < length (stream (hc_events s))" by simp
    have "\<exists>b2 rq2. http_drive e ?s1 = Some (?s1\<lparr>hc_buffer := Some b2, hc_request := rq2, hc_events := [], hc_world := http_deliver e hs' (hc_world ?s1)\<rparr>) \<and> string_value b2 = rest"
      by (rule less.hyps [OF lt, where b = b' and r = r']) (use d less.prems(1-4) in auto)
    then obtain b2 rq2 where "http_drive e ?s1 = Some (?s1\<lparr>hc_buffer := Some b2, hc_request := rq2, hc_events := [], hc_world := http_deliver e hs' (hc_world ?s1)\<rparr>)" "string_value b2 = rest"
      by blast
    moreover have "http_deliver e hs' (http_deliver e pre w) = http_deliver e hs w" for w by (simp add: http_deliver_def d(1))
    ultimately show ?thesis using dr by auto
  qed
qed

definition http_start :: "ostring \<Rightarrow> recv_event list \<Rightarrow> 'w \<Rightarrow> 'w http_conn" where
  "http_start b es w = \<lparr>hc_websocket_status = 0, hc_http_upgrade = False, hc_http2_stream = False, hc_request = None, hc_buffer = Some b,
     hc_recv_wait = False, hc_skip_recv = False, hc_events = es, hc_sent = [], hc_closed = False, hc_world = w\<rparr>"

text \<open>
  C5. Pipelined HTTP requests are dispatched one by one. For every way in which the network cuts a stream of requests without a body
  into segments, the server dispatches exactly these requests, each once and in their order, answers none of them itself, keeps the
  connection open, and keeps the beginning of a further request that has not arrived completely. Each request fits the receive
  buffer and the limit on the header.
\<close>

theorem http_pipeline:
  assumes "dispatching e" and "string_inv b" and "st_length b = 0" and "st_offset b = 0"
    and "\<forall>h\<in>set hs. fits (st_size b) h" and "fits (st_size b) (rest @ t)" and "t \<noteq> []"
    and "segments es" and "stream es = concat hs @ rest"
  shows "\<exists>b' rq. http_drive e (http_start b es w) = Some ((http_start b' [] (http_deliver e hs w))\<lparr>hc_request := rq\<rparr>) \<and> string_value b' = rest"
proof -
  have all: "list_all (fits (st_size b)) (hs @ [rest @ t])" using assms(5,6) by (simp add: list_all_iff)
  have "fits (st_size b) (hd (hs @ [rest @ t]))" using assms(5,6) by (cases hs) auto
  then have inv: "http_inv (st_size b) hs (rest @ t) rest b request_clean es" "0 < length (hd (hs @ [rest @ t]))"
    using assms(2-4,8,9) scanned_clean plain_request_end(3) [of "hd (hs @ [rest @ t])"] by (auto simp: http_inv_def string_value_def fits_def)
  let ?s = "http_start b es w"
  have "\<exists>b' rq. http_drive e ?s = Some (?s\<lparr>hc_buffer := Some b', hc_request := rq, hc_events := [], hc_world := http_deliver e hs (hc_world ?s)\<rparr>) \<and> string_value b' = rest"
    by (rule http_drive_spec [OF assms(1) all refl assms(7), where b = b and r = request_clean]) (use inv assms(3) in \<open>simp_all add: http_start_def STATUS_HANDSHAKE_def\<close>)
  then obtain b' rq where "http_drive e ?s = Some (?s\<lparr>hc_buffer := Some b', hc_request := rq, hc_events := [], hc_world := http_deliver e hs (hc_world ?s)\<rparr>)" "string_value b' = rest"
    by blast
  then show ?thesis by (intro exI [of _ b'] exI [of _ rq]) (simp add: http_start_def)
qed


definition sample_get :: bytes where
  "sample_get = request_line (ascii ''GET'') (ascii ''/'') (ascii ''HTTP/1.1'') @ CRLF @ CRLF"

definition sample_http :: "bytes list http_env" where
  "sample_http = \<lparr>he_alloc = (\<lambda>n. Some (replicate n 0)), he_base = 4096, he_max_length = 2097152, he_open_http2 = False, he_enable_static = False,
     he_static = (\<lambda>b r w. (False, w)), he_dispatch = (\<lambda>bs w. w @ [bs]), he_alive = (\<lambda>w. True),
     he_frames = (\<lambda>ws h2. \<lparr>env_length = (\<lambda>bs. Some (- 1)), env_proto = port_protocol, env_get_size = None, env_alloc = (\<lambda>n. Some (replicate n 0)),
       env_package = (\<lambda>bs w. (0, w @ [bs])), env_removed = (\<lambda>w. False), env_ssl = False\<rparr>)\<rparr>"

lemma sample_get_plain: "plain_request sample_get"
proof -
  have l: "length sample_get = 18" by code_simp
  have "\<forall>i\<in>set [0..<15]. occurs HEADER_END i sample_get \<longleftrightarrow> i + 4 = 18" by code_simp
  moreover have "\<not> occurs HEADER_END i sample_get" if "15 \<le> i" for i using occurs_le [of HEADER_END i sample_get] that l by (auto simp: CRLF_simps)
  ultimately have "occurs HEADER_END i sample_get \<longleftrightarrow> i + 4 = length sample_get" for i by (cases "i < 15") (auto simp: l)
  moreover have "\<not> names_field sample_get i s" if "i < 18" "2 < length s" for i s
  proof
    assume n: "names_field sample_get i s"
    have c: "\<forall>i\<in>set [2..<18]. occurs CRLF (i - 2) sample_get \<longrightarrow> i = 16" by code_simp
    have "i \<in> set [2..<18]" "occurs CRLF (i - 2) sample_get" using n that(1) by (simp_all only: set_upt atLeastLessThan_iff names_field_def)
    then have "i = 16" using c by blast
    then have "length (map tolower (take (length s) (drop 16 sample_get))) = length s" using n by (metis length_map names_field_def)
    then show False using that(2) l by simp
  qed
  then have "bodyless sample_get" by (simp add: bodyless_def l ascii_def)
  moreover have "(ascii ''GET'', 2) \<in> set tried_methods" "ascii ''/'' \<noteq> []" "list_all (\<lambda>c. \<not> isspace c) (ascii ''/'')" by code_simp+
  ultimately show ?thesis unfolding plain_request_def sample_get_def by blast
qed

theorem http_pipeline_witness:
  "\<exists>b rq. http_drive sample_http (http_start \<lparr>st_mem = replicate 64 0, st_length = 0, st_offset = 0\<rparr> [Seg (take 7 sample_get), Seg (drop 7 sample_get @ sample_get @ [71])] []) =
     Some ((http_start b [] [sample_get, sample_get])\<lparr>hc_request := rq\<rparr>) \<and> string_value b = [71]"
proof -
  let ?b = "\<lparr>st_mem = replicate 64 0, st_length = 0, st_offset = 0\<rparr>"
  have l: "length sample_get = 18" "[71] @ tl sample_get = sample_get" "tl sample_get \<noteq> []" "drop 7 sample_get \<noteq> []" "take 7 sample_get \<noteq> []" by code_simp+
  have f: "fits (st_size ?b) sample_get" using sample_get_plain l(1) by (simp add: fits_def OSW_HTTP_HEADER_MAX_SIZE_def)
  have st: "stream [Seg (take 7 sample_get), Seg (drop 7 sample_get @ sample_get @ [71])] = concat [sample_get, sample_get] @ [71]"
    by (simp add: append_assoc [symmetric] del: append_assoc)
  have "dispatching sample_http" by (simp add: dispatching_def sample_http_def)
  then have "\<exists>b' rq. http_drive sample_http (http_start ?b [Seg (take 7 sample_get), Seg (drop 7 sample_get @ sample_get @ [71])] []) =
      Some ((http_start b' [] (http_deliver sample_http [sample_get, sample_get] []))\<lparr>hc_request := rq\<rparr>) \<and> string_value b' = [71]"
  proof (rule http_pipeline [where t = "tl sample_get"])
    show "fits (st_size ?b) ([71] @ tl sample_get)" unfolding l(2) by (rule f)
    show "segments [Seg (take 7 sample_get), Seg (drop 7 sample_get @ sample_get @ [71])]" using l(5) by (simp add: segments_def)
  qed (use f l(3) st in \<open>simp_all add: string_inv_def\<close>)
  then show ?thesis by (simp add: sample_http_def)
qed




end
