(* ===== verification/Osw_Http_Chunked.thy ===== *)
theory Osw_Http_Chunked
  imports Osw_Http
begin

text \<open>
  Chunked request bodies: on a well-formed body the loop of \<^verbatim>\<open>Request::get_chunked_body_length\<close> finds its end, and on a chunk whose
  announced size wraps around the address space it never ends.
\<close>

subsection \<open>Hexadecimal numbers\<close>

definition hex_digit :: "u8 \<Rightarrow> nat" where
  "hex_digit c = nat (url_htoi_digit c)"

definition hex_value :: "bytes \<Rightarrow> nat" where
  "hex_value ds = foldl (\<lambda>v c. v * 16 + hex_digit c) 0 ds"

lemma xdigit_cases:
  assumes "isxdigit c"
  shows "c \<in> set (map word_of_nat ([48..<58] @ [65..<71] @ [97..<103]))"
proof -
  have "unat c \<in> set ([48..<58] @ [65..<71] @ [97..<103])"
    using assms by (simp only: set_append set_upt Un_iff atLeastLessThan_iff isxdigit_def isdigit_def word_le_nat_alt) (auto simp: unat_numeral)
  then have "word_of_nat (unat c) \<in> set (map word_of_nat ([48..<58] @ [65..<71] @ [97..<103]) :: u8 list)" by (simp only: set_map image_eqI)
  then show ?thesis by simp
qed

lemma hex_digit_word:
  assumes "isxdigit c"
  shows "if isdigit c then (ucast (c - 48) :: u64) = word_of_nat (hex_digit c)
    else 65 \<le> toupper c \<and> toupper c \<le> 90 \<and> (ucast (toupper c - 65) :: u64) + 10 = word_of_nat (hex_digit c)"
proof -
  have "list_all (\<lambda>c. if isdigit c then (ucast (c - 48) :: u64) = word_of_nat (hex_digit c)
    else 65 \<le> toupper c \<and> toupper c \<le> 90 \<and> (ucast (toupper c - 65) :: u64) + 10 = word_of_nat (hex_digit c)) (map word_of_nat ([48..<58] @ [65..<71] @ [97..<103]))"
    by code_simp
  from this [unfolded list_all_iff] xdigit_cases [OF assms] show ?thesis by (rule bspec)
qed

text \<open>The byte at which the reading of a number stops.\<close>

definition hex_stop :: "u8 \<Rightarrow> bool" where
  "hex_stop c \<longleftrightarrow> \<not> isdigit c \<and> \<not> (65 \<le> toupper c \<and> toupper c \<le> 90)"

lemma hex_stop_facts: "hex_stop 13" "\<not> hex_stop 120" "\<not> hex_stop 88"
  by code_simp+

lemma tolower_x: "tolower c = 120 \<Longrightarrow> c = 120 \<or> c = 88"
  unfolding tolower_def by (auto split: if_splits)

lemma hex_loop_digits:
  assumes "list_all isxdigit ds" and "take (length ds) (drop p m) = ds" and "p + length ds < length m" and "hex_stop (m ! (p + length ds))"
  shows "hex_loop m p v = Some (foldl (\<lambda>v c. v * 16 + word_of_nat (hex_digit c)) v ds, p + length ds)"
  using assms
proof (induction ds arbitrary: p v)
  case Nil
  then show ?case by (subst hex_loop.simps) (auto simp: Let_def hex_stop_def)
next
  case (Cons d ds)
  have d: "m ! p = d" "take (length ds) (drop (p + 1) m) = ds" "p < length m" using Cons.prems by (auto simp: Cons_nth_drop_Suc [symmetric])
  have IH: "hex_loop m (p + 1) v' = Some (foldl (\<lambda>v c. v * 16 + word_of_nat (hex_digit c)) v' ds, p + 1 + length ds)" for v'
    using Cons.IH [of "p + 1" v'] Cons.prems d by simp
  show ?case using hex_digit_word [of d] Cons.prems(1) d IH by (subst hex_loop.simps) (auto simp: Let_def add.assoc split: if_splits)
qed

lemma hex_value_word: "foldl (\<lambda>v c. v * 16 + word_of_nat (hex_digit c)) (word_of_nat n :: u64) ds = word_of_nat (foldl (\<lambda>v c. v * 16 + hex_digit c) n ds)"
proof (induction ds arbitrary: n)
  case (Cons d ds)
  then show ?case using Cons.IH [of "n * 16 + hex_digit d"] by simp
qed simp

lemma hex2dec_digits:
  assumes "list_all isxdigit ds" and "2 \<le> length ds \<or> 1 \<le> length ds \<and> p + 1 < length m" and "take (length ds) (drop p m) = ds" and "p + length ds < length m" and "hex_stop (m ! (p + length ds))"
  shows "openswoole_hex2dec m p = Some (word_of_nat (hex_value ds), length ds)"
proof -
  have x: "ascii ''0x'' = [48, 120]" "tolower 120 = 120" "\<not> isxdigit 120" "\<not> isxdigit 88" by code_simp+
  have "m ! (p + 1) \<noteq> 120 \<and> m ! (p + 1) \<noteq> 88"
  proof (cases "length ds = 1")
    case True
    then show ?thesis using assms(5) hex_stop_facts by auto
  next
    case False
    then have "1 < length ds" using assms(2) by linarith
    then have "m ! (p + 1) = ds ! 1" "ds ! 1 \<in> set ds" using arg_cong [OF assms(3), of "\<lambda>xs. xs ! 1"] assms(4) by auto
    then show ?thesis using x(3,4) assms(1) by (auto simp: list_all_iff)
  qed
  then have "tolower (m ! (p + 1)) \<noteq> 120" using tolower_x by blast
  moreover have "mem_at m (p + 1) = Some (m ! (p + 1))" "mem_at m p = Some (m ! p)" using assms(2,4) by (auto simp: mem_at_def)
  ultimately have "strncasecmp_eq m p (ascii ''0x'') = Some False" using x(1,2) by simp
  moreover have "hex_loop m p 0 = Some (word_of_nat (hex_value ds), p + length ds)"
    using hex_loop_digits [OF assms(1,3,4,5), of 0] hex_value_word [of 0 ds] by (simp add: hex_value_def)
  ultimately show ?thesis by (simp add: openswoole_hex2dec_def)
qed

subsection \<open>One chunk\<close>

definition chunk :: "bytes \<Rightarrow> bytes \<Rightarrow> bytes" where
  "chunk ds c = ds @ CRLF @ c @ CRLF"

definition chunk_ok :: "bytes \<Rightarrow> bytes \<Rightarrow> bool" where
  "chunk_ok ds c \<longleftrightarrow> ds \<noteq> [] \<and> list_all isxdigit ds \<and> hex_value ds = length c"

text \<open>Addresses inside of the buffer.\<close>

lemma unat_address:
  assumes "unat (base :: u64) + n < 2 ^ 64"
  shows "unat (base + word_of_nat n) = unat base + n"
  using assms by (simp add: unat_word_ariths unsigned_of_nat take_bit_eq_mod)

lemma address_diff: "(base + word_of_nat n) - (base + word_of_nat k) = word_of_nat (n - k)" if "k \<le> n" for base :: u64
  using that by (simp add: of_nat_diff)

lemma unat_of_small: "n < 2 ^ 64 \<Longrightarrow> unat (word_of_nat n :: u64) = n"
  by (simp add: unsigned_of_nat take_bit_eq_mod)

lemma unat_ucast_small: "n < 2 ^ 32 \<Longrightarrow> unat (ucast (word_of_nat n :: u64) :: u32) = n"
  by (simp add: unsigned_ucast_eq unsigned_of_nat take_bit_eq_mod)

lemma sint_of_small: "n < 2 ^ 63 \<Longrightarrow> sint (word_of_nat n :: u64) = int n"
  by (simp add: signed_of_nat signed_take_bit_int_eq_self)

lemma chunk_step_spec:
  assumes b: "string_inv b" "st_size b < 2 ^ 32" and base: "unat base + st_size b < 2 ^ 64" and r: "header_length r \<le> o'"
    and c: "chunk_ok ds c" "string_value b = pre @ chunk ds c @ post" "length pre = o'"
  defines "o2 \<equiv> o' + length (chunk ds c)"
  shows "chunk_step base (base + word_of_nat o') b r =
    Some (if c = [] then (Chunk_return 0, b\<lparr>st_offset := int o2\<rparr>, r\<lparr>content_length := o2 - header_length r, known_length := True\<rparr>)
      else (Chunk_next (base + word_of_nat o2), b\<lparr>st_offset := int o2\<rparr>, r\<lparr>content_length := o2 - header_length r\<rparr>))"
proof -
  let ?m = "st_mem b" and ?n = "length ds"
  have len: "st_length b = o2 + length post" "o2 = o' + ?n + length c + 4" "st_length b \<le> length ?m"
    using arg_cong [OF c(2), of length] b(1) c(3) by (auto simp: string_value_def string_inv_def o2_def chunk_def CRLF_def)
  have v: "take (st_length b) ?m = pre @ chunk ds c @ post" using c(2) by (simp add: string_value_def)
  have ds: "ds \<noteq> []" "list_all isxdigit ds" "hex_value ds = length c" using c(1) by (auto simp: chunk_ok_def)
  have "take ?n (drop o' (take (st_length b) ?m)) = ds" unfolding v using c(3) by (simp add: chunk_def)
  then have t: "take ?n (drop o' ?m) = ds" using len by (simp add: drop_take)
  have "(take (st_length b) ?m) ! (o' + ?n) = 13" unfolding v using c(3) by (simp add: chunk_def CRLF_def nth_append)
  then have cr: "?m ! (o' + ?n) = 13" using len by simp
  have hex: "openswoole_hex2dec ?m o' = Some (word_of_nat (length c), ?n)" using hex2dec_digits [OF ds(2) _ t] cr hex_stop_facts(1) len ds(1,3) by (cases ds) auto
  have at: "mem_at ?m (o' + ?n) = Some 13" using cr len by (simp add: mem_at_def)
  have le: "o' + 3 \<le> st_length b" "o2 \<le> st_length b" "o' \<le> o2" "length c < o2" using len ds(1) by (cases ds; simp)+
  then have small: "o2 < 2 ^ 32" "o' < 2 ^ 32" "st_length b < 2 ^ 32" using len(3) b(2) by linarith+
  have i: "unat (base + word_of_nat o' - base) = o'" using small by (simp add: unat_of_small)
  have "unat ((base + word_of_nat (st_length b)) - (base + word_of_nat o')) = st_length b - o'"
    unfolding address_diff [OF le_trans [OF le(3,2)]] by (rule unat_of_small) (use small in simp)
  then have ge: "((base + word_of_nat (st_length b)) - (base + word_of_nat o') < 3) = False" using le(1) by (simp add: word_less_nat_alt)
  have p1: "base + word_of_nat o' + word_of_nat ?n + 2 + word_of_nat (length c) + 2 = base + word_of_nat o2" by (simp add: len(2))
  have "unat (base + word_of_nat o2) \<le> unat (base + word_of_nat (st_length b))"
    using unat_address [of base o2] unat_address [of base "st_length b"] base le(2) len(3) by linarith
  then have gt: "(base + word_of_nat (st_length b) < base + word_of_nat o2) = False" by (simp add: word_less_nat_alt)
  have cl: "unat (ucast ((base + word_of_nat o2) - (base + word_of_nat (header_length r))) :: u32) = o2 - header_length r"
    unfolding address_diff [OF le_trans [OF r le(3)]] by (rule unat_ucast_small) (use small in simp)
  have off: "sint (base + word_of_nat o2 - base) = int o2" using sint_of_small [of o2] small by simp
  have z: "(word_of_nat (length c) = (0 :: u64)) = (c = [])" using unat_of_small [of "length c"] le(4) small by (auto simp: unat_eq_0)
  show ?thesis unfolding chunk_step_def Let_def by (simp only: ge i hex at p1 gt cl off z Option.bind.simps prod.case if_False if_True simp_thms) auto
qed


subsection \<open>The loop\<close>

definition chunked_body :: "(bytes \<times> bytes) list \<Rightarrow> bytes \<Rightarrow> bytes" where
  "chunked_body cs ds = concat (map (\<lambda>(ds, c). chunk ds c) cs) @ chunk ds []"

lemma chunk_loop_spec:
  assumes b: "string_inv b" "st_size b < 2 ^ 32" and base: "unat base + st_size b < 2 ^ 64"
    and cs: "\<forall>(ds, c)\<in>set cs. chunk_ok ds c \<and> c \<noteq> []" "chunk_ok ds0 []"
    and v: "string_value b = pre @ chunked_body cs ds0 @ post" and r: "header_length r \<le> length pre"
  shows "chunk_loop base (base + word_of_nat (length pre)) b r =
    Some (0, b\<lparr>st_offset := int (length pre + length (chunked_body cs ds0))\<rparr>,
      r\<lparr>content_length := length pre + length (chunked_body cs ds0) - header_length r, known_length := True\<rparr>)"
  using b base cs(1) v r
proof (induction cs arbitrary: pre b r)
  case Nil
  then have "string_value b = pre @ chunk ds0 [] @ post" by (simp add: chunked_body_def)
  from chunk_step_spec [OF Nil.prems(1-3) Nil.prems(6) cs(2) this refl] show ?case
    by (subst chunk_loop.simps) (simp add: chunked_body_def)
next
  case (Cons dc cs)
  obtain ds c where dc: "dc = (ds, c)" "chunk_ok ds c" "c \<noteq> []" using Cons.prems(4) by (cases dc) auto
  have v: "string_value b = pre @ chunk ds c @ (chunked_body cs ds0 @ post)" using Cons.prems(5) dc(1) by (simp add: chunked_body_def)
  let ?o = "length (pre @ chunk ds c)"
  let ?b = "b\<lparr>st_offset := int ?o\<rparr>" and ?r = "r\<lparr>content_length := ?o - header_length r\<rparr>"
  have step: "chunk_step base (base + word_of_nat (length pre)) b r = Some (Chunk_next (base + word_of_nat ?o), ?b, ?r)"
    using chunk_step_spec [OF Cons.prems(1-3) Cons.prems(6) dc(2) v refl] dc(3) by (simp only: if_False length_append)
  have "chunk_loop base (base + word_of_nat ?o) ?b ?r = Some (0, ?b\<lparr>st_offset := int (?o + length (chunked_body cs ds0))\<rparr>,
      ?r\<lparr>content_length := ?o + length (chunked_body cs ds0) - header_length ?r, known_length := True\<rparr>)"
    by (rule Cons.IH) (use Cons.prems v in \<open>auto simp: string_inv_def string_value_def\<close>)
  then show ?case using step dc(1) by (subst chunk_loop.simps) (simp add: chunked_body_def add.assoc del: of_nat_add)
qed

text \<open>
  C17. Chunked bodies: when a body in the chunked transfer coding stands behind the header in the receive buffer, with sizes in hexadecimal
  digits of either case and with anything behind it, the loop over the chunks ends, reads nothing outside of the buffer, and sets the offset and the
  content length to the end of the last chunk.
\<close>

theorem chunked_body_length:
  assumes "string_inv b" and "st_size b < 2 ^ 32" and "unat base + st_size b < 2 ^ 64"
    and "\<forall>(ds, c)\<in>set cs. chunk_ok ds c \<and> c \<noteq> []" and "chunk_ok ds0 []"
    and "string_value b = header @ chunked_body cs ds0 @ rest" and "st_offset b = int (length header)" and "header_length r = length header"
  shows "get_chunked_body_length base b r =
    Some (0, b\<lparr>st_offset := int (length header + length (chunked_body cs ds0))\<rparr>, r\<lparr>content_length := length (chunked_body cs ds0), known_length := True\<rparr>)"
  using chunk_loop_spec [OF assms(1-6), of r] assms(7,8) by (simp add: get_chunked_body_length_def)


theorem chunked_body_length_witness:
  "\<exists>b. string_value b = [10] @ chunked_body [([51], [97, 98, 99])] [48] @ [71] \<and>
     get_chunked_body_length 4096 b (request_clean\<lparr>header_length := 1\<rparr>) =
       Some (0, b\<lparr>st_offset := 14\<rparr>, request_clean\<lparr>header_length := 1, content_length := 13, known_length := True\<rparr>)"
proof -
  let ?v = "[10] @ chunked_body [([51], [97, 98, 99])] [48] @ [71]"
  let ?b = "\<lparr>st_mem = ?v, st_length = length ?v, st_offset = 1\<rparr>" and ?r = "request_clean\<lparr>header_length := 1\<rparr>"
  have l: "length ?v = 15" "length (chunked_body [([51], [97, 98, 99])] [48]) = 13" by code_simp+
  have c: "chunk_ok [51] [97, 98, 99]" "chunk_ok [48] []" by code_simp+
  have "get_chunked_body_length 4096 ?b ?r = Some (0, ?b\<lparr>st_offset := int (length [10 :: u8] + length (chunked_body [([51], [97, 98, 99])] [48]))\<rparr>,
      ?r\<lparr>content_length := length (chunked_body [([51], [97, 98, 99])] [48]), known_length := True\<rparr>)"
    by (rule chunked_body_length [where rest = "[71]"]) (use c l in \<open>simp_all add: string_inv_def string_value_def\<close>)
  then show ?thesis using l by (intro exI [of _ ?b]) (simp add: string_value_def)
qed

text \<open>
  A chunk whose size line has not arrived completely makes the request invalid: when the received bytes end in at least three digits of a
  size, the loop reads on behind them, in bytes that have not been received, and unless a carriage return happens to stand there, the request is
  marked as malformed.
\<close>

theorem chunk_size_split:
  assumes b: "string_inv b" "st_size b < 2 ^ 32" "string_value b = pre @ ds" "st_offset b = int (length pre)"
    and ds: "list_all isxdigit ds" "3 \<le> length ds" and next': "st_length b < st_size b" "hex_stop (st_mem b ! st_length b)" "st_mem b ! st_length b \<noteq> 13"
  shows "get_chunked_body_length base b r = Some (- 1, b, r\<lparr>excepted := True\<rparr>)"
proof -
  have len: "st_length b = length pre + length ds" using arg_cong [OF b(3), of length] b(1) by (simp add: string_value_def string_inv_def)
  have "take (length ds) (drop (length pre) (take (st_length b) (st_mem b))) = ds" using b(3) by (simp add: string_value_def)
  then have t: "take (length ds) (drop (length pre) (st_mem b)) = ds" using len by (simp add: drop_take)
  have hex: "openswoole_hex2dec (st_mem b) (length pre) = Some (word_of_nat (hex_value ds), length ds)"
    by (rule hex2dec_digits [OF ds(1) _ t]) (use ds(2) len next' in auto)
  have i: "unat (base + word_of_nat (length pre) - base) = length pre" using len b(2) next' by (simp add: unat_of_small)
  have "unat ((base + word_of_nat (st_length b)) - (base + word_of_nat (length pre))) = length ds"
    using address_diff [of "length pre" "st_length b" base] len b(2) next' unat_of_small [of "length ds"] by simp
  then have ge: "((base + word_of_nat (st_length b)) - (base + word_of_nat (length pre)) < 3) = False" using ds(2) by (simp add: word_less_nat_alt)
  have at: "mem_at (st_mem b) (length pre + length ds) = Some (st_mem b ! st_length b)" "(st_mem b ! st_length b \<noteq> 13) = True" using len next' by (simp_all add: mem_at_def)
  have "chunk_step base (base + word_of_nat (length pre)) b r = Some (Chunk_return (- 1), b, r\<lparr>excepted := True\<rparr>)"
    unfolding chunk_step_def Let_def by (simp only: ge i hex at Option.bind.simps prod.case if_False if_True simp_thms)
  then show ?thesis using b(4) by (simp add: get_chunked_body_length_def chunk_loop.simps)
qed

theorem chunk_size_split_witness:
  "get_chunked_body_length 4096 \<lparr>st_mem = [49, 48, 48, 48, 0, 0], st_length = 4, st_offset = 0\<rparr> request_clean =
     Some (- 1, \<lparr>st_mem = [49, 48, 48, 48, 0, 0], st_length = 4, st_offset = 0\<rparr>, request_clean\<lparr>excepted := True\<rparr>)"
proof -
  have "hex_stop 0" "list_all isxdigit [49, 48, 48, 48]" by code_simp+
  then show ?thesis by (intro chunk_size_split [where pre = "[]" and ds = "[49, 48, 48, 48]"]) (simp_all add: string_inv_def string_value_def)
qed

lemma chunk_step_wraps:
  assumes b: "string_inv b" "st_size b < 2 ^ 32" "string_value b = pre @ ds @ CRLF @ post" "st_offset b = int (length pre)" and base: "unat base + st_size b < 2 ^ 64"
    and ds: "list_all isxdigit ds" "ds \<noteq> []" "(hex_value ds + length ds + 4) mod 2 ^ 64 = 0"
  shows "chunk_step base (base + word_of_nat (length pre)) b r = Some (Chunk_next (base + word_of_nat (length pre)), b,
    r\<lparr>content_length := unat (ucast ((base + word_of_nat (length pre)) - (base + word_of_nat (header_length r))) :: u32)\<rparr>)"
proof -
  let ?m = "st_mem b" and ?n = "length ds" and ?o = "length pre"
  have len: "st_length b = ?o + ?n + 2 + length post" "st_length b \<le> length ?m"
    using arg_cong [OF b(3), of length] b(1) by (auto simp: string_value_def string_inv_def CRLF_def)
  have v: "take (st_length b) ?m = pre @ ds @ CRLF @ post" using b(3) by (simp add: string_value_def)
  have "take ?n (drop ?o (take (st_length b) ?m)) = ds" unfolding v by simp
  then have t: "take ?n (drop ?o ?m) = ds" using len by (simp add: drop_take)
  have "(take (st_length b) ?m) ! (?o + ?n) = 13" unfolding v by (simp add: CRLF_def nth_append)
  then have cr: "?m ! (?o + ?n) = 13" using len by simp
  have n1: "1 \<le> ?n" using ds(2) by (cases ds) auto
  have hex: "openswoole_hex2dec ?m ?o = Some (word_of_nat (hex_value ds), ?n)"
    by (rule hex2dec_digits [OF ds(1) _ t]) (use n1 cr len hex_stop_facts(1) in auto)
  have at: "mem_at ?m (?o + ?n) = Some 13" using cr len by (simp add: mem_at_def)
  have le: "?o + 3 \<le> st_length b" using len(1) n1 by simp
  have i: "unat (base + word_of_nat ?o - base) = ?o" using len b(2) by (simp add: unat_of_small)
  have "unat ((base + word_of_nat (st_length b)) - (base + word_of_nat ?o)) = st_length b - ?o"
    using address_diff [of ?o "st_length b" base] le len(2) b(2) unat_of_small [of "st_length b - ?o"] by simp
  then have ge: "((base + word_of_nat (st_length b)) - (base + word_of_nat ?o) < 3) = False" using le by (simp add: word_less_nat_alt)
  have "word_of_nat (hex_value ds + ?n + 4) = (0 :: u64)" using ds(3) by (simp add: of_nat_eq_0_iff word_of_nat_eq_0_iff mod_0_imp_dvd del: of_nat_add)
  then have z: "word_of_nat ?n + (word_of_nat (hex_value ds) + 4) = (0 :: u64)" by (simp add: ac_simps)
  then have p1: "base + word_of_nat ?o + word_of_nat ?n + 2 + word_of_nat (hex_value ds) + 2 = base + word_of_nat ?o" by (simp add: ac_simps)
  have "unat (base + word_of_nat ?o) \<le> unat (base + word_of_nat (st_length b))"
    using unat_address [of base ?o] unat_address [of base "st_length b"] base len by linarith
  then have gt: "(base + word_of_nat (st_length b) < base + word_of_nat ?o) = False" by (simp add: word_less_nat_alt)
  have off: "sint (base + word_of_nat ?o - base) = st_offset b" using sint_of_small [of ?o] len b(2,4) by simp
  have nz: "(word_of_nat (hex_value ds) = (0 :: u64)) = False"
  proof -
    have "unat (word_of_nat (?n + 4) :: u64) = ?n + 4" by (rule unat_of_small) (use len b(2) in simp)
    then have "word_of_nat (?n + 4) \<noteq> (0 :: u64)" by auto
    then show ?thesis using z by auto
  qed
  show ?thesis unfolding chunk_step_def Let_def by (simp only: ge i hex at p1 gt off nz Option.bind.simps prod.case if_False if_True simp_thms) simp
qed

lemma chunk_loop_diverges:
  assumes "chunk_loop base p b r = Some y"
  shows "\<exists>r. \<forall>r'. chunk_step base p b r \<noteq> Some (Chunk_next p, b, r')"
proof (rule chunk_loop.raw_induct [where P = "\<lambda>base p b r y. \<exists>r. \<forall>r'. chunk_step base p b r \<noteq> Some (Chunk_next p, b, r')", OF _ assms])
  fix f base p b r y
  assume IH: "\<And>base p b r y. f base p b r = Some y \<Longrightarrow> \<exists>r. \<forall>r'. chunk_step base p b r \<noteq> Some (Chunk_next p, b, r')"
    and body: "do { (x, b1, r1) \<leftarrow> chunk_step base p b r; case x of Chunk_return k \<Rightarrow> Some (k, b1, r1) | Chunk_next p1 \<Rightarrow> f base p1 b1 r1 } = Some y"
  show "\<exists>r. \<forall>r'. chunk_step base p b r \<noteq> Some (Chunk_next p, b, r')"
  proof (cases "\<exists>r'. chunk_step base p b r = Some (Chunk_next p, b, r')")
    case True
    then obtain r' where "chunk_step base p b r = Some (Chunk_next p, b, r')" by blast
    then have "f base p b r' = Some y" using body by simp
    then show ?thesis by (rule IH)
  qed blast
qed

text \<open>
  C34. A chunk size that wraps around the address space keeps the server busy for ever: when the announced size, the length of its digits and the four
  bytes of the line ends add up to a multiple of \<open>2 ^ 64\<close>, as for sixteen digits \<^verbatim>\<open>ffffffffffffffec\<close>, the position behind the chunk is the
  position of the chunk itself, so each round of the loop comes back to its own state and the loop does not return.
\<close>

theorem chunk_loop_stuck:
  assumes b: "string_inv b" "st_size b < 2 ^ 32" "string_value b = pre @ ds @ CRLF @ post" "st_offset b = int (length pre)" and base: "unat base + st_size b < 2 ^ 64"
    and ds: "list_all isxdigit ds" "ds \<noteq> []" "(hex_value ds + length ds + 4) mod 2 ^ 64 = 0"
  shows "get_chunked_body_length base b r = None \<and> (\<exists>r'. chunk_step base (base + word_of_nat (length pre)) b r = Some (Chunk_next (base + word_of_nat (length pre)), b, r') \<and>
    chunk_step base (base + word_of_nat (length pre)) b r' = Some (Chunk_next (base + word_of_nat (length pre)), b, r'))"
proof -
  define q where "q = base + word_of_nat (length pre)"
  define f where "f r = r\<lparr>content_length := unat (ucast (q - (base + word_of_nat (header_length r))) :: u32)\<rparr>" for r :: request
  have step: "chunk_step base q b r = Some (Chunk_next q, b, f r)" for r using chunk_step_wraps [OF b base ds] by (simp add: q_def f_def)
  have "chunk_loop base q b r = None" using chunk_loop_diverges [of base q b r] step by (cases "chunk_loop base q b r") auto
  moreover have "f (f r) = f r" by (simp add: f_def)
  ultimately show ?thesis using step [of r] step [of "f r"] b(4) unfolding q_def by (auto simp: get_chunked_body_length_def)
qed

theorem chunk_loop_stuck_witness:
  "get_chunked_body_length 4096 \<lparr>st_mem = ascii ''ffffffffffffffec'' @ CRLF, st_length = 18, st_offset = 0\<rparr> request_clean = None"
proof -
  have h: "hex_digit 102 = 15" "hex_digit 101 = 14" "hex_digit 99 = 12" by code_simp+
  have d: "list_all isxdigit (ascii ''ffffffffffffffec'')" "length (ascii ''ffffffffffffffec'') = 16" "ascii ''ffffffffffffffec'' \<noteq> []" by code_simp+
  have v: "hex_value (ascii ''ffffffffffffffec'') = 18446744073709551596" by (simp add: hex_value_def ascii_def h)
  show ?thesis
    using chunk_loop_stuck [of "\<lparr>st_mem = ascii ''ffffffffffffffec'' @ CRLF, st_length = 18, st_offset = 0\<rparr>" "[]" "ascii ''ffffffffffffffec''" "[]" 4096 request_clean] d v
    by (auto simp: string_inv_def string_value_def CRLF_def)
qed

end
