(* ===== verification/Osw_Lru_Cache.thy ===== *)
theory Osw_Lru_Cache
  imports Osw_Prelude "HOL-Library.Monad_Syntax"
begin

text \<open>
  The cache of \<^verbatim>\<open>include/openswoole_lru_cache.h\<close>: a list of entries with the last used one in front, and a hash map from the keys to the
  entries. The entries of the \<^verbatim>\<open>std::list\<close> are objects in an explicit store; the list is the order of their addresses, and an
  iterator is an address. A value is \<open>None\<close> for a null pointer; the clock is an argument. \<^verbatim>\<open>new\<close> hands out addresses from a counter.
  An operation is \<open>None\<close> when it uses an iterator that is not valid.
\<close>

subsection \<open>Operations\<close>

record 'v lru =
  cache_map :: "string \<rightharpoonup> nat"
  cache_list :: "nat list"
  cache_nodes :: "nat \<rightharpoonup> string \<times> int \<times> 'v option"
  cache_capacity :: nat
  cache_fresh :: nat

definition lru_new :: "nat \<Rightarrow> 'v lru" where
  "lru_new capacity = \<lparr>cache_map = Map.empty, cache_list = [], cache_nodes = Map.empty, cache_capacity = capacity, cache_fresh = 0\<rparr>"

definition lru_splice_front :: "nat \<Rightarrow> 'v lru \<Rightarrow> 'v lru" where
  "lru_splice_front a c = c\<lparr>cache_list := a # remove1 a (cache_list c)\<rparr>"

definition lru_get :: "string \<Rightarrow> int \<Rightarrow> 'v lru \<Rightarrow> ('v option \<times> 'v lru) option" where
  "lru_get key now c =
     (case cache_map c key of
        None \<Rightarrow> Some (None, c)
      | Some a \<Rightarrow> do {
          (k, expire_time, val) \<leftarrow> cache_nodes c a;
          Some (if expire_time < now \<and> expire_time > 0 then (None, c) else (val, lru_splice_front a c))
        })"

text \<open>The last entry is erased, and its key from the map.\<close>

definition lru_evict :: "'v lru \<Rightarrow> 'v lru option" where
  "lru_evict c =
     (let b = last (cache_list c) in do {
        (k, _) \<leftarrow> cache_nodes c b;
        Some (c\<lparr>cache_map := (cache_map c)(k := None), cache_list := butlast (cache_list c), cache_nodes := (cache_nodes c)(b := None)\<rparr>)
      })"

definition lru_set :: "string \<Rightarrow> 'v option \<Rightarrow> int \<Rightarrow> int \<Rightarrow> 'v lru \<Rightarrow> 'v lru option" where
  "lru_set key val expire now c =
     (let expire_time = (if expire \<le> 0 then 0 else now + expire) in
      case cache_map c key of
        Some a \<Rightarrow> do {
          (k, _) \<leftarrow> cache_nodes c a;
          Some (lru_splice_front a (c\<lparr>cache_nodes := (cache_nodes c)(a \<mapsto> (k, expire_time, val))\<rparr>))
        }
      | None \<Rightarrow> do {
          let size = length (cache_list c);
          c1 \<leftarrow> (if size = cache_capacity c \<and> size > 0 then lru_evict c else Some c);
          let a = cache_fresh c1;
          Some (c1\<lparr>cache_list := a # cache_list c1, cache_nodes := (cache_nodes c1)(a \<mapsto> (key, expire_time, val)),
            cache_map := (cache_map c1)(key \<mapsto> a), cache_fresh := a + 1\<rparr>)
        })"

definition lru_del :: "string \<Rightarrow> 'v lru \<Rightarrow> 'v lru option" where
  "lru_del key c =
     (case cache_map c key of
        None \<Rightarrow> Some c
      | Some a \<Rightarrow> do {
          _ \<leftarrow> cache_nodes c a;
          Some (c\<lparr>cache_map := (cache_map c)(key := None), cache_list := remove1 a (cache_list c), cache_nodes := (cache_nodes c)(a := None)\<rparr>)
        })"

definition lru_clear :: "'v lru \<Rightarrow> 'v lru" where
  "lru_clear c = c\<lparr>cache_list := [], cache_nodes := Map.empty, cache_map := Map.empty\<rparr>"

subsection \<open>The list of entries, last used first\<close>

type_synonym 'v entries = "(string \<times> int \<times> 'v option) list"

definition without :: "string \<Rightarrow> 'v entries \<Rightarrow> 'v entries" where
  "without k l = filter (\<lambda>e. fst e \<noteq> k) l"

definition recent_get :: "string \<Rightarrow> int \<Rightarrow> 'v entries \<Rightarrow> 'v option \<times> 'v entries" where
  "recent_get k now l =
     (case map_of l k of
        None \<Rightarrow> (None, l)
      | Some (t, v) \<Rightarrow> if t < now \<and> t > 0 then (None, l) else (v, (k, t, v) # without k l))"

definition recent_set :: "nat \<Rightarrow> string \<Rightarrow> 'v option \<Rightarrow> int \<Rightarrow> int \<Rightarrow> 'v entries \<Rightarrow> 'v entries" where
  "recent_set n k v expire now l = take n ((k, (if expire \<le> 0 then 0 else now + expire), v) # without k l)"

definition lru_abs :: "'v lru \<Rightarrow> 'v entries" where
  "lru_abs c = map (\<lambda>a. the (cache_nodes c a)) (cache_list c)"

definition lru_inv :: "'v lru \<Rightarrow> bool" where
  "lru_inv c \<longleftrightarrow> distinct (cache_list c) \<and> dom (cache_nodes c) = set (cache_list c) \<and> (\<forall>a\<in>set (cache_list c). a < cache_fresh c) \<and>
     (\<forall>k a. cache_map c k = Some a \<longleftrightarrow> a \<in> set (cache_list c) \<and> fst (the (cache_nodes c a)) = k)"

lemma lru_inv_new: "lru_inv (lru_new n)" "lru_abs (lru_new n) = []"
  by (auto simp: lru_inv_def lru_new_def lru_abs_def)

lemma lru_invD:
  assumes "lru_inv c"
  shows "distinct (cache_list c)" "dom (cache_nodes c) = set (cache_list c)" "a \<in> set (cache_list c) \<Longrightarrow> a < cache_fresh c"
    "cache_map c k = Some a \<longleftrightarrow> a \<in> set (cache_list c) \<and> fst (the (cache_nodes c a)) = k"
  using assms by (simp_all add: lru_inv_def)

lemma lru_inj:
  assumes "lru_inv c" "a \<in> set (cache_list c)" "b \<in> set (cache_list c)" "fst (the (cache_nodes c a)) = fst (the (cache_nodes c b))"
  shows "a = b"
proof -
  have "cache_map c (fst (the (cache_nodes c b))) = Some a" "cache_map c (fst (the (cache_nodes c b))) = Some b"
    using lru_invD(4) [OF assms(1)] assms(2-4) by simp_all
  then show ?thesis by simp
qed

lemma lru_keys_distinct:
  assumes "lru_inv c"
  shows "distinct (map fst (lru_abs c))"
  using lru_inj [OF assms] lru_invD(1) [OF assms] by (auto simp: lru_abs_def distinct_map comp_def inj_on_def)

lemma lru_node:
  assumes "lru_inv c" "cache_map c k = Some a"
  obtains t v where "a \<in> set (cache_list c)" "cache_nodes c a = Some (k, t, v)"
proof -
  have a: "a \<in> set (cache_list c)" "fst (the (cache_nodes c a)) = k" using assms by (simp_all add: lru_invD(4))
  then have "a \<in> dom (cache_nodes c)" using lru_invD(2) [OF assms(1)] by simp
  then show thesis using that a by auto
qed

lemma lru_absent:
  assumes "lru_inv c" "cache_map c k = None" "a \<in> set (cache_list c)"
  shows "fst (the (cache_nodes c a)) \<noteq> k"
  using assms(2,3) lru_invD(4) [OF assms(1), of k a] by simp

lemma lru_map_of:
  assumes "lru_inv c"
  shows "map_of (lru_abs c) k = Option.bind (cache_map c k) (\<lambda>a. map_option snd (cache_nodes c a))"
proof (cases "cache_map c k")
  case None
  then have "k \<notin> fst ` set (lru_abs c)" using lru_absent [OF assms None] unfolding lru_abs_def set_map image_image by blast
  then show ?thesis using None by (simp add: map_of_eq_None_iff)
next
  case (Some a)
  obtain t v where n: "a \<in> set (cache_list c)" "cache_nodes c a = Some (k, t, v)" by (rule lru_node [OF assms Some])
  then have "(k, t, v) \<in> set (lru_abs c)" unfolding lru_abs_def set_map by (intro image_eqI [of _ _ a]) simp_all
  then show ?thesis using lru_keys_distinct [OF assms] Some n by simp
qed

text \<open>The entries other than one, by address and by key.\<close>

lemma lru_without:
  assumes "lru_inv c" and "cache_map c k = Some a"
  shows "map (\<lambda>b. the (cache_nodes c b)) (remove1 a (cache_list c)) = without k (lru_abs c)"
proof -
  obtain t v where a: "a \<in> set (cache_list c)" "cache_nodes c a = Some (k, t, v)" by (rule lru_node [OF assms])
  have "remove1 a (cache_list c) = filter (\<lambda>b. a \<noteq> b) (cache_list c)"
    using lru_invD(1) [OF assms(1)] by (simp add: distinct_remove1_removeAll removeAll_filter_not_eq)
  also have "\<dots> = filter (\<lambda>b. fst (the (cache_nodes c b)) \<noteq> k) (cache_list c)"
  proof (rule filter_cong [OF refl])
    fix b
    assume "b \<in> set (cache_list c)"
    then have "fst (the (cache_nodes c b)) = k \<Longrightarrow> a = b" using lru_inj [OF assms(1) a(1), of b] a(2) by simp
    then show "a \<noteq> b \<longleftrightarrow> fst (the (cache_nodes c b)) \<noteq> k" using a(2) by (cases "a = b") auto
  qed
  finally show ?thesis by (simp add: without_def lru_abs_def filter_map comp_def)
qed

lemma without_idle: "map_of l k = None \<Longrightarrow> without k l = l"
  by (auto simp: without_def map_of_eq_None_iff filter_id_conv)

lemma lru_inv_front:
  assumes "lru_inv c" "a \<in> set (cache_list c)"
  shows "lru_inv (lru_splice_front a c)"
proof -
  have "insert a (set (cache_list c) - {a}) = set (cache_list c)" using assms(2) by blast
  then show ?thesis using assms unfolding lru_inv_def by (simp add: lru_splice_front_def)
qed

lemma lru_get_spec:
  assumes "lru_inv c"
  shows "\<exists>v c'. lru_get k now c = Some (v, c') \<and> lru_inv c' \<and> cache_capacity c' = cache_capacity c \<and> (v, lru_abs c') = recent_get k now (lru_abs c)"
proof (cases "cache_map c k")
  case None
  then show ?thesis using assms lru_map_of [OF assms, of k] by (simp add: lru_get_def recent_get_def)
next
  case (Some a)
  obtain t v where n: "a \<in> set (cache_list c)" "cache_nodes c a = Some (k, t, v)" by (rule lru_node [OF assms Some])
  have "lru_abs (lru_splice_front a c) = (k, t, v) # without k (lru_abs c)"
    using lru_without [OF assms Some] n by (simp add: lru_abs_def lru_splice_front_def)
  then show ?thesis using assms Some n lru_map_of [OF assms, of k] lru_inv_front [OF assms n(1)]
    by (simp add: lru_get_def recent_get_def lru_splice_front_def)
qed

text \<open>Erasing an entry.\<close>

lemma lru_erase:
  assumes "lru_inv c" "cache_map c k = Some a"
  defines "c' \<equiv> c\<lparr>cache_map := (cache_map c)(k := None), cache_list := remove1 a (cache_list c), cache_nodes := (cache_nodes c)(a := None)\<rparr>"
  shows "lru_inv c'" "lru_abs c' = without k (lru_abs c)"
proof -
  obtain t v where n: "a \<in> set (cache_list c)" "cache_nodes c a = Some (k, t, v)" by (rule lru_node [OF assms(1,2)])
  have r: "set (remove1 a (cache_list c)) = set (cache_list c) - {a}" "distinct (remove1 a (cache_list c))" using lru_invD(1) [OF assms(1)] by simp_all
  have "cache_map c' q = Some b \<longleftrightarrow> b \<in> set (cache_list c') \<and> fst (the (cache_nodes c' b)) = q" for q b
  proof (cases "b = a")
    case True
    then have "cache_map c q = Some b \<longleftrightarrow> q = k" using lru_invD(4) [OF assms(1), of q b] n by auto
    then show ?thesis using True by (simp add: c'_def r)
  next
    case False
    then have "\<not> (b \<in> set (cache_list c) \<and> fst (the (cache_nodes c b)) = k)" using lru_inj [OF assms(1) n(1), of b] n by auto
    then show ?thesis using lru_invD(4) [OF assms(1), of q b] False by (cases "q = k") (simp_all add: c'_def r)
  qed
  moreover have "dom (cache_nodes c') = set (cache_list c')" "distinct (cache_list c')" "\<forall>b\<in>set (cache_list c'). b < cache_fresh c'"
    using lru_invD [OF assms(1)] r by (auto simp: c'_def)
  ultimately show "lru_inv c'" unfolding lru_inv_def by blast
  have "map (\<lambda>b. the (((cache_nodes c)(a := None)) b)) (remove1 a (cache_list c)) = map (\<lambda>b. the (cache_nodes c b)) (remove1 a (cache_list c))"
    by (rule map_cong) (use r in auto)
  then show "lru_abs c' = without k (lru_abs c)" using lru_without [OF assms(1,2)] by (simp add: lru_abs_def c'_def)
qed

lemma lru_del_spec:
  assumes "lru_inv c"
  shows "\<exists>c'. lru_del k c = Some c' \<and> lru_inv c' \<and> cache_capacity c' = cache_capacity c \<and> lru_abs c' = without k (lru_abs c)"
proof (cases "cache_map c k")
  case None
  then show ?thesis using assms lru_map_of [OF assms, of k] by (simp add: lru_del_def without_idle)
next
  case (Some a)
  obtain t v where n: "a \<in> set (cache_list c)" "cache_nodes c a = Some (k, t, v)" by (rule lru_node [OF assms Some])
  show ?thesis using Some n lru_erase [OF assms Some] by (simp add: lru_del_def)
qed

lemma without_last:
  assumes "distinct (map fst l)" "l \<noteq> []"
  shows "without (fst (last l)) l = butlast l"
proof -
  obtain xs x where l: "l = xs @ [x]" using assms(2) by (metis append_butlast_last_id)
  then have "\<forall>e\<in>set xs. fst e \<noteq> fst x" using assms(1) by (auto simp: image_iff)
  then have "filter (\<lambda>e. fst e \<noteq> fst x) xs = xs" by (simp add: filter_id_conv)
  then show ?thesis using l by (simp add: without_def)
qed

lemma remove1_last: "distinct xs \<Longrightarrow> xs \<noteq> [] \<Longrightarrow> remove1 (last xs) xs = butlast xs"
  by (induction xs) auto

lemma lru_evict_spec:
  assumes "lru_inv c" and "cache_list c \<noteq> []"
  shows "\<exists>c'. lru_evict c = Some c' \<and> lru_inv c' \<and> cache_capacity c' = cache_capacity c \<and> cache_fresh c' = cache_fresh c \<and> lru_abs c' = butlast (lru_abs c) \<and>
    (\<forall>k. cache_map c k = None \<longrightarrow> cache_map c' k = None)"
proof -
  let ?b = "last (cache_list c)"
  have b: "?b \<in> set (cache_list c)" using assms(2) by simp
  then have m: "cache_map c (fst (the (cache_nodes c ?b))) = Some ?b" using lru_invD(4) [OF assms(1)] by simp
  define k where "k = fst (the (cache_nodes c ?b))"
  then have m: "cache_map c k = Some ?b" using m by simp
  then obtain t v where n: "cache_nodes c ?b = Some (k, t, v)" by (rule lru_node [OF assms(1)])
  have "remove1 ?b (cache_list c) = butlast (cache_list c)"
    using lru_invD(1) [OF assms(1)] assms(2) by (rule remove1_last)
  moreover have "fst (last (lru_abs c)) = k" "lru_abs c \<noteq> []" using n assms(2) by (simp_all add: lru_abs_def last_map)
  ultimately show ?thesis using n lru_erase [OF assms(1) m] without_last [of "lru_abs c"] lru_keys_distinct [OF assms(1)]
    by (simp add: lru_evict_def Let_def)
qed


lemma lru_insert:
  fixes c :: "'v lru" and e :: "int \<times> 'v option"
  assumes "lru_inv c" "cache_map c k = None"
  defines "c' \<equiv> c\<lparr>cache_list := cache_fresh c # cache_list c, cache_nodes := (cache_nodes c)(cache_fresh c \<mapsto> (k, e)),
    cache_map := (cache_map c)(k \<mapsto> cache_fresh c), cache_fresh := cache_fresh c + 1\<rparr>"
  shows "lru_inv c'" "lru_abs c' = (k, e) # lru_abs c"
proof -
  have f: "cache_fresh c \<notin> set (cache_list c)" using lru_invD(3) [OF assms(1), of "cache_fresh c"] by blast
  have "cache_map c' q = Some b \<longleftrightarrow> b \<in> set (cache_list c') \<and> fst (the (cache_nodes c' b)) = q" for q b
    using lru_invD(4) [OF assms(1), of q b] lru_absent [OF assms(1,2), of b] f by (cases "q = k"; cases "b = cache_fresh c") (simp_all add: c'_def)
  moreover have "dom (cache_nodes c') = set (cache_list c')" "distinct (cache_list c')" "\<forall>b\<in>set (cache_list c'). b < cache_fresh c'"
    using lru_invD [OF assms(1)] f by (auto simp: c'_def less_SucI)
  ultimately show "lru_inv c'" unfolding lru_inv_def by blast
  have "map (\<lambda>b. the (((cache_nodes c)(cache_fresh c \<mapsto> (k, e))) b)) (cache_list c) = map (\<lambda>b. the (cache_nodes c b)) (cache_list c)"
    by (rule map_cong) (use f in auto)
  then show "lru_abs c' = (k, e) # lru_abs c" by (simp add: lru_abs_def c'_def)
qed

lemma lru_replace:
  fixes c :: "'v lru" and e :: "int \<times> 'v option"
  assumes "lru_inv c" "cache_map c k = Some a"
  defines "c' \<equiv> lru_splice_front a (c\<lparr>cache_nodes := (cache_nodes c)(a \<mapsto> (k, e))\<rparr>)"
  shows "lru_inv c'" "lru_abs c' = (k, e) # without k (lru_abs c)"
proof -
  obtain t v where n: "a \<in> set (cache_list c)" "cache_nodes c a = Some (k, t, v)" by (rule lru_node [OF assms(1,2)])
  let ?c = "c\<lparr>cache_nodes := (cache_nodes c)(a \<mapsto> (k, e))\<rparr>"
  have "fst (the (cache_nodes ?c b)) = fst (the (cache_nodes c b))" for b using n by simp
  moreover have "dom (cache_nodes ?c) = dom (cache_nodes c)" using n by auto
  ultimately have "lru_inv ?c" using assms(1) unfolding lru_inv_def by simp
  then show "lru_inv c'" unfolding c'_def using n by (intro lru_inv_front) simp_all
  have "map (\<lambda>b. the (((cache_nodes c)(a \<mapsto> (k, e))) b)) (remove1 a (cache_list c)) = map (\<lambda>b. the (cache_nodes c b)) (remove1 a (cache_list c))"
    by (rule map_cong) (use lru_invD(1) [OF assms(1)] in auto)
  then show "lru_abs c' = (k, e) # without k (lru_abs c)" using lru_without [OF assms(1,2)] by (simp add: lru_abs_def c'_def lru_splice_front_def)
qed

lemma without_length: "map_of l k \<noteq> None \<Longrightarrow> length (without k l) < length l"
proof (induction l)
  case (Cons e l)
  then show ?case using le_imp_less_Suc [OF length_filter_le [of "\<lambda>e. fst e \<noteq> k" l]] by (auto simp: without_def split: if_splits)
qed simp

lemma lru_length: "length (lru_abs c) = length (cache_list c)"
  by (simp add: lru_abs_def)

lemma lru_set_spec:
  assumes "lru_inv c" "length (lru_abs c) \<le> cache_capacity c" "0 < cache_capacity c"
  shows "\<exists>c'. lru_set k v expire now c = Some c' \<and> lru_inv c' \<and> cache_capacity c' = cache_capacity c \<and>
    lru_abs c' = recent_set (cache_capacity c) k v expire now (lru_abs c)"
proof (cases "cache_map c k")
  case (Some a)
  obtain t u where n: "a \<in> set (cache_list c)" "cache_nodes c a = Some (k, t, u)" by (rule lru_node [OF assms(1) Some])
  have "length (without k (lru_abs c)) < length (lru_abs c)" using lru_map_of [OF assms(1), of k] Some n by (intro without_length) simp
  then show ?thesis using assms(2) Some n lru_replace [OF assms(1) Some] by (simp add: lru_set_def Let_def recent_set_def) (simp add: lru_splice_front_def)
next
  case None
  have w: "without k (lru_abs c) = lru_abs c" using lru_map_of [OF assms(1), of k] None by (simp add: without_idle)
  show ?thesis
  proof (cases "length (cache_list c) = cache_capacity c")
    case True
    then obtain c1 where c1: "lru_evict c = Some c1" "lru_inv c1" "cache_capacity c1 = cache_capacity c" "lru_abs c1 = butlast (lru_abs c)" "cache_map c1 k = None"
      using lru_evict_spec [OF assms(1)] assms(3) None by fastforce
    have "butlast (lru_abs c) = take (cache_capacity c - 1) (lru_abs c)" using True lru_length [of c] by (simp add: butlast_conv_take)
    then show ?thesis using c1 None True assms(3) w lru_insert [OF c1(2,5)] by (simp add: lru_set_def Let_def recent_set_def take_Cons')
  next
    case False
    then show ?thesis using None assms w lru_insert [OF assms(1) None] lru_length [of c] by (simp add: lru_set_def Let_def recent_set_def take_Cons')
  qed
qed

subsection \<open>Sequences of operations\<close>

datatype 'v lru_op = Get string int | Set string "'v option" int int | Del string | Clear

fun lru_step :: "'v lru_op \<Rightarrow> 'v lru \<Rightarrow> ('v option \<times> 'v lru) option" where
  "lru_step (Get k now) c = lru_get k now c"
| "lru_step (Set k v expire now) c = map_option (Pair None) (lru_set k v expire now c)"
| "lru_step (Del k) c = map_option (Pair None) (lru_del k c)"
| "lru_step Clear c = Some (None, lru_clear c)"

fun recent_step :: "nat \<Rightarrow> 'v lru_op \<Rightarrow> 'v entries \<Rightarrow> 'v option \<times> 'v entries" where
  "recent_step n (Get k now) l = recent_get k now l"
| "recent_step n (Set k v expire now) l = (None, recent_set n k v expire now l)"
| "recent_step n (Del k) l = (None, without k l)"
| "recent_step n Clear l = (None, [])"

fun lru_run :: "'v lru_op list \<Rightarrow> 'v lru \<Rightarrow> ('v option list \<times> 'v lru) option" where
  "lru_run [] c = Some ([], c)"
| "lru_run (x # xs) c = do { (v, c1) \<leftarrow> lru_step x c; (vs, c2) \<leftarrow> lru_run xs c1; Some (v # vs, c2) }"

fun recent_run :: "nat \<Rightarrow> 'v lru_op list \<Rightarrow> 'v entries \<Rightarrow> 'v option list \<times> 'v entries" where
  "recent_run n [] l = ([], l)"
| "recent_run n (x # xs) l = (let (v, l1) = recent_step n x l; (vs, l2) = recent_run n xs l1 in (v # vs, l2))"

lemma recent_get_length: "length (snd (recent_get k now l)) \<le> length l"
  using without_length [of l k] by (auto simp: recent_get_def split: option.splits)

lemma lru_step_spec:
  assumes "lru_inv c" "length (lru_abs c) \<le> cache_capacity c" "0 < cache_capacity c"
  shows "\<exists>v c'. lru_step x c = Some (v, c') \<and> lru_inv c' \<and> cache_capacity c' = cache_capacity c \<and> length (lru_abs c') \<le> cache_capacity c \<and>
    (v, lru_abs c') = recent_step (cache_capacity c) x (lru_abs c)"
proof (cases x)
  case (Get k now)
  obtain v c' where "lru_get k now c = Some (v, c')" "lru_inv c'" "cache_capacity c' = cache_capacity c" "(v, lru_abs c') = recent_get k now (lru_abs c)"
    using lru_get_spec [OF assms(1)] by blast
  then show ?thesis using Get assms(2) recent_get_length [of k now "lru_abs c"] by (metis lru_step.simps(1) recent_step.simps(1) order_trans snd_conv)
next
  case (Set k v expire now)
  then show ?thesis using lru_set_spec [OF assms, of k v expire now] by (auto simp: recent_set_def)
next
  case (Del k)
  have "length (without k (lru_abs c)) \<le> cache_capacity c" using assms(2) by (simp add: without_def order_trans [OF length_filter_le])
  then show ?thesis using Del lru_del_spec [OF assms(1), of k] by auto
next
  case Clear
  then show ?thesis by (auto simp: lru_clear_def lru_inv_def lru_abs_def)
qed

lemma lru_run_spec:
  "lru_inv c \<Longrightarrow> length (lru_abs c) \<le> cache_capacity c \<Longrightarrow> 0 < cache_capacity c \<Longrightarrow>
    \<exists>vs c'. lru_run xs c = Some (vs, c') \<and> lru_inv c' \<and> length (lru_abs c') \<le> cache_capacity c \<and> (vs, lru_abs c') = recent_run (cache_capacity c) xs (lru_abs c)"
proof (induction xs arbitrary: c)
  case (Cons x xs)
  obtain v c1 where 1: "lru_step x c = Some (v, c1)" "lru_inv c1" "cache_capacity c1 = cache_capacity c" "length (lru_abs c1) \<le> cache_capacity c"
    "recent_step (cache_capacity c) x (lru_abs c) = (v, lru_abs c1)" using lru_step_spec [OF Cons.prems, of x] by metis
  obtain vs c2 where 2: "lru_run xs c1 = Some (vs, c2)" "lru_inv c2" "length (lru_abs c2) \<le> cache_capacity c" "recent_run (cache_capacity c) xs (lru_abs c1) = (vs, lru_abs c2)"
    using Cons.IH [OF 1(2)] 1(3,4) Cons.prems(3) by metis
  show ?case using 1 2 by simp
qed simp

text \<open>
  C27. The cache keeps the entries that were used last: on a cache of positive capacity every sequence of operations succeeds, returns
  what the same operations return on the list of entries in the order of their last use, cut off at the capacity by \<^verbatim>\<open>set\<close>, and leaves that
  list; the keys stay distinct, and there are never more entries than the capacity.
\<close>

theorem lru_recent:
  assumes "0 < n"
  shows "\<exists>vs c. lru_run xs (lru_new n) = Some (vs, c) \<and> recent_run n xs [] = (vs, lru_abs c) \<and> distinct (map fst (lru_abs c)) \<and> length (lru_abs c) \<le> n"
proof -
  let ?c = "lru_new n :: 'a lru"
  have "cache_capacity ?c = n" by (simp add: lru_new_def)
  then have "\<exists>vs c. lru_run xs ?c = Some (vs, c) \<and> lru_inv c \<and> length (lru_abs c) \<le> n \<and> (vs, lru_abs c) = recent_run n xs []"
    using lru_run_spec [of ?c xs] lru_inv_new(1) [of n] assms by (simp add: lru_inv_new(2))
  then show ?thesis using lru_keys_distinct by metis
qed

theorem lru_recent_witness:
  "\<exists>c. lru_run [Set ''a'' (Some 1) 0 5, Set ''b'' (Some 2) 10 5, Get ''a'' 6, Set ''c'' (Some 3) 0 7, Get ''b'' 8, Get ''a'' 9] (lru_new 2) =
     Some ([None, None, Some (1::nat), None, None, Some 1], c) \<and> map fst (lru_abs c) = [''a'', ''c'']"
proof -
  let ?xs = "[Set ''a'' (Some 1) 0 5, Set ''b'' (Some 2) 10 5, Get ''a'' 6, Set ''c'' (Some 3) 0 7, Get ''b'' 8, Get ''a'' 9] :: nat lru_op list"
  have "recent_run 2 ?xs [] = ([None, None, Some 1, None, None, Some 1], [(''a'', 0, Some 1), (''c'', 0, Some 3)])" by code_simp
  moreover obtain vs c where "lru_run ?xs (lru_new 2) = Some (vs, c)" "recent_run 2 ?xs [] = (vs, lru_abs c)" using lru_recent [of 2 ?xs] by auto
  ultimately show ?thesis by (metis (no_types, lifting) fst_conv list.map(1) list.map(2) prod.inject)
qed

end
