(* ===== verification/Osw_Buffer.thy ===== *)
theory Osw_Buffer
  imports Osw_String
begin

text \<open>
  The output buffer of a socket (\<^verbatim>\<open>src/memory/buffer.cc\<close>, \<^verbatim>\<open>include/openswoole_buffer.h\<close>): a queue of chunks. The contents of a new
  block come from the allocator. \<open>None\<close> is a fault: a failed assertion, \<^verbatim>\<open>std::bad_alloc\<close>, the front of an empty queue, or an
  access outside a block.
\<close>

subsection \<open>Operations\<close>

datatype chunk_type = TYPE_DATA | TYPE_SENDFILE | TYPE_CLOSE

text \<open>For a file the object of the chunk has the bytes of the file, the end and the position of what is to be sent.\<close>

record buffer_chunk =
  bc_type :: chunk_type
  bc_length :: nat
  bc_offset :: nat
  bc_ptr :: bytes
  bc_object :: "(bytes \<times> nat \<times> nat) option"
  bc_size :: nat

record buffer =
  bf_chunk_size :: nat
  bf_total_length :: nat
  bf_queue :: "buffer_chunk list"

definition INT_MAX :: nat where
  "INT_MAX = 2147483647"

definition buffer_new :: "nat \<Rightarrow> buffer" where
  "buffer_new n = \<lparr>bf_chunk_size = (if n = 0 then INT_MAX else n), bf_total_length = 0, bf_queue = []\<rparr>"

text \<open>The new chunk is the last one of the queue.\<close>

definition buffer_alloc :: "allocator \<Rightarrow> chunk_type \<Rightarrow> nat \<Rightarrow> buffer \<Rightarrow> buffer option" where
  "buffer_alloc al ty n b = do {
     (sz, m) \<leftarrow> (if ty = TYPE_DATA \<and> n > 0 then map_option (Pair n) (al n) else Some (0, []));
     Some (b\<lparr>bf_queue := bf_queue b @ [\<lparr>bc_type = ty, bc_length = 0, bc_offset = 0, bc_ptr = m, bc_object = None, bc_size = sz\<rparr>]\<rparr>)
   }"

definition buffer_pop :: "buffer \<Rightarrow> buffer option" where
  "buffer_pop b =
     (case bf_queue b of
        [] \<Rightarrow> None
      | c # q \<Rightarrow> Some (b\<lparr>bf_total_length := wrap32 (bf_total_length b + (2 ^ 32 - bc_size c)), bf_queue := q\<rparr>))"

text \<open>\<^verbatim>\<open>memcpy\<close> to the end of the last chunk, of which the length is then counted up.\<close>

definition last_append :: "bytes \<Rightarrow> buffer \<Rightarrow> buffer option" where
  "last_append bs b =
     (if bf_queue b = [] then None
      else do {
        let c = last (bf_queue b);
        m \<leftarrow> mem_write (bc_length c) bs (bc_ptr c);
        Some (b\<lparr>bf_queue := butlast (bf_queue b) @ [c\<lparr>bc_ptr := m, bc_length := bc_length c + length bs\<rparr>],
          bf_total_length := wrap32 (bf_total_length b + length bs)\<rparr>)
      })"

partial_function (option) append_loop :: "allocator \<Rightarrow> bytes \<Rightarrow> buffer \<Rightarrow> buffer option" where
  "append_loop al bs b =
     (if bs = [] then Some b
      else do {
        let n = (if length bs \<ge> bf_chunk_size b then bf_chunk_size b else length bs);
        b1 \<leftarrow> buffer_alloc al TYPE_DATA n b;
        b2 \<leftarrow> last_append (take n bs) b1;
        append_loop al (drop n bs) b2
      })"

definition buffer_append :: "allocator \<Rightarrow> bytes \<Rightarrow> buffer \<Rightarrow> buffer option" where
  "buffer_append al bs b = (if bs = [] then None else append_loop al bs b)"

text \<open>
  The variant for a vector of blocks. \<open>open\<close> tells whether \<^verbatim>\<open>chunk\<close> points to the last chunk, \<open>(j, p)\<close> is the pointer \<^verbatim>\<open>pos\<close>
  into the block \<open>j\<close>, \<open>i\<close> the index of the current block and \<open>rem\<close> what is left of it, \<open>len\<close> the bytes to come.
\<close>

definition iov_read :: "bytes list \<Rightarrow> nat \<Rightarrow> nat \<Rightarrow> nat \<Rightarrow> bytes option" where
  "iov_read iov j p n = (if j < length iov then mem_read p n (iov ! j) else None)"

partial_function (option) iov_loop ::
  "allocator \<Rightarrow> bytes list \<Rightarrow> bool \<Rightarrow> nat \<Rightarrow> nat \<Rightarrow> nat \<Rightarrow> nat \<Rightarrow> int \<Rightarrow> nat \<Rightarrow> buffer \<Rightarrow> buffer option" where
  "iov_loop al iov opened j p i rem offset len b =
     (if opened \<and> bf_queue b \<noteq> [] \<and> bc_size (last (bf_queue b)) = bc_length (last (bf_queue b)) then
        iov_loop al iov False j p i rem offset len b
      else if \<not> opened \<and> offset > 0 \<and> i \<ge> length iov then None
      else if \<not> opened \<and> offset > 0 \<and> offset \<ge> int (length (iov ! i)) then
        iov_loop al iov False j p (i + 1) rem (offset - int (length (iov ! i))) len b
      else do {
        let offset1 = (if \<not> opened \<and> offset > 0 then 0 else offset);
        let room = (if opened then bc_size (last (bf_queue b)) - bc_length (last (bf_queue b)) else if len \<ge> bf_chunk_size b then bf_chunk_size b else len);
        b1 \<leftarrow> (if opened then Some b else buffer_alloc al TYPE_DATA room b);
        let n = min rem room;
        bs \<leftarrow> iov_read iov j p n;
        b2 \<leftarrow> last_append bs b1;
        if rem - n = 0 then
          (if i + 1 = length iov then Some b2
           else if i + 1 > length iov then None
           else iov_loop al iov True (i + 1) 0 (i + 1) (length (iov ! (i + 1))) offset1 (len - n) b2)
        else iov_loop al iov True j (p + n) i (rem - n) offset1 (len - n) b2
      })"

definition buffer_append_iov :: "allocator \<Rightarrow> bytes list \<Rightarrow> int \<Rightarrow> buffer \<Rightarrow> buffer option" where
  "buffer_append_iov al iov offset b =
     (if iov = [] \<or> list_ex (\<lambda>v. v = []) iov then None
      else iov_loop al iov False 0 0 0 (length (hd iov)) offset (length (concat iov)) b)"


subsection \<open>What appending does\<close>

function split_chunks :: "nat \<Rightarrow> bytes \<Rightarrow> bytes list" where
  "split_chunks n bs = (if bs = [] \<or> n = 0 then [] else take n bs # split_chunks n (drop n bs))"
  by pat_completeness auto
termination
  by (relation "measure (\<lambda>(n, bs). length bs)") auto

declare split_chunks.simps [simp del]

definition full_chunk :: "bytes \<Rightarrow> buffer_chunk" where
  "full_chunk bs = \<lparr>bc_type = TYPE_DATA, bc_length = length bs, bc_offset = 0, bc_ptr = bs, bc_object = None, bc_size = length bs\<rparr>"

text \<open>The bytes that are still to be sent.\<close>

definition chunk_pending :: "buffer_chunk \<Rightarrow> bytes" where
  "chunk_pending c =
     (case bc_type c of
        TYPE_DATA \<Rightarrow> take (bc_length c - bc_offset c) (drop (bc_offset c) (bc_ptr c))
      | TYPE_SENDFILE \<Rightarrow> (case bc_object c of None \<Rightarrow> [] | Some (file, end, pos) \<Rightarrow> take (end - pos) (drop pos file))
      | TYPE_CLOSE \<Rightarrow> [])"

definition pending :: "buffer \<Rightarrow> bytes" where
  "pending b = concat (map chunk_pending (bf_queue b))"

definition appended :: "bytes \<Rightarrow> buffer \<Rightarrow> buffer" where
  "appended bs b = b\<lparr>bf_queue := bf_queue b @ map full_chunk (split_chunks (bf_chunk_size b) bs), bf_total_length := wrap32 (bf_total_length b + length bs)\<rparr>"

lemma split_chunks_concat: "0 < n \<Longrightarrow> concat (split_chunks n bs) = bs"
  by (induction n bs rule: split_chunks.induct) (subst split_chunks.simps, simp)

lemma split_chunks_bound: "c \<in> set (split_chunks n bs) \<Longrightarrow> c \<noteq> [] \<and> length c \<le> n"
  by (induction n bs rule: split_chunks.induct) (subst (asm) (2) split_chunks.simps, auto split: if_splits)

lemma pending_appended: "0 < bf_chunk_size b \<Longrightarrow> pending (appended bs b) = pending b @ bs"
  by (simp add: pending_def appended_def comp_def chunk_pending_def full_chunk_def split_chunks_concat)

lemma alloc_append:
  assumes "allocator_ok al" "bs \<noteq> []"
  shows "Option.bind (buffer_alloc al TYPE_DATA (length bs) b) (last_append bs) =
    Some (b\<lparr>bf_queue := bf_queue b @ [full_chunk bs], bf_total_length := wrap32 (bf_total_length b + length bs)\<rparr>)"
proof -
  obtain m where "al (length bs) = Some m" "length m = length bs" using assms(1) unfolding allocator_ok_def by blast
  then show ?thesis using assms(2) by (simp add: buffer_alloc_def last_append_def mem_write_def full_chunk_def)
qed

lemma wrap32_add: "wrap32 (wrap32 a + b) = wrap32 (a + b)"
  by (simp add: wrap32_def mod_add_left_eq)

lemma append_loop_spec:
  assumes "allocator_ok al" "0 < bf_chunk_size b" "bf_total_length b < 2 ^ 32"
  shows "append_loop al bs b = Some (appended bs b)"
  using assms(2,3)
proof (induction "length bs" arbitrary: bs b rule: less_induct)
  case less
  show ?case
  proof (cases "bs = []")
    case True
    then show ?thesis using less.prems by (simp add: append_loop.simps [of al "[]" b] appended_def split_chunks.simps [of _ "[]"] osw_wrap)
  next
    case False
    let ?n = "if length bs \<ge> bf_chunk_size b then bf_chunk_size b else length bs" and ?t = "take (bf_chunk_size b) bs"
    let ?b = "b\<lparr>bf_queue := bf_queue b @ [full_chunk ?t], bf_total_length := wrap32 (bf_total_length b + length ?t)\<rparr>"
    have t: "?t \<noteq> []" "take ?n bs = ?t" "drop ?n bs = drop (bf_chunk_size b) bs" "?n = length ?t" using False less.prems by auto
    have "append_loop al bs b = append_loop al (drop (bf_chunk_size b) bs) ?b"
      using alloc_append [OF assms(1) t(1), of b] False t(2-4) by (simp add: append_loop.simps [of al bs b] Let_def flip: Option.bind_assoc del: take_eq_Nil)
    also have "\<dots> = Some (appended (drop (bf_chunk_size b) bs) ?b)" using False less.prems by (intro less.hyps) (simp_all add: wrap32_def)
    also have "appended (drop (bf_chunk_size b) bs) ?b = appended bs b"
      using False less.prems by (simp add: appended_def split_chunks.simps [of "bf_chunk_size b" bs] wrap32_add min_def)
    finally show ?thesis .
  qed
qed


subsection \<open>Appending a vector\<close>

abbreviation last_size :: "buffer \<Rightarrow> nat" where
  "last_size b \<equiv> bc_size (last (bf_queue b))"

abbreviation last_length :: "buffer \<Rightarrow> nat" where
  "last_length b \<equiv> bc_length (last (bf_queue b))"

lemma last_append_append: "last_append (xs @ ys) b = Option.bind (last_append xs b) (last_append ys)"
  by (auto simp: last_append_def Let_def mem_write_def wrap32_add add.assoc add.left_commute [of "length ys"] add.commute [of "length ys"])

lemma last_append_facts:
  assumes "last_append bs b = Some b1"
  shows "bf_queue b1 \<noteq> []" "last_size b1 = last_size b" "last_length b1 = last_length b + length bs" "bf_chunk_size b1 = bf_chunk_size b" "last_append [] b1 = Some b1"
  using assms by (auto simp: last_append_def Let_def mem_write_def wrap32_def split: if_splits)

lemma buffer_alloc_facts:
  assumes "buffer_alloc al TYPE_DATA n b = Some b1" "0 < n"
  shows "bf_queue b1 \<noteq> []" "last_size b1 = n" "last_length b1 = 0" "bf_chunk_size b1 = bf_chunk_size b"
  using assms by (auto simp: buffer_alloc_def bind_eq_Some_conv)

text \<open>The bytes from the pointer on.\<close>

definition iov_rest :: "bytes list \<Rightarrow> nat \<Rightarrow> nat \<Rightarrow> bytes" where
  "iov_rest iov i p = drop p (iov ! i) @ concat (drop (Suc i) iov)"

lemma iov_rest_next: "Suc i < length iov \<Longrightarrow> iov_rest iov i p = drop p (iov ! i) @ iov_rest iov (Suc i) 0"
  by (simp add: iov_rest_def Cons_nth_drop_Suc [symmetric])

lemma iov_rest_last: "Suc i = length iov \<Longrightarrow> iov_rest iov i p = drop p (iov ! i)"
  by (simp add: iov_rest_def)

definition iov_copy :: "allocator \<Rightarrow> bytes list \<Rightarrow> nat \<Rightarrow> nat \<Rightarrow> nat \<Rightarrow> nat \<Rightarrow> int \<Rightarrow> nat \<Rightarrow> buffer \<Rightarrow> buffer option" where
  "iov_copy al iov i p rem r offset len b1 = do {
     bs \<leftarrow> iov_read iov i p (min rem r);
     b2 \<leftarrow> last_append bs b1;
     if rem - min rem r = 0 then
       (if i + 1 = length iov then Some b2
        else if i + 1 > length iov then None
        else iov_loop al iov True (i + 1) 0 (i + 1) (length (iov ! (i + 1))) offset (len - min rem r) b2)
     else iov_loop al iov True i (p + min rem r) i (rem - min rem r) offset (len - min rem r) b2
   }"

lemma iov_loop_copy:
  assumes "last_size b \<noteq> last_length b"
  shows "iov_loop al iov True i p i rem offset len b = iov_copy al iov i p rem (last_size b - last_length b) offset len b"
  by (subst iov_loop.simps) (use assms in \<open>simp add: iov_copy_def Let_def\<close>)

lemma iov_loop_full:
  assumes "last_size b = last_length b" "bf_queue b \<noteq> []"
  shows "iov_loop al iov True i p i rem offset len b = iov_loop al iov False i p i rem offset len b"
  by (subst iov_loop.simps) (use assms in simp)

lemma iov_loop_alloc:
  assumes "offset \<le> 0" "R \<noteq> []" "0 < bf_chunk_size b"
    and "\<And>r b1. r = last_size b1 - last_length b1 \<Longrightarrow> 0 < r \<Longrightarrow> r \<le> length R \<Longrightarrow> bf_chunk_size b1 = bf_chunk_size b \<Longrightarrow>
      iov_copy al iov i p rem r offset (length R) b1 = Option.bind (last_append (take r R) b1) (append_loop al (drop r R))"
  shows "iov_loop al iov False i p i rem offset (length R) b = append_loop al R b"
proof -
  let ?n = "if length R \<ge> bf_chunk_size b then bf_chunk_size b else length R"
  have n: "0 < ?n" "?n \<le> length R" using assms(2,3) by auto
  have c: "iov_copy al iov i p rem ?n offset (length R) b1 = Option.bind (last_append (take ?n R) b1) (append_loop al (drop ?n R))"
    if "buffer_alloc al TYPE_DATA ?n b = Some b1" for b1
    using assms(4) [of ?n b1] buffer_alloc_facts [OF that n(1)] n by simp
  have "iov_loop al iov False i p i rem offset (length R) b = Option.bind (buffer_alloc al TYPE_DATA ?n b) (iov_copy al iov i p rem ?n offset (length R))"
    by (subst iov_loop.simps) (use assms(1) in \<open>simp add: iov_copy_def [abs_def] Let_def\<close>)
  also have "\<dots> = Option.bind (buffer_alloc al TYPE_DATA ?n b) (\<lambda>b1. Option.bind (last_append (take ?n R) b1) (append_loop al (drop ?n R)))"
    by (rule Option.bind_cong [OF refl]) (rule c)
  also have "\<dots> = append_loop al R b" using assms(2) by (subst append_loop.simps [of al R b]) (simp add: Let_def)
  finally show ?thesis .
qed

text \<open>One round with \<open>r\<close> bytes of room in the last chunk, when the rounds behind it are known.\<close>

lemma iov_round:
  assumes iov: "list_all (\<lambda>v. v \<noteq> []) iov" "i < length iov" "p < length (iov ! i)" "R = iov_rest iov i p" "rem = length (iov ! i) - p"
    and r: "r = last_size b1 - last_length b1" "0 < r" "r \<le> length R" and off: "offset \<le> 0"
    and IH: "\<And>i p b. length (iov_rest iov i p) < length R \<Longrightarrow> i < length iov \<Longrightarrow> p < length (iov ! i) \<Longrightarrow> bf_queue b \<noteq> [] \<Longrightarrow>
      last_size b - last_length b \<le> length (iov_rest iov i p) \<Longrightarrow> last_length b \<le> last_size b \<Longrightarrow> bf_chunk_size b = bf_chunk_size b1 \<Longrightarrow> last_append [] b = Some b \<Longrightarrow>
      iov_loop al iov True i p i (length (iov ! i) - p) offset (length (iov_rest iov i p)) b =
      Option.bind (last_append (take (last_size b - last_length b) (iov_rest iov i p)) b) (append_loop al (drop (last_size b - last_length b) (iov_rest iov i p)))"
  shows "iov_copy al iov i p rem r offset (length R) b1 = Option.bind (last_append (take r R) b1) (append_loop al (drop r R))" (is "?lhs = ?rhs")
proof (cases "rem \<le> r")
  case True
  have rd: "iov_read iov i p rem = Some (drop p (iov ! i))" using iov(2,3,5) by (simp add: iov_read_def mem_read_def)
  show ?thesis
  proof (cases "Suc i = length iov")
    case last: True
    then have R: "R = drop p (iov ! i)" "r = length R" using iov(4,5) r(3) True by (simp_all add: iov_rest_last)
    have "append_loop al [] = Some" by (rule ext) (simp add: append_loop.simps)
    then show ?thesis using True rd R last by (simp add: iov_copy_def)
  next
    case False
    then have n: "Suc i < length iov" using iov(2) by simp
    then have R: "R = drop p (iov ! i) @ iov_rest iov (Suc i) 0" using iov(4) by (simp add: iov_rest_next)
    have m: "0 < length (iov ! Suc i)" using iov(1) n by (simp add: list_all_length)
    have "iov_loop al iov True (Suc i) 0 (Suc i) (length (iov ! Suc i)) offset (length R - rem) b2 =
        Option.bind (last_append (take (r - rem) (iov_rest iov (Suc i) 0)) b2) (append_loop al (drop (r - rem) (iov_rest iov (Suc i) 0)))"
      if "last_append (drop p (iov ! i)) b1 = Some b2" for b2
      using IH [of "Suc i" 0 b2] last_append_facts [OF that] R iov(3,5) r True n m by (simp add: diff_diff_add)
    then have "?lhs = Option.bind (last_append (drop p (iov ! i)) b1) (\<lambda>b2. Option.bind (last_append (take (r - rem) (iov_rest iov (Suc i) 0)) b2) (append_loop al (drop (r - rem) (iov_rest iov (Suc i) 0))))"
      using True rd False n by (auto simp: iov_copy_def min_absorb1 intro!: Option.bind_cong)
    also have "\<dots> = ?rhs" using R iov(5) True by (simp add: last_append_append)
    finally show ?thesis .
  qed
next
  case False
  have rd: "iov_read iov i p r = Some (take r R)" using iov(2-5) False by (simp add: iov_read_def mem_read_def iov_rest_def)
  have R: "iov_rest iov i (p + r) = drop r R" using iov(3-5) False by (simp add: iov_rest_def add.commute)
  have "iov_loop al iov True i (p + r) i (rem - r) offset (length R - r) b2 = append_loop al (drop r R) b2" if "last_append (take r R) b1 = Some b2" for b2
    using IH [of i "p + r" b2] last_append_facts [OF that] R iov(2,3,5) r False by (simp add: diff_diff_add)
  then show ?thesis using False rd by (auto simp: iov_copy_def min_absorb2 intro!: Option.bind_cong)
qed


lemma iov_loop_opened:
  assumes "list_all (\<lambda>v. v \<noteq> []) iov" "i < length iov" "p < length (iov ! i)" "offset \<le> 0" "bf_queue b \<noteq> []" "0 < bf_chunk_size b"
    "last_size b - last_length b \<le> length (iov_rest iov i p)" "last_length b \<le> last_size b" "last_append [] b = Some b"
  shows "iov_loop al iov True i p i (length (iov ! i) - p) offset (length (iov_rest iov i p)) b =
    Option.bind (last_append (take (last_size b - last_length b) (iov_rest iov i p)) b) (append_loop al (drop (last_size b - last_length b) (iov_rest iov i p)))"
  using assms(2-9)
proof (induction "length (iov_rest iov i p)" arbitrary: i p b rule: less_induct)
  case less
  let ?R = "iov_rest iov i p" and ?rem = "length (iov ! i) - p"
  have R: "0 < length ?R" using less.prems by (simp add: iov_rest_def)
  have round: "iov_copy al iov i p ?rem r offset (length ?R) b1 = Option.bind (last_append (take r ?R) b1) (append_loop al (drop r ?R))"
    if "r = last_size b1 - last_length b1" "0 < r" "r \<le> length ?R" "bf_chunk_size b1 = bf_chunk_size b" for r b1
    by (rule iov_round [OF assms(1) less.prems(1,2) refl refl that(1-3) less.prems(3)]) (use less.hyps less.prems(3,5) that(4) in simp)
  show ?case
  proof (cases "last_length b = last_size b")
    case False
    then show ?thesis using less.prems(6,7) round [of "last_size b - last_length b" b] by (simp add: iov_loop_copy)
  next
    case True
    have "iov_loop al iov False i p i ?rem offset (length ?R) b = append_loop al ?R b"
      by (rule iov_loop_alloc) (use less.prems(3,5) R round in auto)
    then show ?thesis using True less.prems(4,8) by (simp add: iov_loop_full)
  qed
qed

lemma append_iov_loop:
  assumes "iov \<noteq> []" "list_all (\<lambda>v. v \<noteq> []) iov" "0 < bf_chunk_size b" "0 \<le> sent" "sent < int (length (hd iov))"
  shows "buffer_append_iov al iov sent b = append_loop al (concat iov) b"
proof -
  obtain v vs where iov: "iov = v # vs" using assms(1) by (cases iov) auto
  have v: "v \<noteq> []" "0 < length iov" "0 < length (iov ! 0)" using assms(2) iov by auto
  have R: "iov_rest iov 0 0 = concat iov" "concat iov \<noteq> []" using iov v by (simp_all add: iov_rest_def)
  have "iov_copy al iov 0 0 (length (iov ! 0)) r 0 (length (concat iov)) b1 = Option.bind (last_append (take r (concat iov)) b1) (append_loop al (drop r (concat iov)))"
    if "r = last_size b1 - last_length b1" "0 < r" "r \<le> length (concat iov)" "bf_chunk_size b1 = bf_chunk_size b" for r b1
    by (rule iov_round [OF assms(2) v(2,3) R(1) [symmetric] _ that(1-3)]) (use iov_loop_opened [OF assms(2)] assms(3) that(4) in simp_all)
  then have z: "iov_loop al iov False 0 0 0 (length (iov ! 0)) 0 (length (concat iov)) b = append_loop al (concat iov) b"
    using R(2) assms(3) by (intro iov_loop_alloc) auto
  have "iov_loop al iov False 0 0 0 (length (iov ! 0)) sent (length (concat iov)) b = iov_loop al iov False 0 0 0 (length (iov ! 0)) 0 (length (concat iov)) b"
  proof (cases "sent = 0")
    case False
    then show ?thesis using assms(4,5) iov by (subst (1 2) iov_loop.simps) (simp add: Let_def)
  qed simp
  moreover have "\<not> list_ex (\<lambda>v. v = []) iov" using assms(2) by (auto simp: list_ex_iff list_all_iff)
  ultimately show ?thesis using z R(2) iov by (simp add: buffer_append_iov_def)
qed

text \<open>
  Appending to the output buffer keeps the order of the bytes: the data is queued, in chunks of at most the chunk size, behind what is there, and
  a vector of blocks is queued like the concatenation of its blocks. But the number of bytes of the vector that have already been sent is
  ignored as long as it is smaller than the first block: these bytes are queued, and so sent, a second time.
\<close>

theorem append_correct:
  assumes "allocator_ok al" "0 < bf_chunk_size b" "bf_total_length b < 2 ^ 32"
    and "iov \<noteq> []" "list_all (\<lambda>v. v \<noteq> []) iov" "0 \<le> sent" "sent < int (length (hd iov))"
  shows "\<exists>b'. buffer_append al (concat iov) b = Some b' \<and> buffer_append_iov al iov sent b = Some b' \<and> pending b' = pending b @ concat iov \<and>
    (\<exists>cs. bf_queue b' = bf_queue b @ cs \<and> list_all (\<lambda>c. bc_type c = TYPE_DATA \<and> bc_length c = bc_size c \<and> bc_size c \<le> bf_chunk_size b) cs)"
proof -
  have "concat iov \<noteq> []" using assms(4,5) by (cases iov) auto
  moreover have "bf_queue (appended (concat iov) b) = bf_queue b @ map full_chunk (split_chunks (bf_chunk_size b) (concat iov))" by (simp add: appended_def)
  moreover have "list_all (\<lambda>c. bc_type c = TYPE_DATA \<and> bc_length c = bc_size c \<and> bc_size c \<le> bf_chunk_size b) (map full_chunk (split_chunks (bf_chunk_size b) (concat iov)))"
    using split_chunks_bound by (auto simp: list_all_iff full_chunk_def)
  ultimately show ?thesis
    using append_loop_spec [OF assms(1-3), of "concat iov"] append_iov_loop [OF assms(4,5,2,6,7), of al] pending_appended [OF assms(2)]
    by (auto simp: buffer_append_def)
qed

theorem append_correct_witness:
  "\<exists>b'. buffer_append_iov (\<lambda>n. Some (replicate n 0)) [[1, 2, 3], [4, 5]] 2 (buffer_new 4) = Some b' \<and> pending b' = [1, 2, 3, 4, 5]"
  using append_correct [of "\<lambda>n. Some (replicate n 0)" "buffer_new 4" "[[1, 2, 3], [4, 5]]" 2]
  by (auto simp: allocator_ok_def buffer_new_def pending_def)

end
