(* ===== verification/Osw_Reactor_Write.thy ===== *)
theory Osw_Reactor_Write
  imports Osw_Buffer
begin

text \<open>
  Writing to a socket of the event loop: \<^verbatim>\<open>Reactor::_write\<close>, \<^verbatim>\<open>_writev\<close> and \<^verbatim>\<open>_writable_callback\<close> of \<^verbatim>\<open>src/reactor/base.cc\<close>, with
  \<^verbatim>\<open>Socket::send\<close>, \<^verbatim>\<open>sendfile\<close>, \<^verbatim>\<open>handle_send\<close> and \<^verbatim>\<open>handle_sendfile\<close> of \<^verbatim>\<open>src/network/socket.cc\<close>, without TLS. What the system calls will do is a
  list of events; \<open>so_wire\<close> collects the bytes that the kernel has taken. A file is the list of its bytes. \<open>None\<close> is a fault, as for the output
  buffer.
\<close>

subsection \<open>The socket\<close>

datatype send_error = S_ERROR | S_CLOSE | S_WAIT | S_INVALID | S_EINTR

text \<open>\<open>Took k e\<close>: at most \<open>k\<close> bytes are taken, and \<^verbatim>\<open>errno\<close> is of class \<open>e\<close>. Without an event the call would block.\<close>

datatype send_event = Took nat send_error | Refused send_error

record out_socket =
  so_buffer :: "buffer option"
  so_buffer_size :: nat
  so_chunk_size :: nat
  so_read_event :: bool
  so_write_event :: bool
  so_removed :: bool
  so_dontwait :: bool
  so_close_wait :: bool
  so_send_wait :: bool
  so_closed :: bool
  so_kernel :: "send_event list"
  so_wire :: bytes

fun kernel_send :: "bytes \<Rightarrow> out_socket \<Rightarrow> int \<times> send_error \<times> out_socket" where
  "kernel_send bs s =
     (case so_kernel s of
        [] \<Rightarrow> (- 1, S_WAIT, s)
      | Took k e # es \<Rightarrow> (int (min (length bs) k), e, s\<lparr>so_kernel := es, so_wire := so_wire s @ take k bs\<rparr>)
      | Refused e # es \<Rightarrow> (- 1, e, s\<lparr>so_kernel := es\<rparr>))"

text \<open>\<^verbatim>\<open>Socket::send\<close> tries again when the call is interrupted.\<close>

function socket_send :: "bytes \<Rightarrow> out_socket \<Rightarrow> int \<times> send_error \<times> out_socket" where
  "socket_send bs s =
     (let (ret, e, s1) = kernel_send bs s in
      if ret < 0 \<and> e = S_EINTR then socket_send bs s1 else (ret, e, s1))"
  by pat_completeness auto
termination
  by (relation "measure (\<lambda>(bs, s). length (so_kernel s))") (auto split: list.splits send_event.splits)

declare kernel_send.simps [simp del] socket_send.simps [simp del]

definition OSW_SOCKET_BUFFER_SIZE :: nat where
  "OSW_SOCKET_BUFFER_SIZE = 8388608"

definition OSW_SEND_BUFFER_SIZE :: nat where
  "OSW_SEND_BUFFER_SIZE = 65536"

definition OSW_SENDFILE_CHUNK_SIZE :: nat where
  "OSW_SENDFILE_CHUNK_SIZE = 65536"

definition out_empty :: "out_socket \<Rightarrow> bool" where
  "out_empty s \<longleftrightarrow> (case so_buffer s of None \<Rightarrow> True | Some b \<Rightarrow> bf_queue b = [])"

subsection \<open>Writing\<close>

text \<open>From the label \<^verbatim>\<open>_append_buffer\<close>.\<close>

definition write_append :: "(nat \<Rightarrow> buffer \<Rightarrow> buffer option) \<Rightarrow> nat \<Rightarrow> out_socket \<Rightarrow> (int \<times> out_socket) option" where
  "write_append app sent s = do {
     b \<leftarrow> so_buffer s;
     if bf_total_length b > so_buffer_size s \<and> so_dontwait s then Some (- 1, s)
     else do {
       b1 \<leftarrow> app sent b;
       Some (0, s\<lparr>so_buffer := Some b1\<rparr>)
     }
   }"

text \<open>A socket without a read event is added to the event loop, and taken out of it again.\<close>

definition add_write_event :: "out_socket \<Rightarrow> out_socket" where
  "add_write_event s = (if so_read_event s then s\<lparr>so_write_event := True\<rparr> else s\<lparr>so_write_event := True, so_removed := False\<rparr>)"

definition remove_write_event :: "out_socket \<Rightarrow> out_socket" where
  "remove_write_event s = (if so_read_event s then s\<lparr>so_write_event := False\<rparr> else s\<lparr>so_write_event := False, so_removed := True\<rparr>)"

text \<open>From the label \<^verbatim>\<open>_alloc_buffer\<close>.\<close>

definition write_alloc :: "(nat \<Rightarrow> buffer \<Rightarrow> buffer option) \<Rightarrow> nat \<Rightarrow> out_socket \<Rightarrow> (int \<times> out_socket) option" where
  "write_alloc app sent s =
     (let s1 = s\<lparr>so_buffer := Some (case so_buffer s of None \<Rightarrow> buffer_new (so_chunk_size s) | Some b \<Rightarrow> b)\<rparr> in
      write_append app sent (if so_write_event s1 then s1 else add_write_event s1))"

partial_function (option) write_send ::
  "(out_socket \<Rightarrow> int \<times> send_error \<times> out_socket) \<Rightarrow> (nat \<Rightarrow> buffer \<Rightarrow> buffer option) \<Rightarrow> nat \<Rightarrow> out_socket \<Rightarrow> (int \<times> out_socket) option" where
  "write_send send app n s =
     (let (ret, e, s1) = send s in
      if ret > 0 then (if ret = int n then Some (ret, s1) else write_alloc app (nat ret) s1)
      else if e = S_WAIT then write_alloc app 0 s1
      else if e = S_EINTR then write_send send app n s1
      else Some (- 1, s1))"

definition write_func ::
  "(out_socket \<Rightarrow> int \<times> send_error \<times> out_socket) \<Rightarrow> (nat \<Rightarrow> buffer \<Rightarrow> buffer option) \<Rightarrow> nat \<Rightarrow> out_socket \<Rightarrow> (int \<times> out_socket) option" where
  "write_func send app n s =
     (let s1 = (if so_buffer_size s = 0 then s\<lparr>so_buffer_size := OSW_SOCKET_BUFFER_SIZE\<rparr> else s) in
      if wrap32 n > so_buffer_size s1 then Some (- 1, s1)
      else if out_empty s1 then write_send send app n s1
      else write_append app 0 s1)"

text \<open>The size of \<^verbatim>\<open>Buffer::append\<close> is a 32-bit number.\<close>

definition reactor_write :: "allocator \<Rightarrow> bytes \<Rightarrow> out_socket \<Rightarrow> (int \<times> out_socket) option" where
  "reactor_write al bs s =
     write_func (socket_send bs) (\<lambda>sent. buffer_append al (take (wrap32 (length bs - sent)) (drop sent bs))) (length bs) s"

definition reactor_writev :: "allocator \<Rightarrow> bytes list \<Rightarrow> out_socket \<Rightarrow> (int \<times> out_socket) option" where
  "reactor_writev al iov s =
     write_func (kernel_send (concat iov)) (\<lambda>sent. buffer_append_iov al iov (int sent)) (length (concat iov)) s"


text \<open>A file is put into the queue. The size of the file has been read with \<^verbatim>\<open>fstat\<close>.\<close>

definition socket_sendfile :: "allocator \<Rightarrow> bytes option \<Rightarrow> int \<Rightarrow> nat \<Rightarrow> out_socket \<Rightarrow> (int \<times> out_socket) option" where
  "socket_sendfile al file offset n s =
     (case file of
        None \<Rightarrow> Some (0, s)
      | Some f \<Rightarrow>
          (if f = [] then Some (- 1, s)
           else
             (let b = (case so_buffer s of None \<Rightarrow> buffer_new OSW_SEND_BUFFER_SIZE | Some b \<Rightarrow> b); s1 = s\<lparr>so_buffer := Some b\<rparr> in
              if offset < 0 \<or> n + nat offset > length f then Some (0, s1)
              else do {
                b1 \<leftarrow> buffer_alloc al TYPE_SENDFILE 0 b;
                let c = (last (bf_queue b1))\<lparr>bc_object := Some (f, if n = 0 then length f else n + nat offset, nat offset)\<rparr>;
                Some (0, s1\<lparr>so_buffer := Some (b1\<lparr>bf_queue := butlast (bf_queue b1) @ [c]\<rparr>)\<rparr>)
              })))"

subsection \<open>When the socket is writable\<close>

definition handle_send :: "out_socket \<Rightarrow> (int \<times> out_socket) option" where
  "handle_send s = do {
     b \<leftarrow> so_buffer s;
     case bf_queue b of
       [] \<Rightarrow> None
     | c # q \<Rightarrow> do {
         let sendn = bc_length c - bc_offset c;
         if sendn = 0 then do { b1 \<leftarrow> buffer_pop b; Some (0, s\<lparr>so_buffer := Some b1\<rparr>) }
         else do {
           bs \<leftarrow> mem_read (bc_offset c) sendn (bc_ptr c);
           let (ret, e, s1) = socket_send bs s;
           if ret < 0 then
             (case e of
                S_CLOSE \<Rightarrow> Some (- 1, s1\<lparr>so_close_wait := True\<rparr>)
              | S_WAIT \<Rightarrow> Some (- 1, s1\<lparr>so_send_wait := True\<rparr>)
              | _ \<Rightarrow> Some (0, s1))
           else if ret = int sendn then do { b1 \<leftarrow> buffer_pop b; Some (0, s1\<lparr>so_buffer := Some b1\<rparr>) }
           else Some (- 1, s1\<lparr>so_buffer := Some (b\<lparr>bf_queue := c\<lparr>bc_offset := bc_offset c + nat ret\<rparr> # q\<rparr>), so_send_wait := True\<rparr>)
         }
       }
   }"

text \<open>The kernel copies from the file, and counts up the position.\<close>

definition handle_sendfile :: "out_socket \<Rightarrow> (int \<times> out_socket) option" where
  "handle_sendfile s = do {
     b \<leftarrow> so_buffer s;
     case bf_queue b of
       [] \<Rightarrow> None
     | c # q \<Rightarrow> do {
         (file, stop, pos) \<leftarrow> bc_object c;
         let sendn = (if stop - pos > OSW_SENDFILE_CHUNK_SIZE then OSW_SENDFILE_CHUNK_SIZE else stop - pos);
         let (ret, e, s1) = kernel_send (take sendn (drop pos file)) s;
         let pos1 = (if ret > 0 then pos + nat ret else pos);
         let s2 = s1\<lparr>so_buffer := Some (b\<lparr>bf_queue := c\<lparr>bc_object := Some (file, stop, pos1)\<rparr> # q\<rparr>)\<rparr>;
         if ret \<le> 0 \<and> (e = S_ERROR \<or> e = S_EINTR) then do { b1 \<leftarrow> buffer_pop b; Some (0, s1\<lparr>so_buffer := Some b1\<rparr>) }
         else if ret \<le> 0 \<and> e = S_CLOSE then Some (- 1, s2\<lparr>so_close_wait := True\<rparr>)
         else if ret \<le> 0 \<and> e = S_WAIT then Some (- 1, s2\<lparr>so_send_wait := True\<rparr>)
         else if pos1 \<ge> stop then do { b1 \<leftarrow> buffer_pop b; Some (0, s1\<lparr>so_buffer := Some b1\<rparr>) }
         else Some (0, s2)
       }
   }"

definition front_type :: "out_socket \<Rightarrow> chunk_type option" where
  "front_type s = Option.bind (so_buffer s) (\<lambda>b. case bf_queue b of [] \<Rightarrow> None | c # q \<Rightarrow> Some (bc_type c))"

partial_function (option) writable_callback :: "out_socket \<Rightarrow> out_socket option" where
  "writable_callback s =
     (case front_type s of
        None \<Rightarrow> Some (remove_write_event s)
      | Some TYPE_CLOSE \<Rightarrow> Some (s\<lparr>so_closed := True\<rparr>)
      | Some ty \<Rightarrow>
          Option.bind (if ty = TYPE_SENDFILE then handle_sendfile s else handle_send s) (\<lambda>(ret, s1).
            if ret < 0 \<and> so_close_wait s1 then Some (s1\<lparr>so_closed := True\<rparr>)
            else if ret < 0 \<and> so_send_wait s1 then Some s1
            else writable_callback s1))"


subsection \<open>The stream of bytes\<close>

definition out_pending :: "out_socket \<Rightarrow> bytes" where
  "out_pending s = (case so_buffer s of None \<Rightarrow> [] | Some b \<Rightarrow> pending b)"

definition out_stream :: "out_socket \<Rightarrow> bytes" where
  "out_stream s = so_wire s @ out_pending s"

fun chunk_wf :: "buffer_chunk \<Rightarrow> bool" where
  "chunk_wf c \<longleftrightarrow> bc_size c < 2 ^ 32 \<and>
     (case bc_type c of
        TYPE_DATA \<Rightarrow> bc_offset c \<le> bc_length c \<and> bc_length c \<le> length (bc_ptr c)
      | TYPE_SENDFILE \<Rightarrow> (\<exists>file stop pos. bc_object c = Some (file, stop, pos) \<and> stop \<le> length file)
      | TYPE_CLOSE \<Rightarrow> True)"

definition buffer_wf :: "buffer \<Rightarrow> bool" where
  "buffer_wf b \<longleftrightarrow> 0 < bf_chunk_size b \<and> bf_chunk_size b < 2 ^ 32 \<and> bf_total_length b = wrap32 (sum_list (map bc_size (bf_queue b))) \<and> list_all chunk_wf (bf_queue b)"

definition out_wf :: "out_socket \<Rightarrow> bool" where
  "out_wf s \<longleftrightarrow> so_chunk_size s < 2 ^ 32 \<and> (case so_buffer s of None \<Rightarrow> True | Some b \<Rightarrow> buffer_wf b)"

text \<open>A system call takes a beginning of the bytes, or fails; the rest of the socket does not change.\<close>

definition took :: "bytes \<Rightarrow> out_socket \<Rightarrow> int \<Rightarrow> out_socket \<Rightarrow> bool" where
  "took bs s ret s1 \<longleftrightarrow> (\<exists>es w. s1 = s\<lparr>so_kernel := es, so_wire := so_wire s @ w\<rparr> \<and> set es \<subseteq> set (so_kernel s) \<and> length es \<le> length (so_kernel s) \<and>
     (ret < 0 \<and> w = [] \<or> (\<exists>k\<le>length bs. ret = int k \<and> w = take k bs)))"

fun event_class :: "send_event \<Rightarrow> send_error" where
  "event_class (Took k e) = e"
| "event_class (Refused e) = e"

lemma kernel_send_took:
  assumes "kernel_send bs s = (ret, e, s1)"
  shows "took bs s ret s1" "ret < 0 \<and> e = S_WAIT \<or> length (so_kernel s1) < length (so_kernel s) \<and> e \<in> event_class ` set (so_kernel s)"
proof -
  have "took bs s ret s1 \<and> (ret < 0 \<and> e = S_WAIT \<or> length (so_kernel s1) < length (so_kernel s) \<and> e \<in> event_class ` set (so_kernel s))"
  proof (cases "so_kernel s")
    case Nil
    then show ?thesis using assms unfolding took_def by (intro conjI exI [of _ "[]"]) (auto simp: kernel_send.simps)
  next
    case (Cons x es)
    then show ?thesis
    proof (cases x)
      case (Took k c)
      have "take k bs = take (min (length bs) k) bs" by (simp add: min_def)
      then show ?thesis using Took Cons assms unfolding took_def
        by (intro conjI exI [of _ es] exI [of _ "take k bs"]) (auto simp: kernel_send.simps intro!: exI [of _ "min (length bs) k"])
    next
      case (Refused c)
      then show ?thesis using Cons assms unfolding took_def by (intro conjI exI [of _ es] exI [of _ "[]"]) (auto simp: kernel_send.simps)
    qed
  qed
  then show "took bs s ret s1" "ret < 0 \<and> e = S_WAIT \<or> length (so_kernel s1) < length (so_kernel s) \<and> e \<in> event_class ` set (so_kernel s)" by blast+
qed

lemma took_failed:
  assumes "took bs s ret s1" "ret < 0"
  obtains es where "s1 = s\<lparr>so_kernel := es\<rparr>" "set es \<subseteq> set (so_kernel s)" "length es \<le> length (so_kernel s)"
proof -
  obtain es where "s1 = s\<lparr>so_kernel := es, so_wire := so_wire s @ []\<rparr>" "set es \<subseteq> set (so_kernel s)" "length es \<le> length (so_kernel s)"
    using assms unfolding took_def by auto
  then show thesis using that [of es] by simp
qed

lemma took_some:
  assumes "took bs s ret s1" "\<not> ret < 0"
  obtains es k where "s1 = s\<lparr>so_kernel := es, so_wire := so_wire s @ take k bs\<rparr>" "set es \<subseteq> set (so_kernel s)" "length es \<le> length (so_kernel s)"
    "ret = int k" "k \<le> length bs"
  using assms unfolding took_def by auto

lemma socket_send_took:
  "socket_send bs s = (ret, e, s1) \<Longrightarrow>
    took bs s ret s1 \<and> (ret < 0 \<and> e = S_WAIT \<or> length (so_kernel s1) < length (so_kernel s)) \<and> (ret < 0 \<longrightarrow> e \<noteq> S_EINTR)"
proof (induction bs s arbitrary: ret e s1 rule: socket_send.induct)
  case (1 bs s)
  obtain r c t where k: "kernel_send bs s = (r, c, t)" by (cases "kernel_send bs s")
  note f = kernel_send_took [OF k]
  show ?case
  proof (cases "r < 0 \<and> c = S_EINTR")
    case True
    then have "socket_send bs t = (ret, e, s1)" using "1.prems" k by (simp add: socket_send.simps [of bs s])
    then have IH: "took bs t ret s1 \<and> (ret < 0 \<and> e = S_WAIT \<or> length (so_kernel s1) < length (so_kernel t)) \<and> (ret < 0 \<longrightarrow> e \<noteq> S_EINTR)"
      using "1.IH" [OF k [symmetric] refl] True by simp
    obtain es where t: "t = s\<lparr>so_kernel := es\<rparr>" "set es \<subseteq> set (so_kernel s)" "length es \<le> length (so_kernel s)"
      by (rule took_failed [OF f(1)]) (use True in simp)
    have "took bs t ret s1" using IH by blast
    then obtain es' w where "s1 = t\<lparr>so_kernel := es', so_wire := so_wire t @ w\<rparr>" "set es' \<subseteq> set es" "length es' \<le> length es"
      "ret < 0 \<and> w = [] \<or> (\<exists>k\<le>length bs. ret = int k \<and> w = take k bs)" unfolding took_def t(1) by auto
    then have "took bs s ret s1" using t unfolding took_def by (intro exI [of _ es'] exI [of _ w]) auto
    then show ?thesis using IH t by auto
  next
    case False
    then have "ret = r" "e = c" "s1 = t" using "1.prems" k by (auto simp: socket_send.simps [of bs s] split: if_splits)
    then show ?thesis using f False by blast
  qed
qed

subsection \<open>Draining\<close>

definition out_measure :: "out_socket \<Rightarrow> nat" where
  "out_measure s = length (so_kernel s) + (case so_buffer s of None \<Rightarrow> 0 | Some b \<Rightarrow> length (bf_queue b))"

definition no_files :: "out_socket \<Rightarrow> bool" where
  "no_files s \<longleftrightarrow> (case so_buffer s of None \<Rightarrow> True | Some b \<Rightarrow> list_all (\<lambda>c. bc_type c \<noteq> TYPE_SENDFILE) (bf_queue b))"

definition no_errors :: "out_socket \<Rightarrow> bool" where
  "no_errors s \<longleftrightarrow> list_all (\<lambda>x. event_class x \<noteq> S_ERROR \<and> event_class x \<noteq> S_EINTR) (so_kernel s)"

text \<open>What a step promises: it keeps the stream, and either makes progress or says why not.\<close>

definition drained :: "out_socket \<Rightarrow> int \<Rightarrow> out_socket \<Rightarrow> bool" where
  "drained s ret s1 \<longleftrightarrow> out_wf s1 \<and> out_stream s1 = out_stream s \<and> (no_files s \<longrightarrow> no_files s1) \<and> (no_errors s \<longrightarrow> no_errors s1) \<and>
     (ret < 0 \<and> (so_close_wait s1 \<or> so_send_wait s1) \<or> ret \<ge> 0 \<and> out_measure s1 < out_measure s)"

lemma wrap32_sub: "n < 2 ^ 32 \<Longrightarrow> wrap32 (wrap32 (n + m) + (2 ^ 32 - n)) = wrap32 m"
proof -
  assume n: "n < 2 ^ 32"
  have "wrap32 (wrap32 (n + m) + (2 ^ 32 - n)) = wrap32 (n + m + (2 ^ 32 - n))" by (rule wrap32_add)
  also have "n + m + (2 ^ 32 - n) = m + 2 ^ 32" using n by simp
  finally show ?thesis by (simp add: wrap32_def)
qed

lemma buffer_pop_Cons:
  assumes "bf_queue b = c # q" "buffer_wf b"
  shows "buffer_pop b = Some (b\<lparr>bf_total_length := wrap32 (sum_list (map bc_size q)), bf_queue := q\<rparr>)"
proof -
  have "bc_size c < 2 ^ 32" using assms by (simp add: buffer_wf_def)
  then show ?thesis using assms wrap32_sub [of "bc_size c" "sum_list (map bc_size q)"] by (simp add: buffer_pop_def buffer_wf_def del: chunk_wf.simps)
qed

text \<open>What the socket looks like with another buffer and other events.\<close>

lemma drainedI:
  assumes "so_buffer s = Some b" "buffer_wf b" "so_chunk_size s < 2 ^ 32" and s1: "so_chunk_size s1 = so_chunk_size s" "so_buffer s1 = Some b1" "so_wire s1 = so_wire s @ w" "pending b = w @ pending b1"
    and "bf_chunk_size b1 = bf_chunk_size b" "bf_total_length b1 = wrap32 (sum_list (map bc_size (bf_queue b1)))" "list_all chunk_wf (bf_queue b1)"
    and "list_all (\<lambda>c. bc_type c \<noteq> TYPE_SENDFILE) (bf_queue b) \<Longrightarrow> list_all (\<lambda>c. bc_type c \<noteq> TYPE_SENDFILE) (bf_queue b1)"
    and "set (so_kernel s1) \<subseteq> set (so_kernel s)"
    and "ret < 0 \<and> (so_close_wait s1 \<or> so_send_wait s1) \<or> ret \<ge> 0 \<and> length (so_kernel s1) + length (bf_queue b1) < length (so_kernel s) + length (bf_queue b)"
  shows "drained s ret s1"
  using assms by (auto simp: drained_def out_wf_def buffer_wf_def out_stream_def out_pending_def no_files_def no_errors_def out_measure_def list_all_iff)

lemma front_typeE:
  assumes "front_type s = Some ty" "out_wf s"
  obtains b c q t where "so_buffer s = Some b" "bf_queue b = c # q" "bc_type c = ty" "buffer_wf b" "0 < bf_chunk_size b" "list_all chunk_wf q" "chunk_wf c"
    "t = wrap32 (sum_list (map bc_size q))" "buffer_pop b = Some (b\<lparr>bf_total_length := t, bf_queue := q\<rparr>)"
proof -
  obtain b where b: "so_buffer s = Some b" using assms(1) by (cases "so_buffer s") (auto simp: front_type_def)
  then obtain c q where q: "bf_queue b = c # q" "bc_type c = ty" using assms(1) by (cases "bf_queue b") (auto simp: front_type_def)
  have "buffer_wf b" "0 < bf_chunk_size b" "list_all chunk_wf q" "chunk_wf c"
    using assms(2) b q by (simp_all add: out_wf_def buffer_wf_def del: chunk_wf.simps)
  then show thesis using that [OF b q _ _ _ _ refl] buffer_pop_Cons [OF q(1)] by blast
qed

lemma handle_send_drained:
  assumes "out_wf s" "front_type s = Some TYPE_DATA"
  shows "\<exists>ret s1. handle_send s = Some (ret, s1) \<and> drained s ret s1"
proof -
  obtain b c q t where b: "so_buffer s = Some b" "bf_queue b = c # q" "bc_type c = TYPE_DATA" and wf: "buffer_wf b" "0 < bf_chunk_size b" "list_all chunk_wf q" "chunk_wf c"
    and pop: "t = wrap32 (sum_list (map bc_size q))" "buffer_pop b = Some (b\<lparr>bf_total_length := t, bf_queue := q\<rparr>)" by (rule front_typeE [OF assms(2,1)])
  define n where "n = bc_length c - bc_offset c"
  define bs where "bs = take n (drop (bc_offset c) (bc_ptr c))"
  have bs: "length bs = n" "chunk_pending c = bs" "mem_read (bc_offset c) n (bc_ptr c) = Some bs"
    using wf(4) b(3) by (auto simp: n_def bs_def chunk_pending_def mem_read_def)
  have P: "pending b = bs @ concat (map chunk_pending q)" "pending (b\<lparr>bf_total_length := t, bf_queue := q\<rparr>) = concat (map chunk_pending q)"
    using b(2) bs(2) by (simp_all add: pending_def)
  have n32: "so_chunk_size s < 2 ^ 32" using assms(1) by (simp add: out_wf_def)
  note D = drainedI [OF b(1) wf(1) n32]
  show ?thesis
  proof (cases "n = 0")
    case True
    have "drained s 0 (s\<lparr>so_buffer := Some (b\<lparr>bf_total_length := t, bf_queue := q\<rparr>)\<rparr>)"
      by (rule D [of _ "b\<lparr>bf_total_length := t, bf_queue := q\<rparr>" "[]"]) (use True bs P wf pop b in auto)
    then show ?thesis using True b pop by (simp add: handle_send_def n_def)
  next
    case False
    obtain ret e s1 where send: "socket_send bs s = (ret, e, s1)" by (cases "socket_send bs s")
    have tk: "took bs s ret s1" "ret < 0 \<and> e = S_WAIT \<or> length (so_kernel s1) < length (so_kernel s)" using socket_send_took [OF send] by blast+
    show ?thesis
    proof (cases "ret < 0")
      case neg: True
      obtain es where s1: "s1 = s\<lparr>so_kernel := es\<rparr>" "set es \<subseteq> set (so_kernel s)" "length es \<le> length (so_kernel s)" by (rule took_failed [OF tk(1) neg])
      have d: "drained s r s2" if "s2 = s1 \<and> r = 0 \<and> e \<noteq> S_WAIT \<or> r = - 1 \<and> (s2 = s1\<lparr>so_close_wait := True\<rparr> \<or> s2 = s1\<lparr>so_send_wait := True\<rparr>)" for r s2
        by (rule D [of _ b "[]"]) (use that s1 tk(2) b wf in \<open>auto simp: buffer_wf_def\<close>)
      show ?thesis using False neg b bs(3) send d by (cases e) (simp_all add: handle_send_def Let_def n_def [symmetric])
    next
      case pos: False
      obtain es k where s1: "s1 = s\<lparr>so_kernel := es, so_wire := so_wire s @ take k bs\<rparr>" "set es \<subseteq> set (so_kernel s)" "length es \<le> length (so_kernel s)" "ret = int k" "k \<le> length bs"
        by (rule took_some [OF tk(1) pos])
      show ?thesis
      proof (cases "k = n")
        case True
        have "drained s 0 (s1\<lparr>so_buffer := Some (b\<lparr>bf_total_length := t, bf_queue := q\<rparr>)\<rparr>)"
          by (rule D [of _ "b\<lparr>bf_total_length := t, bf_queue := q\<rparr>" bs]) (use True s1 bs P wf pop b in auto)
        then show ?thesis using True False pos b bs(3) send pop s1(4) by (simp add: handle_send_def Let_def n_def [symmetric])
      next
        case part: False
        let ?c = "c\<lparr>bc_offset := bc_offset c + k\<rparr>"
        have c: "chunk_pending ?c = drop k bs" "chunk_wf ?c" using wf(4) b(3) s1(5) bs(1) by (auto simp: chunk_pending_def bs_def n_def drop_take add.commute)
        have "drained s (- 1) (s1\<lparr>so_buffer := Some (b\<lparr>bf_queue := ?c # q\<rparr>), so_send_wait := True\<rparr>)"
          by (rule D [of _ "b\<lparr>bf_queue := ?c # q\<rparr>" "take k bs"])
            (use s1 c P wf b in \<open>auto simp: pending_def buffer_wf_def\<close>)
        then show ?thesis using part False pos b bs(3) send s1(4) by (simp add: handle_send_def Let_def n_def [symmetric])
      qed
    qed
  qed
qed


lemma handle_sendfile_drained:
  assumes "out_wf s" "front_type s = Some TYPE_SENDFILE" "no_errors s"
  shows "\<exists>ret s1. handle_sendfile s = Some (ret, s1) \<and> drained s ret s1"
proof -
  obtain b c q t where b: "so_buffer s = Some b" "bf_queue b = c # q" "bc_type c = TYPE_SENDFILE" and wf: "buffer_wf b" "0 < bf_chunk_size b" "list_all chunk_wf q" "chunk_wf c"
    and pop: "t = wrap32 (sum_list (map bc_size q))" "buffer_pop b = Some (b\<lparr>bf_total_length := t, bf_queue := q\<rparr>)" by (rule front_typeE [OF assms(2,1)])
  obtain f stop pos where c: "bc_object c = Some (f, stop, pos)" "stop \<le> length f" using wf(4) b(3) by auto
  define n where "n = (if stop - pos > OSW_SENDFILE_CHUNK_SIZE then OSW_SENDFILE_CHUNK_SIZE else stop - pos)"
  define bs where "bs = take n (drop pos f)"
  have n: "n \<le> stop - pos" "length bs = n" using c(2) by (auto simp: n_def bs_def)
  have P: "pending b = take (stop - pos) (drop pos f) @ concat (map chunk_pending q)" "pending (b\<lparr>bf_total_length := t, bf_queue := q\<rparr>) = concat (map chunk_pending q)"
    using b(2,3) c(1) by (simp_all add: pending_def chunk_pending_def)
  obtain ret e s1 where send: "kernel_send bs s = (ret, e, s1)" by (cases "kernel_send bs s")
  note tk = kernel_send_took [OF send]
  have e: "e \<noteq> S_ERROR" "e \<noteq> S_EINTR" using tk(2) assms(3) by (auto simp: no_errors_def list_all_iff)
  define k where "k = nat ret"
  have s1: "so_buffer s1 = Some b" "so_wire s1 = so_wire s @ take k bs" "set (so_kernel s1) \<subseteq> set (so_kernel s)" "length (so_kernel s1) \<le> length (so_kernel s)" "k \<le> n"
    "(if ret > 0 then pos + nat ret else pos) = pos + k" "so_chunk_size s1 = so_chunk_size s"
    using tk(1) b(1) n(2) unfolding took_def k_def by auto
  let ?b = "b\<lparr>bf_queue := c\<lparr>bc_object := Some (f, stop, pos + k)\<rparr> # q\<rparr>"
  have take: "take (stop - pos) (drop pos f) = take k bs @ take (stop - (pos + k)) (drop (pos + k) f)"
  proof -
    have "stop - pos = k + (stop - (pos + k))" using s1(5) n(1) by linarith
    then have "take (stop - pos) (drop pos f) = take k (drop pos f) @ take (stop - (pos + k)) (drop k (drop pos f))" by (metis take_add)
    then show ?thesis using s1(5) by (simp add: bs_def min_absorb1 add.commute)
  qed
  have n32: "so_chunk_size s < 2 ^ 32" using assms(1) by (simp add: out_wf_def)
  note D = drainedI [OF b(1) wf(1) n32]
  have kept: "drained s r s2" if "so_chunk_size s2 = so_chunk_size s1" "so_buffer s2 = Some ?b" "so_wire s2 = so_wire s1" "so_kernel s2 = so_kernel s1"
    "r < 0 \<and> (so_close_wait s2 \<or> so_send_wait s2) \<or> r \<ge> 0 \<and> \<not> (ret < 0 \<and> e = S_WAIT)" for r s2
    by (rule D [of _ ?b "take k bs"]) (use that s1 take c P wf b tk(2) in \<open>auto simp: pending_def chunk_pending_def buffer_wf_def\<close>)
  have popped: "drained s 0 (s1\<lparr>so_buffer := Some (b\<lparr>bf_total_length := t, bf_queue := q\<rparr>)\<rparr>)" if "stop \<le> pos + k"
    by (rule D [of _ "b\<lparr>bf_total_length := t, bf_queue := q\<rparr>" "take k bs"]) (use that s1 take P wf pop b in auto)
  let ?s = "s1\<lparr>so_buffer := Some ?b\<rparr>"
  have h: "handle_sendfile s =
      (if ret \<le> 0 \<and> e = S_CLOSE then Some (- 1, ?s\<lparr>so_close_wait := True\<rparr>) else if ret \<le> 0 \<and> e = S_WAIT then Some (- 1, ?s\<lparr>so_send_wait := True\<rparr>)
       else if stop \<le> pos + k then Some (0, s1\<lparr>so_buffer := Some (b\<lparr>bf_total_length := t, bf_queue := q\<rparr>)\<rparr>) else Some (0, ?s))"
    using b(1,2) c(1) send e s1(6) pop(2) by (cases "ret \<le> 0") (simp_all add: handle_sendfile_def Let_def n_def [symmetric] bs_def [symmetric] k_def)
  consider "ret \<le> 0" "e = S_CLOSE" | "ret \<le> 0" "e = S_WAIT" | "\<not> (ret \<le> 0 \<and> (e = S_CLOSE \<or> e = S_WAIT))" "stop \<le> pos + k"
    | "\<not> (ret \<le> 0 \<and> (e = S_CLOSE \<or> e = S_WAIT))" "\<not> stop \<le> pos + k" by blast
  then show ?thesis
  proof cases
    case 1
    then show ?thesis using h kept [of "?s\<lparr>so_close_wait := True\<rparr>" "- 1"] by simp
  next
    case 2
    then show ?thesis using h kept [of "?s\<lparr>so_send_wait := True\<rparr>" "- 1"] by simp
  next
    case 3
    then have "handle_sendfile s = Some (0, s1\<lparr>so_buffer := Some (b\<lparr>bf_total_length := t, bf_queue := q\<rparr>)\<rparr>)" unfolding h by auto
    then show ?thesis using popped [OF 3(2)] by blast
  next
    case 4
    then have "handle_sendfile s = Some (0, ?s)" unfolding h by auto
    moreover have "drained s 0 ?s" by (rule kept) (use 4 in auto)
    ultimately show ?thesis by blast
  qed
qed

lemma writable_callback_drains:
  "out_wf s \<Longrightarrow> no_files s \<or> no_errors s \<Longrightarrow> \<exists>s1. writable_callback s = Some s1 \<and> out_wf s1 \<and> out_stream s1 = out_stream s \<and> (no_files s \<longrightarrow> no_files s1) \<and> (no_errors s \<longrightarrow> no_errors s1)"
proof (induction "out_measure s" arbitrary: s rule: less_induct)
  case less
  show ?case
  proof (cases "front_type s")
    case None
    then show ?thesis using less.prems by (auto simp: writable_callback.simps [of s] remove_write_event_def out_wf_def out_stream_def out_pending_def no_files_def no_errors_def)
  next
    case (Some ty)
    show ?thesis
    proof (cases "ty = TYPE_CLOSE")
      case True
      then show ?thesis using Some less.prems by (auto simp: writable_callback.simps [of s] out_wf_def out_stream_def out_pending_def no_files_def no_errors_def)
    next
      case False
      let ?h = "if ty = TYPE_SENDFILE then handle_sendfile s else handle_send s"
      have "no_errors s" if "ty = TYPE_SENDFILE"
        using less.prems(2) that Some by (auto simp: no_files_def front_type_def split: option.splits list.splits)
      then obtain ret s1 where h: "?h = Some (ret, s1)" "drained s ret s1"
        using handle_sendfile_drained [OF less.prems(1)] handle_send_drained [OF less.prems(1)] Some False by (cases ty) auto
      have w: "writable_callback s = (if ret < 0 \<and> so_close_wait s1 then Some (s1\<lparr>so_closed := True\<rparr>) else if ret < 0 \<and> so_send_wait s1 then Some s1 else writable_callback s1)"
        using Some False h(1) by (subst writable_callback.simps) (cases ty; simp)
      show ?thesis
      proof (cases "ret < 0")
        case True
        then show ?thesis using w h(2) by (auto simp: drained_def out_wf_def out_stream_def out_pending_def no_files_def no_errors_def)
      next
        case False
        then show ?thesis using w h(2) less.hyps [of s1] less.prems(2) by (auto simp: drained_def)
      qed
    qed
  qed
qed


subsection \<open>Writing\<close>

lemma buffer_new_wf: "n < 2 ^ 32 \<Longrightarrow> buffer_wf (buffer_new n)" "pending (buffer_new n) = []" "bf_queue (buffer_new n) = []"
  by (auto simp: buffer_wf_def buffer_new_def INT_MAX_def wrap32_def pending_def)

lemma appended_wf:
  assumes "buffer_wf b"
  shows "buffer_wf (appended bs b)"
proof -
  have n: "0 < bf_chunk_size b" "bf_chunk_size b < 2 ^ 32" using assms by (simp_all add: buffer_wf_def)
  have "sum_list (map (\<lambda>c. bc_size (full_chunk c)) (split_chunks (bf_chunk_size b) bs)) = length (concat (split_chunks (bf_chunk_size b) bs))"
    by (simp add: full_chunk_def length_concat)
  moreover have "list_all chunk_wf (map full_chunk (split_chunks (bf_chunk_size b) bs))"
    using split_chunks_bound n(2) by (fastforce simp: list_all_iff full_chunk_def)
  ultimately show ?thesis using assms n split_chunks_concat [OF n(1), of bs] by (simp add: buffer_wf_def appended_def comp_def wrap32_add del: chunk_wf.simps)
qed

text \<open>What a write promises: everything is in the stream, or nothing.\<close>

definition written :: "bytes \<Rightarrow> out_socket \<Rightarrow> int \<Rightarrow> out_socket \<Rightarrow> bool" where
  "written bs s ret s1 \<longleftrightarrow> out_wf s1 \<and> out_stream s1 = out_stream s @ (if ret < 0 then [] else bs) \<and>
     (no_files s \<longrightarrow> no_files s1) \<and> (no_errors s \<longrightarrow> no_errors s1)"

lemma appended_no_files: "list_all (\<lambda>c. bc_type c \<noteq> TYPE_SENDFILE) (bf_queue b) \<Longrightarrow> list_all (\<lambda>c. bc_type c \<noteq> TYPE_SENDFILE) (bf_queue (appended bs b))"
  by (auto simp: appended_def list_all_iff full_chunk_def)

lemma write_append_written:
  assumes "out_wf s" "so_buffer s = Some b" "buffer_wf b" "app sent b = Some (appended bs b)"
  shows "\<exists>ret s1. write_append app sent s = Some (ret, s1) \<and> written bs s ret s1 \<and> (bf_queue b = [] \<longrightarrow> ret = 0)"
proof -
  have "written bs s 0 (s\<lparr>so_buffer := Some (appended bs b)\<rparr>)"
    using assms(1-3) appended_wf [OF assms(3)] appended_no_files [of b bs] pending_appended [of b bs]
    by (simp add: written_def out_wf_def out_stream_def out_pending_def no_files_def no_errors_def buffer_wf_def del: chunk_wf.simps)
  moreover have "written bs s (- 1) s" using assms(1) by (simp add: written_def)
  moreover have "bf_queue b = [] \<Longrightarrow> bf_total_length b = 0" using assms(3) by (simp add: buffer_wf_def wrap32_def)
  ultimately show ?thesis using assms(2,4) by (auto simp: write_append_def)
qed

lemma write_alloc_written:
  assumes "out_wf s" "out_empty s" "\<And>b. buffer_wf b \<Longrightarrow> app sent b = Some (appended bs b)"
  shows "\<exists>s1. write_alloc app sent s = Some (0, s1) \<and> written bs s 0 s1"
proof -
  define b where "b = (case so_buffer s of None \<Rightarrow> buffer_new (so_chunk_size s) | Some b \<Rightarrow> b)"
  define t where "t = (let u = s\<lparr>so_buffer := Some b\<rparr> in if so_write_event u then u else add_write_event u)"
  have b: "buffer_wf b" "bf_queue b = []" using assms(1,2) buffer_new_wf [of "so_chunk_size s"] by (auto simp: b_def out_wf_def out_empty_def split: option.splits)
  have t: "so_buffer t = Some b" "so_wire t = so_wire s" "so_kernel t = so_kernel s" "out_wf t"
    using assms(1) b by (auto simp: t_def Let_def add_write_event_def out_wf_def)
  have "write_alloc app sent s = write_append app sent t" by (simp add: write_alloc_def t_def b_def Let_def)
  then obtain s1 where "write_alloc app sent s = Some (0, s1)" "written bs t 0 s1" using write_append_written [where app = app and sent = sent, OF t(4,1) b(1) assms(3) [OF b(1)]] b(2) by auto
  moreover have "out_stream t = out_stream s" using t(1,2) b(2) assms(2) by (auto simp: out_stream_def out_pending_def pending_def out_empty_def split: option.splits)
  ultimately show ?thesis using t b(2) by (simp add: written_def no_files_def no_errors_def)
qed

lemma took_kept:
  assumes "took bs s ret s1"
  shows "so_buffer s1 = so_buffer s" "so_chunk_size s1 = so_chunk_size s" "no_errors s \<Longrightarrow> no_errors s1" "so_wire s1 = so_wire s @ take (nat ret) bs" "nat ret \<le> length bs"
  using assms by (auto simp: took_def no_errors_def list_all_iff)

lemma write_send_written:
  assumes "allocator_ok al" "bs \<noteq> []" "length bs < 2 ^ 32"
  shows "out_wf s \<Longrightarrow> out_empty s \<Longrightarrow>
    \<exists>ret s1. write_send (socket_send bs) (\<lambda>sent. buffer_append al (take (wrap32 (length bs - sent)) (drop sent bs))) (length bs) s = Some (ret, s1) \<and> written bs s ret s1"
    (is "_ \<Longrightarrow> _ \<Longrightarrow> \<exists>ret s1. write_send _ ?app _ s = _ \<and> _ ret s1")
proof (induction "length (so_kernel s)" arbitrary: s rule: less_induct)
  case less
  have app: "?app k b = Some (appended (drop k bs) b)" if "k < length bs" "buffer_wf b" for k b
    using append_loop_spec [OF assms(1), of b "drop k bs"] that assms(3) by (simp add: buffer_append_def buffer_wf_def wrap32_def)
  obtain ret e s1 where send: "socket_send bs s = (ret, e, s1)" by (cases "socket_send bs s")
  note tk = socket_send_took [OF send]
  note f = took_kept [OF conjunct1 [OF tk]]
  have w1: "out_wf s1" "out_empty s1" "out_stream s1 = out_stream s @ take (nat ret) bs" "no_files s1 = no_files s"
    using f less.prems by (auto simp: out_wf_def out_empty_def out_stream_def out_pending_def pending_def no_files_def split: option.splits)
  have whole: "written bs s r t" if "written (drop (nat ret) bs) s1 r t" "\<not> r < 0 \<or> nat ret = 0" for r t using that w1 f by (auto simp: written_def)
  show ?case
  proof (cases "ret = int (length bs)")
    case True
    then show ?thesis using send assms(2) w1 f by (subst write_send.simps) (simp add: written_def)
  next
    case False
    then have k: "nat ret < length bs" using f(5) assms(2) by (cases "ret < 0") (auto simp: nat_less_iff)
    obtain t where t: "write_alloc ?app (nat ret) s1 = Some (0, t)" "written (drop (nat ret) bs) s1 0 t"
      using write_alloc_written [OF w1(1,2), of ?app "nat ret"] app [OF k] by blast
    consider "ret > 0 \<or> e = S_WAIT" | "ret \<le> 0" "e = S_EINTR" | "ret \<le> 0" "e \<noteq> S_WAIT" "e \<noteq> S_EINTR" by linarith
    then show ?thesis
    proof cases
      case 1
      then have "write_send (socket_send bs) ?app (length bs) s = Some (0, t)" using send False t(1) by (subst write_send.simps) (auto simp: not_less)
      then show ?thesis using whole [OF t(2)] by auto
    next
      case 2
      then have "length (so_kernel s1) < length (so_kernel s)" using tk by auto
      then obtain r u where u: "write_send (socket_send bs) ?app (length bs) s1 = Some (r, u)" "written bs s1 r u" using less.hyps w1(1,2) by blast
      then have "write_send (socket_send bs) ?app (length bs) s = Some (r, u)" using send 2 by (subst write_send.simps) simp
      then show ?thesis using u(2) whole [of r u] 2 by auto
    next
      case 3
      then have "write_send (socket_send bs) ?app (length bs) s = Some (- 1, s1)" using send by (subst write_send.simps) simp
      then show ?thesis using 3 w1 f by (auto simp: written_def)
    qed
  qed
qed


lemma reactor_write_written:
  assumes "allocator_ok al" "bs \<noteq> []" "length bs < 2 ^ 32" "out_wf s"
  shows "\<exists>ret s1. reactor_write al bs s = Some (ret, s1) \<and> written bs s ret s1"
proof -
  define s1 where "s1 = (if so_buffer_size s = 0 then s\<lparr>so_buffer_size := OSW_SOCKET_BUFFER_SIZE\<rparr> else s)"
  have s1: "out_wf s1" "written bs s1 ret t \<Longrightarrow> written bs s ret t" "written bs s (- 1) s1" for ret t
    using assms(4) by (auto simp: s1_def written_def out_wf_def out_stream_def out_pending_def no_files_def no_errors_def)
  let ?app = "\<lambda>sent. buffer_append al (take (wrap32 (length bs - sent)) (drop sent bs))"
  have r: "reactor_write al bs s = (if wrap32 (length bs) > so_buffer_size s1 then Some (- 1, s1)
      else if out_empty s1 then write_send (socket_send bs) ?app (length bs) s1 else write_append ?app 0 s1)"
    by (simp add: reactor_write_def write_func_def s1_def Let_def)
  consider "wrap32 (length bs) > so_buffer_size s1" | "\<not> wrap32 (length bs) > so_buffer_size s1" "out_empty s1" | "\<not> wrap32 (length bs) > so_buffer_size s1" "\<not> out_empty s1" by blast
  then show ?thesis
  proof cases
    case 1
    then show ?thesis using r s1(3) by auto
  next
    case 2
    then show ?thesis using r write_send_written [OF assms(1-3) s1(1) 2(2)] s1(2) by auto
  next
    case 3
    then obtain b where b: "so_buffer s1 = Some b" "buffer_wf b" using s1(1) by (auto simp: out_empty_def out_wf_def split: option.splits)
    have "?app 0 b = Some (appended bs b)" using append_loop_spec [OF assms(1), of b bs] b(2) assms(2,3) by (simp add: buffer_append_def buffer_wf_def wrap32_def)
    then have "\<exists>ret t. write_append ?app 0 s1 = Some (ret, t) \<and> written bs s1 ret t \<and> (bf_queue b = [] \<longrightarrow> ret = 0)" by (rule write_append_written [OF s1(1) b])
    then show ?thesis using r 3 s1(2) by auto
  qed
qed

definition file_bytes :: "bytes option \<Rightarrow> int \<Rightarrow> nat \<Rightarrow> bytes" where
  "file_bytes file offset n =
     (case file of None \<Rightarrow> []
      | Some f \<Rightarrow> if f = [] \<or> offset < 0 \<or> n + nat offset > length f then [] else take ((if n = 0 then length f else n + nat offset) - nat offset) (drop (nat offset) f))"

lemma socket_sendfile_queued:
  assumes "out_wf s"
  shows "\<exists>ret s1. socket_sendfile al file offset n s = Some (ret, s1) \<and> out_wf s1 \<and> out_stream s1 = out_stream s @ file_bytes file offset n \<and> (no_errors s \<longrightarrow> no_errors s1)"
proof (cases "file = None \<or> file = Some []")
  case True
  then show ?thesis using assms by (auto simp: socket_sendfile_def file_bytes_def)
next
  case False
  then obtain f where f: "file = Some f" "f \<noteq> []" by auto
  define b where "b = (case so_buffer s of None \<Rightarrow> buffer_new OSW_SEND_BUFFER_SIZE | Some b \<Rightarrow> b)"
  have b: "buffer_wf b" "pending b = out_pending s"
    using assms buffer_new_wf [of OSW_SEND_BUFFER_SIZE] by (auto simp: b_def out_wf_def out_pending_def OSW_SEND_BUFFER_SIZE_def split: option.splits)
  show ?thesis
  proof (cases "offset < 0 \<or> n + nat offset > length f")
    case True
    then show ?thesis using f b assms by (auto simp: socket_sendfile_def file_bytes_def b_def [symmetric] out_wf_def out_stream_def out_pending_def no_errors_def Let_def)
  next
    case False
    let ?c = "\<lparr>bc_type = TYPE_SENDFILE, bc_length = 0, bc_offset = 0, bc_ptr = [], bc_object = Some (f, if n = 0 then length f else n + nat offset, nat offset), bc_size = 0\<rparr>"
    have s: "socket_sendfile al file offset n s = Some (0, s\<lparr>so_buffer := Some (b\<lparr>bf_queue := bf_queue b @ [?c]\<rparr>)\<rparr>)"
      using f False by (simp add: socket_sendfile_def b_def [symmetric] buffer_alloc_def Let_def)
    have "buffer_wf (b\<lparr>bf_queue := bf_queue b @ [?c]\<rparr>)" using b(1) False by (auto simp: buffer_wf_def)
    moreover have "pending (b\<lparr>bf_queue := bf_queue b @ [?c]\<rparr>) = out_pending s @ file_bytes file offset n"
      using b(2) f False by (simp add: pending_def chunk_pending_def file_bytes_def)
    ultimately show ?thesis using s assms by (simp add: out_wf_def out_stream_def out_pending_def no_errors_def)
  qed
qed

subsection \<open>A socket in the event loop\<close>

datatype out_op = Write bytes | Send_file "bytes option" int nat | Writable

definition out_new :: "nat \<Rightarrow> nat \<Rightarrow> bool \<Rightarrow> bool \<Rightarrow> send_event list \<Rightarrow> out_socket" where
  "out_new buffer_size chunk_size reading dontwait es =
     \<lparr>so_buffer = None, so_buffer_size = buffer_size, so_chunk_size = chunk_size, so_read_event = reading, so_write_event = False, so_removed = False,
       so_dontwait = dontwait, so_close_wait = False, so_send_wait = False, so_closed = False, so_kernel = es, so_wire = []\<rparr>"

text \<open>With what the operations have accepted. Nothing is written to a closed socket.\<close>

fun out_step :: "allocator \<Rightarrow> out_op \<Rightarrow> out_socket \<Rightarrow> (bytes \<times> out_socket) option" where
  "out_step al (Write bs) s = map_option (\<lambda>(ret, s1). (if ret < 0 then [] else bs, s1)) (reactor_write al bs s)"
| "out_step al (Send_file f offset n) s = map_option (\<lambda>(ret, s1). (file_bytes f offset n, s1)) (socket_sendfile al f offset n s)"
| "out_step al Writable s = map_option (Pair []) (writable_callback s)"

fun out_run :: "allocator \<Rightarrow> out_op list \<Rightarrow> out_socket \<Rightarrow> (bytes \<times> out_socket) option" where
  "out_run al [] s = Some ([], s)"
| "out_run al (x # xs) s =
     (if so_closed s then Some ([], s)
      else do {
        (acc, s1) \<leftarrow> out_step al x s;
        (acc', s2) \<leftarrow> out_run al xs s1;
        Some (acc @ acc', s2)
      })"

definition is_file :: "out_op \<Rightarrow> bool" where
  "is_file x \<longleftrightarrow> (case x of Send_file f i n \<Rightarrow> True | _ \<Rightarrow> False)"

definition sound_op :: "out_op \<Rightarrow> bool" where
  "sound_op x \<longleftrightarrow> (case x of Write bs \<Rightarrow> bs \<noteq> [] \<and> length bs < 2 ^ 32 | _ \<Rightarrow> True)"

lemma out_step_stream:
  assumes "allocator_ok al" "sound_op x" "out_wf s" "no_errors s \<or> no_files s \<and> \<not> is_file x"
  shows "\<exists>acc s1. out_step al x s = Some (acc, s1) \<and> out_wf s1 \<and> out_stream s1 = out_stream s @ acc \<and> (no_errors s1 \<or> \<not> no_errors s \<and> no_files s1)"
proof (cases x)
  case (Write bs)
  then obtain ret s1 where "reactor_write al bs s = Some (ret, s1)" "written bs s ret s1" using reactor_write_written [OF assms(1), of bs s] assms(2,3) by (auto simp: sound_op_def)
  then show ?thesis using Write assms(4) by (intro exI [of _ "if ret < 0 then [] else bs"] exI [of _ s1]) (auto simp: written_def)
next
  case (Send_file f i n)
  obtain ret s1 where "socket_sendfile al f i n s = Some (ret, s1)" "out_wf s1" "out_stream s1 = out_stream s @ file_bytes f i n" "no_errors s \<longrightarrow> no_errors s1"
    using socket_sendfile_queued [OF assms(3), of al f i n] by blast
  then show ?thesis using Send_file assms(4) by (auto simp: is_file_def)
next
  case Writable
  then show ?thesis using writable_callback_drains [OF assms(3)] assms(4) by auto
qed

lemma out_run_stream:
  assumes "allocator_ok al"
  shows "list_all sound_op xs \<Longrightarrow> out_wf s \<Longrightarrow> no_errors s \<or> no_files s \<and> \<not> list_ex is_file xs \<Longrightarrow>
    \<exists>acc s1. out_run al xs s = Some (acc, s1) \<and> out_stream s1 = out_stream s @ acc"
proof (induction xs arbitrary: s)
  case (Cons x xs)
  show ?case
  proof (cases "so_closed s")
    case False
    obtain acc s1 where s1: "out_step al x s = Some (acc, s1)" "out_wf s1" "out_stream s1 = out_stream s @ acc" "no_errors s1 \<or> \<not> no_errors s \<and> no_files s1"
      using out_step_stream [OF assms, of x s] Cons.prems by auto
    moreover have "\<exists>acc' s2. out_run al xs s1 = Some (acc', s2) \<and> out_stream s2 = out_stream s1 @ acc'" using Cons.prems s1 by (intro Cons.IH) auto
    ultimately show ?thesis using False by auto
  qed simp
qed simp



text \<open>
  C35. A vector that is written in part is not continued but repeated: when the kernel takes some bytes of the first block of a vector, and not all
  of it, the whole vector is queued behind them, and the peer receives these bytes twice.
\<close>

theorem writev_repeats:
  assumes "allocator_ok al" "iov \<noteq> []" "list_all (\<lambda>v. v \<noteq> []) iov" "length (concat iov) \<le> OSW_SOCKET_BUFFER_SIZE" "0 < k" "k < length (hd iov)" "chunk_size < 2 ^ 32"
  shows "\<exists>s. reactor_writev al iov (out_new 0 chunk_size reading dontwait [Took k e]) = Some (0, s) \<and> so_wire s @ out_pending s = take k (concat iov) @ concat iov"
proof -
  let ?s = "out_new 0 chunk_size reading dontwait [Took k e]"
  let ?s1 = "?s\<lparr>so_buffer_size := OSW_SOCKET_BUFFER_SIZE\<rparr>"
  let ?s2 = "?s1\<lparr>so_kernel := [], so_wire := take k (concat iov)\<rparr>"
  have n: "k < length (concat iov)" using assms(2,6) by (cases iov) auto
  have "\<not> wrap32 (length (concat iov)) > OSW_SOCKET_BUFFER_SIZE" using assms(4) by (simp add: wrap32_def OSW_SOCKET_BUFFER_SIZE_def)
  then have "reactor_writev al iov ?s = write_send (kernel_send (concat iov)) (\<lambda>sent. buffer_append_iov al iov (int sent)) (length (concat iov)) ?s1"
    by (simp add: reactor_writev_def write_func_def out_new_def out_empty_def)
  also have "\<dots> = write_alloc (\<lambda>sent. buffer_append_iov al iov (int sent)) k ?s2"
    using n assms(5) by (subst write_send.simps) (simp add: kernel_send.simps out_new_def min_absorb2)
  finally have w: "reactor_writev al iov ?s = write_alloc (\<lambda>sent. buffer_append_iov al iov (int sent)) k ?s2" .
  have "\<exists>s1. write_alloc (\<lambda>sent. buffer_append_iov al iov (int sent)) k ?s2 = Some (0, s1) \<and> written (concat iov) ?s2 0 s1"
  proof (rule write_alloc_written)
    fix b
    assume b: "buffer_wf b"
    then have "append_loop al (concat iov) b = Some (appended (concat iov) b)" using append_loop_spec [OF assms(1)] by (simp add: buffer_wf_def wrap32_def)
    then show "buffer_append_iov al iov (int k) b = Some (appended (concat iov) b)" using append_iov_loop [OF assms(2,3), of b "int k" al] b assms(6) by (simp add: buffer_wf_def)
  qed (use assms(7) in \<open>simp_all add: out_wf_def out_empty_def out_new_def\<close>)
  then show ?thesis unfolding w by (auto simp: written_def out_stream_def out_pending_def out_new_def)
qed

theorem writev_repeats_witness:
  "\<exists>s. reactor_writev (\<lambda>n. Some (replicate n 0)) [[1, 2, 3], [4]] (out_new 0 0 True False [Took 2 S_WAIT]) = Some (0, s) \<and> so_wire s @ out_pending s = [1, 2, 1, 2, 3, 4]"
  using writev_repeats [of "\<lambda>n. Some (replicate n 0)" "[[1, 2, 3], [4]]" 2 0 True False S_WAIT] by (simp add: allocator_ok_def OSW_SOCKET_BUFFER_SIZE_def)

end
