(* ===== verification/Osw_Memory_Pool.thy ===== *)
theory Osw_Memory_Pool
  imports Osw_Prelude "HOL-Library.Monad_Syntax"
begin

text \<open>
  The interface \<^verbatim>\<open>MemoryPool\<close> of \<^verbatim>\<open>include/openswoole_memory.h\<close>: what a user of a pool relies on when it allocates, whatever class
  the pool has and whatever a request holds beside its length. A block is an address with a length; \<open>None\<close> is a fault, and an allocation may yield the null pointer.
\<close>

fun alloc_all :: "('r \<Rightarrow> 'p \<Rightarrow> ('a option \<times> 'p) option) \<Rightarrow> 'r list \<Rightarrow> 'p \<Rightarrow> ('a option list \<times> 'p) option" where
  "alloc_all alloc [] s = Some ([], s)"
| "alloc_all alloc (n # ns) s = do { (x, s1) \<leftarrow> alloc n s; (xs, s2) \<leftarrow> alloc_all alloc ns s1; Some (x # xs, s2) }"

locale memory_pool =
  fixes rel :: "'p \<Rightarrow> ('a \<times> nat) set \<Rightarrow> bool"
    and len :: "'r \<Rightarrow> nat"
    and request :: "'p \<Rightarrow> 'r \<Rightarrow> bool"
    and alloc :: "'r \<Rightarrow> 'p \<Rightarrow> ('a option \<times> 'p) option"
    and apart :: "'a \<times> nat \<Rightarrow> 'a \<times> nat \<Rightarrow> bool"
  assumes alloc_rel: "rel s live \<Longrightarrow> request s r \<Longrightarrow> \<exists>x s'. alloc r s = Some (x, s') \<and> (\<forall>k. request s' k = request s k) \<and>
      (case x of None \<Rightarrow> rel s' live | Some p \<Rightarrow> \<exists>l\<ge>len r. (\<forall>b\<in>live. apart (p, l) b) \<and> rel s' (insert (p, l) live))"
    and apart_smaller: "apart (p, l) (q, l') \<Longrightarrow> n \<le> l \<Longrightarrow> n' \<le> l' \<Longrightarrow> apart (p, n) (q, n')"
    and apart_sym: "apart b c \<Longrightarrow> apart c b"
begin

text \<open>Blocks that are allocated one after the other do not overlap, nor do they overlap with the blocks that are in use.\<close>

lemma alloc_all_apart:
  "rel s live \<Longrightarrow> \<forall>n\<in>set ns. request s n \<Longrightarrow> \<exists>xs s'. alloc_all alloc ns s = Some (xs, s') \<and> length xs = length ns \<and>
     (\<forall>i p. i < length ns \<longrightarrow> xs ! i = Some p \<longrightarrow> (\<forall>b\<in>live. apart (p, len (ns ! i)) b)) \<and>
     (\<forall>i j p q. i < j \<longrightarrow> j < length ns \<longrightarrow> xs ! i = Some p \<longrightarrow> xs ! j = Some q \<longrightarrow> apart (p, len (ns ! i)) (q, len (ns ! j)))"
proof (induction ns arbitrary: s live)
  case (Cons n ns)
  obtain x s1 where a: "alloc n s = Some (x, s1)" "\<forall>k. request s1 k = request s k"
    and x: "case x of None \<Rightarrow> rel s1 live | Some p \<Rightarrow> \<exists>l\<ge>len n. (\<forall>b\<in>live. apart (p, l) b) \<and> rel s1 (insert (p, l) live)"
    using alloc_rel [OF Cons.prems(1), of n] Cons.prems(2) by auto
  obtain live1 where l1: "rel s1 live1" "live \<subseteq> live1" "\<And>p. x = Some p \<Longrightarrow> \<exists>l\<ge>len n. (p, l) \<in> live1 \<and> (\<forall>b\<in>live. apart (p, l) b)"
    using x by (cases x) auto
  obtain xs s2 where r: "alloc_all alloc ns s1 = Some (xs, s2)" "length xs = length ns"
      "\<And>i p b. i < length ns \<Longrightarrow> xs ! i = Some p \<Longrightarrow> b \<in> live1 \<Longrightarrow> apart (p, len (ns ! i)) b"
      "\<And>i j p q. i < j \<Longrightarrow> j < length ns \<Longrightarrow> xs ! i = Some p \<Longrightarrow> xs ! j = Some q \<Longrightarrow> apart (p, len (ns ! i)) (q, len (ns ! j))"
    using Cons.IH [OF l1(1)] a(2) Cons.prems(2) by auto
  have "apart (p, len ((n # ns) ! i)) b" if ib: "i < length (n # ns)" "(x # xs) ! i = Some p" "b \<in> live" for i p b
  proof (cases i)
    case 0
    then obtain l where "l \<ge> len n" "apart (p, l) b" using l1(3) ib(2,3) by auto
    then show ?thesis using apart_smaller [of p l "fst b" "snd b" "len n" "snd b"] 0 by simp
  next
    case (Suc k)
    then show ?thesis using r(3) [of k p b] ib l1(2) by auto
  qed
  moreover have "apart (p, len ((n # ns) ! i)) (q, len ((n # ns) ! j))" if ij: "i < j" "j < length (n # ns)" "(x # xs) ! i = Some p" "(x # xs) ! j = Some q" for i j p q
  proof (cases i)
    case 0
    then obtain l where "l \<ge> len n" "(p, l) \<in> live1" using l1(3) ij(3) by auto
    then show ?thesis using apart_smaller [OF apart_sym [OF r(3) [of "j - 1" q "(p, l)"]], of "len n" "len (ns ! (j - 1))"] ij 0 by (cases j) simp_all
  next
    case (Suc k)
    then show ?thesis using r(4) [of k "j - 1" p q] ij by (cases j) simp_all
  qed
  ultimately show ?case using a(1) r(1,2) by (auto 0 3)
qed simp

end

end
