(* ===== verification/Osw_Ring_Buffer.thy ===== *)
theory Osw_Ring_Buffer
  imports Osw_Memory_Pool
begin

text \<open>
  The ring buffer allocator (\<^verbatim>\<open>src/memory/ring_buffer.cc\<close>), in which memory is freed in the order of its allocation. A pointer is an
  offset into \<^verbatim>\<open>memory\<close>. The headers of the items are a map from the offsets at which they have been written; between them are the
  bytes of the users. \<open>None\<close> is a failed assertion, or the use of a header that has not been written. The 32-bit sums wrap.
\<close>

subsection \<open>Operations\<close>

record ring_item =
  ri_lock :: nat
  ri_index :: nat
  ri_length :: nat

definition sizeof_item :: nat where
  "sizeof_item = 8"

text \<open>\<^verbatim>\<open>sizeof(*impl)\<close>: a pointer, two bytes and five 32-bit numbers, with padding.\<close>

definition sizeof_impl :: nat where
  "sizeof_impl = 32"

record ring =
  rb_items :: "nat \<rightharpoonup> ring_item"
  rb_status :: nat
  rb_size :: nat
  rb_alloc_offset :: nat
  rb_collect_offset :: nat
  rb_alloc_count :: nat
  rb_free_count :: nat

text \<open>The size of a pointer is subtracted, instead of \<^verbatim>\<open>sizeof(*impl)\<close>.\<close>

definition ring_new :: "nat \<Rightarrow> ring" where
  "ring_new n =
     \<lparr>rb_items = Map.empty, rb_status = 0, rb_size = wrap32 (wrap32 (mem_aligned_size n) + (2 ^ 32 - 8)), rb_alloc_offset = 0, rb_collect_offset = 0,
       rb_alloc_count = 0, rb_free_count = 0\<rparr>"

definition collect_item :: "ring_item \<Rightarrow> ring \<Rightarrow> ring" where
  "collect_item item r =
     (let c = wrap32 (rb_collect_offset r + wrap32 (ri_length item + sizeof_item));
          r1 = r\<lparr>rb_collect_offset := c, rb_free_count := rb_free_count r - 1\<rparr>
      in if c + sizeof_item > rb_size r \<or> c \<ge> rb_size r then r1\<lparr>rb_collect_offset := 0, rb_status := 0\<rparr> else r1)"

function ring_collect :: "nat \<Rightarrow> ring \<Rightarrow> ring option" where
  "ring_collect i r =
     (if i < rb_free_count r then
        (case rb_items r (rb_collect_offset r) of
           None \<Rightarrow> None
         | Some item \<Rightarrow> if ri_lock item = 0 then ring_collect (i + 1) (collect_item item r) else Some r)
      else Some r)"
  by pat_completeness auto
termination
  by (relation "measure (\<lambda>(i, r). rb_free_count r - i)") (auto simp: collect_item_def Let_def)

declare ring_collect.simps [simp del]

text \<open>The rest of the memory is made an item that is free.\<close>

definition ring_skip :: "ring \<Rightarrow> ring" where
  "ring_skip r =
     (let skip_n = wrap32 (rb_size r + (2 ^ 32 - rb_alloc_offset r));
          index = (case rb_items r (rb_alloc_offset r) of None \<Rightarrow> 0 | Some item \<Rightarrow> ri_index item)
      in if skip_n \<ge> sizeof_item then
           r\<lparr>rb_items := (rb_items r)(rb_alloc_offset r \<mapsto> \<lparr>ri_lock = 0, ri_index = index, ri_length = skip_n - sizeof_item\<rparr>),
             rb_free_count := wrap32 (rb_free_count r + 1)\<rparr>
         else r)"

text \<open>\<open>rb_size - sizeof_item\<close> is a 64-bit number.\<close>

definition ring_alloc :: "nat \<Rightarrow> ring \<Rightarrow> (nat option \<times> ring) option" where
  "ring_alloc n r =
     (if n = 0 then None
      else do {
        let size = wrap32 (mem_aligned_size n);
        let alloc_size = wrap32 (size + sizeof_item);
        r1 \<leftarrow> (if rb_free_count r > 0 then ring_collect 0 r else Some r);
        let wraps = (rb_status r1 = 0 \<and> int (wrap32 (rb_alloc_offset r1 + alloc_size)) \<ge> (int (rb_size r1) - int sizeof_item) mod 2 ^ 64);
        let r2 = (if wraps then (ring_skip r1)\<lparr>rb_alloc_offset := 0, rb_status := 1\<rparr> else r1);
        let capacity = (if rb_status r2 = 0 then wrap32 (rb_size r2 + (2 ^ 32 - rb_alloc_offset r2)) else wrap32 (rb_collect_offset r2 + (2 ^ 32 - rb_alloc_offset r2)));
        Some (if capacity < alloc_size then (None, r2)
              else (Some (rb_alloc_offset r2 + sizeof_item),
                r2\<lparr>rb_items := (rb_items r2)(rb_alloc_offset r2 \<mapsto> \<lparr>ri_lock = 1, ri_index = rb_alloc_count r2 mod 2 ^ 16, ri_length = size\<rparr>),
                  rb_alloc_offset := wrap32 (rb_alloc_offset r2 + alloc_size), rb_alloc_count := wrap32 (rb_alloc_count r2 + 1)\<rparr>))
      })"

definition ring_free :: "nat \<Rightarrow> ring \<Rightarrow> ring option" where
  "ring_free p r =
     (if p \<le> rb_size r \<and> p \<ge> sizeof_item then do {
        item \<leftarrow> rb_items r (p - sizeof_item);
        if ri_lock item = 1 then
          Some (r\<lparr>rb_items := (rb_items r)(p - sizeof_item \<mapsto> item\<lparr>ri_lock := 0\<rparr>), rb_free_count := wrap32 (rb_free_count r + 1)\<rparr>)
        else None
      }
      else None)"

subsection \<open>The items\<close>

text \<open>The items from an offset on, with their lengths, and whether they are locked.\<close>

fun chain :: "(nat \<rightharpoonup> ring_item) \<Rightarrow> nat \<Rightarrow> (nat \<times> nat \<times> bool) list \<Rightarrow> nat \<Rightarrow> bool" where
  "chain m a [] b \<longleftrightarrow> a = b"
| "chain m a ((o', l, k) # es) b \<longleftrightarrow> o' = a \<and> 8 dvd l \<and> (\<exists>i. m a = Some \<lparr>ri_lock = (if k then 1 else 0), ri_index = i, ri_length = l\<rparr>) \<and> chain m (a + 8 + l) es b"

definition free_items :: "(nat \<times> nat \<times> bool) list \<Rightarrow> nat" where
  "free_items es = length (filter (\<lambda>(o', l, k). \<not> k) es)"

definition ring_inv :: "(nat \<times> nat \<times> bool) list \<Rightarrow> (nat \<times> nat \<times> bool) list \<Rightarrow> ring \<Rightarrow> bool" where
  "ring_inv es1 es2 r \<longleftrightarrow> rb_size r < 2 ^ 32 \<and> 8 dvd rb_size r \<and> 8 dvd rb_alloc_offset r \<and> 8 dvd rb_collect_offset r \<and>
     rb_free_count r = free_items (es1 @ es2) \<and>
     (if rb_status r = 0 then es2 = [] \<and> chain (rb_items r) (rb_collect_offset r) es1 (rb_alloc_offset r) \<and> rb_alloc_offset r + 8 \<le> rb_size r
      else es1 \<noteq> [] \<and> chain (rb_items r) (rb_collect_offset r) es1 (rb_size r) \<and> chain (rb_items r) 0 es2 (rb_alloc_offset r) \<and> rb_alloc_offset r \<le> rb_collect_offset r)"

lemma chain_le: "chain m a es b \<Longrightarrow> a \<le> b"
  by (induction m a es b rule: chain.induct) auto

lemma chain_items: "chain m a es b \<Longrightarrow> (p, l, k) \<in> set es \<Longrightarrow> a \<le> p \<and> p + 8 + l \<le> b \<and> (\<exists>i. m p = Some \<lparr>ri_lock = (if k then 1 else 0), ri_index = i, ri_length = l\<rparr>)"
  by (induction m a es b rule: chain.induct) (auto dest: chain_le)

lemma chain_snoc: "chain m a (es @ [(p, l, k)]) b \<longleftrightarrow> chain m a es p \<and> chain m p [(p, l, k)] b"
  by (induction es arbitrary: a) auto

lemma chain_upd: "chain m a es b \<Longrightarrow> p < a \<or> b \<le> p \<Longrightarrow> chain (m(p \<mapsto> x)) a es b"
  by (induction m a es b rule: chain.induct) (auto dest: chain_le)

text \<open>The number of items is bounded by the memory they take, so their count does not wrap.\<close>

lemma chain_length: "chain m a es b \<Longrightarrow> a + 8 * length es \<le> b"
  by (induction m a es b rule: chain.induct) auto

lemma free_items_le: "free_items es \<le> length es"
  by (simp add: free_items_def)


lemma free_items_simps [simp]: "free_items [] = 0" "free_items ((p, l, k) # es) = (if k then 0 else 1) + free_items es" "free_items (es @ es') = free_items es + free_items es'"
  by (simp_all add: free_items_def)

lemma ring_inv_first:
  assumes "ring_inv es1 es2 r" "es1 \<noteq> []"
  obtains l k es i where "es1 = (rb_collect_offset r, l, k) # es" "rb_items r (rb_collect_offset r) = Some \<lparr>ri_lock = (if k then 1 else 0), ri_index = i, ri_length = l\<rparr>"
    "8 dvd l" "chain (rb_items r) (rb_collect_offset r + 8 + l) es (if rb_status r = 0 then rb_alloc_offset r else rb_size r)"
proof -
  obtain p l k es where es: "es1 = (p, l, k) # es" using assms(2) by (cases es1) auto
  have "chain (rb_items r) (rb_collect_offset r) es1 (if rb_status r = 0 then rb_alloc_offset r else rb_size r)" using assms(1) by (auto simp: ring_inv_def)
  then show thesis using that es by auto
qed

lemma dvd8_less: "8 dvd (a :: nat) \<Longrightarrow> 8 dvd b \<Longrightarrow> a < b \<Longrightarrow> a + 8 \<le> b"
  by (auto elim!: dvdE)

lemma collect_item_inv:
  assumes "ring_inv ((rb_collect_offset r, l, False) # es) es2 r" "ri_length item = l"
  shows "\<exists>es1 es2'. ring_inv es1 es2' (collect_item item r) \<and> es1 @ es2' = es @ es2 \<and> rb_size (collect_item item r) = rb_size r"
proof -
  obtain i where c: "8 dvd l" "chain (rb_items r) (rb_collect_offset r + 8 + l) es (if rb_status r = 0 then rb_alloc_offset r else rb_size r)"
    by (rule ring_inv_first [OF assms(1)]) auto
  have s: "rb_size r < 2 ^ 32" "8 dvd rb_size r" "8 dvd rb_alloc_offset r" "8 dvd rb_collect_offset r" "rb_free_count r = 1 + free_items (es @ es2)" using assms(1) by (auto simp: ring_inv_def)
  let ?c = "rb_collect_offset r + 8 + l"
  have le: "?c \<le> rb_size r" using chain_le [OF c(2)] assms(1) by (auto simp: ring_inv_def split: if_splits)
  then have w: "wrap32 (rb_collect_offset r + wrap32 (ri_length item + sizeof_item)) = ?c" using s(1) assms(2) by (simp add: wrap32_def sizeof_item_def)
  have d: "8 dvd ?c" using s(4) c(1) by (auto intro: dvd_add)
  show ?thesis
  proof (cases "?c = rb_size r")
    case True
    then have st: "rb_status r \<noteq> 0" using chain_le [OF c(2)] assms(1) by (auto simp: ring_inv_def split: if_splits)
    then have "es = []" using c(2) True chain_length [of "rb_items r" "rb_size r" es "rb_size r"] by simp
    moreover have "chain (rb_items r) 0 es2 (rb_alloc_offset r)" "rb_alloc_offset r \<le> rb_collect_offset r" using assms(1) st by (auto simp: ring_inv_def)
    ultimately have "ring_inv es2 [] (collect_item item r)" using s True w by (simp add: ring_inv_def collect_item_def Let_def)
    then show ?thesis using \<open>es = []\<close> True w by (intro exI [of _ es2] exI [of _ "[]"]) (simp add: collect_item_def Let_def)
  next
    case False
    then have le8: "?c + 8 \<le> rb_size r" using dvd8_less [OF d s(2)] le by simp
    have ne: "es \<noteq> []" if "rb_status r \<noteq> 0" using c(2) False that by auto
    have "collect_item item r = r\<lparr>rb_collect_offset := ?c, rb_free_count := rb_free_count r - 1\<rparr>" using w le8 by (simp add: collect_item_def Let_def sizeof_item_def)
    moreover have "ring_inv es es2 (r\<lparr>rb_collect_offset := ?c, rb_free_count := rb_free_count r - 1\<rparr>)"
      using s d c(2) ne assms(1) by (auto simp: ring_inv_def split: if_splits)
    ultimately show ?thesis by (intro exI [of _ es] exI [of _ es2]) simp
  qed
qed

text \<open>Collecting drops free items from the front.\<close>

lemma ring_collect_inv:
  "ring_inv es1 es2 r \<Longrightarrow> \<exists>r' es1' es2'. ring_collect i r = Some r' \<and> ring_inv es1' es2' r' \<and> rb_size r' = rb_size r \<and>
    filter (\<lambda>(p, l, k). k) (es1' @ es2') = filter (\<lambda>(p, l, k). k) (es1 @ es2)"
proof (induction i r arbitrary: es1 es2 rule: ring_collect.induct)
  case (1 i r)
  show ?case
  proof (cases "i < rb_free_count r")
    case True
    then have "es1 \<noteq> []" using "1.prems" by (auto simp: ring_inv_def split: if_splits)
    then obtain l k es j where es: "es1 = (rb_collect_offset r, l, k) # es"
      and it: "rb_items r (rb_collect_offset r) = Some \<lparr>ri_lock = (if k then 1 else 0), ri_index = j, ri_length = l\<rparr>" by (rule ring_inv_first [OF "1.prems"]) blast
    show ?thesis
    proof (cases k)
      case locked: True
      then have "ring_collect i r = Some r" using True it by (subst ring_collect.simps) simp
      then show ?thesis using "1.prems" by blast
    next
      case False
      let ?item = "\<lparr>ri_lock = 0, ri_index = j, ri_length = l\<rparr>"
      obtain a b where ab: "ring_inv a b (collect_item ?item r)" "a @ b = es @ es2" "rb_size (collect_item ?item r) = rb_size r"
        using collect_item_inv [of r l es es2 ?item] "1.prems" es False by auto
      have e: "ring_collect i r = ring_collect (i + 1) (collect_item ?item r)" using True it False by (subst ring_collect.simps) simp
      have f: "filter (\<lambda>(p, l, k). k) (es1 @ es2) = filter (\<lambda>(p, l, k). k) (a @ b)" unfolding ab(2) es using False by simp
      have "\<exists>r' es1' es2'. ring_collect (i + 1) (collect_item ?item r) = Some r' \<and> ring_inv es1' es2' r' \<and> rb_size r' = rb_size (collect_item ?item r) \<and>
          filter (\<lambda>(p, l, k). k) (es1' @ es2') = filter (\<lambda>(p, l, k). k) (a @ b)" using False it by (intro "1.IH" [OF True _ _ ab(1)]) simp_all
      then show ?thesis unfolding e f ab(3) .
    qed
  next
    case False
    then have "ring_collect i r = Some r" by (subst ring_collect.simps) simp
    then show ?thesis using "1.prems" by blast
  qed
qed


subsection \<open>Allocation\<close>

lemma ring_place:
  fixes i j :: nat
  assumes "ring_inv es1 es2 r" "8 dvd sz"
    and room: "rb_alloc_offset r + sz + 16 \<le> rb_size r \<and> rb_status r = 0 \<or> rb_alloc_offset r + sz + 8 \<le> rb_collect_offset r \<and> rb_status r \<noteq> 0"
  defines "r' \<equiv> r\<lparr>rb_items := (rb_items r)(rb_alloc_offset r \<mapsto> \<lparr>ri_lock = 1, ri_index = i, ri_length = sz\<rparr>),
    rb_alloc_offset := rb_alloc_offset r + sz + 8, rb_alloc_count := j\<rparr>"
  shows "\<exists>es1' es2'. ring_inv es1' es2' r' \<and> set (es1' @ es2') = insert (rb_alloc_offset r, sz, True) (set (es1 @ es2)) \<and>
    (\<forall>l k. (rb_alloc_offset r, l, k) \<notin> set (es1 @ es2))"
proof -
  let ?e = "(rb_alloc_offset r, sz, True)"
  have s: "rb_size r < 2 ^ 32" "8 dvd rb_size r" "8 dvd rb_alloc_offset r" "8 dvd rb_collect_offset r" "rb_free_count r = free_items (es1 @ es2)" using assms(1) by (auto simp: ring_inv_def)
  have d: "8 dvd rb_alloc_offset r + sz + 8" using s(3) assms(2) by (auto intro: dvd_add)
  show ?thesis
  proof (cases "rb_status r = 0")
    case True
    then have "es2 = []" "chain (rb_items r) (rb_collect_offset r) es1 (rb_alloc_offset r)" using assms(1) by (auto simp: ring_inv_def)
    moreover from calculation(2) have "chain (rb_items r') (rb_collect_offset r) (es1 @ [?e]) (rb_alloc_offset r + sz + 8)"
      using assms(2) chain_upd by (auto simp: r'_def chain_snoc)
    moreover from calculation have "ring_inv (es1 @ [?e]) [] r'" using True s d room by (simp add: ring_inv_def r'_def)
    moreover have "(rb_alloc_offset r, l, k) \<notin> set es1" for l k using chain_items [OF calculation(2), of "rb_alloc_offset r" l k] by auto
    ultimately show ?thesis using \<open>es2 = []\<close> by (intro exI [of _ "es1 @ [?e]"] exI [of _ "[]"]) auto
  next
    case False
    then have c: "es1 \<noteq> []" "chain (rb_items r) (rb_collect_offset r) es1 (rb_size r)" "chain (rb_items r) 0 es2 (rb_alloc_offset r)" using assms(1) by (auto simp: ring_inv_def)
    have "chain (rb_items r') (rb_collect_offset r) es1 (rb_size r)" unfolding r'_def using chain_upd [OF c(2)] room False by simp
    moreover have "chain (rb_items r') 0 (es2 @ [?e]) (rb_alloc_offset r + sz + 8)" using assms(2) chain_upd [OF c(3)] by (auto simp: r'_def chain_snoc)
    ultimately have "ring_inv es1 (es2 @ [?e]) r'" using False s d room c(1) by (simp add: ring_inv_def r'_def)
    moreover have "(rb_alloc_offset r, l, k) \<notin> set (es1 @ es2)" for l k
      using chain_items [OF c(2), of "rb_alloc_offset r" l k] chain_items [OF c(3), of "rb_alloc_offset r" l k] room False by auto
    ultimately show ?thesis by (intro exI [of _ es1] exI [of _ "es2 @ [?e]"]) auto
  qed
qed

lemma ring_skip_inv:
  assumes "ring_inv es1 es2 r" "rb_status r = 0"
  shows "\<exists>es. ring_inv es [] ((ring_skip r)\<lparr>rb_alloc_offset := 0, rb_status := 1\<rparr>) \<and> filter (\<lambda>(p, l, k). k) es = filter (\<lambda>(p, l, k). k) (es1 @ es2)"
    "rb_collect_offset (ring_skip r) = rb_collect_offset r" "rb_size (ring_skip r) = rb_size r"
proof -
  let ?a = "rb_alloc_offset r"
  have s: "rb_size r < 2 ^ 32" "8 dvd rb_size r" "8 dvd ?a" "8 dvd rb_collect_offset r" "rb_free_count r = free_items es1" "es2 = []"
    "chain (rb_items r) (rb_collect_offset r) es1 ?a" "?a + 8 \<le> rb_size r" using assms by (auto simp: ring_inv_def)
  define l where "l = rb_size r - ?a - 8"
  have l: "wrap32 (rb_size r + (2 ^ 32 - ?a)) = l + 8" "8 dvd l" "?a + 8 + l = rb_size r"
    using s(1,8) dvd_diff_nat [OF dvd_diff_nat [OF s(2,3)], of 8] by (auto simp: l_def wrap32_def mod_if)
  have "free_items es1 + 1 < 2 ^ 32" using chain_length [OF s(7)] free_items_le [of es1] s(1,8) by simp
  then have f: "wrap32 (rb_free_count r + 1) = free_items es1 + 1" using s(5) by (simp add: wrap32_def)
  obtain i where r: "ring_skip r = r\<lparr>rb_items := (rb_items r)(?a \<mapsto> \<lparr>ri_lock = 0, ri_index = i, ri_length = l\<rparr>), rb_free_count := free_items es1 + 1\<rparr>"
    using l(1) f by (simp add: ring_skip_def Let_def sizeof_item_def)
  have "chain ((rb_items r)(?a \<mapsto> \<lparr>ri_lock = 0, ri_index = i, ri_length = l\<rparr>)) (rb_collect_offset r) (es1 @ [(?a, l, False)]) (rb_size r)"
    using chain_upd [OF s(7)] l(2,3) by (auto simp: chain_snoc)
  then have "ring_inv (es1 @ [(?a, l, False)]) [] ((ring_skip r)\<lparr>rb_alloc_offset := 0, rb_status := 1\<rparr>)" using s r by (simp add: ring_inv_def)
  then show "\<exists>es. ring_inv es [] ((ring_skip r)\<lparr>rb_alloc_offset := 0, rb_status := 1\<rparr>) \<and> filter (\<lambda>(p, l, k). k) es = filter (\<lambda>(p, l, k). k) (es1 @ es2)"
    using s(6) by (intro exI [of _ "es1 @ [(?a, l, False)]"]) simp
  show "rb_collect_offset (ring_skip r) = rb_collect_offset r" "rb_size (ring_skip r) = rb_size r" using r by simp_all
qed

text \<open>The blocks that have been handed out, and not freed yet.\<close>

definition live_blocks :: "(nat \<times> nat \<times> bool) list \<Rightarrow> (nat \<times> nat) set" where
  "live_blocks es = {(p + 8, l) | p l. (p, l, True) \<in> set es}"

lemma live_blocks_filter: "live_blocks es = live_blocks (filter (\<lambda>(p, l, k). k) es)"
  by (auto simp: live_blocks_def)

lemma live_blocks_insert: "set es' = insert (p, l, True) (set es) \<Longrightarrow> live_blocks es' = insert (p + 8, l) (live_blocks es)"
  by (auto simp: live_blocks_def)

definition apart :: "nat \<times> nat \<Rightarrow> nat \<times> nat \<Rightarrow> bool" where
  "apart b c \<longleftrightarrow> fst b + snd b \<le> fst c \<or> fst c + snd c \<le> fst b"

definition ring_rel :: "ring \<Rightarrow> (nat \<times> nat) set \<Rightarrow> bool" where
  "ring_rel r live \<longleftrightarrow> (\<exists>es1 es2. ring_inv es1 es2 r \<and> live = live_blocks (es1 @ es2))"

definition ring_request :: "ring \<Rightarrow> nat \<Rightarrow> bool" where
  "ring_request r n \<longleftrightarrow> 0 < n \<and> mem_aligned_size n + rb_size r + 8 < 2 ^ 32"


lemma apart_chain: "chain m a es b \<Longrightarrow> (p, l, k) \<in> set es \<Longrightarrow> (q, l', k') \<in> set es \<Longrightarrow> (p, l, k) = (q, l', k') \<or> p + 8 + l \<le> q \<or> q + 8 + l' \<le> p"
proof (induction m a es b rule: chain.induct)
  case (2 m a x l0 k0 es b)
  then show ?case using chain_items [of m "a + 8 + l0" es b] by auto
qed simp

text \<open>Items do not overlap.\<close>

lemma ring_items_apart:
  assumes "ring_inv es1 es2 r" "(p, l, k) \<in> set (es1 @ es2)" "(q, l', k') \<in> set (es1 @ es2)"
  shows "(p, l, k) = (q, l', k') \<or> p + 8 + l \<le> q \<or> q + 8 + l' \<le> p"
proof (cases "rb_status r = 0")
  case True
  then have "chain (rb_items r) (rb_collect_offset r) (es1 @ es2) (rb_alloc_offset r)" using assms(1) by (simp add: ring_inv_def)
  then show ?thesis using assms(2,3) by (rule apart_chain)
next
  case False
  then have c: "chain (rb_items r) (rb_collect_offset r) es1 (rb_size r)" "chain (rb_items r) 0 es2 (rb_alloc_offset r)" "rb_alloc_offset r \<le> rb_collect_offset r"
    using assms(1) by (auto simp: ring_inv_def)
  have i1: "x \<in> set es1 \<Longrightarrow> rb_collect_offset r \<le> fst x" and i2: "x \<in> set es2 \<Longrightarrow> fst x + 8 + fst (snd x) \<le> rb_alloc_offset r" for x
    using chain_items [OF c(1), of "fst x" "fst (snd x)" "snd (snd x)"] chain_items [OF c(2), of "fst x" "fst (snd x)" "snd (snd x)"] by simp_all
  consider "(p, l, k) \<in> set es1" "(q, l', k') \<in> set es1" | "(p, l, k) \<in> set es2" "(q, l', k') \<in> set es2" | "(p, l, k) \<in> set es1" "(q, l', k') \<in> set es2"
    | "(p, l, k) \<in> set es2" "(q, l', k') \<in> set es1" using assms(2,3) by auto
  then show ?thesis
  proof cases
    case 1
    then show ?thesis by (rule apart_chain [OF c(1)])
  next
    case 2
    then show ?thesis by (rule apart_chain [OF c(2)])
  next
    case 3
    then show ?thesis using i1 [of "(p, l, k)"] i2 [of "(q, l', k')"] c(3) by simp
  next
    case 4
    then show ?thesis using i1 [of "(q, l', k')"] i2 [of "(p, l, k)"] c(3) by simp
  qed
qed

lemma ring_items_bound:
  assumes "ring_inv es1 es2 r" "(p, l, k) \<in> set (es1 @ es2)"
  shows "p + 8 + l \<le> rb_size r" "\<exists>i. rb_items r p = Some \<lparr>ri_lock = (if k then 1 else 0), ri_index = i, ri_length = l\<rparr>"
proof -
  have "chain (rb_items r) (rb_collect_offset r) es1 (if rb_status r = 0 then rb_alloc_offset r else rb_size r)" "chain (rb_items r) 0 es2 (if rb_status r = 0 then 0 else rb_alloc_offset r)"
    "(if rb_status r = 0 then rb_alloc_offset r else rb_collect_offset r) \<le> rb_size r" "rb_status r \<noteq> 0 \<Longrightarrow> rb_alloc_offset r \<le> rb_collect_offset r"
    using assms(1) chain_le by (auto simp: ring_inv_def split: if_splits)
  then show "p + 8 + l \<le> rb_size r" "\<exists>i. rb_items r p = Some \<lparr>ri_lock = (if k then 1 else 0), ri_index = i, ri_length = l\<rparr>"
    using assms(2) chain_items [of "rb_items r" _ _ _ p l k] by (fastforce split: if_splits)+
qed

lemma wrap32_diff: "a \<le> b \<Longrightarrow> b < 2 ^ 32 \<Longrightarrow> wrap32 (b + (2 ^ 32 - a)) = b - a"
  by (simp add: wrap32_def mod_if)

text \<open>The memory that is looked at for a request, after collecting and perhaps going back to the start.\<close>

lemma ring_room:
  assumes "ring_inv es1 es2 r" "ring_request r n"
  defines "r2 \<equiv> (if rb_status r = 0 \<and> rb_size r \<le> rb_alloc_offset r + mem_aligned_size n + 16 then (ring_skip r)\<lparr>rb_alloc_offset := 0, rb_status := 1\<rparr> else r)"
  shows "\<exists>b1 b2. ring_inv b1 b2 r2 \<and> live_blocks (b1 @ b2) = live_blocks (es1 @ es2) \<and> rb_size r2 = rb_size r \<and>
    (rb_status r2 = 0 \<longrightarrow> rb_alloc_offset r2 + mem_aligned_size n + 16 \<le> rb_size r2)"
proof (cases "rb_status r = 0 \<and> rb_size r \<le> rb_alloc_offset r + mem_aligned_size n + 16")
  case True
  then obtain es where "ring_inv es [] ((ring_skip r)\<lparr>rb_alloc_offset := 0, rb_status := 1\<rparr>)" "filter (\<lambda>(p, l, k). k) es = filter (\<lambda>(p, l, k). k) (es1 @ es2)"
    using ring_skip_inv(1) [OF assms(1)] by blast
  then show ?thesis using True ring_skip_inv(3) [OF assms(1)] live_blocks_filter [of es] live_blocks_filter [of "es1 @ es2"]
    by (intro exI [of _ es] exI [of _ "[]"]) (simp add: r2_def)
next
  case False
  then show ?thesis using assms(1) by (intro exI [of _ es1] exI [of _ es2]) (auto simp: r2_def)
qed

lemma ring_alloc_eq:
  assumes "ring_request r n" "(if rb_free_count r > 0 then ring_collect 0 r else Some r) = Some r1" "ring_inv a1 a2 r1" "rb_size r1 = rb_size r"
    and "r2 = (if rb_status r1 = 0 \<and> rb_size r1 \<le> rb_alloc_offset r1 + mem_aligned_size n + 16 then (ring_skip r1)\<lparr>rb_alloc_offset := 0, rb_status := 1\<rparr> else r1)"
    and "ring_inv b1 b2 r2" "rb_size r2 = rb_size r"
  shows "ring_alloc n r =
    Some (if (if rb_status r2 = 0 then rb_size r2 - rb_alloc_offset r2 else rb_collect_offset r2 - rb_alloc_offset r2) < mem_aligned_size n + 8 then (None, r2)
      else (Some (rb_alloc_offset r2 + 8),
        r2\<lparr>rb_items := (rb_items r2)(rb_alloc_offset r2 \<mapsto> \<lparr>ri_lock = 1, ri_index = rb_alloc_count r2 mod 2 ^ 16, ri_length = mem_aligned_size n\<rparr>),
          rb_alloc_offset := rb_alloc_offset r2 + mem_aligned_size n + 8, rb_alloc_count := wrap32 (rb_alloc_count r2 + 1)\<rparr>))"
proof -
  let ?sz = "mem_aligned_size n"
  have n: "n \<noteq> 0" "?sz + rb_size r + 8 < 2 ^ 32" using assms(1) by (simp_all add: ring_request_def)
  then have w: "wrap32 ?sz = ?sz" "wrap32 (?sz + 8) = ?sz + 8" by (simp_all add: wrap32_def)
  have le: "rb_alloc_offset r2 \<le> rb_size r" "rb_status r2 \<noteq> 0 \<Longrightarrow> rb_alloc_offset r2 \<le> rb_collect_offset r2 \<and> rb_collect_offset r2 \<le> rb_size r"
    using assms(6,7) chain_le by (auto simp: ring_inv_def split: if_splits dest!: chain_le)
  have wraps: "rb_status r1 = 0 \<and> int (wrap32 (rb_alloc_offset r1 + (?sz + 8))) \<ge> (int (rb_size r1) - 8) mod 2 ^ 64 \<longleftrightarrow> rb_status r1 = 0 \<and> rb_size r1 \<le> rb_alloc_offset r1 + ?sz + 16"
  proof (cases "rb_status r1 = 0")
    case True
    then have "rb_alloc_offset r1 + 8 \<le> rb_size r1" using assms(3) by (simp add: ring_inv_def)
    then have "wrap32 (rb_alloc_offset r1 + (?sz + 8)) = rb_alloc_offset r1 + (?sz + 8)" "(int (rb_size r1) - 8) mod 2 ^ 64 = int (rb_size r1) - 8"
      using n(2) assms(4) by (simp_all add: wrap32_def)
    then show ?thesis by auto
  qed simp
  have a: "wrap32 (rb_alloc_offset r2 + (?sz + 8)) = rb_alloc_offset r2 + ?sz + 8" using le(1) n(2) by (simp add: wrap32_def)
  have c: "wrap32 (rb_size r2 + (4294967296 - rb_alloc_offset r2)) = rb_size r2 - rb_alloc_offset r2" using wrap32_diff [of "rb_alloc_offset r2" "rb_size r2"] le(1) assms(7) n(2) by simp
  have c': "rb_status r2 \<noteq> 0 \<Longrightarrow> wrap32 (rb_collect_offset r2 + (4294967296 - rb_alloc_offset r2)) = rb_collect_offset r2 - rb_alloc_offset r2" using wrap32_diff [of "rb_alloc_offset r2" "rb_collect_offset r2"] le(2) n(2) by simp
  show ?thesis using n(1) assms(2) unfolding ring_alloc_def Let_def sizeof_item_def w by (simp only: of_nat_numeral wraps assms(5) [symmetric] Option.bind.bind_lunit) (simp add: a c c')
qed

lemma ring_alloc_rel:
  assumes "ring_rel r live" "ring_request r n"
  shows "\<exists>x r'. ring_alloc n r = Some (x, r') \<and> rb_size r' = rb_size r \<and>
    (case x of None \<Rightarrow> ring_rel r' live | Some p \<Rightarrow> (\<forall>b\<in>live. apart (p, mem_aligned_size n) b) \<and> ring_rel r' (insert (p, mem_aligned_size n) live))"
proof -
  let ?sz = "mem_aligned_size n"
  obtain es1 es2 where inv: "ring_inv es1 es2 r" "live = live_blocks (es1 @ es2)" using assms(1) by (auto simp: ring_rel_def)
  obtain r1 a1 a2 where r1: "(if rb_free_count r > 0 then ring_collect 0 r else Some r) = Some r1" "ring_inv a1 a2 r1" "rb_size r1 = rb_size r" "live = live_blocks (a1 @ a2)"
    using ring_collect_inv [OF inv(1), of 0] inv live_blocks_filter by (cases "rb_free_count r > 0") (metis (no_types, lifting))+
  have n: "0 < n" "?sz + rb_size r + 8 < 2 ^ 32" "8 dvd ?sz" "ring_request r1 n" using assms(2) r1(3) by (simp_all add: ring_request_def mem_aligned_size_dvd)
  define r2 where "r2 = (if rb_status r1 = 0 \<and> rb_size r1 \<le> rb_alloc_offset r1 + ?sz + 16 then (ring_skip r1)\<lparr>rb_alloc_offset := 0, rb_status := 1\<rparr> else r1)"
  obtain b1 b2 where r2: "ring_inv b1 b2 r2" "live = live_blocks (b1 @ b2)" "rb_size r2 = rb_size r" "rb_status r2 = 0 \<Longrightarrow> rb_alloc_offset r2 + ?sz + 16 \<le> rb_size r2"
    using ring_room [OF r1(2) n(4)] r1(3,4) unfolding r2_def by auto
  define cap where "cap = (if rb_status r2 = 0 then rb_size r2 - rb_alloc_offset r2 else rb_collect_offset r2 - rb_alloc_offset r2)"
  define r3 where "r3 = r2\<lparr>rb_items := (rb_items r2)(rb_alloc_offset r2 \<mapsto> \<lparr>ri_lock = 1, ri_index = rb_alloc_count r2 mod 2 ^ 16, ri_length = ?sz\<rparr>),
    rb_alloc_offset := rb_alloc_offset r2 + ?sz + 8, rb_alloc_count := wrap32 (rb_alloc_count r2 + 1)\<rparr>"
  have alloc: "ring_alloc n r = Some (if cap < ?sz + 8 then (None, r2) else (Some (rb_alloc_offset r2 + 8), r3))"
    unfolding cap_def r3_def by (rule ring_alloc_eq [OF assms(2) r1(1-3) r2_def r2(1,3)])
  show ?thesis
  proof (cases "cap < ?sz + 8")
    case True
    then show ?thesis using alloc r2 by (auto simp: ring_rel_def)
  next
    case False
    then have "rb_alloc_offset r2 + ?sz + 16 \<le> rb_size r2 \<and> rb_status r2 = 0 \<or> rb_alloc_offset r2 + ?sz + 8 \<le> rb_collect_offset r2 \<and> rb_status r2 \<noteq> 0"
      using r2(4) unfolding cap_def by (cases "rb_status r2 = 0") (simp_all, linarith?)
    then obtain c1 c2 where c: "ring_inv c1 c2 r3" "set (c1 @ c2) = insert (rb_alloc_offset r2, ?sz, True) (set (b1 @ b2))" "\<And>l k. (rb_alloc_offset r2, l, k) \<notin> set (b1 @ b2)"
      using ring_place [OF r2(1) n(3), where i = "rb_alloc_count r2 mod 2 ^ 16" and j = "wrap32 (rb_alloc_count r2 + 1)", folded r3_def] by blast
    have "apart (rb_alloc_offset r2 + 8, ?sz) b" if in_live: "b \<in> live" for b
    proof -
      obtain p l where b: "b = (p + 8, l)" "(p, l, True) \<in> set (b1 @ b2)" using in_live unfolding r2(2) live_blocks_def by blast
      have "(rb_alloc_offset r2, ?sz, True) \<in> set (c1 @ c2)" "(p, l, True) \<in> set (c1 @ c2)" unfolding c(2) using b(2) by simp_all
      moreover have "(rb_alloc_offset r2, ?sz, True) \<noteq> (p, l, True)" using c(3) [of ?sz True] b(2) by auto
      ultimately show ?thesis using ring_items_apart [OF c(1), of "rb_alloc_offset r2" ?sz True p l True] b(1) by (auto simp: apart_def)
    qed
    moreover have "ring_rel r3 (insert (rb_alloc_offset r2 + 8, ?sz) live)" using c(1) live_blocks_insert [OF c(2)] r2(2) by (auto simp: ring_rel_def)
    ultimately show ?thesis using False alloc r2(3) by (simp add: r3_def)
  qed
qed


subsection \<open>Freeing\<close>

definition unlock :: "nat \<Rightarrow> (nat \<times> nat \<times> bool) list \<Rightarrow> (nat \<times> nat \<times> bool) list" where
  "unlock q es = map (\<lambda>(p, l, k). (p, l, k \<and> p \<noteq> q)) es"

lemma unlock_simps [simp]: "unlock q [] = []" "unlock q ((p, l, k) # es) = (p, l, k \<and> p \<noteq> q) # unlock q es" "unlock q (es @ es') = unlock q es @ unlock q es'" "unlock q es = [] \<longleftrightarrow> es = []"
  by (simp_all add: unlock_def)

lemma chain_unlock: "chain m a es b \<Longrightarrow> m q = Some it \<Longrightarrow> chain (m(q \<mapsto> it\<lparr>ri_lock := 0\<rparr>)) a (unlock q es) b"
  by (induction m a es b rule: chain.induct) auto

lemma unlock_absent: "\<forall>l k. (q, l, k) \<notin> set es \<Longrightarrow> unlock q es = es"
  unfolding unlock_def by (rule map_idI) (auto simp: split_beta)

lemma free_items_unlock:
  assumes "(q, l, True) \<in> set es" "distinct (map fst es)"
  shows "free_items (unlock q es) = Suc (free_items es)"
  using assms
proof (induction es)
  case (Cons e es)
  obtain p l' k where e: "e = (p, l', k)" by (cases e)
  show ?case
  proof (cases "p = q")
    case True
    then have "\<forall>l k. (q, l, k) \<notin> set es" using Cons.prems(2) e by force
    then show ?thesis using True Cons.prems(1) e by (auto simp: unlock_absent)
  next
    case False
    then show ?thesis using Cons e by auto
  qed
qed simp

lemma chain_distinct: "chain m a es b \<Longrightarrow> distinct (map fst es) \<and> (\<forall>p\<in>set (map fst es). a \<le> p \<and> p + 8 \<le> b)"
proof (induction m a es b rule: chain.induct)
  case (2 m a p l k es b)
  then have IH: "distinct (map fst es)" "\<forall>q\<in>set (map fst es). a + 8 + l \<le> q \<and> q + 8 \<le> b" and c: "p = a" "a + 8 + l \<le> b" using chain_le by auto
  have "a \<notin> set (map fst es)" using IH(2) by (metis add_leD1 not_add_less1 le_neq_implies_less zero_less_numeral add_le_same_cancel1 leD)
  then show ?case using IH c by (auto simp del: set_map)
qed simp

lemma ring_inv_distinct:
  assumes "ring_inv es1 es2 r"
  shows "distinct (map fst (es1 @ es2))" "8 * length (es1 @ es2) \<le> rb_size r"
proof -
  have "distinct (map fst (es1 @ es2)) \<and> 8 * length (es1 @ es2) \<le> rb_size r"
  proof (cases "rb_status r = 0")
    case True
    then have "es2 = []" "chain (rb_items r) (rb_collect_offset r) es1 (rb_alloc_offset r)" "rb_alloc_offset r \<le> rb_size r" using assms by (auto simp: ring_inv_def)
    then show ?thesis using chain_distinct chain_length by fastforce
  next
    case False
    then have c: "chain (rb_items r) (rb_collect_offset r) es1 (rb_size r)" "chain (rb_items r) 0 es2 (rb_alloc_offset r)" "rb_alloc_offset r \<le> rb_collect_offset r" using assms by (auto simp: ring_inv_def)
    note d = chain_distinct [OF c(1)] chain_distinct [OF c(2)]
    have "set (map fst es1) \<inter> set (map fst es2) = {}"
    proof (rule ccontr)
      assume "set (map fst es1) \<inter> set (map fst es2) \<noteq> {}"
      then obtain p where "p \<in> set (map fst es1)" "p \<in> set (map fst es2)" by blast
      then show False using d c(3) by fastforce
    qed
    then show ?thesis using d chain_length [OF c(1)] chain_length [OF c(2)] c(3) by auto
  qed
  then show "distinct (map fst (es1 @ es2))" "8 * length (es1 @ es2) \<le> rb_size r" by blast+
qed

lemma live_blocks_unlock:
  assumes "distinct (map fst es)" "(q, l, True) \<in> set es"
  shows "live_blocks (unlock q es) = live_blocks es - {(q + 8, l)}"
proof -
  have u: "l' = l" if "(q, l', k) \<in> set es" for l' k using eq_key_imp_eq_value [OF assms(1) that assms(2)] by simp
  have "(p, l', True) \<in> set (unlock q es) \<longleftrightarrow> (p, l', True) \<in> set es \<and> p \<noteq> q" for p l' by (force simp: unlock_def)
  then show ?thesis using u by (auto simp: live_blocks_def)
qed

lemma ring_free_rel:
  assumes "ring_rel r live" "(p, l) \<in> live"
  shows "\<exists>r'. ring_free p r = Some r' \<and> rb_size r' = rb_size r \<and> ring_rel r' (live - {(p, l)})"
proof -
  obtain es1 es2 where inv: "ring_inv es1 es2 r" "live = live_blocks (es1 @ es2)" using assms(1) by (auto simp: ring_rel_def)
  then obtain q where q: "p = q + 8" "(q, l, True) \<in> set (es1 @ es2)" using assms(2) unfolding live_blocks_def by blast
  obtain i where it: "rb_items r q = Some \<lparr>ri_lock = 1, ri_index = i, ri_length = l\<rparr>" "q + 8 + l \<le> rb_size r" using ring_items_bound [OF inv(1) q(2)] by auto
  note d = ring_inv_distinct [OF inv(1)]
  have f: "free_items (unlock q (es1 @ es2)) = free_items (es1 @ es2) + 1" using free_items_unlock [OF q(2) d(1)] by simp
  have "free_items (unlock q (es1 @ es2)) \<le> length (es1 @ es2)" using free_items_le [of "unlock q (es1 @ es2)"] by (simp add: unlock_def)
  then have w: "wrap32 (rb_free_count r + 1) = free_items (unlock q (es1 @ es2))" using f d(2) inv(1) by (simp add: ring_inv_def wrap32_def)
  let ?r = "r\<lparr>rb_items := (rb_items r)(q \<mapsto> \<lparr>ri_lock = 1, ri_index = i, ri_length = l\<rparr>\<lparr>ri_lock := 0\<rparr>), rb_free_count := wrap32 (rb_free_count r + 1)\<rparr>"
  have "ring_inv (unlock q es1) (unlock q es2) ?r" using inv(1) w chain_unlock [where m = "rb_items r" and q = q and it = "\<lparr>ri_lock = 1, ri_index = i, ri_length = l\<rparr>"] it(1) by (auto simp: ring_inv_def)
  then have "ring_rel ?r (live - {(p, l)})" using live_blocks_unlock [OF d(1) q(2)] inv(2) q(1) unfolding ring_rel_def by (intro exI [of _ "unlock q es1"] exI [of _ "unlock q es2"]) simp
  then show ?thesis using q(1) it by (simp add: ring_free_def sizeof_item_def)
qed

lemma ring_rel_new: "8 dvd n \<Longrightarrow> 16 \<le> n \<Longrightarrow> n < 2 ^ 32 \<Longrightarrow> ring_rel (ring_new n) {} \<and> rb_size (ring_new n) = n - 8"
  by (auto simp: ring_rel_def ring_inv_def ring_new_def live_blocks_def wrap32_def mem_aligned_size_def mem_aligned_size_ex_def mod_if intro!: exI [of _ "[]"] elim!: dvdE)

subsection \<open>Reachable rings\<close>

text \<open>A ring with the blocks that have been allocated and not freed yet.\<close>

inductive ring_reach :: "nat \<Rightarrow> ring \<Rightarrow> (nat \<times> nat) set \<Rightarrow> bool" for n where
  reach_new: "ring_reach n (ring_new n) {}"
| reach_alloc: "ring_reach n r live \<Longrightarrow> ring_request r k \<Longrightarrow> ring_alloc k r = Some (Some p, r') \<Longrightarrow> ring_reach n r' (insert (p, mem_aligned_size k) live)"
| reach_full: "ring_reach n r live \<Longrightarrow> ring_request r k \<Longrightarrow> ring_alloc k r = Some (None, r') \<Longrightarrow> ring_reach n r' live"
| reach_free: "ring_reach n r live \<Longrightarrow> (p, l) \<in> live \<Longrightarrow> ring_free p r = Some r' \<Longrightarrow> ring_reach n r' (live - {(p, l)})"


lemma ring_reach_rel:
  assumes "ring_reach n r live" "8 dvd n" "16 \<le> n" "n < 2 ^ 32"
  shows "ring_rel r live \<and> rb_size r = n - 8"
  using assms(1)
proof (induction rule: ring_reach.induct)
  case reach_new
  then show ?case using ring_rel_new assms(2-4) by blast
next
  case (reach_alloc r live k p r')
  then show ?case using ring_alloc_rel [of r live k] by auto
next
  case (reach_full r live k r')
  then show ?case using ring_alloc_rel [of r live k] by auto
next
  case (reach_free r live p l r')
  then show ?case using ring_free_rel [of r live p l] by auto
qed

lemma ring_rel_blocks:
  assumes "ring_rel r live"
  shows "(p, l) \<in> live \<Longrightarrow> p + l \<le> rb_size r" "b \<in> live \<Longrightarrow> c \<in> live \<Longrightarrow> b = c \<or> apart b c"
proof -
  obtain es1 es2 where inv: "ring_inv es1 es2 r" "live = live_blocks (es1 @ es2)" using assms by (auto simp: ring_rel_def)
  have item: "\<exists>q l. b = (q + 8, l) \<and> (q, l, True) \<in> set (es1 @ es2)" if "b \<in> live" for b using that unfolding inv(2) live_blocks_def by blast
  show "p + l \<le> rb_size r" if "(p, l) \<in> live" using item [OF that] ring_items_bound(1) [OF inv(1)] by fastforce
  show "b = c \<or> apart b c" if bc: "b \<in> live" "c \<in> live"
  proof -
    obtain p l q l' where "b = (p + 8, l)" "(p, l, True) \<in> set (es1 @ es2)" "c = (q + 8, l')" "(q, l', True) \<in> set (es1 @ es2)" using item bc by blast
    then show ?thesis using ring_items_apart [OF inv(1), of p l True q l' True] by (auto simp: apart_def)
  qed
qed

interpretation rp: memory_pool ring_rel "\<lambda>n. n" ring_request ring_alloc apart
proof
  fix r live n
  assume "ring_rel r live" "ring_request r n"
  then obtain x r' where a: "ring_alloc n r = Some (x, r')" "rb_size r' = rb_size r"
    "case x of None \<Rightarrow> ring_rel r' live | Some p \<Rightarrow> (\<forall>b\<in>live. apart (p, mem_aligned_size n) b) \<and> ring_rel r' (insert (p, mem_aligned_size n) live)"
    using ring_alloc_rel by blast
  have "case x of None \<Rightarrow> ring_rel r' live | Some p \<Rightarrow> \<exists>l\<ge>n. (\<forall>b\<in>live. apart (p, l) b) \<and> ring_rel r' (insert (p, l) live)"
    using a(3) mem_aligned_size_ge [of n] by (auto split: option.splits)
  then show "\<exists>x r'. ring_alloc n r = Some (x, r') \<and> (\<forall>k. ring_request r' k = ring_request r k) \<and>
      (case x of None \<Rightarrow> ring_rel r' live | Some p \<Rightarrow> \<exists>l\<ge>n. (\<forall>b\<in>live. apart (p, l) b) \<and> ring_rel r' (insert (p, l) live))"
    using a(1,2) by (auto simp: ring_request_def)
qed (auto simp: apart_def)

text \<open>
  C18. Blocks of the ring buffer do not overlap: whatever has been allocated and freed, the blocks in use lie in the ring and apart from each other, each
  of them can be freed, and a further request, followed by any number of requests, succeeds or yields a null pointer, with blocks apart from those in use and
  from each other.
\<close>

theorem ring_buffer_safe:
  assumes "8 dvd n" "16 \<le> n" "n < 2 ^ 32" "ring_reach n r live" "\<forall>k\<in>set ks. ring_request r k"
  shows "(\<forall>(p, l)\<in>live. p + l \<le> n - 8 \<and> ring_free p r \<noteq> None) \<and> (\<forall>b\<in>live. \<forall>c\<in>live. b = c \<or> apart b c) \<and>
    (\<exists>xs r'. alloc_all ring_alloc ks r = Some (xs, r') \<and> length xs = length ks \<and>
      (\<forall>i p. i < length ks \<longrightarrow> xs ! i = Some p \<longrightarrow> (\<forall>b\<in>live. apart (p, ks ! i) b)) \<and>
      (\<forall>i j p q. i < j \<longrightarrow> j < length ks \<longrightarrow> xs ! i = Some p \<longrightarrow> xs ! j = Some q \<longrightarrow> apart (p, ks ! i) (q, ks ! j)))"
proof -
  have r: "ring_rel r live" "rb_size r = n - 8" using ring_reach_rel [OF assms(4,1-3)] by blast+
  have "\<forall>(p, l)\<in>live. p + l \<le> n - 8 \<and> ring_free p r \<noteq> None" using ring_rel_blocks(1) [OF r(1)] ring_free_rel [OF r(1)] r(2) by fastforce
  then show ?thesis using ring_rel_blocks(2) [OF r(1)] rp.alloc_all_apart [OF r(1) assms(5)] by blast
qed

theorem ring_buffer_safe_witness:
  "\<exists>r' xs r''. ring_alloc 10 (ring_new 128) = Some (Some 8, r') \<and> alloc_all ring_alloc [20, 30] r' = Some (xs, r'') \<and>
     (\<forall>i p. i < 2 \<longrightarrow> xs ! i = Some p \<longrightarrow> apart (p, [20, 30] ! i) (8, 16))"
proof -
  define r' where "r' = snd (the (ring_alloc 10 (ring_new 128)))"
  have e: "fst (the (ring_alloc 10 (ring_new 128))) = Some 8" "ring_alloc 10 (ring_new 128) \<noteq> None" "rb_size (ring_new 128) = 120" "rb_size r' = 120" "mem_aligned_size 10 = 16"
    "mem_aligned_size 20 = 24" "mem_aligned_size 30 = 32"
    unfolding r'_def by (simp_all add: ring_alloc_def ring_new_def Let_def sizeof_item_def wrap32_def mem_aligned_size_def mem_aligned_size_ex_def)
  then have a: "ring_alloc 10 (ring_new 128) = Some (Some 8, r')" by (auto simp: r'_def)
  have "ring_request (ring_new 128) 10" using e by (simp add: ring_request_def)
  then have "ring_reach 128 r' {(8, 16)}" using reach_alloc [OF reach_new _ a] e(5) by simp
  then show ?thesis using ring_buffer_safe [of 128 r' "{(8, 16)}" "[20, 30]"] a e by (auto simp: ring_request_def)
qed

text \<open>
  C31. The ring is longer than its memory: the constructor allocates \<open>n\<close> bytes and puts its own data of 32 bytes in front of the ring, but
  subtracts only the size of a pointer, so the first request for \<open>n - 32\<close> bytes yields a block that ends behind the allocated memory.
\<close>

theorem ring_overrun:
  assumes "8 dvd n" "48 \<le> n" "n < 2 ^ 31"
  shows "\<exists>r. ring_alloc (n - 32) (ring_new n) = Some (Some 8, r) \<and> sizeof_impl + 8 + (n - 32) > n"
proof -
  obtain k where k: "n = 8 * k" using assms(1) by (elim dvdE)
  have s: "rb_size (ring_new n) = n - 8" "rb_free_count (ring_new n) = 0" "rb_status (ring_new n) = 0" "rb_alloc_offset (ring_new n) = 0"
    using ring_rel_new [OF assms(1)] assms(2,3) by (auto simp: ring_new_def)
  have a: "mem_aligned_size (n - 32) = n - 32"
  proof -
    have "n - 32 = 8 * (k - 4)" using k by simp
    then show ?thesis unfolding mem_aligned_size_def mem_aligned_size_ex_def by simp
  qed
  have m: "(n - 8 + 4294967296) mod 4294967296 = n - 8" using assms(3) mod_add_self2 [of "n - 8" 4294967296] by simp
  have "wrap32 (n - 32) = n - 32" "wrap32 (n - 32 + 8) = n - 24" "wrap32 (n - 8 + (2 ^ 32 - 0)) = n - 8" "(int (n - 8) - 8) mod 2 ^ 64 = int n - 16"
    using assms(2,3) m by (auto simp: wrap32_def)
  then show ?thesis using assms(2) s a unfolding ring_alloc_def Let_def sizeof_item_def sizeof_impl_def by auto
qed

theorem ring_overrun_witness: "\<exists>r. ring_alloc 96 (ring_new 128) = Some (Some 8, r) \<and> sizeof_impl + 8 + 96 > 128"
  using ring_overrun [of 128] by simp

end
