(* ===== verification/Osw_Global_Memory.thy ===== *)
theory Osw_Global_Memory
  imports Osw_Memory_Pool
begin

text \<open>
  The memory that lives as long as the process, \<^verbatim>\<open>src/memory/global_memory.cc\<close>. An address is the number of a page with an offset; the bytes of all
  pages are a function. The attempts to allocate a page are counted, and the environment holds what each of them yields: nothing, or a page with arbitrary
  contents. After a fork the environment of the child holds another process id, and a shared pool gets pages of its own there.
\<close>

definition sizeof_block :: nat where
  "sizeof_block = 8"

record gm_env =
  ge_pid :: nat
  ge_getpid :: nat
  ge_pagesize :: nat
  ge_page :: "nat \<Rightarrow> (nat \<Rightarrow> nat) option"

record gm_impl =
  gi_shared :: bool
  gi_pagesize :: nat
  gi_pages :: "nat list"
  gi_alloc_offset :: nat
  gi_create_pid :: nat

record gmem =
  gm_impl :: gm_impl
  gm_bytes :: "nat \<Rightarrow> nat \<Rightarrow> nat"
  gm_attempts :: nat

datatype gm_result = Bad_alloc | Null | Ptr "nat \<times> nat"

text \<open>The page that \<^verbatim>\<open>new_page\<close> pushes is the last one of the list; the result says whether there is one.\<close>

definition new_page :: "gm_env \<Rightarrow> gmem \<Rightarrow> bool \<times> gmem" where
  "new_page e s =
     (let i = gm_attempts s; s' = s\<lparr>gm_attempts := i + 1\<rparr> in
      case ge_page e i of
        None \<Rightarrow> (False, s')
      | Some c \<Rightarrow> (True, s'\<lparr>gm_bytes := (gm_bytes s)(i := c), gm_impl := (gm_impl s)\<lparr>gi_pages := gi_pages (gm_impl s) @ [i], gi_alloc_offset := 0\<rparr>\<rparr>))"

definition impl_new :: "gm_env \<Rightarrow> nat \<Rightarrow> bool \<Rightarrow> gmem \<Rightarrow> bool \<times> gmem" where
  "impl_new e pagesize shared s =
     (let impl = \<lparr>gi_shared = shared, gi_pagesize = wrap32 (mem_aligned_size_ex pagesize (ge_pagesize e)), gi_pages = [], gi_alloc_offset = 0, gi_create_pid = ge_pid e\<rparr>;
          (ok, s') = new_page e (s\<lparr>gm_impl := impl\<rparr>)
      in if ok then (True, s') else (False, s'\<lparr>gm_impl := gm_impl s\<rparr>))"

text \<open>\<^verbatim>\<open>block->size = size\<close> stores four bytes, the lowest first, and \<^verbatim>\<open>osw_memset_zero\<close> clears the block behind the eight bytes of the head.\<close>

definition block_init :: "nat \<Rightarrow> nat \<Rightarrow> (nat \<Rightarrow> nat) \<Rightarrow> nat \<Rightarrow> nat" where
  "block_init off sz c =
     (\<lambda>k. if off \<le> k \<and> k < off + 4 then sz div 256 ^ (k - off) mod 256
          else if off + sizeof_block \<le> k \<and> k < off + sizeof_block + sz then 0 else c k)"

definition gm_alloc :: "gm_env \<Rightarrow> nat \<Rightarrow> gmem \<Rightarrow> gm_result \<times> gmem" where
  "gm_alloc e n s =
     (let sz = wrap32 (mem_aligned_size n);
          alloc_size = wrap32 (sizeof_block + sz)
      in if alloc_size > gi_pagesize (gm_impl s) then (Null, s)
         else
           let (ok, s1) = (if gi_shared (gm_impl s) \<and> gi_create_pid (gm_impl s) \<noteq> ge_getpid e then impl_new e (gi_pagesize (gm_impl s)) (gi_shared (gm_impl s)) s else (True, s))
           in if \<not> ok then (Bad_alloc, s1)
              else
                let (ok, s2) = (if wrap32 (gi_alloc_offset (gm_impl s1) + alloc_size) > gi_pagesize (gm_impl s1) then new_page e s1 else (True, s1))
                in if \<not> ok then (Null, s2)
                   else
                     let page = last (gi_pages (gm_impl s2)); off = gi_alloc_offset (gm_impl s2)
                     in (Ptr (page, off + sizeof_block),
                         s2\<lparr>gm_impl := (gm_impl s2)\<lparr>gi_alloc_offset := wrap32 (off + alloc_size)\<rparr>,
                            gm_bytes := (gm_bytes s2)(page := block_init off sz (gm_bytes s2 page))\<rparr>))"

definition gm_capacity :: "gmem \<Rightarrow> nat" where
  "gm_capacity s = wrap32 (gi_pagesize (gm_impl s) + (2 ^ 32 - gi_alloc_offset (gm_impl s)))"

definition gm_memory_size :: "gmem \<Rightarrow> nat" where
  "gm_memory_size s = gi_pagesize (gm_impl s) * length (gi_pages (gm_impl s)) mod 2 ^ 64"

text \<open>The constructor: \<open>None\<close> is a failed assertion or \<^verbatim>\<open>bad_alloc\<close>.\<close>

definition gm_new :: "gm_env \<Rightarrow> nat \<Rightarrow> bool \<Rightarrow> gmem option" where
  "gm_new e pagesize shared =
     (if pagesize < 4096 then None
      else
        let (ok, s) = impl_new e pagesize shared
              \<lparr>gm_impl = \<lparr>gi_shared = shared, gi_pagesize = 0, gi_pages = [], gi_alloc_offset = 0, gi_create_pid = 0\<rparr>, gm_bytes = (\<lambda>_ _. 0), gm_attempts = 0\<rparr>
        in if ok then Some s else None)"

text \<open>The blocks in use lie in pages of the pool, apart from what is still free in the last page.\<close>

definition gm_inv :: "gmem \<Rightarrow> bool" where
  "gm_inv s =
     (gi_pages (gm_impl s) \<noteq> [] \<and> last (gi_pages (gm_impl s)) < gm_attempts s \<and> gi_alloc_offset (gm_impl s) \<le> gi_pagesize (gm_impl s) \<and>
      gi_pagesize (gm_impl s) < 2 ^ 31 \<and> 8 dvd gi_alloc_offset (gm_impl s))"

definition in_pool :: "gmem \<Rightarrow> (nat \<times> nat) \<times> nat \<Rightarrow> bool" where
  "in_pool s = (\<lambda>((page, off), l). page < gm_attempts s \<and> 8 dvd off \<and> off + l \<le> gi_pagesize (gm_impl s) \<and>
     (page = last (gi_pages (gm_impl s)) \<longrightarrow> off + l \<le> gi_alloc_offset (gm_impl s)))"

definition gm_rel :: "gmem \<Rightarrow> ((nat \<times> nat) \<times> nat) set \<Rightarrow> bool" where
  "gm_rel s live = (gm_inv s \<and> (\<forall>b\<in>live. in_pool s b))"

definition gm_apart :: "(nat \<times> nat) \<times> nat \<Rightarrow> (nat \<times> nat) \<times> nat \<Rightarrow> bool" where
  "gm_apart = (\<lambda>((pg, o1), l) ((pg', o2), l'). pg \<noteq> pg' \<or> o1 + l \<le> o2 \<or> o2 + l' \<le> o1)"

text \<open>A request names the environment of its call: requests of a child process differ from those of its parent.\<close>

definition gm_request :: "gmem \<Rightarrow> gm_env \<times> nat \<Rightarrow> bool" where
  "gm_request s = (\<lambda>(e, n). n + 16 \<le> 2 ^ 32 \<and> mem_aligned_size_ex (gi_pagesize (gm_impl s)) (ge_pagesize e) = gi_pagesize (gm_impl s))"

definition gm_pointer :: "gm_env \<times> nat \<Rightarrow> gmem \<Rightarrow> ((nat \<times> nat) option \<times> gmem) option" where
  "gm_pointer = (\<lambda>(e, n) s. let (x, s') = gm_alloc e n s in Some (case x of Ptr p \<Rightarrow> Some p | _ \<Rightarrow> None, s'))"

lemma new_page_rel:
  assumes "gm_rel s live" "new_page e s = (ok, s')"
  shows "gm_rel s' live" "gi_pagesize (gm_impl s') = gi_pagesize (gm_impl s)" "ok \<Longrightarrow> gi_alloc_offset (gm_impl s') = 0" "ok = (ge_page e (gm_attempts s) \<noteq> None)"
    "page < gm_attempts s \<Longrightarrow> gm_bytes s' page = gm_bytes s page"
  using assms by (auto simp: new_page_def Let_def gm_rel_def gm_inv_def in_pool_def split: option.splits)

lemma impl_new_rel:
  assumes "gm_rel s live" "impl_new e (gi_pagesize (gm_impl s)) sh s = (ok, s')" "gm_request s (e, n)"
  shows "gm_rel s' live" "gi_pagesize (gm_impl s') = gi_pagesize (gm_impl s)" "ok = (ge_page e (gm_attempts s) \<noteq> None)"
    "page < gm_attempts s \<Longrightarrow> gm_bytes s' page = gm_bytes s page"
proof -
  have "wrap32 (mem_aligned_size_ex (gi_pagesize (gm_impl s)) (ge_pagesize e)) = gi_pagesize (gm_impl s)"
    using assms(1,3) by (simp add: gm_request_def gm_rel_def gm_inv_def wrap32_def)
  then show "gm_rel s' live" "gi_pagesize (gm_impl s') = gi_pagesize (gm_impl s)" "ok = (ge_page e (gm_attempts s) \<noteq> None)"
    "page < gm_attempts s \<Longrightarrow> gm_bytes s' page = gm_bytes s page"
    using assms(1,2) by (auto simp: impl_new_def new_page_def Let_def gm_rel_def gm_inv_def in_pool_def split: option.splits)
qed

lemma block_init_zero: "k < sz \<Longrightarrow> block_init off sz c (off + sizeof_block + k) = 0"
  by (simp add: block_init_def sizeof_block_def)

lemma block_init_other: "k < off \<or> off + sizeof_block + sz \<le> k \<Longrightarrow> block_init off sz c k = c k"
  by (auto simp: block_init_def sizeof_block_def)

text \<open>What an allocation leaves of the blocks in use: all of their bytes.\<close>

definition same_bytes :: "((nat \<times> nat) \<times> nat) set \<Rightarrow> gmem \<Rightarrow> gmem \<Rightarrow> bool" where
  "same_bytes live s s' = (\<forall>((page, off), l)\<in>live. \<forall>k<l. gm_bytes s' page (off + k) = gm_bytes s page (off + k))"

definition zeroed :: "gmem \<Rightarrow> (nat \<times> nat) \<times> nat \<Rightarrow> bool" where
  "zeroed s = (\<lambda>((page, off), l). \<forall>k<l. gm_bytes s page (off + k) = 0)"

lemma place_block:
  assumes "gm_rel s live" "gi_alloc_offset (gm_impl s) + sizeof_block + sz \<le> gi_pagesize (gm_impl s)" "8 dvd sz"
  defines "page \<equiv> last (gi_pages (gm_impl s))" and "off \<equiv> gi_alloc_offset (gm_impl s)"
  defines "s' \<equiv> s\<lparr>gm_impl := (gm_impl s)\<lparr>gi_alloc_offset := wrap32 (off + wrap32 (sizeof_block + sz))\<rparr>,
                  gm_bytes := (gm_bytes s)(page := block_init off sz (gm_bytes s page))\<rparr>"
  shows "gm_rel s' (insert ((page, off + sizeof_block), sz) live)" "\<forall>b\<in>live. gm_apart ((page, off + sizeof_block), sz) b" "zeroed s' ((page, off + sizeof_block), sz)"
    "same_bytes live s s'"
proof -
  have p: "gi_pagesize (gm_impl s) < 2 ^ 31" "8 dvd off" "page < gm_attempts s" "gi_pages (gm_impl s) \<noteq> []" using assms(1) by (auto simp: gm_rel_def gm_inv_def off_def page_def)
  have w: "wrap32 (off + wrap32 (sizeof_block + sz)) = off + sizeof_block + sz" using p(1) assms(2) by (simp add: wrap32_def off_def)
  have live: "page = fst (fst b) \<longrightarrow> snd (fst b) + snd b \<le> off" if "b \<in> live" for b
    using assms(1) that by (auto simp: gm_rel_def in_pool_def page_def off_def)
  show "\<forall>b\<in>live. gm_apart ((page, off + sizeof_block), sz) b"
  proof
    fix b
    assume "b \<in> live"
    then show "gm_apart ((page, off + sizeof_block), sz) b" using live [of b] by (cases b) (auto simp: gm_apart_def)
  qed
  show "zeroed s' ((page, off + sizeof_block), sz)" using block_init_zero by (simp add: zeroed_def s'_def)
  have "gm_bytes s' pg (o1 + k) = gm_bytes s pg (o1 + k)" if "((pg, o1), l) \<in> live" "k < l" for pg o1 l k
    using live [OF that(1)] that(2) block_init_other [of "o1 + k" off sz] by (cases "pg = page") (simp_all add: s'_def)
  then show "same_bytes live s s'" by (auto simp: same_bytes_def)
  have s': "gm_attempts s' = gm_attempts s" "gi_pages (gm_impl s') = gi_pages (gm_impl s)" "gi_pagesize (gm_impl s') = gi_pagesize (gm_impl s)"
    "gi_alloc_offset (gm_impl s') = off + sizeof_block + sz" using w by (simp_all add: s'_def)
  have "8 dvd off + sizeof_block" "8 dvd off + sizeof_block + sz" using p(2) assms(3) by (simp_all add: sizeof_block_def)
  then have i: "gm_inv s'" "in_pool s' ((page, off + sizeof_block), sz)" using assms(2) p s' by (simp_all add: gm_inv_def in_pool_def page_def off_def)
  have "in_pool s' b" if "b \<in> live" for b
  proof -
    have "in_pool s b" using assms(1) that by (simp add: gm_rel_def)
    then show ?thesis using s' by (cases b) (auto simp: in_pool_def off_def)
  qed
  then show "gm_rel s' (insert ((page, off + sizeof_block), sz) live)" using i by (simp add: gm_rel_def)
qed

lemma gm_rel_bytes: "gm_rel s live \<Longrightarrow> (\<And>page. page < gm_attempts s \<Longrightarrow> gm_bytes s' page = gm_bytes s page) \<Longrightarrow> same_bytes live s s'"
  by (fastforce simp: same_bytes_def gm_rel_def in_pool_def)

lemma same_bytes_trans: "same_bytes live s t \<Longrightarrow> same_bytes live t u \<Longrightarrow> same_bytes live s u"
  by (fastforce simp: same_bytes_def)

lemma same_bytes_refl: "same_bytes live s s"
  by (auto simp: same_bytes_def)

text \<open>One allocation, on every branch.\<close>

lemma gm_alloc_rel:
  assumes "gm_rel s live" "gm_request s (e, n)" "gm_alloc e n s = (x, s')"
  shows "gi_pagesize (gm_impl s') = gi_pagesize (gm_impl s) \<and> same_bytes live s s' \<and>
    (case x of Ptr p \<Rightarrow> gm_rel s' (insert (p, mem_aligned_size n) live) \<and> (\<forall>b\<in>live. gm_apart (p, mem_aligned_size n) b) \<and> zeroed s' (p, mem_aligned_size n)
     | _ \<Rightarrow> gm_rel s' live \<and> (mem_aligned_size n + sizeof_block > gi_pagesize (gm_impl s) \<or> (\<exists>i. ge_page e i = None)))"
proof -
  let ?sz = "mem_aligned_size n" and ?ps = "gi_pagesize (gm_impl s)"
  have n: "wrap32 ?sz = ?sz" "wrap32 (sizeof_block + ?sz) = sizeof_block + ?sz" 
    using assms(2) mem_aligned_size_less [of n] by (simp_all add: gm_request_def wrap32_def sizeof_block_def)
  show ?thesis
  proof (cases "sizeof_block + ?sz > ?ps")
    case True
    then show ?thesis using assms(1,3) n by (auto simp: gm_alloc_def same_bytes_refl add.commute)
  next
    case fits: False
    obtain ok s1 where s1: "(if gi_shared (gm_impl s) \<and> gi_create_pid (gm_impl s) \<noteq> ge_getpid e then impl_new e ?ps (gi_shared (gm_impl s)) s else (True, s)) = (ok, s1)"
      by (cases "if gi_shared (gm_impl s) \<and> gi_create_pid (gm_impl s) \<noteq> ge_getpid e then impl_new e ?ps (gi_shared (gm_impl s)) s else (True, s)")
    then have r1: "gm_rel s1 live" "gi_pagesize (gm_impl s1) = ?ps" "ok \<or> (\<exists>i. ge_page e i = None)" "same_bytes live s s1"
      using assms(1) impl_new_rel [OF assms(1) _ assms(2)] gm_rel_bytes [OF assms(1), of s1] same_bytes_refl [of live s] by (auto split: if_splits)
    obtain ok2 s2 where s2: "(if wrap32 (gi_alloc_offset (gm_impl s1) + wrap32 (sizeof_block + wrap32 ?sz)) > gi_pagesize (gm_impl s1) then new_page e s1 else (True, s1)) = (ok2, s2)"
      by (cases "if wrap32 (gi_alloc_offset (gm_impl s1) + wrap32 (sizeof_block + wrap32 ?sz)) > gi_pagesize (gm_impl s1) then new_page e s1 else (True, s1)")
    have w: "wrap32 (gi_alloc_offset (gm_impl s1) + wrap32 (sizeof_block + wrap32 ?sz)) = gi_alloc_offset (gm_impl s1) + sizeof_block + ?sz"
      using r1(1,2) n fits by (simp add: gm_rel_def gm_inv_def wrap32_def)
    have r2: "gm_rel s2 live" "gi_pagesize (gm_impl s2) = ?ps" "ok2 \<or> (\<exists>i. ge_page e i = None)" "same_bytes live s1 s2"
      "ok2 \<Longrightarrow> gi_alloc_offset (gm_impl s2) + sizeof_block + ?sz \<le> gi_pagesize (gm_impl s2)"
    proof -
      consider "ok2" "s2 = s1" "gi_alloc_offset (gm_impl s1) + sizeof_block + ?sz \<le> gi_pagesize (gm_impl s1)" | "new_page e s1 = (ok2, s2)"
        using s2 unfolding w by (cases "gi_pagesize (gm_impl s1) < gi_alloc_offset (gm_impl s1) + sizeof_block + ?sz") auto
      then show "gm_rel s2 live" "gi_pagesize (gm_impl s2) = ?ps" "ok2 \<or> (\<exists>i. ge_page e i = None)" "same_bytes live s1 s2"
        "ok2 \<Longrightarrow> gi_alloc_offset (gm_impl s2) + sizeof_block + ?sz \<le> gi_pagesize (gm_impl s2)"
        using r1(1,2) same_bytes_refl [of live s1] new_page_rel [OF r1(1), of e ok2 s2] gm_rel_bytes [OF r1(1), of s2] fits by (cases; force)+
    qed
    have b: "same_bytes live s s2" by (rule same_bytes_trans [OF r1(4) r2(4)])
    have e: "gm_alloc e n s = (if \<not> ok then (Bad_alloc, s1) else if \<not> ok2 then (Null, s2)
       else (Ptr (last (gi_pages (gm_impl s2)), gi_alloc_offset (gm_impl s2) + sizeof_block),
         s2\<lparr>gm_impl := (gm_impl s2)\<lparr>gi_alloc_offset := wrap32 (gi_alloc_offset (gm_impl s2) + wrap32 (sizeof_block + ?sz))\<rparr>,
           gm_bytes := (gm_bytes s2)(last (gi_pages (gm_impl s2)) := block_init (gi_alloc_offset (gm_impl s2)) ?sz (gm_bytes s2 (last (gi_pages (gm_impl s2)))))\<rparr>))"
      using fits n s1 s2 by (simp add: gm_alloc_def Let_def)
    show ?thesis
    proof (cases "ok \<and> ok2")
      case True
      note pl = place_block [OF r2(1) r2(5) mem_aligned_size_dvd, OF conjunct2 [OF True]]
      obtain p where "x = Ptr p" "gi_pagesize (gm_impl s') = ?ps" "same_bytes live s2 s'" "gm_rel s' (insert (p, ?sz) live)" "\<forall>b\<in>live. gm_apart (p, ?sz) b" "zeroed s' (p, ?sz)"
        using True e assms(3) pl r2(2) by simp
      then show ?thesis using same_bytes_trans [OF b] by simp
    next
      case False
      then consider "x = Bad_alloc" "s' = s1" "\<not> ok" | "x = Null" "s' = s2" "\<not> ok2" using e assms(3) by (auto split: if_splits)
      then show ?thesis using r1 r2(1-3) b by cases simp_all
    qed
  qed
qed

interpretation gp: memory_pool gm_rel snd gm_request gm_pointer gm_apart
proof
  fix s live and r :: "gm_env \<times> nat"
  assume a: "gm_rel s live" "gm_request s r"
  obtain e n x s' where r: "r = (e, n)" "gm_alloc e n s = (x, s')" by (cases r, cases "gm_alloc (fst r) (snd r) s") simp
  note al = gm_alloc_rel [OF a(1) a(2) [unfolded r(1)] r(2)]
  have q: "gm_request s' k = gm_request s k" for k using al by (simp add: gm_request_def)
  have "case (case x of Ptr p \<Rightarrow> Some p | _ \<Rightarrow> None) of None \<Rightarrow> gm_rel s' live
      | Some p \<Rightarrow> \<exists>l\<ge>n. (\<forall>b\<in>live. gm_apart (p, l) b) \<and> gm_rel s' (insert (p, l) live)"
    using al mem_aligned_size_ge [of n] by (cases x) auto
  then show "\<exists>x s'. gm_pointer r s = Some (x, s') \<and> (\<forall>k. gm_request s' k = gm_request s k) \<and>
      (case x of None \<Rightarrow> gm_rel s' live | Some p \<Rightarrow> \<exists>l\<ge>snd r. (\<forall>b\<in>live. gm_apart (p, l) b) \<and> gm_rel s' (insert (p, l) live))"
    using r(2) q unfolding r(1) gm_pointer_def by (cases x) simp_all
qed (auto simp: gm_apart_def)

text \<open>What happens to a pool: it is created, allocations are made in any process that holds it, and the users of the blocks write into them.\<close>

inductive gm_reach :: "gmem \<Rightarrow> ((nat \<times> nat) \<times> nat) set \<Rightarrow> bool" where
  gm_reach_new: "gm_new e pagesize sh = Some s \<Longrightarrow> gi_pagesize (gm_impl s) < 2 ^ 31 \<Longrightarrow> gm_reach s {}"
| gm_reach_ptr: "gm_reach s live \<Longrightarrow> gm_request s (e, n) \<Longrightarrow> gm_alloc e n s = (Ptr p, s') \<Longrightarrow> gm_reach s' (insert (p, mem_aligned_size n) live)"
| gm_reach_null: "gm_reach s live \<Longrightarrow> gm_request s (e, n) \<Longrightarrow> gm_alloc e n s = (x, s') \<Longrightarrow> x = Null \<or> x = Bad_alloc \<Longrightarrow> gm_reach s' live"
| gm_reach_write: "gm_reach s live \<Longrightarrow> ((page, off), l) \<in> live \<Longrightarrow> k < l \<Longrightarrow>
    gm_reach (s\<lparr>gm_bytes := (gm_bytes s)(page := (gm_bytes s page)(off + k := v))\<rparr>) live"

lemma gm_new_rel: "gm_new e pagesize sh = Some s \<Longrightarrow> gi_pagesize (gm_impl s) < 2 ^ 31 \<Longrightarrow> gm_rel s {}"
  by (auto simp: gm_new_def impl_new_def new_page_def Let_def gm_rel_def gm_inv_def split: if_splits option.splits)

lemma gm_reach_rel: "gm_reach s live \<Longrightarrow> gm_rel s live"
proof (induction rule: gm_reach.induct)
  case (gm_reach_new e pagesize sh s)
  then show ?case by (rule gm_new_rel)
next
  case (gm_reach_ptr s live e n p s')
  then show ?case using gm_alloc_rel [OF gm_reach_ptr.IH gm_reach_ptr.hyps(2,3)] by simp
next
  case (gm_reach_null s live e n x s')
  then show ?case using gm_alloc_rel [OF gm_reach_null.IH gm_reach_null.hyps(2,3)] by auto
next
  case (gm_reach_write s live page off l k v)
  then show ?case by (simp add: gm_rel_def gm_inv_def in_pool_def)
qed

text \<open>An environment in which every page can be allocated and holds stale bytes.\<close>

definition gm_sample_env :: "nat \<Rightarrow> gm_env" where
  "gm_sample_env pid = \<lparr>ge_pid = pid, ge_getpid = pid, ge_pagesize = 4096, ge_page = (\<lambda>i. Some (\<lambda>k. 7))\<rparr>"

text \<open>
  C19. Memory of the global pool: whatever has been allocated and written, in the process that created the pool and after forks, a request yields a block
  that is cleared, aligned, within its page and apart from all blocks in use, whose contents stay as they are; it yields none only if it does not fit into a
  page or there is no memory for a page. Further requests yield blocks that are apart from each other, too.
\<close>

theorem global_memory_safe:
  assumes "gm_reach s live" "gm_request s (e, n)" "gm_alloc e n s = (x, s')" "\<forall>r\<in>set rs. gm_request s r"
  shows "(\<forall>page off. x = Ptr (page, off) \<longrightarrow> 8 dvd off \<and> off + n \<le> gi_pagesize (gm_impl s) \<and> (\<forall>k<n. gm_bytes s' page (off + k) = 0) \<and>
      (\<forall>b\<in>live. gm_apart ((page, off), n) b)) \<and>
    (\<forall>((page, off), l)\<in>live. \<forall>k<l. gm_bytes s' page (off + k) = gm_bytes s page (off + k)) \<and>
    ((\<forall>i. ge_page e i \<noteq> None) \<and> mem_aligned_size n + 8 \<le> gi_pagesize (gm_impl s) \<longrightarrow> (\<exists>p. x = Ptr p)) \<and>
    (\<exists>xs t. alloc_all gm_pointer rs s = Some (xs, t) \<and> length xs = length rs \<and>
      (\<forall>i j p q. i < j \<longrightarrow> j < length rs \<longrightarrow> xs ! i = Some p \<longrightarrow> xs ! j = Some q \<longrightarrow> gm_apart (p, snd (rs ! i)) (q, snd (rs ! j))))"
proof -
  have rel: "gm_rel s live" by (rule gm_reach_rel [OF assms(1)])
  note al = gm_alloc_rel [OF rel assms(2,3)]
  have "8 dvd off \<and> off + n \<le> gi_pagesize (gm_impl s) \<and> (\<forall>k<n. gm_bytes s' page (off + k) = 0) \<and> (\<forall>b\<in>live. gm_apart ((page, off), n) b)"
    if "x = Ptr (page, off)" for page off
  proof -
    let ?b = "((page, off), mem_aligned_size n)"
    have ps: "gi_pagesize (gm_impl s') = gi_pagesize (gm_impl s)" and p: "gm_rel s' (insert ?b live)" "\<forall>b\<in>live. gm_apart ?b b" "zeroed s' ?b"
      using al unfolding that gm_result.case by blast+
    have "in_pool s' ?b" using p(1) by (simp add: gm_rel_def)
    then have "8 dvd off \<and> off + n \<le> gi_pagesize (gm_impl s)" using ps mem_aligned_size_ge [of n] by (simp add: in_pool_def)
    moreover have "\<forall>k<n. gm_bytes s' page (off + k) = 0" using p(3) mem_aligned_size_ge [of n] by (simp add: zeroed_def)
    moreover have "gm_apart ((page, off), n) b" if "b \<in> live" for b
    proof (cases b)
      case (Pair q l)
      show ?thesis unfolding Pair by (rule gp.apart_smaller [OF p(2) [rule_format, OF that [unfolded Pair]] mem_aligned_size_ge order.refl])
    qed
    ultimately show ?thesis by blast
  qed
  moreover have "\<exists>p. x = Ptr p" if "\<forall>i. ge_page e i \<noteq> None" "mem_aligned_size n + 8 \<le> gi_pagesize (gm_impl s)"
    using al that by (cases x) (auto simp: sizeof_block_def)
  moreover have "\<exists>xs t. alloc_all gm_pointer rs s = Some (xs, t) \<and> length xs = length rs \<and>
      (\<forall>i j p q. i < j \<longrightarrow> j < length rs \<longrightarrow> xs ! i = Some p \<longrightarrow> xs ! j = Some q \<longrightarrow> gm_apart (p, snd (rs ! i)) (q, snd (rs ! j)))"
    using gp.alloc_all_apart [OF rel assms(4)] by blast
  ultimately show ?thesis using al [THEN conjunct2, THEN conjunct1, unfolded same_bytes_def] by simp
qed

theorem global_memory_safe_witness:
  "\<exists>s page off s'. gm_new (gm_sample_env 1) 4096 True = Some s \<and> gm_alloc (gm_sample_env 2) 100 s = (Ptr (page, off), s') \<and> 8 dvd off \<and> off + 100 \<le> 4096 \<and> (\<forall>k<100. gm_bytes s' page (off + k) = 0)"
proof -
  obtain s where s: "gm_new (gm_sample_env 1) 4096 True = Some s" "gi_pagesize (gm_impl s) = 4096"
    by (simp add: gm_new_def impl_new_def new_page_def Let_def gm_sample_env_def wrap32_def mem_aligned_size_ex_def)
  obtain x s' where x: "gm_alloc (gm_sample_env 2) 100 s = (x, s')" by (cases "gm_alloc (gm_sample_env 2) 100 s")
  have r: "gm_reach s {}" "gm_request s (gm_sample_env 2, 100)" "\<forall>r\<in>set [(gm_sample_env 1, 10), (gm_sample_env 2, 20)]. gm_request s r" "\<forall>i. ge_page (gm_sample_env 2) i \<noteq> None" "mem_aligned_size 100 + 8 \<le> gi_pagesize (gm_impl s)"
    using gm_reach_new [OF s(1)] s(2) by (simp_all add: gm_request_def gm_sample_env_def mem_aligned_size_ex_def mem_aligned_size_def)
  note safe = global_memory_safe [OF r(1,2) x r(3)]
  obtain page off where "x = Ptr (page, off)" using safe r(4,5) by (metis surj_pair)
  then show ?thesis using s x safe by auto
qed

end
