(* ===== verification/Osw_Redis.thy ===== *)
theory Osw_Redis
  imports Osw_Http Osw_Eof_Protocol
begin

text \<open>
  The Redis protocol, \<^verbatim>\<open>src/protocol/redis.cc\<close> and \<^verbatim>\<open>include/openswoole_redis.h\<close>: receiving a command, splitting it into its arguments, and
  formatting replies. A pointer is an index into the memory of the buffer. \<open>None\<close> is a fault: an access outside of the memory or through a null pointer,
  a string of negative length, or \<^verbatim>\<open>std::bad_alloc\<close>.
\<close>

subsection \<open>Numbers\<close>

function digits_loop :: "bytes \<Rightarrow> nat \<Rightarrow> nat \<Rightarrow> (nat \<times> nat) option" where
  "digits_loop m p v = (if p < length m then (if isdigit (m ! p) then digits_loop m (p + 1) (v * 10 + (unat (m ! p) - 48)) else Some (v, p)) else None)"
  by pat_completeness auto
termination
  by (relation "measure (\<lambda>(m, p, v). length m - p)") auto

declare digits_loop.simps [simp del]

text \<open>\<^verbatim>\<open>strtol\<close> in base 10: white space, a sign, digits; it saturates, and without digits the end is the start.\<close>

definition strtol :: "bytes \<Rightarrow> nat \<Rightarrow> (int \<times> nat) option" where
  "strtol m p = do {
     q \<leftarrow> skip_isspace m p;
     c \<leftarrow> mem_at m q;
     let q' = (if c = 43 \<or> c = 45 then q + 1 else q);
     (v, k) \<leftarrow> digits_loop m q' 0;
     Some (if k = q' then (0, p)
           else (if c = 45 then max (- int v) (- (2 ^ 63)) else min (int v) (2 ^ 63 - 1), k))
   }"

text \<open>The result is the number, cut to an \<^verbatim>\<open>int\<close>, and where to go on, or the null pointer.\<close>

definition get_number :: "bytes \<Rightarrow> nat \<Rightarrow> (int \<times> nat) option option" where
  "get_number m p = do {
     (v, k) \<leftarrow> strtol m (p + 1);
     c \<leftarrow> mem_at m k;
     if c \<noteq> 13 then Some None
     else do {
       d \<leftarrow> mem_at m (k + 1);
       Some (if d = 10 then Some (sint (word_of_int v :: u32), k + 2) else None)
     }
   }"

function dec :: "nat \<Rightarrow> bytes" where
  "dec n = (if n < 10 then [48 + word_of_nat n] else dec (n div 10) @ [48 + word_of_nat (n mod 10)])"
  by pat_completeness auto
termination
  by (relation "measure (\<lambda>n. n)") auto

declare dec.simps [simp del]

definition dec_int :: "int \<Rightarrow> bytes" where
  "dec_int i = (if i < 0 then 45 # dec (nat (- i)) else dec (nat i))"

subsection \<open>Commands\<close>

datatype redis_state = Receive_total_line | Receive_length | Receive_string

record redis_parser =
  rp_state :: redis_state
  rp_p :: nat
  rp_length :: int
  rp_result :: "bytes list"

definition parse_string :: "bytes \<Rightarrow> redis_parser \<Rightarrow> redis_parser option" where
  "parse_string m s =
     (if rp_length s < 0 then None
      else do {
        v \<leftarrow> mem_read (rp_p s) (nat (rp_length s)) m;
        Some (s\<lparr>rp_result := rp_result s @ [v], rp_p := rp_p s + nat (rp_length s) + 2, rp_state := Receive_length\<rparr>)
      })"

text \<open>The next case reads through the pointer that is null when \<^verbatim>\<open>get_number\<close> fails.\<close>

definition parse_length :: "bytes \<Rightarrow> redis_parser \<Rightarrow> redis_parser option" where
  "parse_length m s = do {
     c \<leftarrow> mem_at m (rp_p s);
     if c = 36 then do {
       x \<leftarrow> get_number m (rp_p s);
       (ret, q) \<leftarrow> x;
       Some (if ret = - 1 then s\<lparr>rp_p := q\<rparr> else s\<lparr>rp_p := q, rp_length := ret, rp_state := Receive_string\<rparr>)
     }
     else if c = 58 then do {
       x \<leftarrow> get_number m (rp_p s);
       (ret, q) \<leftarrow> x;
       Some (s\<lparr>rp_p := q, rp_result := rp_result s @ [dec_int ret]\<rparr>)
     }
     else parse_string m s
   }"

definition parse_step :: "bytes \<Rightarrow> redis_parser \<Rightarrow> redis_parser option" where
  "parse_step m s =
     (case rp_state s of
        Receive_total_line \<Rightarrow> do {
          c \<leftarrow> mem_at m (rp_p s);
          if c = 42 then do {
            x \<leftarrow> get_number m (rp_p s);
            (ret, q) \<leftarrow> x;
            Some (s\<lparr>rp_p := q, rp_state := Receive_length\<rparr>)
          }
          else parse_length m s
        }
      | Receive_length \<Rightarrow> parse_length m s
      | Receive_string \<Rightarrow> parse_string m s)"

lemma digits_loop_ge: "digits_loop m p v = Some (w, k) \<Longrightarrow> p \<le> k"
  by (induction m p v rule: digits_loop.induct) (auto simp: digits_loop.simps split: if_splits)

lemma skip_isspace_ge: "skip_isspace m p = Some q \<Longrightarrow> p \<le> q"
  by (induction m p rule: skip_isspace.induct) (auto simp: skip_isspace.simps split: if_splits)

lemma get_number_greater: "get_number m p = Some (Some (v, q)) \<Longrightarrow> p < q"
  by (auto simp: get_number_def strtol_def Let_def bind_eq_Some_conv split: if_splits dest!: digits_loop_ge skip_isspace_ge)

lemma parse_step_progress: "parse_step m s = Some s' \<Longrightarrow> rp_p s < rp_p s'"
  by (auto simp: parse_step_def parse_length_def parse_string_def bind_eq_Some_conv split: redis_state.splits if_splits dest!: get_number_greater)

function parse_loop :: "bytes \<Rightarrow> nat \<Rightarrow> redis_parser \<Rightarrow> redis_parser option" where
  "parse_loop m pe s =
     (case parse_step m s of
        None \<Rightarrow> None
      | Some s' \<Rightarrow> if rp_p s' < pe then parse_loop m pe s' else Some s')"
  by pat_completeness auto
termination
  by (relation "measure (\<lambda>(m, pe, s). pe - rp_p s)") (auto dest!: parse_step_progress)

declare parse_loop.simps [simp del]

definition redis_parse :: "bytes \<Rightarrow> nat \<Rightarrow> bytes list option" where
  "redis_parse m len = map_option rp_result (parse_loop m len \<lparr>rp_state = Receive_total_line, rp_p = 0, rp_length = 0, rp_result = []\<rparr>)"

subsection \<open>Replies\<close>

text \<open>\<^verbatim>\<open>String::format\<close> prints at the start of the buffer; the text is what \<^verbatim>\<open>vsnprintf\<close> prints, without the terminator.\<close>

definition string_format :: "allocator \<Rightarrow> bytes \<Rightarrow> ostring \<Rightarrow> (nat \<times> ostring) option" where
  "string_format al txt s =
     (if txt = [] then Some (0, s)
      else do {
        s1 \<leftarrow> (if length txt + 1 > st_size s then string_reserve al (length txt + 1) s else Some s);
        m \<leftarrow> mem_write 0 (txt @ [0]) (st_mem s1);
        Some (length txt, s1\<lparr>st_mem := m, st_length := length txt\<rparr>)
      })"

datatype reply_type = Reply_error | Reply_nil | Reply_status | Reply_int | Reply_string | Reply_set | Reply_map

definition OSW_REDIS_MAX_STRING_SIZE :: nat where
  "OSW_REDIS_MAX_STRING_SIZE = 536870912"

definition redis_format_nil :: "allocator \<Rightarrow> ostring \<Rightarrow> (bool \<times> ostring) option" where
  "redis_format_nil al s = map_option (Pair True) (string_append al (ascii ''$-1'' @ CRLF) s)"

definition redis_format :: "allocator \<Rightarrow> reply_type \<Rightarrow> bytes \<Rightarrow> ostring \<Rightarrow> (bool \<times> ostring) option" where
  "redis_format al type v s =
     (case type of
        Reply_status \<Rightarrow>
          if v = [] then map_option (Pair True) (string_append al (ascii ''+OK'' @ CRLF) s)
          else map_option (\<lambda>(n, s1). (n > 0, s1)) (string_format al (ascii ''+'' @ takeWhile (\<lambda>c. c \<noteq> 0) v @ CRLF) s)
      | Reply_error \<Rightarrow>
          if v = [] then map_option (Pair True) (string_append al (ascii ''-ERR'' @ CRLF) s)
          else map_option (\<lambda>(n, s1). (n > 0, s1)) (string_format al (ascii ''-'' @ takeWhile (\<lambda>c. c \<noteq> 0) v @ CRLF) s)
      | Reply_string \<Rightarrow>
          if v = [] \<or> length v > OSW_REDIS_MAX_STRING_SIZE then Some (False, s)
          else do {
            (n, s1) \<leftarrow> string_format al (ascii ''$'' @ dec (length v) @ CRLF) s;
            if n = 0 then Some (False, s1)
            else do { s2 \<leftarrow> string_append al v s1; s3 \<leftarrow> string_append al CRLF s2; Some (True, s3) }
          }
      | _ \<Rightarrow> Some (False, s))"

definition redis_format_long :: "allocator \<Rightarrow> int \<Rightarrow> ostring \<Rightarrow> (bool \<times> ostring) option" where
  "redis_format_long al v s = map_option (\<lambda>(n, s1). (n > 0, s1)) (string_format al (ascii '':'' @ dec_int v @ CRLF) s)"

subsection \<open>Receiving a command\<close>

record redis_request =
  rr_state :: redis_state
  rr_n_lines_total :: int
  rr_n_lines_received :: int
  rr_n_bytes_total :: int
  rr_n_bytes_received :: int
  rr_offset :: int

definition redis_request_zero :: redis_request where
  "redis_request_zero =
     \<lparr>rr_state = Receive_total_line, rr_n_lines_total = 0, rr_n_lines_received = 0, rr_n_bytes_total = 0, rr_n_bytes_received = 0, rr_offset = 0\<rparr>"

record 'w redis_env =
  re_max :: nat
  re_pagesize :: nat
  re_malloc :: bool
  re_alloc :: allocator
  re_package :: "bytes \<Rightarrow> 'w \<Rightarrow> int \<times> 'w"
  re_removed :: "'w \<Rightarrow> bool"

record 'w redis_conn =
  rc_object :: "redis_request option"
  rc_buffer :: ostring
  rc_events :: "recv_event list"
  rc_world :: 'w

text \<open>The cases of the switch at the position \<open>p\<close>: a result, or where to go on.\<close>

datatype redis_next = R_return int | R_at nat

definition redis_string :: "'w redis_env \<Rightarrow> nat \<Rightarrow> redis_request \<Rightarrow> 'w redis_conn \<Rightarrow> (redis_next \<times> redis_request \<times> 'w redis_conn) option" where
  "redis_string e p r s =
     (let b = rc_buffer s; rest = int (st_length b) - int p in
      if rest < rr_n_bytes_total r - rr_n_bytes_received r then Some (R_return 0, r\<lparr>rr_n_bytes_received := rr_n_bytes_received r + rest\<rparr>, s)
      else
        let p' = nat (int p + rr_n_bytes_total r + 2);
            r1 = r\<lparr>rr_n_bytes_total := 0, rr_n_lines_received := rr_n_lines_received r + 1, rr_state := Receive_length\<rparr>;
            s1 = s\<lparr>rc_buffer := b\<lparr>st_offset := int (st_length b)\<rparr>\<rparr>
        in if rr_n_lines_received r1 = rr_n_lines_total r1 then do {
             v \<leftarrow> mem_read 0 (st_length b) (st_mem b);
             let (ret, w) = re_package e v (rc_world s);
             let s2 = s1\<lparr>rc_world := w\<rparr>;
             Some (if ret < 0 then (R_return (- 1), r1, s2)
                   else if re_removed e w then (R_return 0, r1, s2)
                   else (R_return 0, redis_request_zero, s2\<lparr>rc_buffer := string_clear (rc_buffer s2)\<rparr>))
           }
           else Some (R_at p', r1, s1))"

text \<open>When the length of a string is no number the next test reads through the null pointer.\<close>

definition redis_length :: "'w redis_env \<Rightarrow> nat \<Rightarrow> redis_request \<Rightarrow> 'w redis_conn \<Rightarrow> (redis_next \<times> redis_request \<times> 'w redis_conn) option" where
  "redis_length e p r s = do {
     let m = st_mem (rc_buffer s);
     c \<leftarrow> mem_at m p;
     if c = 36 then do {
       x \<leftarrow> get_number m p;
       (ret, q) \<leftarrow> x;
       Some (if ret < 0 then (R_at q, r, s)
             else if ret + int q > int (re_max e) then (R_return (- 1), r, s)
             else (R_at q, r\<lparr>rr_n_bytes_total := ret, rr_state := Receive_string\<rparr>, s))
     }
     else if c = 58 then do {
       x \<leftarrow> get_number m p;
       Some (case x of None \<Rightarrow> (R_return (- 1), r, s) | Some (ret, q) \<Rightarrow> (R_at q, r, s))
     }
     else redis_string e p r s
   }"

definition redis_case :: "'w redis_env \<Rightarrow> nat \<Rightarrow> redis_request \<Rightarrow> 'w redis_conn \<Rightarrow> (redis_next \<times> redis_request \<times> 'w redis_conn) option" where
  "redis_case e p r s =
     (case rr_state r of
        Receive_total_line \<Rightarrow> do {
          c \<leftarrow> mem_at (st_mem (rc_buffer s)) p;
          if c = 42 then do {
            x \<leftarrow> get_number (st_mem (rc_buffer s)) p;
            Some (case x of None \<Rightarrow> (R_return (- 1), r, s)
              | Some (ret, q) \<Rightarrow> (R_at q, r\<lparr>rr_n_lines_total := ret, rr_state := Receive_length\<rparr>, s))
          }
          else redis_length e p r s
        }
      | Receive_length \<Rightarrow> redis_length e p r s
      | Receive_string \<Rightarrow> redis_string e p r s)"

partial_function (option) redis_scan :: "'w redis_env \<Rightarrow> nat \<Rightarrow> redis_request \<Rightarrow> 'w redis_conn \<Rightarrow> (int \<times> redis_request \<times> 'w redis_conn) option" where
  "redis_scan e p r s = do {
     (x, r1, s1) \<leftarrow> redis_case e p r s;
     case x of
       R_return ret \<Rightarrow> Some (ret, r1, s1)
     | R_at q \<Rightarrow> if q < st_length (rc_buffer s1) then redis_scan e q r1 s1 else Some (- 1, r1, s1)
   }"

text \<open>One round from \<^verbatim>\<open>_recv_data\<close>; the result \<open>None\<close> is the jump back. The comparison with the line end reads two bytes before the end of what was
  received, which is before the buffer when that is a single byte.\<close>

definition redis_recv :: "'w redis_env \<Rightarrow> redis_request \<Rightarrow> 'w redis_conn \<Rightarrow> (int option \<times> redis_request \<times> 'w redis_conn) option" where
  "redis_recv e r s =
     (case sock_recv (st_size (rc_buffer s) - st_length (rc_buffer s)) (rc_events s) of
        (Failed E_CLOSE, es) \<Rightarrow> Some (Some (- 1), r, s\<lparr>rc_events := es\<rparr>)
      | (Failed _, es) \<Rightarrow> Some (Some 0, r, s\<lparr>rc_events := es\<rparr>)
      | (Got bs, es) \<Rightarrow>
          if bs = [] then Some (Some (- 1), r, s\<lparr>rc_events := es\<rparr>)
          else do {
            m \<leftarrow> mem_write (st_length (rc_buffer s)) bs (st_mem (rc_buffer s));
            let b = (rc_buffer s)\<lparr>st_mem := m, st_length := st_length (rc_buffer s) + length bs\<rparr>;
            let s1 = s\<lparr>rc_events := es, rc_buffer := b\<rparr>;
            t \<leftarrow> (if st_length b < 2 then None else mem_read (st_length b - 2) 2 m);
            if t = CRLF then map_option (\<lambda>(ret, r1, s2). (Some ret, r1, s2)) (redis_scan e 0 r s1)
            else if st_size b < re_max e then do {
              b1 \<leftarrow> string_extend (re_alloc e) (min (openswoole_size_align (st_size b * 2) (re_pagesize e) mod 2 ^ 32) (re_max e)) b;
              Some (None, r, s1\<lparr>rc_buffer := b1\<rparr>)
            }
            else Some (if st_length b = st_size b then Some (- 1) else None, r, s1)
          })"

partial_function (option) redis_loop :: "'w redis_env \<Rightarrow> redis_request \<Rightarrow> 'w redis_conn \<Rightarrow> (int \<times> redis_request \<times> 'w redis_conn) option" where
  "redis_loop e r s = do {
     (x, r1, s1) \<leftarrow> redis_recv e r s;
     case x of None \<Rightarrow> redis_loop e r1 s1 | Some ret \<Rightarrow> Some (ret, r1, s1)
   }"

definition redis_recv_packet :: "'w redis_env \<Rightarrow> 'w redis_conn \<Rightarrow> (int \<times> 'w redis_conn) option" where
  "redis_recv_packet e s =
     (if rc_object s = None \<and> \<not> re_malloc e then Some (- 1, s)
      else map_option (\<lambda>(ret, r, s1). (ret, s1\<lparr>rc_object := Some r\<rparr>))
        (redis_loop e (case rc_object s of None \<Rightarrow> redis_request_zero | Some r \<Rightarrow> r) s))"

subsection \<open>Splitting a command\<close>

lemma digits_loop_digits:
  "\<forall>d\<in>set ds. isdigit d \<Longrightarrow> \<not> isdigit c \<Longrightarrow>
     digits_loop (pre @ ds @ c # rest) (length pre) v = Some (foldl (\<lambda>v d. v * 10 + (unat d - 48)) v ds, length pre + length ds)"
proof (induction ds arbitrary: pre v)
  case Nil
  then show ?case by (simp add: digits_loop.simps nth_append)
next
  case (Cons d ds)
  have "digits_loop (pre @ (d # ds) @ c # rest) (length pre) v = digits_loop ((pre @ [d]) @ ds @ c # rest) (length (pre @ [d])) (v * 10 + (unat d - 48))"
    using Cons.prems by (subst digits_loop.simps) (simp add: nth_append)
  then show ?case using Cons.IH [of "pre @ [d]"] Cons.prems by simp
qed

lemma dec_digit: "n < 10 \<Longrightarrow> isdigit (48 + word_of_nat n) \<and> unat (48 + word_of_nat n :: u8) - 48 = n"
proof -
  assume n: "n < 10"
  have "unat (48 + word_of_nat n :: u8) = 48 + n" using n by (simp add: unat_word_ariths unat_of_nat)
  then show ?thesis using n by (simp add: isdigit_def word_le_nat_alt)
qed

lemma dec_value: "foldl (\<lambda>v d. v * 10 + (unat d - 48)) 0 (dec n) = n \<and> (\<forall>d\<in>set (dec n). isdigit d) \<and> dec n \<noteq> []"
proof (induction n rule: dec.induct)
  case (1 n)
  then show ?case using dec_digit [of n] dec_digit [of "n mod 10"] by (subst (1 2 3) dec.simps) auto
qed

lemma digit_char: "isdigit d \<Longrightarrow> \<not> isspace d \<and> d \<noteq> 43 \<and> d \<noteq> 45 \<and> d \<noteq> 13"
  by (auto simp: isdigit_def isspace_def word_le_nat_alt)

lemma skip_isspace_at: "\<not> isspace c \<Longrightarrow> skip_isspace (pre @ c # rest) (length pre) = Some (length pre)"
  by (simp add: skip_isspace.simps nth_append)

lemma mem_at_append: "mem_at (pre @ c # rest) (length pre) = Some c"
  by (simp add: mem_at_def)

lemma strtol_dec:
  assumes "n < 2 ^ 63"
  shows "strtol (pre @ dec n @ 13 # rest) (length pre) = Some (int n, length pre + length (dec n))"
proof -
  obtain d ds where d: "dec n = d # ds" using dec_value [of n] by (cases "dec n") auto
  have c: "\<not> isspace d \<and> d \<noteq> 43 \<and> d \<noteq> 45" using dec_value [of n] digit_char [of d] d by simp
  have l: "digits_loop (pre @ dec n @ 13 # rest) (length pre) 0 = Some (n, length pre + length (dec n))"
    using digits_loop_digits [of "dec n" 13 pre rest 0] dec_value [of n] by (simp add: isdigit_def)
  have q: "skip_isspace (pre @ dec n @ 13 # rest) (length pre) = Some (length pre)" "mem_at (pre @ dec n @ 13 # rest) (length pre) = Some d"
    using skip_isspace_at [of d pre] mem_at_append [of pre d] c d by simp_all
  show ?thesis using assms c dec_value [of n] by (simp add: strtol_def q l Let_def)
qed

lemma strtol_dec_neg:
  assumes "0 < n" "n < 2 ^ 63"
  shows "strtol (pre @ 45 # dec n @ 13 # rest) (length pre) = Some (- int n, length pre + 1 + length (dec n))"
proof -
  have l: "digits_loop (pre @ 45 # dec n @ 13 # rest) (length pre + 1) 0 = Some (n, length pre + 1 + length (dec n))"
    using digits_loop_digits [of "dec n" 13 "pre @ [45]" rest 0] dec_value [of n] by (simp add: isdigit_def)
  have q: "skip_isspace (pre @ 45 # dec n @ 13 # rest) (length pre) = Some (length pre)" "mem_at (pre @ 45 # dec n @ 13 # rest) (length pre) = Some 45"
    using skip_isspace_at [of 45 pre] mem_at_append [of pre 45] by (simp_all add: isspace_def)
  show ?thesis using assms dec_value [of n] l by (simp add: strtol_def q Let_def)
qed

lemma strtol_dec_int:
  assumes "- (2 ^ 63) < i" "i < 2 ^ 63"
  shows "strtol (pre @ dec_int i @ 13 # rest) (length pre) = Some (i, length pre + length (dec_int i))"
  using assms strtol_dec [of "nat i" pre rest] strtol_dec_neg [of "nat (- i)" pre rest] by (auto simp: dec_int_def)

lemma get_number_dec_int:
  assumes "- (2 ^ 31) \<le> i" "i < 2 ^ 31"
  shows "get_number (pre @ c # dec_int i @ CRLF @ rest) (length pre) = Some (Some (i, length pre + length (dec_int i) + 3))"
proof -
  let ?m = "pre @ c # dec_int i @ CRLF @ rest"
  have s: "strtol ?m (length pre + 1) = Some (i, length pre + 1 + length (dec_int i))"
    using strtol_dec_int [of i "pre @ [c]" "10 # rest"] assms by (simp add: CRLF_def)
  have a: "mem_at ?m (length pre + 1 + length (dec_int i)) = Some 13" "mem_at ?m (length pre + 1 + length (dec_int i) + 1) = Some 10"
    using mem_at_append [of "pre @ c # dec_int i" 13 "10 # rest"] mem_at_append [of "pre @ c # dec_int i @ [13]" 10 rest] by (simp_all add: CRLF_def)
  have "sint (word_of_int i :: u32) = i" using assms by (simp add: signed_of_int signed_take_bit_int_eq_self)
  then show ?thesis unfolding get_number_def s using a by simp
qed

lemma get_number_dec: "n < 2 ^ 31 \<Longrightarrow> get_number (pre @ c # dec n @ CRLF @ rest) (length pre) = Some (Some (int n, length pre + length (dec n) + 3))"
  using get_number_dec_int [of "int n" pre c rest] by (simp add: dec_int_def)

text \<open>What a client sends, and what becomes of it: a nil has no entry in the result.\<close>

datatype redis_value = Bulk bytes | Integer int | Nil

fun encode_value :: "redis_value \<Rightarrow> bytes" where
  "encode_value (Bulk v) = ascii ''$'' @ dec (length v) @ CRLF @ v @ CRLF"
| "encode_value (Integer i) = ascii '':'' @ dec_int i @ CRLF"
| "encode_value Nil = ascii ''$'' @ dec_int (- 1) @ CRLF"

fun value_strings :: "redis_value \<Rightarrow> bytes list" where
  "value_strings (Bulk v) = [v]"
| "value_strings (Integer i) = [dec_int i]"
| "value_strings Nil = []"

fun value_ok :: "redis_value \<Rightarrow> bool" where
  "value_ok (Bulk v) = (length v < 2 ^ 31)"
| "value_ok (Integer i) = (- (2 ^ 31) \<le> i \<and> i < 2 ^ 31)"
| "value_ok Nil = True"

definition encode_command :: "redis_value list \<Rightarrow> bytes" where
  "encode_command vs = ascii ''*'' @ dec (length vs) @ CRLF @ concat (map encode_value vs)"

text \<open>One value, from the state in which a length is expected.\<close>

definition parsed_value :: "bytes \<Rightarrow> nat \<Rightarrow> redis_value \<Rightarrow> nat \<Rightarrow> redis_parser \<Rightarrow> bool" where
  "parsed_value m pe v q s = (\<exists>s'. rp_state s' = Receive_length \<and> rp_p s' = q \<and> rp_result s' = rp_result s @ value_strings v \<and>
     parse_loop m pe s = (if q < pe then parse_loop m pe s' else Some s'))"

lemma parsed_step:
  "parse_step m s = Some s' \<Longrightarrow> rp_state s' = Receive_length \<Longrightarrow> rp_p s' = q \<Longrightarrow> rp_result s' = rp_result s @ value_strings v \<Longrightarrow> parsed_value m pe v q s"
  unfolding parsed_value_def by (subst parse_loop.simps) auto

lemma parse_bulk:
  assumes "length v < 2 ^ 31" "rp_state s = Receive_length" "rp_p s = length pre" "length (pre @ encode_value (Bulk v)) \<le> pe"
  shows "parsed_value (pre @ encode_value (Bulk v) @ rest) pe (Bulk v) (length (pre @ encode_value (Bulk v))) s"
proof -
  let ?m = "pre @ encode_value (Bulk v) @ rest" and ?q = "length pre + length (dec (length v)) + 3"
  have m: "?m = pre @ 36 # dec (length v) @ CRLF @ v @ CRLF @ rest" by (simp add: ascii_def)
  have a: "mem_at ?m (length pre) = Some 36" unfolding m by (rule mem_at_append)
  have n: "get_number ?m (length pre) = Some (Some (int (length v), ?q))" unfolding m by (rule get_number_dec [OF assms(1)])
  have r: "mem_read ?q (length v) ?m = Some v" unfolding m by (simp add: mem_read_def CRLF_def numeral_3_eq_3)
  have q: "?q < pe" "?q + length v + 2 = length (pre @ encode_value (Bulk v))" using assms(4) by (simp_all add: ascii_def CRLF_def)
  let ?s1 = "s\<lparr>rp_p := ?q, rp_length := int (length v), rp_state := Receive_string\<rparr>"
  have 1: "parse_step ?m s = Some ?s1" using assms(2,3) a n by (simp add: parse_step_def parse_length_def del: encode_value.simps)
  have "parsed_value ?m pe (Bulk v) (length (pre @ encode_value (Bulk v))) ?s1"
    by (rule parsed_step [where s' = "?s1\<lparr>rp_result := rp_result s @ [v], rp_p := ?q + length v + 2, rp_state := Receive_length\<rparr>"])
      (use r q in \<open>simp_all add: parse_step_def parse_string_def del: encode_value.simps\<close>)
  then show ?thesis unfolding parsed_value_def using q(1) by (subst parse_loop.simps) (simp add: 1 del: encode_value.simps)
qed

lemma parse_number:
  assumes "value_ok v" "v = Integer i \<or> v = Nil" "rp_state s = Receive_length" "rp_p s = length pre"
  shows "parsed_value (pre @ encode_value v @ rest) pe v (length (pre @ encode_value v)) s"
proof (cases v)
  case (Integer i)
  let ?m = "pre @ encode_value v @ rest"
  have m: "?m = pre @ 58 # dec_int i @ CRLF @ rest" by (simp add: Integer ascii_def)
  have a: "mem_at ?m (length pre) = Some 58" unfolding m by (rule mem_at_append)
  have n: "get_number ?m (length pre) = Some (Some (i, length pre + length (dec_int i) + 3))" unfolding m using assms(1) Integer get_number_dec_int [of i pre 58 rest] by simp
  have "parse_step ?m s = Some (s\<lparr>rp_p := length pre + length (dec_int i) + 3, rp_result := rp_result s @ [dec_int i]\<rparr>)"
    using assms(3,4) a n by (simp add: parse_step_def parse_length_def)
  then show ?thesis by (rule parsed_step) (use assms(3) Integer in \<open>simp_all add: ascii_def CRLF_def\<close>)
next
  case Nil
  let ?m = "pre @ encode_value v @ rest"
  have m: "?m = pre @ 36 # dec_int (- 1) @ CRLF @ rest" by (simp add: Nil ascii_def)
  have a: "mem_at ?m (length pre) = Some 36" unfolding m by (rule mem_at_append)
  have n: "get_number ?m (length pre) = Some (Some (- 1, length pre + length (dec_int (- 1)) + 3))" unfolding m using get_number_dec_int [of "- 1" pre 36 rest] by simp
  have "parse_step ?m s = Some (s\<lparr>rp_p := length pre + length (dec_int (- 1)) + 3\<rparr>)"
    using assms(3,4) a n by (simp add: parse_step_def parse_length_def)
  then show ?thesis by (rule parsed_step) (use assms(3) Nil in \<open>simp_all add: ascii_def CRLF_def\<close>)
qed (use assms(2) in simp)

lemma parse_value:
  assumes "value_ok v" "rp_state s = Receive_length" "rp_p s = length pre" "length (pre @ encode_value v) \<le> pe"
  shows "parsed_value (pre @ encode_value v @ rest) pe v (length (pre @ encode_value v)) s"
  using assms parse_bulk [of _ s pre pe rest] parse_number [of v _ s pre rest pe] by (cases v) (auto simp del: encode_value.simps)

lemma encode_value_length: "0 < length (encode_value v)"
  by (cases v) (simp_all add: ascii_def)

lemma parse_values:
  assumes "\<forall>v\<in>set vs. value_ok v" "vs \<noteq> []" "rp_state s = Receive_length" "rp_p s = length pre"
  shows "map_option rp_result (parse_loop (pre @ concat (map encode_value vs)) (length (pre @ concat (map encode_value vs))) s) = Some (rp_result s @ concat (map value_strings vs))"
  using assms
proof (induction vs arbitrary: pre s)
  case (Cons v vs)
  let ?m = "pre @ concat (map encode_value (v # vs))"
  have "parsed_value (pre @ encode_value v @ concat (map encode_value vs)) (length ?m) v (length (pre @ encode_value v)) s"
    using Cons.prems by (intro parse_value) simp_all
  then obtain s' where s': "rp_state s' = Receive_length" "rp_p s' = length (pre @ encode_value v)" "rp_result s' = rp_result s @ value_strings v"
      "parse_loop ?m (length ?m) s = (if length (pre @ encode_value v) < length ?m then parse_loop ?m (length ?m) s' else Some s')"
    unfolding parsed_value_def by auto
  show ?case
  proof (cases "vs = []")
    case True
    then show ?thesis using s' by simp
  next
    case False
    then have "length (pre @ encode_value v) < length ?m" using encode_value_length by (cases vs) simp_all
    then show ?thesis using Cons.IH [OF _ False s'(1,2)] Cons.prems s'(3,4) by simp
  qed
qed simp

lemma redis_parse_command:
  assumes "\<forall>v\<in>set vs. value_ok v" "length vs < 2 ^ 31"
  shows "redis_parse (encode_command vs) (length (encode_command vs)) = Some (concat (map value_strings vs))"
proof -
  let ?m = "encode_command vs" and ?s = "\<lparr>rp_state = Receive_total_line, rp_p = 0, rp_length = 0, rp_result = []\<rparr>" and ?pre = "ascii ''*'' @ dec (length vs) @ CRLF"
  have m: "?m = [] @ 42 # dec (length vs) @ CRLF @ concat (map encode_value vs)" by (simp add: encode_command_def ascii_def)
  have a: "mem_at ?m 0 = Some 42" unfolding m using mem_at_append [of "[]" 42] by simp
  have n: "get_number ?m 0 = Some (Some (int (length vs), length ?pre))" unfolding m using get_number_dec [OF assms(2), of "[]" 42] by (simp add: ascii_def CRLF_def)
  let ?s1 = "?s\<lparr>rp_p := length ?pre, rp_state := Receive_length\<rparr>"
  have 1: "parse_step ?m ?s = Some ?s1" using a n by (simp add: parse_step_def)
  show ?thesis
  proof (cases "vs = []")
    case True
    then have "\<not> length ?pre < length ?m" by (simp add: encode_command_def)
    then show ?thesis using True 1 by (simp add: redis_parse_def parse_loop.simps)
  next
    case False
    then have "length ?pre < length ?m" using encode_value_length by (cases vs) (simp_all add: encode_command_def)
    then have "parse_loop ?m (length ?m) ?s = parse_loop ?m (length ?m) ?s1" using 1 by (subst parse_loop.simps) simp
    then show ?thesis using parse_values [OF assms(1) False, of ?s1 ?pre] by (simp add: redis_parse_def encode_command_def)
  qed
qed

lemma string_format_spec:
  assumes "allocator_ok al" "string_inv s" "txt \<noteq> []"
  obtains s' where "string_format al txt s = Some (length txt, s')" "string_inv s'" "string_value s' = txt"
proof -
  obtain s1 where s1: "(if length txt + 1 > st_size s then string_reserve al (length txt + 1) s else Some s) = Some s1" "length txt + 1 \<le> st_size s1"
  proof (cases "length txt + 1 > st_size s")
    case True
    then have "st_length s \<le> length txt + 1" using assms(2) by (simp add: string_inv_def)
    then obtain s' where "string_reserve al (length txt + 1) s = Some s'" "st_size s' = mem_aligned_size (length txt + 1)" by (rule string_reserve_spec [OF assms(1,2)]) blast
    then show ?thesis using that True mem_aligned_size_ge [of "length txt + 1"] by simp
  next
    case False
    then show ?thesis using that by simp
  qed
  then have "mem_write 0 (txt @ [0]) (st_mem s1) = Some (txt @ 0 # drop (length txt + 1) (st_mem s1))" by (simp add: mem_write_def)
  then show ?thesis using that [of "s1\<lparr>st_mem := txt @ 0 # drop (length txt + 1) (st_mem s1), st_length := length txt\<rparr>"] s1(1) assms(3)
    by (simp add: string_format_def string_inv_def string_value_def)
qed

lemma redis_format_string:
  assumes "allocator_ok al" "string_inv s" "v \<noteq> []" "length v \<le> OSW_REDIS_MAX_STRING_SIZE"
  shows "\<exists>s'. redis_format al Reply_string v s = Some (True, s') \<and> string_value s' = encode_value (Bulk v)"
proof -
  let ?t = "ascii ''$'' @ dec (length v) @ CRLF"
  have t: "?t \<noteq> []" by (simp add: ascii_def)
  obtain s1 where s1: "string_format al ?t s = Some (length ?t, s1)" "string_inv s1" "string_value s1 = ?t" by (rule string_format_spec [OF assms(1,2) t])
  obtain s2 where s2: "string_append al v s1 = Some s2" "string_inv s2" "string_value s2 = ?t @ v" by (rule string_append_spec [OF assms(1) s1(2), of v]) (use s1(3) in auto)
  obtain s3 where "string_append al CRLF s2 = Some s3" "string_value s3 = (?t @ v) @ CRLF" by (rule string_append_spec [OF assms(1) s2(2), of CRLF]) (use s2(3) in auto)
  then show ?thesis using s1(1) s2(1) t assms(3,4) by (auto simp: redis_format_def)
qed

text \<open>
  C25. Redis values survive the protocol: a command of strings, integers and nils is split into exactly its strings and the numbers as text, the nils left
  out; and a string that is formatted as a reply, into a buffer with any contents, is read back as that string.
\<close>

theorem redis_roundtrip:
  assumes "\<forall>v\<in>set vs. value_ok v" "length vs < 2 ^ 31" "allocator_ok al" "string_inv s" "v \<noteq> []" "length v \<le> OSW_REDIS_MAX_STRING_SIZE"
  shows "redis_parse (encode_command vs) (length (encode_command vs)) = Some (concat (map value_strings vs)) \<and>
    (\<exists>s'. redis_format al Reply_string v s = Some (True, s') \<and> redis_parse (string_value s') (length (string_value s')) = Some [v])"
proof -
  obtain s' where s': "redis_format al Reply_string v s = Some (True, s')" "string_value s' = encode_value (Bulk v)" using redis_format_string [OF assms(3-6)] by blast
  let ?m = "encode_value (Bulk v)" and ?s = "\<lparr>rp_state = Receive_total_line, rp_p = 0, rp_length = 0, rp_result = []\<rparr>"
  have "mem_at ?m 0 = Some 36" "get_number ?m 0 = Some (Some (int (length v), length (dec (length v)) + 3))"
    using get_number_dec [of "length v" "[]" 36 "v @ CRLF"] assms(6) by (simp_all add: ascii_def mem_at_def OSW_REDIS_MAX_STRING_SIZE_def)
  then have "parse_step ?m ?s = parse_step ?m (?s\<lparr>rp_state := Receive_length\<rparr>)" by (simp add: parse_step_def parse_length_def)
  then have "parse_loop ?m (length ?m) ?s = parse_loop ?m (length ?m) (?s\<lparr>rp_state := Receive_length\<rparr>)" by (subst (1 2) parse_loop.simps) (simp only:)
  then have "redis_parse ?m (length ?m) = Some [v]"
    using parse_values [of "[Bulk v]" "?s\<lparr>rp_state := Receive_length\<rparr>" "[]"] assms(6) by (simp add: redis_parse_def OSW_REDIS_MAX_STRING_SIZE_def)
  then show ?thesis using s' redis_parse_command [OF assms(1,2)] by simp
qed

theorem redis_roundtrip_witness:
  "redis_parse (encode_command [Bulk (ascii ''GET''), Integer 7, Nil]) (length (encode_command [Bulk (ascii ''GET''), Integer 7, Nil])) = Some [ascii ''GET'', dec_int 7]"
  using redis_roundtrip [of "[Bulk (ascii ''GET''), Integer 7, Nil]" "\<lambda>n. Some (replicate n 0)" "\<lparr>st_mem = [], st_length = 0, st_offset = 0\<rparr>" "ascii ''a''"]
  by (simp add: ascii_def allocator_ok_def string_inv_def OSW_REDIS_MAX_STRING_SIZE_def)

subsection \<open>Delivery of a command\<close>

text \<open>What the last line of a command leads to.\<close>

definition redis_deliver :: "'w redis_env \<Rightarrow> redis_request \<Rightarrow> 'w redis_conn \<Rightarrow> int \<times> redis_request \<times> 'w redis_conn" where
  "redis_deliver e r s =
     (let b = rc_buffer s; (ret, w) = re_package e (string_value b) (rc_world s); s' = s\<lparr>rc_buffer := b\<lparr>st_offset := int (st_length b)\<rparr>, rc_world := w\<rparr>
      in if ret < 0 then (- 1, r, s') else if re_removed e w then (0, r, s') else (0, redis_request_zero, s'\<lparr>rc_buffer := string_clear (rc_buffer s')\<rparr>))"

lemma redis_deliver_offset: "redis_deliver e r (s\<lparr>rc_buffer := (rc_buffer s)\<lparr>st_offset := int (st_length (rc_buffer s))\<rparr>\<rparr>) = redis_deliver e r s"
  by (simp add: redis_deliver_def Let_def string_value_def split: prod.splits)

lemma redis_scan_bulk:
  assumes "rr_state r = Receive_length" "rr_n_bytes_received r = 0" "st_mem (rc_buffer s) = pre @ encode_value (Bulk v) @ rest" "length (pre @ encode_value (Bulk v)) \<le> st_length (rc_buffer s)"
    "string_inv (rc_buffer s)" "st_length (rc_buffer s) \<le> re_max e" "length v < 2 ^ 31"
  defines "r1 \<equiv> r\<lparr>rr_n_bytes_total := 0, rr_n_lines_received := rr_n_lines_received r + 1\<rparr>"
  shows "redis_scan e (length pre) r s =
    (if rr_n_lines_received r1 = rr_n_lines_total r then Some (redis_deliver e r1 s)
     else let q = length (pre @ encode_value (Bulk v)); s1 = s\<lparr>rc_buffer := (rc_buffer s)\<lparr>st_offset := int (st_length (rc_buffer s))\<rparr>\<rparr>
       in if q < st_length (rc_buffer s) then redis_scan e q r1 s1 else Some (- 1, r1, s1))"
proof -
  let ?b = "rc_buffer s" and ?q = "length pre + length (dec (length v)) + 3" and ?l = "length (pre @ encode_value (Bulk v))"
  have m: "st_mem ?b = pre @ 36 # dec (length v) @ CRLF @ v @ CRLF @ rest" using assms(3) by (simp add: ascii_def)
  have a: "mem_at (st_mem ?b) (length pre) = Some 36" unfolding m by (rule mem_at_append)
  have n: "get_number (st_mem ?b) (length pre) = Some (Some (int (length v), ?q))" unfolding m by (rule get_number_dec [OF assms(7)])
  have q: "?q + length v + 2 = ?l" "?q + length v + 2 \<le> st_length ?b" using assms(4) by (simp_all add: ascii_def CRLF_def)
  let ?r = "r\<lparr>rr_n_bytes_total := int (length v), rr_state := Receive_string\<rparr>"
  have "redis_case e (length pre) r s = Some (R_at ?q, ?r, s)" using assms(1,6) a n q(2) by (simp add: redis_case_def redis_length_def Let_def)
  then have 1: "redis_scan e (length pre) r s = redis_scan e ?q ?r s" using q(2) by (subst redis_scan.simps) simp
  have r1: "?r\<lparr>rr_n_bytes_total := 0, rr_n_lines_received := rr_n_lines_received r + 1, rr_state := Receive_length\<rparr> = r1" using assms(1) by (simp add: r1_def)
  have v: "mem_read 0 (st_length ?b) (st_mem ?b) = Some (string_value ?b)" using assms(5) by (simp add: mem_read_def string_inv_def string_value_def)
  have p: "nat (int ?q + int (length v) + 2) = ?l" "\<not> int (st_length ?b) - int ?q < int (length v) - 0" using q by linarith+
  show ?thesis
  proof (cases "rr_n_lines_received r1 = rr_n_lines_total r")
    case True
    have "redis_case e ?q ?r s = Some (case redis_deliver e r1 s of (ret, r2, s2) \<Rightarrow> (R_return ret, r2, s2))"
      using assms(2) True v p(2) r1 by (auto simp: redis_case_def redis_string_def redis_deliver_def Let_def r1_def split: prod.splits)
    then show ?thesis unfolding 1 using True by (subst redis_scan.simps) (simp split: prod.splits)
  next
    case False
    have "redis_case e ?q ?r s = Some (R_at ?l, r1, s\<lparr>rc_buffer := ?b\<lparr>st_offset := int (st_length ?b)\<rparr>\<rparr>)"
      using assms(2) False p r1 by (simp add: redis_case_def redis_string_def Let_def r1_def del: encode_value.simps)
    then show ?thesis unfolding 1 using False by (subst redis_scan.simps) (simp add: Let_def del: encode_value.simps)
  qed
qed

lemma redis_scan_bulks:
  assumes "rr_state r = Receive_length" "rr_n_bytes_received r = 0" "args \<noteq> []" "rr_n_lines_received r + int (length args) = rr_n_lines_total r"
    "string_value (rc_buffer s) = pre @ concat (map encode_value (map Bulk args))" "string_inv (rc_buffer s)"
    "st_length (rc_buffer s) \<le> re_max e" "st_length (rc_buffer s) < 2 ^ 31"
  shows "\<exists>r'. redis_scan e (length pre) r s = Some (redis_deliver e r' s)"
  using assms
proof (induction args arbitrary: pre r s)
  case (Cons v args)
  let ?b = "rc_buffer s" and ?rest = "concat (map encode_value (map Bulk args)) @ drop (st_length (rc_buffer s)) (st_mem (rc_buffer s))"
  let ?s1 = "s\<lparr>rc_buffer := ?b\<lparr>st_offset := int (st_length ?b)\<rparr>\<rparr>"
  let ?r1 = "r\<lparr>rr_n_bytes_total := 0, rr_n_lines_received := rr_n_lines_received r + 1\<rparr>"
  have "st_mem ?b = string_value ?b @ drop (st_length ?b) (st_mem ?b)" by (simp add: string_value_def)
  then have m: "st_mem ?b = pre @ encode_value (Bulk v) @ ?rest" using Cons.prems(5) by simp
  have l: "st_length ?b = length (pre @ encode_value (Bulk v)) + length (concat (map encode_value (map Bulk args)))"
    using arg_cong [OF Cons.prems(5), of length] Cons.prems(6) by (simp add: string_value_def string_inv_def)
  have v: "length (pre @ encode_value (Bulk v)) \<le> st_length ?b" "length v < 2 ^ 31" using l Cons.prems(8) by simp_all
  note scan = redis_scan_bulk [OF Cons.prems(1,2) m v(1) Cons.prems(6,7) v(2)]
  show ?case
  proof (cases "args = []")
    case True
    then show ?thesis using scan Cons.prems(4) by auto
  next
    case False
    then have "length (pre @ encode_value (Bulk v)) < st_length ?b" using l encode_value_length by (cases args) (simp_all del: encode_value.simps)
    moreover have "rr_n_lines_received r + 1 \<noteq> rr_n_lines_total r" using Cons.prems(4) False by (cases args) simp_all
    ultimately have "redis_scan e (length pre) r s = redis_scan e (length (pre @ encode_value (Bulk v))) ?r1 ?s1" using scan by (simp add: Let_def del: encode_value.simps)
    then show ?thesis using Cons.IH [of ?r1 ?s1 "pre @ encode_value (Bulk v)"] False Cons.prems
      by (simp add: string_value_def string_inv_def redis_deliver_offset del: encode_value.simps)
  qed
qed simp

lemma redis_scan_command:
  assumes "args \<noteq> []" "string_value (rc_buffer s) = encode_command (map Bulk args)" "string_inv (rc_buffer s)"
    "st_length (rc_buffer s) \<le> re_max e" "st_length (rc_buffer s) < 2 ^ 31"
  shows "\<exists>r'. redis_scan e 0 redis_request_zero s = Some (redis_deliver e r' s)"
proof -
  let ?b = "rc_buffer s" and ?pre = "ascii ''*'' @ dec (length args) @ CRLF"
  let ?r = "redis_request_zero\<lparr>rr_n_lines_total := int (length args), rr_state := Receive_length\<rparr>"
  have v: "string_value ?b = ?pre @ concat (map encode_value (map Bulk args))" using assms(2) by (simp add: encode_command_def)
  have "st_mem ?b = string_value ?b @ drop (st_length ?b) (st_mem ?b)" by (simp add: string_value_def)
  then obtain rest where m: "st_mem ?b = [] @ 42 # dec (length args) @ CRLF @ rest" using v by (simp add: ascii_def)
  have l: "st_length ?b = length ?pre + length (concat (map encode_value (map Bulk args)))" using arg_cong [OF v, of length] assms(3) by (simp add: string_value_def string_inv_def)
  have args: "length xs \<le> length (concat (map encode_value (map Bulk xs)))" for xs :: "bytes list"
    using encode_value_length by (induction xs) (simp_all add: ascii_def)
  have n: "get_number (st_mem ?b) 0 = Some (Some (int (length args), length ?pre))"
    using get_number_dec [of "length args" "[]" 42] args [of args] l assms(5) unfolding m by (simp add: ascii_def CRLF_def)
  have "mem_at (st_mem ?b) 0 = Some 42" unfolding m using mem_at_append [of "[]" 42] by simp
  then have "redis_case e 0 redis_request_zero s = Some (R_at (length ?pre), ?r, s)" using n by (simp add: redis_case_def redis_request_zero_def)
  moreover have "0 < length args" using assms(1) by simp
  then have "length ?pre < st_length ?b" using l args [of args] by linarith
  ultimately have "redis_scan e 0 redis_request_zero s = redis_scan e (length ?pre) ?r s" by (subst redis_scan.simps) simp
  then show ?thesis using redis_scan_bulks [of ?r args s ?pre e] assms v by (simp add: redis_request_zero_def)
qed

definition redis_wf :: "'w redis_env \<Rightarrow> bool" where
  "redis_wf e \<longleftrightarrow> allocator_ok (re_alloc e) \<and> re_malloc e \<and> 2 * re_max e + re_pagesize e + 16 < 2 ^ 32"

text \<open>What has been received before the whole command is there has two bytes and no line end.\<close>

definition no_line_end :: "bytes \<Rightarrow> bool" where
  "no_line_end t \<longleftrightarrow> 2 \<le> length t \<and> drop (length t - 2) t \<noteq> CRLF"

lemma redis_receive:
  assumes "string_inv b" "sock_recv (st_size b - st_length b) es = (Got c, es')" "st_length b + length c \<le> st_size b"
  obtains m where "mem_write (st_length b) c (st_mem b) = Some m" "length m = st_size b" "take (st_length b + length c) m = string_value b @ c"
    "2 \<le> st_length b + length c \<Longrightarrow> mem_read (st_length b + length c - 2) 2 m = Some (drop (length (string_value b @ c) - 2) (string_value b @ c))"
proof -
  let ?m = "take (st_length b) (st_mem b) @ c @ drop (st_length b + length c) (st_mem b)"
  have m: "mem_write (st_length b) c (st_mem b) = Some ?m" "length ?m = st_size b" "take (st_length b + length c) ?m = string_value b @ c"
    using assms(1,3) by (simp_all add: mem_write_def string_value_def string_inv_def)
  have "drop (st_length b + length c - 2) (take (st_length b + length c) ?m) = take 2 (drop (st_length b + length c - 2) ?m)" if "2 \<le> st_length b + length c"
    using that by (simp only: drop_take) simp
  moreover have "length (string_value b @ c) = st_length b + length c" using assms(1) by (simp add: string_value_def string_inv_def)
  ultimately have "2 \<le> st_length b + length c \<Longrightarrow> mem_read (st_length b + length c - 2) 2 ?m = Some (drop (length (string_value b @ c) - 2) (string_value b @ c))"
    using m(2,3) assms(3) unfolding mem_read_def by simp
  then show ?thesis using that [of ?m] m by blast
qed

lemma redis_recv_more:
  assumes "redis_wf e" "string_inv (rc_buffer s)" "rc_events s = Seg c # es" "c \<noteq> []" "no_line_end (string_value (rc_buffer s) @ c)" "st_length (rc_buffer s) + length c < st_size (rc_buffer s)"
  obtains b where "redis_recv e r s = Some (None, r, s\<lparr>rc_events := es, rc_buffer := b\<rparr>)" "string_inv b" "string_value b = string_value (rc_buffer s) @ c" "st_size (rc_buffer s) \<le> st_size b"
proof -
  let ?b = "rc_buffer s"
  have rv: "sock_recv (st_size ?b - st_length ?b) (rc_events s) = (Got c, es)" using assms(3,6) by simp
  obtain m where m: "mem_write (st_length ?b) c (st_mem ?b) = Some m" "length m = st_size ?b" "take (st_length ?b + length c) m = string_value ?b @ c"
      "2 \<le> st_length ?b + length c \<Longrightarrow> mem_read (st_length ?b + length c - 2) 2 m = Some (drop (length (string_value ?b @ c) - 2) (string_value ?b @ c))"
    by (rule redis_receive [OF assms(2) rv]) (use assms(6) in auto)
  define b1 where "b1 = ?b\<lparr>st_mem := m, st_length := st_length ?b + length c\<rparr>"
  have b1: "string_inv b1" "string_value b1 = string_value ?b @ c" "st_size b1 = st_size ?b" "st_length b1 = st_length ?b + length c" using m assms(6) by (simp_all add: b1_def string_inv_def string_value_def)
  have l: "2 \<le> st_length ?b + length c" "drop (length (string_value ?b @ c) - 2) (string_value ?b @ c) \<noteq> CRLF"
    using assms(2,5) by (simp_all add: no_line_end_def string_value_def string_inv_def)
  let ?n = "min (openswoole_size_align (st_size b1 * 2) (re_pagesize e) mod 2 ^ 32) (re_max e)"
  have rec: "redis_recv e r s = (if st_size b1 < re_max e
      then (case string_extend (re_alloc e) ?n b1 of None \<Rightarrow> None | Some b2 \<Rightarrow> Some (None, r, s\<lparr>rc_events := es, rc_buffer := b2\<rparr>))
      else Some (None, r, s\<lparr>rc_events := es, rc_buffer := b1\<rparr>))"
    using rv m(1,4) l assms(4,6) b1(3,4) by (simp add: redis_recv_def Let_def b1_def split: option.splits)
  show ?thesis
  proof (cases "st_size b1 < re_max e")
    case True
    have "openswoole_size_align (st_size b1 * 2) (re_pagesize e) < 2 ^ 32" "st_size b1 < openswoole_size_align (st_size b1 * 2) (re_pagesize e)"
      using assms(1) True assms(6) b1(3) unfolding redis_wf_def openswoole_size_align_def by linarith+
    then have n: "st_size b1 < ?n" using True by simp
    obtain b2 where b2: "string_reserve (re_alloc e) ?n b1 = Some b2" "string_inv b2" "string_value b2 = string_value b1" "st_size b2 = mem_aligned_size ?n"
      by (rule string_reserve_spec [OF _ b1(1), of "re_alloc e" ?n]) (use assms(1) b1(1) n in \<open>auto simp: redis_wf_def string_inv_def\<close>)
    have "st_size ?b \<le> st_size b2" using n mem_aligned_size_ge [of ?n] b1(3) unfolding b2(4) by linarith
    then show ?thesis using that [of b2] rec True b2(1-3) n b1(2) by (simp add: string_extend_def)
  next
    case False
    then show ?thesis using that [of b1] rec b1 by simp
  qed
qed

lemma redis_recv_last:
  assumes "string_inv (rc_buffer s)" "rc_events s = Seg c # es" "c \<noteq> []" "string_value (rc_buffer s) @ c = t @ CRLF" "st_length (rc_buffer s) + length c \<le> st_size (rc_buffer s)"
  obtains b where "redis_recv e r s = map_option (\<lambda>(ret, r1, s2). (Some ret, r1, s2)) (redis_scan e 0 r (s\<lparr>rc_events := es, rc_buffer := b\<rparr>))"
    "string_inv b" "string_value b = t @ CRLF" "st_length b = length (t @ CRLF)"
proof -
  let ?b = "rc_buffer s"
  have rv: "sock_recv (st_size ?b - st_length ?b) (rc_events s) = (Got c, es)" using assms(2,5) by simp
  obtain m where m: "mem_write (st_length ?b) c (st_mem ?b) = Some m" "length m = st_size ?b" "take (st_length ?b + length c) m = string_value ?b @ c"
      "2 \<le> st_length ?b + length c \<Longrightarrow> mem_read (st_length ?b + length c - 2) 2 m = Some (drop (length (string_value ?b @ c) - 2) (string_value ?b @ c))"
    by (rule redis_receive [OF assms(1) rv]) (use assms(5) in auto)
  define b1 where "b1 = ?b\<lparr>st_mem := m, st_length := st_length ?b + length c\<rparr>"
  have len: "st_length ?b + length c = length (t @ CRLF)" using arg_cong [OF assms(4), of length] assms(1) by (simp add: string_value_def string_inv_def)
  have b1: "string_inv b1" "string_value b1 = t @ CRLF" "st_length b1 = length (t @ CRLF)" using m assms(4,5) len by (simp_all add: b1_def string_inv_def string_value_def)
  have "mem_read (st_length ?b + length c - 2) 2 m = Some CRLF" using m(4) len unfolding assms(4) by (simp add: CRLF_def)
  then have "redis_recv e r s = map_option (\<lambda>(ret, r1, s2). (Some ret, r1, s2)) (redis_scan e 0 r (s\<lparr>rc_events := es, rc_buffer := b1\<rparr>))"
    using rv m(1) len assms(3) by (simp add: redis_recv_def Let_def b1_def CRLF_def)
  then show ?thesis using that b1 by blast
qed

lemma encode_command_end: "args \<noteq> [] \<Longrightarrow> \<exists>t. encode_command (map Bulk args) = t @ CRLF"
  by (cases args rule: rev_cases) (auto simp: encode_command_def)

lemma redis_loop_delivers:
  assumes "redis_wf e" "args \<noteq> []" "length (encode_command (map Bulk args)) \<le> re_max e" "length (encode_command (map Bulk args)) < 2 ^ 31"
    and "string_inv (rc_buffer s)" "rc_events s = map Seg cs @ es" "string_value (rc_buffer s) @ concat cs = encode_command (map Bulk args)" "cs \<noteq> []" "[] \<notin> set cs"
    "\<forall>k. 0 < k \<and> k < length cs \<longrightarrow> no_line_end (string_value (rc_buffer s) @ concat (take k cs))" "length (encode_command (map Bulk args)) \<le> st_size (rc_buffer s)"
  shows "\<exists>r b. redis_loop e redis_request_zero s = Some (redis_deliver e r (s\<lparr>rc_events := es, rc_buffer := b\<rparr>)) \<and> string_inv b \<and> string_value b = encode_command (map Bulk args)"
  using assms(5-)
proof (induction cs arbitrary: s)
  case (Cons c cs)
  let ?b = "rc_buffer s" and ?cmd = "encode_command (map Bulk args)"
  have ev: "rc_events s = Seg c # map Seg cs @ es" "c \<noteq> []" using Cons.prems by auto
  have len: "st_length ?b + length c + length (concat cs) = length ?cmd" using arg_cong [OF Cons.prems(3), of length] Cons.prems(1) by (simp add: string_value_def string_inv_def)
  show ?case
  proof (cases "cs = []")
    case True
    obtain t where t: "?cmd = t @ CRLF" using encode_command_end [OF assms(2)] by blast
    obtain b where b: "redis_recv e redis_request_zero s = map_option (\<lambda>(ret, r1, s2). (Some ret, r1, s2)) (redis_scan e 0 redis_request_zero (s\<lparr>rc_events := map Seg cs @ es, rc_buffer := b\<rparr>))"
        "string_inv b" "string_value b = t @ CRLF" "st_length b = length (t @ CRLF)"
      by (rule redis_recv_last [OF Cons.prems(1) ev]) (use Cons.prems(3,7) True t len in auto)
    obtain r where "redis_scan e 0 redis_request_zero (s\<lparr>rc_events := map Seg cs @ es, rc_buffer := b\<rparr>) = Some (redis_deliver e r (s\<lparr>rc_events := map Seg cs @ es, rc_buffer := b\<rparr>))"
      using redis_scan_command [OF assms(2), of "s\<lparr>rc_events := map Seg cs @ es, rc_buffer := b\<rparr>" e] b assms(3,4) t by auto
    then have "redis_loop e redis_request_zero s = Some (redis_deliver e r (s\<lparr>rc_events := es, rc_buffer := b\<rparr>))"
      using b(1) True by (subst redis_loop.simps) (simp split: prod.splits)
    then show ?thesis using b(2,3) t by auto
  next
    case False
    have "0 < length (concat cs)" using Cons.prems(5) False by (cases cs) auto
    then have room: "st_length ?b + length c < st_size ?b" using len Cons.prems(7) by linarith
    have nl: "no_line_end (string_value ?b @ c)" using Cons.prems(6) [rule_format, of 1] False by simp
    obtain b where b: "redis_recv e redis_request_zero s = Some (None, redis_request_zero, s\<lparr>rc_events := map Seg cs @ es, rc_buffer := b\<rparr>)" "string_inv b"
        "string_value b = string_value ?b @ c" "st_size ?b \<le> st_size b"
      by (rule redis_recv_more [OF assms(1) Cons.prems(1) ev nl room])
    let ?s = "s\<lparr>rc_events := map Seg cs @ es, rc_buffer := b\<rparr>"
    have nl': "\<forall>k. 0 < k \<and> k < length cs \<longrightarrow> no_line_end (string_value b @ concat (take k cs))"
    proof (intro allI impI)
      fix k
      assume "0 < k \<and> k < length cs"
      then show "no_line_end (string_value b @ concat (take k cs))" using Cons.prems(6) [rule_format, of "Suc k"] b(3) by simp
    qed
    obtain r b' where "redis_loop e redis_request_zero ?s = Some (redis_deliver e r (?s\<lparr>rc_events := es, rc_buffer := b'\<rparr>))" "string_inv b'" "string_value b' = ?cmd"
      using Cons.IH [of ?s] b(2-4) nl' False Cons.prems(3,5,7) by auto
    moreover have "redis_loop e redis_request_zero s = redis_loop e redis_request_zero ?s" using b(1) by (subst redis_loop.simps) simp
    ultimately show ?thesis by auto
  qed
qed simp

text \<open>The connection is as new: nothing received, and no object or one that has been reset.\<close>

definition redis_idle :: "'w redis_env \<Rightarrow> 'w redis_conn \<Rightarrow> bool" where
  "redis_idle e s \<longleftrightarrow> re_malloc e \<and> string_inv (rc_buffer s) \<and> st_length (rc_buffer s) = 0 \<and> (rc_object s = None \<or> rc_object s = Some redis_request_zero)"

lemma redis_recv_idle: "redis_idle e s \<Longrightarrow> redis_recv_packet e s = map_option (\<lambda>(ret, r, s1). (ret, s1\<lparr>rc_object := Some r\<rparr>)) (redis_loop e redis_request_zero s)"
  by (auto simp: redis_idle_def redis_recv_packet_def)

text \<open>
  C21. Delivery of a Redis command: a command of strings that fits into the receive buffer is handed over once and whole, however its bytes are split on the
  way, as long as no part but the last ends with a line; its arguments are what the parser then finds, and the connection is ready for the next command.
\<close>

theorem redis_command_delivered:
  assumes "redis_wf e" "redis_idle e s" "args \<noteq> []" "length (encode_command (map Bulk args)) \<le> re_max e" "length (encode_command (map Bulk args)) < 2 ^ 31"
    and "length (encode_command (map Bulk args)) \<le> st_size (rc_buffer s)" "rc_events s = map Seg cs @ es" "concat cs = encode_command (map Bulk args)" "[] \<notin> set cs"
    and "\<forall>k. 0 < k \<and> k < length cs \<longrightarrow> no_line_end (concat (take k cs))"
    and "re_package e (encode_command (map Bulk args)) (rc_world s) = (ret, w)"
  shows "\<exists>s'. redis_recv_packet e s = Some (if ret < 0 then - 1 else 0, s') \<and> rc_world s' = w \<and> rc_events s' = es \<and>
    (0 \<le> ret \<and> \<not> re_removed e w \<longrightarrow> redis_idle e s') \<and>
    redis_parse (encode_command (map Bulk args)) (length (encode_command (map Bulk args))) = Some args"
proof -
  let ?cmd = "encode_command (map Bulk args)"
  have b: "string_inv (rc_buffer s)" "string_value (rc_buffer s) = []" "re_malloc e" using assms(2) by (simp_all add: redis_idle_def string_value_def)
  have "cs \<noteq> []" using assms(8) encode_command_end [OF assms(3)] by (auto simp: CRLF_def)
  then obtain r b' where d: "redis_loop e redis_request_zero s = Some (redis_deliver e r (s\<lparr>rc_events := es, rc_buffer := b'\<rparr>))" "string_inv b'" "string_value b' = ?cmd"
    using redis_loop_delivers [OF assms(1,3-5) b(1) assms(7) _ _ assms(9) _ assms(6)] assms(8,10) b(2) by auto
  have a: "length xs \<le> length (concat (map encode_value (map Bulk xs)))" for xs :: "bytes list" using encode_value_length by (induction xs) (simp_all add: ascii_def)
  have v: "length v \<le> length (concat (map encode_value (map Bulk xs)))" if "v \<in> set xs" for v xs using that by (induction xs) auto
  have "\<forall>v\<in>set (map Bulk args). value_ok v" "length (map Bulk args) < 2 ^ 31" using v [of _ args] a [of args] assms(5) by (fastforce simp: encode_command_def)+
  then have "redis_parse ?cmd (length ?cmd) = Some args" using redis_parse_command [of "map Bulk args"] by (simp add: comp_def)
  moreover have "redis_idle e (t\<lparr>rc_buffer := string_clear c, rc_object := Some redis_request_zero\<rparr>)" for t :: "'a redis_conn" and c
    using b(3) by (simp add: redis_idle_def string_clear_def string_inv_def)
  ultimately show ?thesis unfolding redis_recv_idle [OF assms(2)] d(1) using d(3) assms(11) by (simp add: redis_deliver_def Let_def)
qed

definition sample_redis :: "bytes list redis_env" where
  "sample_redis = \<lparr>re_max = 1024, re_pagesize = 4096, re_malloc = True, re_alloc = (\<lambda>n. Some (replicate n 0)), re_package = (\<lambda>d w. (0, w @ [d])), re_removed = (\<lambda>w. False)\<rparr>"

definition sample_conn :: "recv_event list \<Rightarrow> bytes list redis_conn" where
  "sample_conn es = \<lparr>rc_object = None, rc_buffer = \<lparr>st_mem = replicate 64 0, st_length = 0, st_offset = 0\<rparr>, rc_events = es, rc_world = []\<rparr>"

lemma sample_redis_idle: "redis_wf sample_redis" "redis_idle sample_redis (sample_conn es)"
  by (simp_all add: redis_wf_def sample_redis_def allocator_ok_def redis_idle_def sample_conn_def string_inv_def)

theorem redis_command_delivered_witness:
  "\<exists>s'. redis_recv_packet sample_redis (sample_conn (map Seg [ascii ''*1'' @ CRLF @ ascii ''$4'', CRLF @ ascii ''PI'', ascii ''NG'' @ CRLF])) = Some (0, s') \<and>
    rc_world s' = [encode_command [Bulk (ascii ''PING'')]] \<and> redis_idle sample_redis s'"
proof -
  let ?cs = "[ascii ''*1'' @ CRLF @ ascii ''$4'', CRLF @ ascii ''PI'', ascii ''NG'' @ CRLF]"
  have c: "concat ?cs = encode_command (map Bulk [ascii ''PING''])" by (simp add: encode_command_def ascii_def CRLF_def dec.simps)
  have l: "length (concat ?cs) = 14" by (simp add: ascii_def CRLF_def)
  have "no_line_end (concat (take k ?cs))" if "0 < k \<and> k < length ?cs" for k
  proof -
    have "k = 1 \<or> k = 2" using that by auto
    then show ?thesis by (auto simp: no_line_end_def ascii_def CRLF_def)
  qed
  then show ?thesis
    using redis_command_delivered [OF sample_redis_idle, of "[ascii ''PING'']" "map Seg ?cs @ []" ?cs "[]" 0 "[concat ?cs]"] c l
    by (auto simp: sample_redis_def sample_conn_def ascii_def CRLF_def)
qed

lemma redis_loop_single:
  assumes "redis_idle e s" "rc_events s = Seg (t @ CRLF) # es" "length (t @ CRLF) \<le> st_size (rc_buffer s)"
  obtains b where "redis_loop e redis_request_zero s = redis_scan e 0 redis_request_zero (s\<lparr>rc_events := es, rc_buffer := b\<rparr>)"
    "string_inv b" "string_value b = t @ CRLF" "st_length b = length (t @ CRLF)"
proof -
  have b: "string_inv (rc_buffer s)" "string_value (rc_buffer s) = []" "st_length (rc_buffer s) = 0" using assms(1) by (simp_all add: redis_idle_def string_value_def)
  obtain b where b': "redis_recv e redis_request_zero s = map_option (\<lambda>(ret, r1, s2). (Some ret, r1, s2)) (redis_scan e 0 redis_request_zero (s\<lparr>rc_events := es, rc_buffer := b\<rparr>))"
      "string_inv b" "string_value b = t @ CRLF" "st_length b = length (t @ CRLF)"
    by (rule redis_recv_last [OF b(1) assms(2)]) (use b assms(3) in \<open>auto simp: CRLF_def\<close>)
  have "redis_loop e redis_request_zero s = redis_scan e 0 redis_request_zero (s\<lparr>rc_events := es, rc_buffer := b\<rparr>)"
    using b'(1) by (subst redis_loop.simps) (cases "redis_scan e 0 redis_request_zero (s\<lparr>rc_events := es, rc_buffer := b\<rparr>)", auto)
  then show ?thesis using that b'(2-4) by blast
qed

lemma redis_scan_count:
  assumes "string_value b = ascii ''*'' @ dec n @ CRLF @ t" "n < 2 ^ 31" "st_length b = length (string_value b)" "rc_buffer s = b"
  shows "redis_scan e 0 redis_request_zero s =
    (let q = length (dec n) + 3; r = redis_request_zero\<lparr>rr_n_lines_total := int n, rr_state := Receive_length\<rparr>
     in if t = [] then Some (- 1, r, s) else redis_scan e q r s)"
proof -
  have "st_mem b = string_value b @ drop (st_length b) (st_mem b)" by (simp add: string_value_def)
  then obtain rest where m: "st_mem b = [] @ 42 # dec n @ CRLF @ rest" using assms(1) by (simp add: ascii_def)
  have "mem_at (st_mem b) 0 = Some 42" "get_number (st_mem b) 0 = Some (Some (int n, length (dec n) + 3))"
    using get_number_dec [OF assms(2), of "[]" 42 rest] mem_at_append [of "[]" 42] m by simp_all
  then have "redis_case e 0 redis_request_zero s = Some (R_at (length (dec n) + 3), redis_request_zero\<lparr>rr_n_lines_total := int n, rr_state := Receive_length\<rparr>, s)"
    using assms(4) by (simp add: redis_case_def redis_request_zero_def)
  moreover have "st_length b = length (dec n) + 3 + length t" using assms(1,3) by (simp add: ascii_def CRLF_def)
  ultimately show ?thesis using assms(4) by (subst redis_scan.simps) (simp add: Let_def)
qed

lemma dec_one: "dec 1 = [49]"
  by (simp add: dec.simps)

text \<open>
  C33. A command that is split behind a line is refused: when the line with the number of arguments arrives alone the parser has consumed all bytes, leaves
  its loop and reports a protocol error, so the connection is closed although the rest of the command follows.
\<close>

theorem redis_split_refused:
  assumes "redis_idle e s" "n < 2 ^ 31" "rc_events s = Seg (ascii ''*'' @ dec n @ CRLF) # es" "length (dec n) + 3 \<le> st_size (rc_buffer s)"
  shows "\<exists>s'. redis_recv_packet e s = Some (- 1, s') \<and> rc_world s' = rc_world s \<and> rc_events s' = es"
proof -
  obtain b where b: "redis_loop e redis_request_zero s = redis_scan e 0 redis_request_zero (s\<lparr>rc_events := es, rc_buffer := b\<rparr>)"
      "string_inv b" "string_value b = (ascii ''*'' @ dec n) @ CRLF" "st_length b = length ((ascii ''*'' @ dec n) @ CRLF)"
    by (rule redis_loop_single [OF assms(1), of "ascii ''*'' @ dec n" es]) (use assms(3,4) in \<open>auto simp: ascii_def CRLF_def\<close>)
  show ?thesis unfolding redis_recv_idle [OF assms(1)] b(1)
    using redis_scan_count [of b n "[]" "s\<lparr>rc_events := es, rc_buffer := b\<rparr>" e] b(3,4) assms(2) by (simp add: Let_def)
qed

theorem redis_split_refused_witness:
  "\<exists>s'. redis_recv_packet sample_redis (sample_conn [Seg (ascii ''*'' @ dec 1 @ CRLF), Seg (encode_value (Bulk (ascii ''PING'')))]) = Some (- 1, s') \<and> rc_world s' = []"
proof -
  let ?s = "sample_conn [Seg (ascii ''*'' @ dec 1 @ CRLF), Seg (encode_value (Bulk (ascii ''PING'')))]"
  have "rc_events ?s = Seg (ascii ''*'' @ dec 1 @ CRLF) # [Seg (encode_value (Bulk (ascii ''PING'')))]" "length (dec 1) + 3 \<le> st_size (rc_buffer ?s)" "rc_world ?s = []"
    unfolding sample_conn_def dec_one by simp_all
  then show ?thesis using redis_split_refused [OF sample_redis_idle(2), of 1] by fastforce
qed

text \<open>
  C32. A length that is no number crashes the server: when the text behind the dollar sign does not start like a number the pointer becomes null, and the test
  for an integer, which comes before the test for null, reads through it.
\<close>

theorem redis_null_pointer:
  assumes "redis_idle e s" "n < 2 ^ 31" "rc_events s = Seg (ascii ''*'' @ dec n @ CRLF @ ascii ''$'' @ c # t @ CRLF) # es"
    and "length (dec n) + length t + 7 \<le> st_size (rc_buffer s)" "\<not> isspace c" "\<not> isdigit c" "c \<noteq> 43" "c \<noteq> 45"
  shows "redis_recv_packet e s = None"
proof -
  let ?t = "ascii ''*'' @ dec n @ CRLF @ ascii ''$'' @ c # t"
  obtain b where b: "redis_loop e redis_request_zero s = redis_scan e 0 redis_request_zero (s\<lparr>rc_events := es, rc_buffer := b\<rparr>)"
      "string_inv b" "string_value b = ?t @ CRLF" "st_length b = length (?t @ CRLF)"
    by (rule redis_loop_single [OF assms(1), of ?t es]) (use assms(3,4) in \<open>auto simp: ascii_def CRLF_def\<close>)
  let ?s = "s\<lparr>rc_events := es, rc_buffer := b\<rparr>" and ?r = "redis_request_zero\<lparr>rr_n_lines_total := int n, rr_state := Receive_length\<rparr>" and ?pre = "ascii ''*'' @ dec n @ CRLF"
  have l: "length ?pre = length (dec n) + 3" by (simp add: ascii_def CRLF_def)
  have 1: "redis_scan e 0 redis_request_zero ?s = redis_scan e (length ?pre) ?r ?s"
    unfolding l using redis_scan_count [of b n "ascii ''$'' @ c # t @ CRLF" ?s e] b(3,4) assms(2) by (simp add: Let_def ascii_def)
  have "st_mem b = string_value b @ drop (st_length b) (st_mem b)" by (simp add: string_value_def)
  then obtain d rest where m: "st_mem b = ?pre @ 36 # c # d # rest" using b(3) by (cases t) (auto simp: ascii_def CRLF_def)
  have k: "mem_at (st_mem b) (length ?pre) = Some 36" "mem_at (st_mem b) (length ?pre + 1) = Some c" 
    using mem_at_append [of ?pre 36 "c # d # rest"] mem_at_append [of "?pre @ [36]" c "d # rest"] m by simp_all
  have "skip_isspace (st_mem b) (length ?pre + 1) = Some (length ?pre + 1)" using skip_isspace_at [OF assms(5), of "?pre @ [36]" "d # rest"] unfolding m by simp
  moreover have "digits_loop (st_mem b) (length ?pre + 1) 0 = Some (0, length ?pre + 1)" using digits_loop_digits [of "[]" c "?pre @ [36]" "d # rest" 0] assms(6) unfolding m by simp
  ultimately have "strtol (st_mem b) (length ?pre + 1) = Some (0, length ?pre + 1)" using k(2) assms(7,8) by (simp add: strtol_def Let_def)
  moreover have "c \<noteq> 13" using assms(5) by (auto simp: isspace_def)
  ultimately have "get_number (st_mem b) (length ?pre) = Some None" using k(2) by (simp add: get_number_def)
  then have "redis_case e (length ?pre) ?r ?s = None" using k(1) by (simp add: redis_case_def redis_length_def Let_def)
  then have "redis_scan e (length ?pre) ?r ?s = None" by (subst redis_scan.simps) simp
  then show ?thesis unfolding redis_recv_idle [OF assms(1)] b(1) 1 by simp
qed

theorem redis_null_pointer_witness:
  "redis_recv_packet sample_redis (sample_conn [Seg (ascii ''*'' @ dec 1 @ CRLF @ ascii ''$'' @ 120 # ascii ''y'' @ CRLF)]) = None"
proof -
  let ?s = "sample_conn [Seg (ascii ''*'' @ dec 1 @ CRLF @ ascii ''$'' @ 120 # ascii ''y'' @ CRLF)]"
  have s: "rc_events ?s = Seg (ascii ''*'' @ dec 1 @ CRLF @ ascii ''$'' @ 120 # ascii ''y'' @ CRLF) # []" "length (dec 1) + length (ascii ''y'') + 7 \<le> st_size (rc_buffer ?s)"
    unfolding sample_conn_def dec_one ascii_def by simp_all
  have c: "\<not> isspace 120" "\<not> isdigit 120" "(120 :: u8) \<noteq> 43" "(120 :: u8) \<noteq> 45" by code_simp+
  show ?thesis by (rule redis_null_pointer [OF sample_redis_idle(2) _ s c]) simp
qed

end
