(* ===== verification/Spec2Isabelle.thy ===== *)
theory Spec2Isabelle
  imports Osw_Timer Osw_Channel Osw_Table Osw_Frames Osw_Websocket Osw_Eof_Protocol Osw_Base64 Osw_Co_Channel Osw_Http_Port Osw_Http_Chunked Osw_Lru_Cache Osw_Reactor_Write Osw_Ring_Buffer Osw_Global_Memory Osw_Redis
begin

text \<open>
  Verification of the core of OpenSwoole, an event-driven server in C++ with bindings for PHP. The theories model the data structures of the core, the
  protocols that turn the bytes of a connection into packages, the coroutine scheduler, and the way output leaves the server. Source files are named
  by their paths in the repository of the extension.

  \<^bold>\<open>How the parts work together.\<close> The event loop waits for sockets and for the earliest timer. Timers are kept in a heap with handles. When a socket is
  readable the reader of its port receives into a growing string and cuts the stream into packages by a length field, by a delimiter, or by the rules of
  HTTP, WebSocket, MQTT, HTTP/2 or Redis; packages go to workers through channels in shared memory. Output that the kernel does not take is queued in chunks
  and leaves when the socket is writable. Coroutines that wait on a coroutine channel are resumed by the other side, by a timer or by a cancellation. Tables in shared
  memory are hash tables whose colliding rows come from a pool of slices; the global memory serves allocations that live as long as the process.

  \<^bold>\<open>Conventions.\<close> Structures are records whose fields keep their names behind a prefix. What the environment decides, such as the success of an allocation,
  the contents of fresh memory, the bytes and errors of a socket, the answers of callbacks and the clock, is an argument of the operations, and the theorems hold for all
  of its values unless they say otherwise. Where the result is an option \<open>None\<close> is a fault: an access outside of an object, a failed assertion,
  a thrown \<^verbatim>\<open>bad_alloc\<close>, or a loop that does not end; the theories say which. An operation that is shown to yield \<open>Some\<close> has none of them. Widths of
  integers are kept where they matter, as words or by reduction modulo a power of two.

  \<^bold>\<open>Foundations.\<close>
  \<^item> \<open>Osw_Prelude\<close>: types, alignment (the macros of \<^verbatim>\<open>include/openswoole.h\<close>), 32-bit wrapping, arrays that are reallocated.
  \<^item> \<open>Osw_Bytes\<close>: reading and writing ranges of memory with explicit bounds, integers as bytes.
  \<^item> \<open>Osw_Endian\<close>: byte order and \<^verbatim>\<open>openswoole_unpack\<close> of \<^verbatim>\<open>src/core/base.cc\<close>.
  \<^item> \<open>Osw_Hash\<close>: the hash of PHP strings and CRC-32, shown equal to the plain fold and to bitwise division.
  \<^item> \<open>Osw_Base64\<close>: \<^verbatim>\<open>src/protocol/base64.cc\<close>, equal to the standard encoding, and its inverse.
  \<^item> \<open>Osw_String\<close>: the growing byte buffer of \<^verbatim>\<open>src/core/string.cc\<close>, with searching and splitting.

  \<^bold>\<open>Data structures.\<close>
  \<^item> \<open>Osw_Heap\<close>: the binary heap of \<^verbatim>\<open>src/core/heap.cc\<close>, with its array and its nodes as objects. The locale \<open>indexed_heap\<close> is the contract of a heap with
    handles, proved over the comparison that the locale \<open>strict_weak\<close> describes; \<open>hc\<close> and \<open>hp\<close> interpret them. Insertion, removal and change of a priority refine the map from
    handles to entries, and draining yields the entries in order.
  \<^item> \<open>Osw_Timer\<close>: \<^verbatim>\<open>src/core/timer.cc\<close> over the heap. \<open>select\<close> returns whatever the callbacks do, fires the timers that are due in order, and leaves the right
    timeout behind.
  \<^item> \<open>Osw_Fixed_Pool\<close>: \<^verbatim>\<open>src/memory/fixed_pool.cc\<close>; the locale \<open>slice_pool\<close> with its interpretation \<open>fp\<close> is what the table relies on.
  \<^item> \<open>Osw_Table\<close>: \<^verbatim>\<open>src/memory/table.cc\<close>. Setting and deleting rows refine a finite map, reading agrees with it, the iteration visits each row once.
  \<^item> \<open>Osw_Channel\<close>: the ring of messages in \<^verbatim>\<open>src/core/channel.cc\<close>; it refines a bounded queue (locale \<open>bounded_fifo\<close>, interpretation \<open>cq\<close>).
  \<^item> \<open>Osw_Memory_Pool\<close>: the interface of the pools as the locale \<open>memory_pool\<close>, whose client lemma is that blocks allocated one after the other do not overlap.
    \<open>Osw_Ring_Buffer\<close> (\<^verbatim>\<open>src/memory/ring_buffer.cc\<close>, interpretation \<open>rp\<close>) and \<open>Osw_Global_Memory\<close> (\<^verbatim>\<open>src/memory/global_memory.cc\<close>, interpretation \<open>gp\<close>) provide it;
    blocks of the ring lie in the ring, but the ring is longer than its memory; blocks of the global memory are cleared and survive a fork.
  \<^item> \<open>Osw_Lru_Cache\<close>: \<^verbatim>\<open>include/openswoole_lru_cache.h\<close> refines the list of entries by last use.

  \<^bold>\<open>Protocols.\<close>
  \<^item> \<open>Osw_Length_Protocol\<close>: the receive loop of \<^verbatim>\<open>src/protocol/base.cc\<close> for packages with a length. The locale \<open>length_function\<close> says what the loop needs of the function that
    reads the length; \<open>port\<close> interprets it for the length field of a port. Every stream is cut into exactly its packages, for every segmentation and inside of the buffer; a package of
    length 0 overflows the buffer.
  \<^item> \<open>Osw_Frames\<close>: the length functions of MQTT and HTTP/2, interpretations \<open>mqtt\<close> and \<open>http2\<close>.
  \<^item> \<open>Osw_Eof_Protocol\<close>: the receive loop for packages that end in a delimiter.
  \<^item> \<open>Osw_Websocket\<close>: \<^verbatim>\<open>src/protocol/websocket.cc\<close>: encoding and decoding of frames, masking, the assembly of fragments.
  \<^item> \<open>Osw_Http\<close>, \<open>Osw_Http_Chunked\<close>, \<open>Osw_Http_Port\<close>: requests, chunked bodies, URL coding and the reader of a port (\<^verbatim>\<open>src/protocol/http.cc\<close>, \<^verbatim>\<open>src/server/port.cc\<close>).
    A stream of requests without bodies is dispatched request by request in any segmentation.
  \<^item> \<open>Osw_Redis\<close>: \<^verbatim>\<open>src/protocol/redis.cc\<close>: commands are received whole, split and formatted; and the two ways in which a client can break it.

  \<^bold>\<open>Output and coroutines.\<close>
  \<^item> \<open>Osw_Buffer\<close>, \<open>Osw_Reactor_Write\<close>: the queue of chunks (\<^verbatim>\<open>src/memory/buffer.cc\<close>) and the writing of \<^verbatim>\<open>src/reactor/base.cc\<close> and \<^verbatim>\<open>src/network/socket.cc\<close>. What was sent
    followed by what is queued is what was accepted; a vector that is sent in part is queued whole.
  \<^item> \<open>Osw_Coroutine\<close>: the scheduler of \<^verbatim>\<open>src/coroutine/base.cc\<close>. The running coroutines form a stack (locale \<open>coroutine_stack\<close>, interpretation \<open>co\<close>).
  \<^item> \<open>Osw_Co_Channel\<close>: the coroutine channel, cut at each switch and interleaved with all other operations: no fault, first in first out, no lost wake-up.

  \<^bold>\<open>Termination and bounds.\<close> There is no fuel. Loops whose measure is evident are functions with a termination proof. The others are partial functions, and the
  theorems about them show that they return a value: \<open>select\<close> because a timer that is added during a round is not due in it, the receive loops
  because each round consumes bytes of the stream or ends, the chains of the table by their invariant. The loop over the chunks of a body does not return for one kind
  of input, which is a theorem of its own. Bounds on lengths in the hypotheses are those below which the 32-bit arithmetic of the code does not wrap;
  the theorems about wrapping show what happens beyond.

  \<^bold>\<open>Not modelled.\<close> System calls and the loops around them (the reactors, signals, files, threads, processes, shared memory, DNS), since their behaviour is that of the
  kernel; TLS and the proxies, which call OpenSSL or exchange messages with a third party; the machine contexts of coroutines and their sockets and hooks; locks,
  which the models take as held for an operation; the static files of the HTTP server, which depend on the file system, and the table of media types they use; the supervision and dispatch of the server processes;
  logging; the bindings for PHP, which convert values of an engine that is not part of the sources; bundled libraries.
\<close>

end
